(* ===== verification/Prelude.thy ===== *)
theory Prelude
  imports Main "HOL-Library.Word"
begin

text \<open>
  Shared vocabulary of the development: the bit syntax, the collections of rewrite rules that
  the component theories fill, the generic lemmas on lists that several components use, and the
  two JavaScript integer operators (\<open>>>>\<close> and \<open>& (2^k - 1)\<close>) that the storage code applies to
  array positions.

  A typed array (\<open>Uint32Array\<close>, \<open>Int32Array\<close>, \<open>BigInt64Array\<close>) is a HOL list. A write past
  its end is ignored by JavaScript, as \<open>xs[i := v]\<close> ignores it; a read past its end yields
  \<open>undefined\<close>, which each operation below spells out where it can happen.
\<close>

unbundle bit_operations_syntax

text \<open>The rules that unfold the model's small definitions, for closed evaluation.\<close>

named_theorems qe_defs

text \<open>Facts that every operation of a component keeps (invariant preservation).\<close>

named_theorems qe_inv

section \<open>JavaScript integer operators on array positions\<close>

text \<open>\<open>x >>> k\<close> on a non-negative number: the number is taken modulo \<open>2^32\<close> first.\<close>

definition ushr :: "nat \<Rightarrow> nat \<Rightarrow> nat" where
  "ushr x k = (x mod 2 ^ 32) div 2 ^ k"

lemma ushr_small [simp]: "x < 2 ^ 32 \<Longrightarrow> ushr x k = x div 2 ^ k"
  by (simp add: ushr_def)

text \<open>\<open>x & (2^k - 1)\<close> for \<open>k <= 32\<close> on a non-negative number.\<close>

definition low_bits :: "nat \<Rightarrow> nat \<Rightarrow> nat" where
  "low_bits x k = x mod 2 ^ k"

section \<open>Errors as values\<close>

text \<open>Sequencing of computations that may throw: \<open>Inl\<close> is the exception.\<close>

fun bindE :: "'e + 'a \<Rightarrow> ('a \<Rightarrow> 'e + 'b) \<Rightarrow> 'e + 'b" where
  "bindE (Inl e) f = Inl e"
| "bindE (Inr x) f = f x"

lemma bindE_Inr_iff: "bindE m f = Inr y \<longleftrightarrow> (\<exists>x. m = Inr x \<and> f x = Inr y)"
  by (cases m) auto

lemma bindE_assoc: "bindE (bindE m f) g = bindE m (\<lambda>x. bindE (f x) g)"
  by (cases m) auto

section \<open>Lists used as arrays\<close>

text \<open>Reading a typed array inside a bitwise operation: \<open>undefined\<close> counts as 0.\<close>

definition word_at :: "'a::len word list \<Rightarrow> nat \<Rightarrow> 'a word" where
  "word_at ws i = (if i < length ws then ws ! i else 0)"

lemma word_at_in [simp]: "i < length ws \<Longrightarrow> word_at ws i = ws ! i"
  by (simp add: word_at_def)

lemma word_at_out [simp]: "length ws \<le> i \<Longrightarrow> word_at ws i = 0"
  by (simp add: word_at_def)

lemma word_at_update:
  "word_at (ws[i := v]) j = (if i = j \<and> i < length ws then v else word_at ws j)"
  by (auto simp: word_at_def)

text \<open>\<open>TypedArray.prototype.fill(v, s, e)\<close>: both ends are clamped to the length.\<close>

definition fill_range :: "'a list \<Rightarrow> 'a \<Rightarrow> nat \<Rightarrow> nat \<Rightarrow> 'a list" where
  "fill_range xs v s e = map (\<lambda>i. if s \<le> i \<and> i < e then v else xs ! i) [0..<length xs]"

lemma length_fill_range [simp]: "length (fill_range xs v s e) = length xs"
  by (simp add: fill_range_def)

lemma nth_fill_range [simp]:
  "i < length xs \<Longrightarrow> fill_range xs v s e ! i = (if s \<le> i \<and> i < e then v else xs ! i)"
  by (simp add: fill_range_def)

text \<open>An invariant of a \<open>for\<close> loop: it holds before the first index and each body keeps it.\<close>

lemma fold_upt_invariant:
  assumes start: "P a s" and le: "a \<le> b"
    and body: "\<And>i s. a \<le> i \<Longrightarrow> i < b \<Longrightarrow> P i s \<Longrightarrow> P (Suc i) (f i s)"
  shows "P b (fold f [a..<b] s)"
  using le body
proof (induction b rule: dec_induct)
  case base
  then show ?case using start by simp
next
  case (step n)
  then have "P n (fold f [a..<n] s)" by simp
  with step show ?case by simp
qed

lemma fold_length:
  assumes "\<And>x s. length (f x s) = length s"
  shows "length (fold f xs s) = length s"
  using assms by (induction xs arbitrary: s) simp_all

lemma bit_two_power_word [simp]: "bit (2 ^ k :: 'a::len word) m \<longleftrightarrow> k = m \<and> m < LENGTH('a)"
  by (auto simp: bit_exp_iff dest: bit_imp_le_length)

lemma unat_of_nat_small: "n < 2 ^ LENGTH('a) \<Longrightarrow> unat (of_nat n :: 'a::len word) = n"
  by (simp add: unsigned_of_nat take_bit_nat_eq_self)

lemma nat_mod_div_split: "(i::nat) = 32 * (i div 32) + i mod 32"
  by simp

lemma obtain_word_position:
  obtains q r :: nat where "i = 32 * q + r" "r < 32"
  using nat_mod_div_split [of i] by (meson mod_less_divisor zero_less_numeral)

lemma word_position_in:
  assumes "(b::nat) mod 32 + k < 32"
  shows "(b + k) div 32 = b div 32" "(b + k) mod 32 = b mod 32 + k"
proof -
  obtain q r where b: "b = 32 * q + r" "r < 32" by (rule obtain_word_position)
  then have "r + k < 32" using assms by simp
  then show "(b + k) div 32 = b div 32" "(b + k) mod 32 = b mod 32 + k"
    using b by (simp_all add: add.assoc)
qed

lemma word_position_next:
  assumes "k < 32" "32 \<le> (b::nat) mod 32 + k"
  shows "(b + k) div 32 = b div 32 + 1" "(b + k) mod 32 = k - (32 - b mod 32)"
proof -
  obtain q r where b: "b = 32 * q + r" "r < 32" by (rule obtain_word_position)
  then have "32 \<le> r + k" using assms by simp
  then obtain m where m: "r + k = 32 + m" using le_Suc_ex by blast
  then have eq: "b + k = 32 * (q + 1) + m" and lt: "m < 32" using b assms by simp_all
  have "(b + k) div 32 = q + 1" unfolding eq using lt by simp
  moreover have "(b + k) mod 32 = m" unfolding eq mod_mult_self4 using lt by simp
  moreover have "k - (32 - r) = m" using m b by linarith
  moreover have "b div 32 = q" "b mod 32 = r" using b by simp_all
  ultimately show "(b + k) div 32 = b div 32 + 1" "(b + k) mod 32 = k - (32 - b mod 32)"
    by simp_all
qed

end
