(* ===== verification/Bitmap.thy ===== *)
theory Bitmap
  imports Prelude
begin

text \<open>
  \<open>src/utils/bitmap.ts\<close>: null bitmaps as \<open>Uint32Array\<close>, one bit per row.
  A bitmap is a list of 32-bit words; \<open>testBit\<close> is the abstraction every lemma speaks about.
\<close>

definition bitmapWordCount :: "nat \<Rightarrow> nat" where
  "bitmapWordCount n = (n + 31) div 32"

definition createBitmap :: "nat \<Rightarrow> 32 word list" where
  "createBitmap n = replicate (bitmapWordCount n) 0"

definition setBit :: "32 word list \<Rightarrow> nat \<Rightarrow> 32 word list" where
  "setBit b i = b[ushr i 5 := word_at b (ushr i 5) OR push_bit (low_bits i 5) 1]"

definition clearBit :: "32 word list \<Rightarrow> nat \<Rightarrow> 32 word list" where
  "clearBit b i = b[ushr i 5 := word_at b (ushr i 5) AND NOT (push_bit (low_bits i 5) 1)]"

definition testBit :: "32 word list \<Rightarrow> nat \<Rightarrow> bool" where
  "testBit b i \<longleftrightarrow> word_at b (ushr i 5) AND push_bit (low_bits i 5) 1 \<noteq> 0"

definition setBitRange :: "32 word list \<Rightarrow> nat \<Rightarrow> nat \<Rightarrow> 32 word list" where
  "setBitRange b start stop = fold (\<lambda>i b. setBit b i) [start..<stop] b"

definition andBitmaps :: "32 word list \<Rightarrow> 32 word list \<Rightarrow> nat \<Rightarrow> 32 word list" where
  "andBitmaps a b n = map (\<lambda>i. word_at a i AND word_at b i) [0..<bitmapWordCount n]"

definition orBitmaps :: "32 word list \<Rightarrow> 32 word list \<Rightarrow> nat \<Rightarrow> 32 word list" where
  "orBitmaps a b n = map (\<lambda>i. word_at a i OR word_at b i) [0..<bitmapWordCount n]"

definition notBitmap :: "32 word list \<Rightarrow> nat \<Rightarrow> 32 word list" where
  "notBitmap b n =
     (let words = bitmapWordCount n;
          result = map (\<lambda>i. NOT (word_at b i)) [0..<words];
          tailBits = low_bits n 5
      in if tailBits > 0
         then result[words - 1 := word_at result (words - 1) AND (push_bit tailBits 1 - 1)]
         else result)"

text \<open>The byte popcount table, filled by the module's initialisation loop.\<close>

definition popcountTable :: "nat list" where
  "popcountTable = fold (\<lambda>i t. t[i := t ! (i div 2) + i mod 2]) [0..<256] (replicate 256 0)"

definition popcountWord :: "32 word \<Rightarrow> nat" where
  "popcountWord v =
     popcountTable ! unat (v AND 255)
     + popcountTable ! unat (drop_bit 8 v AND 255)
     + popcountTable ! unat (drop_bit 16 v AND 255)
     + popcountTable ! unat (drop_bit 24 v AND 255)"

definition popcount :: "32 word list \<Rightarrow> nat \<Rightarrow> nat" where
  "popcount b n = fold (\<lambda>i count. count + popcountWord (word_at b i)) [0..<bitmapWordCount n] 0"

definition countSetBits :: "32 word list \<Rightarrow> nat \<Rightarrow> nat" where
  "countSetBits b n = popcount b n"

lemmas bitmap_defs [qe_defs] =
  bitmapWordCount_def createBitmap_def setBit_def clearBit_def testBit_def
  setBitRange_def andBitmaps_def orBitmaps_def notBitmap_def

section \<open>Single bits\<close>

lemma testBit_bit: "i < 2 ^ 32 \<Longrightarrow> testBit b i = bit (word_at b (i div 32)) (i mod 32)"
proof -
  have "(w AND push_bit k 1 \<noteq> 0) = bit w k" if "k < 32" for w :: "32 word" and k
    by (simp add: and_exp_eq_0_iff_not_bit push_bit_of_1)
  then show "i < 2 ^ 32 \<Longrightarrow> testBit b i = bit (word_at b (i div 32)) (i mod 32)"
    by (simp add: testBit_def low_bits_def)
qed

lemma length_setBit [simp]: "length (setBit b i) = length b"
  by (simp add: setBit_def)

lemma length_clearBit [simp]: "length (clearBit b i) = length b"
  by (simp add: clearBit_def)

lemma testBit_setBit:
  assumes "i < 2 ^ 32" "j < 2 ^ 32" "i < 32 * length b"
  shows "testBit (setBit b i) j \<longleftrightarrow> i = j \<or> testBit b j"
proof (cases "i div 32 = j div 32")
  case True
  then have "i mod 32 = j mod 32 \<longleftrightarrow> i = j" by (metis nat_mod_div_split)
  with True assms show ?thesis
    by (auto simp: testBit_bit setBit_def low_bits_def word_at_update bit_or_iff
        bit_push_bit_iff bit_1_iff)
next
  case False
  then have "i \<noteq> j" by auto
  with False assms show ?thesis
    by (simp add: testBit_bit setBit_def low_bits_def word_at_update)
qed

lemma testBit_clearBit:
  assumes "i < 2 ^ 32" "j < 2 ^ 32"
  shows "testBit (clearBit b i) j \<longleftrightarrow> i \<noteq> j \<and> testBit b j"
proof (cases "i div 32 = j div 32")
  case True
  then have "i mod 32 = j mod 32 \<longleftrightarrow> i = j" by (metis nat_mod_div_split)
  with True assms show ?thesis
    by (auto simp: testBit_bit clearBit_def low_bits_def word_at_update bit_and_iff
        bit_not_iff bit_push_bit_iff bit_1_iff word_at_def)
next
  case False
  then have "i \<noteq> j" by auto
  with False assms show ?thesis
    by (simp add: testBit_bit clearBit_def low_bits_def word_at_update)
qed

section \<open>Whole-bitmap operations\<close>

lemma testBit_setBitRange:
  assumes "b \<le> 2 ^ 32" "b \<le> 32 * length bm" "j < 2 ^ 32"
  shows "testBit (setBitRange bm a b) j \<longleftrightarrow> a \<le> j \<and> j < b \<or> testBit bm j"
proof (cases "a \<le> b")
  case True
  let ?P = "\<lambda>n s. length s = length bm \<and> (testBit s j \<longleftrightarrow> a \<le> j \<and> j < n \<or> testBit bm j)"
  have "?P b (fold (\<lambda>i b. setBit b i) [a..<b] bm)"
    by (rule fold_upt_invariant [OF _ True]) (use assms in \<open>auto simp: testBit_setBit\<close>)
  then show ?thesis by (simp add: setBitRange_def)
next
  case False
  then show ?thesis by (auto simp: setBitRange_def)
qed

lemma testBit_out: "32 * length b \<le> i \<Longrightarrow> i < 2 ^ 32 \<Longrightarrow> \<not> testBit b i"
proof -
  assume i: "32 * length b \<le> i" "i < 2 ^ 32"
  then have "length b \<le> i div 32" by linarith
  then show ?thesis using i(2) by (simp add: testBit_bit)
qed

lemma testBit_createBitmap: "i < 2 ^ 32 \<Longrightarrow> \<not> testBit (createBitmap n) i"
  by (simp add: testBit_bit word_at_def createBitmap_def)

lemma wordCount_covers: "i < n \<Longrightarrow> i div 32 < bitmapWordCount n"
  by (simp add: bitmapWordCount_def)

lemma testBit_andBitmaps:
  "i < n \<Longrightarrow> i < 2 ^ 32 \<Longrightarrow> testBit (andBitmaps a b n) i \<longleftrightarrow> testBit a i \<and> testBit b i"
  by (simp add: testBit_bit andBitmaps_def word_at_def [of "map _ _"] wordCount_covers bit_and_iff)

lemma testBit_orBitmaps:
  "i < n \<Longrightarrow> i < 2 ^ 32 \<Longrightarrow> testBit (orBitmaps a b n) i \<longleftrightarrow> testBit a i \<or> testBit b i"
  by (simp add: testBit_bit orBitmaps_def word_at_def [of "map _ _"] wordCount_covers bit_or_iff)

lemma bit_low_mask: "k < 32 \<Longrightarrow> bit (push_bit k 1 - 1 :: 32 word) m \<longleftrightarrow> m < k"
  by (auto simp: push_bit_of_1 bit_mask_iff mask_eq_exp_minus_1 [symmetric])

text \<open>
  The complement is exact on every row, and its tail word is cleaned: no bit at or past the
  length is set, which is what lets \<open>popcount\<close> count whole words.
\<close>

lemma testBit_notBitmap:
  assumes "i < 2 ^ 32"
  shows "testBit (notBitmap b n) i \<longleftrightarrow> i < n \<and> \<not> testBit b i"
proof -
  let ?W = "bitmapWordCount n"
  let ?r = "map (\<lambda>i. NOT (word_at b i)) [0..<?W]"
  have at: "word_at ?r k = (if k < ?W then NOT (word_at b k) else 0)" for k
    by (simp add: word_at_def)
  have lt: "i mod 32 < 32" by simp
  consider (out) "?W \<le> i div 32" | (tail) "i div 32 = ?W - 1" "i div 32 < ?W"
    | (mid) "i div 32 < ?W - 1" by linarith
  then show ?thesis
  proof cases
    case out
    then have "n \<le> i" unfolding bitmapWordCount_def by linarith
    with out assms show ?thesis
      by (simp add: notBitmap_def Let_def testBit_bit word_at_update at)
  next
    case tail
    have n: "i < n \<longleftrightarrow> n mod 32 = 0 \<or> i mod 32 < n mod 32"
    proof -
      obtain q r where n: "n = 32 * q + r" "r < 32"
        by (rule obtain_word_position)
      obtain p t where i: "i = 32 * p + t" "t < 32"
        by (rule obtain_word_position)
      have W: "?W = (if r = 0 then q else Suc q)"
        using n unfolding bitmapWordCount_def by auto
      show ?thesis using tail n i W by (cases "r = 0") auto
    qed
    have word: "word_at (notBitmap b n) (i div 32) =
        (if n mod 32 > 0 then NOT (word_at b (i div 32)) AND (push_bit (n mod 32) 1 - 1)
         else NOT (word_at b (i div 32)))"
      unfolding notBitmap_def Let_def low_bits_def using tail
      by (simp add: word_at_update at)
    show ?thesis
      unfolding testBit_bit [OF assms] word n using lt
      by (cases "n mod 32 > 0") (simp_all only: if_True if_False bit_and_iff bit_not_iff
          bit_low_mask [OF mod_less_divisor] zero_less_numeral, auto)
  next
    case mid
    then have "i < n" unfolding bitmapWordCount_def by linarith
    have less: "i div 32 < ?W" "i div 32 \<noteq> ?W - 1" using mid by linarith+
    have word: "word_at (notBitmap b n) (i div 32) = NOT (word_at b (i div 32))"
      unfolding notBitmap_def Let_def low_bits_def using less
      by (simp add: word_at_update at)
    show ?thesis
      unfolding testBit_bit [OF assms] word using \<open>i < n\<close> lt by (simp add: bit_not_iff)
  qed
qed

section \<open>Population count\<close>

text \<open>The reference: the number of one digits of a natural number.\<close>

fun ones :: "nat \<Rightarrow> nat" where
  "ones n = (if n = 0 then 0 else n mod 2 + ones (n div 2))"

declare ones.simps [simp del]

lemma ones_0 [simp]: "ones 0 = 0"
  by (subst ones.simps) simp

lemma ones_rec: "ones n = n mod 2 + ones (n div 2)"
  by (cases "n = 0") (simp_all add: ones.simps [of n])

lemma popcountTable_ones:
  "length popcountTable = 256 \<and> (\<forall>j<256. popcountTable ! j = ones j)"
proof -
  let ?P = "\<lambda>k t. length t = 256 \<and> (\<forall>j<k. t ! j = ones j) \<and> (\<forall>j. k \<le> j \<longrightarrow> j < 256 \<longrightarrow> t ! j = 0)"
  have "?P 256 popcountTable"
    unfolding popcountTable_def
  proof (rule fold_upt_invariant [where P = ?P])
    fix i :: nat and t :: "nat list"
    assume i: "0 \<le> i" "i < 256" and P: "?P i t"
    have "t ! (i div 2) + i mod 2 = ones i"
    proof (cases "i = 0")
      case False
      then have "t ! (i div 2) = ones (i div 2)" using P by simp
      then show ?thesis using ones_rec [of i] by simp
    qed (use P in simp)
    then show "?P (Suc i) (t[i := t ! (i div 2) + i mod 2])"
      using P i by (auto simp: nth_list_update less_Suc_eq)
  qed simp_all
  then show ?thesis by simp
qed

lemma ones_split: "a < 2 ^ k \<Longrightarrow> ones (a + 2 ^ k * b) = ones a + ones b"
proof (induction k arbitrary: a)
  case 0
  then show ?case by simp
next
  case (Suc k)
  have "a div 2 < 2 ^ k" using Suc.prems by auto
  moreover have "(a + 2 ^ Suc k * b) div 2 = a div 2 + 2 ^ k * b"
    and "(a + 2 ^ Suc k * b) mod 2 = a mod 2"
    by (simp_all add: mult.assoc)
  ultimately show ?case
    using Suc.IH [of "a div 2"] ones_rec [of "a + 2 ^ Suc k * b"] ones_rec [of a] by simp
qed

lemma ones_byte: "ones m = ones (m mod 256) + ones (m div 256)"
  using ones_split [of "m mod 256" 8 "m div 256"] by simp

lemma ones_card: "n < 2 ^ k \<Longrightarrow> ones n = card {i. i < k \<and> bit n i}"
proof (induction k arbitrary: n)
  case 0
  then show ?case by simp
next
  case (Suc k)
  have "{i. i < Suc k \<and> bit n i} = (if odd n then {0} else {}) \<union> Suc ` {i. i < k \<and> bit (n div 2) i}"
    by (auto simp: image_iff bit_0 bit_Suc less_Suc_eq_0_disj)
  moreover have "card ((if odd n then {0} else {}) \<union> Suc ` {i. i < k \<and> bit (n div 2) i})
      = n mod 2 + card {i. i < k \<and> bit (n div 2) i}"
    by (subst card_Un_disjoint) (auto simp: card_image odd_iff_mod_2_eq_one)
  ultimately show ?case
    using Suc.IH [of "n div 2"] Suc.prems ones_rec [of n] by simp
qed

lemma popcountWord_card: "popcountWord v = card {i. i < 32 \<and> bit v i}"
proof -
  let ?n = "unat v"
  have byte: "unat (drop_bit k v AND 255) = ?n div 2 ^ k mod 256" for k
  proof -
    have "drop_bit k v AND 255 = take_bit 8 (drop_bit k v)"
      by (simp add: take_bit_eq_mask mask_eq_exp_minus_1)
    then have "unat (drop_bit k v AND 255) = take_bit 8 (drop_bit k ?n)"
      using unsigned_less [of v, where ?'a = nat]
      by (simp only: unsigned_take_bit_eq unsigned_drop_bit_eq)
         (simp add: take_bit_nat_eq_self)
    then show ?thesis
      by (simp only: take_bit_eq_mod drop_bit_eq_div) simp
  qed
  have table: "popcountTable ! (m mod 256) = ones (m mod 256)" for m
    using popcountTable_ones by simp
  have "popcountWord v = ones (?n mod 256) + ones (?n div 2 ^ 8 mod 256)
      + ones (?n div 2 ^ 16 mod 256) + ones (?n div 2 ^ 24 mod 256)"
    unfolding popcountWord_def using byte [of 0] byte [of 8] byte [of 16] byte [of 24]
    by (simp add: table)
  moreover have "ones ?n = ones (?n mod 256) + ones (?n div 2 ^ 8)"
    using ones_byte [of ?n] by simp
  moreover have "ones (?n div 2 ^ 8) = ones (?n div 2 ^ 8 mod 256) + ones (?n div 2 ^ 16)"
    and "ones (?n div 2 ^ 16) = ones (?n div 2 ^ 16 mod 256) + ones (?n div 2 ^ 24)"
    using ones_byte [of "?n div 2 ^ 8"] ones_byte [of "?n div 2 ^ 16"]
      div_mult2_eq [of ?n 256 256, symmetric] div_mult2_eq [of ?n 65536 256, symmetric]
    by simp_all
  moreover have "?n div 2 ^ 24 mod 256 = ?n div 2 ^ 24"
    using unsigned_less [of v, where ?'a = nat] by simp
  ultimately have "popcountWord v = ones ?n" by simp
  also have "\<dots> = card {i. i < 32 \<and> bit ?n i}"
    by (rule ones_card) (use unsigned_less [of v, where ?'a = nat] in simp)
  also have "{i. i < 32 \<and> bit ?n i} = {i. i < 32 \<and> bit v i}"
    by (simp add: bit_unsigned_iff)
  finally show ?thesis .
qed

lemma popcount_card:
  assumes "32 * bitmapWordCount n \<le> 2 ^ 32"
  shows "popcount b n = card {i. i < 32 * bitmapWordCount n \<and> testBit b i}"
proof -
  let ?S = "\<lambda>k. {i. i < 32 * k \<and> testBit b i}"
  have "popcount b n = card (?S (bitmapWordCount n))"
    unfolding popcount_def
  proof (rule fold_upt_invariant [where P = "\<lambda>k c. c = card (?S k)"])
    fix k c assume k: "k < bitmapWordCount n" and c: "c = card (?S k)"
    let ?T = "(+) (32 * k) ` {i. i < 32 \<and> bit (word_at b k) i}"
    have "?S (Suc k) = ?S k \<union> ?T"
    proof (intro set_eqI iffI)
      fix i assume i: "i \<in> ?S (Suc k)"
      show "i \<in> ?S k \<union> ?T"
      proof (cases "i < 32 * k")
        case True
        then show ?thesis using i by simp
      next
        case False
        with i have "32 * k \<le> i" "i < 32 * k + 32" by auto
        then have "i div 32 = k" by linarith
        then have "i = 32 * k + i mod 32" "bit (word_at b k) (i mod 32)"
          using i k assms nat_mod_div_split [of i] by (auto simp: testBit_bit)
        then show ?thesis by force
      qed
    next
      fix i assume "i \<in> ?S k \<union> ?T"
      then show "i \<in> ?S (Suc k)" using k assms by (auto simp: testBit_bit)
    qed
    moreover have "?S k \<inter> ?T = {}" by auto
    moreover have "card ?T = popcountWord (word_at b k)"
      by (simp add: popcountWord_card card_image)
    ultimately show "c + popcountWord (word_at b k) = card (?S (Suc k))"
      using c by (simp add: card_Un_disjoint)
  qed simp_all
  then show ?thesis .
qed

end
