(* ===== verification/JsNumber.thy ===== *)
theory JsNumber
  imports Complex_Main "HOL-Library.Log_Nat" Prelude
begin

text \<open>
  The \<open>number\<close> type of JavaScript, as the engine uses it: an IEEE 754 double. A finite double is
  its exact rational value; the two zeros are one value, because every operator the engine
  applies (\<open>===\<close>, \<open><\<close>, \<open>+\<close>, \<open>-\<close>, \<open>*\<close>) treats them alike. \<open>rnd\<close> is rounding to
  the nearest double, ties to even, with subnormals and overflow to infinity; each arithmetic
  operator is the exact one followed by \<open>rnd\<close>, and \<open>Number(bigint)\<close> is \<open>rnd\<close> of the integer.
\<close>

datatype jsnum = NaN | NInf | Fin rat | PInf

section \<open>Comparison\<close>

fun js_lt :: "jsnum \<Rightarrow> jsnum \<Rightarrow> bool" where
  "js_lt NaN _ = False"
| "js_lt _ NaN = False"
| "js_lt (Fin a) (Fin b) = (a < b)"
| "js_lt NInf y = (y \<noteq> NInf)"
| "js_lt x NInf = False"
| "js_lt x PInf = (x \<noteq> PInf)"
| "js_lt PInf y = False"

definition js_eq :: "jsnum \<Rightarrow> jsnum \<Rightarrow> bool" where
  "js_eq a b \<longleftrightarrow> a \<noteq> NaN \<and> a = b"

definition js_le :: "jsnum \<Rightarrow> jsnum \<Rightarrow> bool" where
  "js_le a b \<longleftrightarrow> js_lt a b \<or> js_eq a b"

lemmas js_cmp_defs [qe_defs] = js_eq_def js_le_def

lemma js_lt_irrefl [simp]: "\<not> js_lt a a"
  by (cases a) auto

lemma js_lt_trans: "js_lt a b \<Longrightarrow> js_lt b c \<Longrightarrow> js_lt a c"
  by (cases a; cases b; cases c) auto

lemma js_lt_not_NaN: "js_lt a b \<Longrightarrow> a \<noteq> NaN \<and> b \<noteq> NaN"
  by (cases a; cases b) auto

lemma js_lt_linear: "a \<noteq> NaN \<Longrightarrow> b \<noteq> NaN \<Longrightarrow> js_lt a b \<or> a = b \<or> js_lt b a"
  by (cases a; cases b) auto

lemma js_le_refl: "a \<noteq> NaN \<Longrightarrow> js_le a a"
  by (simp add: js_le_def js_eq_def)

lemma js_le_trans: "js_le a b \<Longrightarrow> js_le b c \<Longrightarrow> js_le a c"
  by (auto simp: js_cmp_defs dest: js_lt_trans)

lemma js_le_lt_trans: "js_le a b \<Longrightarrow> js_lt b c \<Longrightarrow> js_lt a c"
  by (auto simp: js_cmp_defs dest: js_lt_trans)

lemma js_lt_le_trans: "js_lt a b \<Longrightarrow> js_le b c \<Longrightarrow> js_lt a c"
  by (auto simp: js_cmp_defs dest: js_lt_trans)

lemma js_not_lt: "a \<noteq> NaN \<Longrightarrow> b \<noteq> NaN \<Longrightarrow> \<not> js_lt a b \<longleftrightarrow> js_le b a"
  using js_lt_linear [of a b] by (auto simp: js_cmp_defs dest: js_lt_trans)

section \<open>Rounding\<close>

definition pow2 :: "int \<Rightarrow> rat" where
  "pow2 e = (if 0 \<le> e then 2 ^ nat e else 1 / 2 ^ nat (- e))"

lemma pow2_powi: "pow2 e = 2 powi e"
  by (simp add: pow2_def power_int_def field_simps)

lemma pow2_pos [simp]: "0 < pow2 e"
  by (simp add: pow2_def)

lemma pow2_nonneg [simp]: "0 \<le> pow2 e"
  by (simp add: pow2_def)

lemma pow2_nonzero [simp]: "pow2 e \<noteq> 0"
  by (simp add: pow2_def)

lemma pow2_add: "pow2 (a + b) = pow2 a * pow2 b"
  by (simp add: pow2_powi power_int_add)

lemma pow2_less: "a < b \<Longrightarrow> pow2 a < pow2 b"
proof -
  assume "a < b"
  then have "1 < pow2 (b - a)" by (simp add: pow2_def)
  then have "pow2 a * 1 < pow2 a * pow2 (b - a)"
    by (intro mult_strict_left_mono) simp_all
  then show ?thesis using pow2_add [of a "b - a"] by simp
qed

lemma pow2_less_iff [simp]: "pow2 a < pow2 b \<longleftrightarrow> a < b"
  using pow2_less [of a b] pow2_less [of b a] by (cases a b rule: linorder_cases) auto

lemma pow2_le_iff [simp]: "pow2 a \<le> pow2 b \<longleftrightarrow> a \<le> b"
  using pow2_less_iff [of b a] by (simp only: not_less [symmetric])

lemma pow2_int: "0 \<le> e \<Longrightarrow> \<exists>n::int. pow2 e = of_int n"
  by (rule exI [of _ "2 ^ nat e"]) (simp add: pow2_def)

text \<open>The binary exponent of a positive rational.\<close>

definition ilog2 :: "rat \<Rightarrow> int" where
  "ilog2 q = (let (n, d) = quotient_of q; k = bitlen n - bitlen d
              in if pow2 k \<le> q then k else k - 1)"

lemma bitlen_bounds_pow2:
  assumes "0 < (n::int)"
  shows "pow2 (bitlen n - 1) \<le> of_int n" "of_int n < pow2 (bitlen n)"
proof -
  have pos: "0 < bitlen n" using assms bitlen_eq_zero_iff [of n] bitlen_nonneg [of n] by linarith
  have "2 ^ nat (bitlen n - 1) \<le> n \<and> n < 2 ^ nat (bitlen n)"
    using bitlen_bounds [OF assms] .
  then have "(of_int (2 ^ nat (bitlen n - 1)) :: rat) \<le> of_int n"
    and "(of_int n :: rat) < of_int (2 ^ nat (bitlen n))"
    by (simp_all only: of_int_le_iff of_int_less_iff)
  with pos show "pow2 (bitlen n - 1) \<le> of_int n" "of_int n < pow2 (bitlen n)"
    by (simp_all add: pow2_def)
qed

lemma ilog2_bounds:
  assumes "0 < q"
  shows "pow2 (ilog2 q) \<le> q \<and> q < pow2 (ilog2 q + 1)"
proof -
  obtain n d where nd: "quotient_of q = (n, d)" by force
  then have q: "q = of_int n / of_int d" and d: "0 < d"
    by (auto dest: quotient_of_div quotient_of_denom_pos)
  with assms have n: "0 < n" by (simp add: zero_less_divide_iff)
  let ?k = "bitlen n - bitlen d"
  have dq: "(0::rat) < of_int d" using d by simp
  note bn = bitlen_bounds_pow2 [OF n] and bd = bitlen_bounds_pow2 [OF d]
  have "q < pow2 (bitlen n) / pow2 (bitlen d - 1)"
    unfolding q by (rule frac_less) (use n bn bd in auto)
  also have "\<dots> = pow2 (?k + 1)"
    using pow2_add [of "?k + 1" "bitlen d - 1"] by (simp add: field_simps)
  finally have hi: "q < pow2 (?k + 1)" .
  have "pow2 (?k - 1) = pow2 (bitlen n - 1) / pow2 (bitlen d)"
    using pow2_add [of "?k - 1" "bitlen d"] by (simp add: field_simps)
  also have "\<dots> \<le> q"
    unfolding q by (rule frac_le) (use n d bn bd in auto)
  finally have lo: "pow2 (?k - 1) \<le> q" .
  show ?thesis using hi lo by (auto simp: ilog2_def nd Let_def)
qed

lemma ilog2_unique: "pow2 e \<le> q \<Longrightarrow> q < pow2 (e + 1) \<Longrightarrow> ilog2 q = e"
proof -
  assume e: "pow2 e \<le> q" "q < pow2 (e + 1)"
  then have "0 < q" using pow2_pos [of e] by linarith
  with e have "pow2 e < pow2 (ilog2 q + 1)" "pow2 (ilog2 q) < pow2 (e + 1)"
    using ilog2_bounds [of q] by linarith+
  then show ?thesis by simp
qed

lemma ilog2_mono: "0 < x \<Longrightarrow> x \<le> y \<Longrightarrow> ilog2 x \<le> ilog2 y"
proof -
  assume "0 < x" "x \<le> y"
  then have "pow2 (ilog2 x) < pow2 (ilog2 y + 1)"
    using ilog2_bounds [of x] ilog2_bounds [of y] by linarith
  then show ?thesis by simp
qed

text \<open>Rounding to the nearest integer, ties to even.\<close>

definition rhe :: "rat \<Rightarrow> int" where
  "rhe q = (let f = \<lfloor>q\<rfloor>; r = q - of_int f
            in if r < 1/2 then f else if r > 1/2 then f + 1 else if even f then f else f + 1)"

lemma rhe_near: "of_int (rhe q) - 1/2 \<le> q \<and> q \<le> of_int (rhe q) + 1/2"
proof -
  obtain f where f: "\<lfloor>q\<rfloor> = f" by blast
  then have "of_int f \<le> q" "q < of_int f + 1" using floor_correct [of q] by auto
  then show ?thesis unfolding rhe_def Let_def f by auto
qed

lemma rhe_mono: "p \<le> q \<Longrightarrow> rhe p \<le> rhe q"
proof (rule ccontr)
  assume pq: "p \<le> q" and "\<not> rhe p \<le> rhe q"
  then have "of_int (rhe q) + 1 \<le> (of_int (rhe p) :: rat)" by linarith
  then have "p = q" using pq rhe_near [of p] rhe_near [of q] by linarith
  with \<open>\<not> rhe p \<le> rhe q\<close> show False by simp
qed

lemma rhe_of_int [simp]: "rhe (of_int n) = n"
  by (simp add: rhe_def)

lemma rhe_unique:
  "of_int n - 1/2 < q \<Longrightarrow> q < of_int n + 1/2 \<Longrightarrow> rhe q = n"
  using rhe_near [of q] by linarith

lemma rhe_half: "rhe (of_int n + 1/2) = (if even n then n else n + 1)"
proof -
  have "\<lfloor>of_int n + (1/2 :: rat)\<rfloor> = n" by linarith
  then show ?thesis by (simp add: rhe_def Let_def)
qed

lemma rhe_minus: "rhe (- q) = - rhe q"
proof -
  obtain n where n: "rhe q = n" by blast
  consider "of_int n - 1/2 < q" "q < of_int n + 1/2" | "q = of_int n + 1/2" | "q = of_int (n - 1) + 1/2"
    using rhe_near [of q] unfolding n by force
  then show ?thesis
  proof cases
    case 1
    then have "of_int (- n) - 1/2 < - q" "- q < of_int (- n) + 1/2" by simp_all
    then show ?thesis unfolding n by (rule rhe_unique)
  next
    case 2
    then have "even n" using rhe_half [of n] n by (auto split: if_splits)
    moreover have "- q = of_int (- n - 1) + 1/2" by (subst 2) simp
    ultimately show ?thesis using rhe_half [of "- n - 1"] n by simp
  next
    case 3
    then have "even n" using rhe_half [of "n - 1"] n by (auto split: if_splits)
    moreover have "- q = of_int (- n) + 1/2" by (subst 3) simp
    ultimately show ?thesis using rhe_half [of "- n"] n by simp
  qed
qed

text \<open>The spacing of the doubles around \<open>q\<close>, and the nearest point of that grid.\<close>

definition ulp_exp :: "rat \<Rightarrow> int" where
  "ulp_exp q = max (ilog2 \<bar>q\<bar> - 52) (- 1074)"

definition grid :: "rat \<Rightarrow> rat" where
  "grid q = (if q = 0 then 0 else of_int (rhe (q / pow2 (ulp_exp q))) * pow2 (ulp_exp q))"

definition rnd :: "rat \<Rightarrow> jsnum" where
  "rnd q = (let r = grid q
            in if pow2 1024 \<le> r then PInf else if r \<le> - pow2 1024 then NInf else Fin r)"

definition num_of_big :: "int \<Rightarrow> jsnum" where
  "num_of_big n = rnd (of_int n)"

lemma grid_minus: "grid (- q) = - grid q"
  by (simp add: grid_def ulp_exp_def rhe_minus)

lemma grid_mono_pos:
  assumes x: "0 < x" and xy: "x \<le> y"
  shows "grid x \<le> grid y"
proof -
  have y: "0 < y" using assms by simp
  show ?thesis
  proof (cases "ulp_exp x = ulp_exp y")
    case True
    have "x / pow2 (ulp_exp y) \<le> y / pow2 (ulp_exp y)"
      using xy pow2_pos [of "ulp_exp y"] by (intro divide_right_mono) simp_all
    then have "rhe (x / pow2 (ulp_exp y)) \<le> rhe (y / pow2 (ulp_exp y))" by (rule rhe_mono)
    then have "(of_int (rhe (x / pow2 (ulp_exp y))) :: rat) * pow2 (ulp_exp y)
        \<le> of_int (rhe (y / pow2 (ulp_exp y))) * pow2 (ulp_exp y)"
      by (intro mult_right_mono) simp_all
    then show ?thesis using x y True by (simp add: grid_def)
  next
    case False
    let ?B = "pow2 (ilog2 y)"
    have ey: "ulp_exp y = ilog2 y - 52" and ex: "ulp_exp x \<le> ilog2 y" and lt: "ilog2 x < ilog2 y"
      using False ilog2_mono [OF x xy] x y by (auto simp: ulp_exp_def)
    have le: "rhe (x / pow2 (ulp_exp x)) \<le> n \<Longrightarrow> grid x \<le> of_int n * pow2 (ulp_exp x)" for n
      using x by (simp add: grid_def)
    obtain n :: int where n: "pow2 (ilog2 y - ulp_exp x) = of_int n"
      using pow2_int [of "ilog2 y - ulp_exp x"] ex by auto
    have Bx: "?B = of_int n * pow2 (ulp_exp x)"
      using pow2_add [of "ilog2 y - ulp_exp x" "ulp_exp x"] n by simp
    have "x \<le> ?B"
      using ilog2_bounds [OF x] lt pow2_le_iff [of "ilog2 x + 1" "ilog2 y"] by linarith
    then have "x / pow2 (ulp_exp x) \<le> of_int n"
      unfolding Bx by (simp add: divide_le_eq)
    then have "rhe (x / pow2 (ulp_exp x)) \<le> n"
      using rhe_mono by fastforce
    then have gx: "grid x \<le> ?B" using le Bx by simp
    obtain m :: int where m: "pow2 52 = of_int m" using pow2_int [of 52] by auto
    have By: "?B = of_int m * pow2 (ulp_exp y)"
      using pow2_add [of 52 "ulp_exp y"] m ey by simp
    have "of_int m \<le> y / pow2 (ulp_exp y)"
      using ilog2_bounds [OF y] unfolding By by (simp add: le_divide_eq)
    then have "m \<le> rhe (y / pow2 (ulp_exp y))"
      using rhe_mono by fastforce
    then have "?B \<le> grid y" using y unfolding By by (simp add: grid_def)
    with gx show ?thesis by simp
  qed
qed

lemma grid_nonneg: "0 \<le> q \<Longrightarrow> 0 \<le> grid q"
proof -
  assume "0 \<le> q"
  then have "of_int 0 \<le> q / pow2 (ulp_exp q)"
    by (simp only: of_int_0 divide_nonneg_nonneg pow2_nonneg)
  then have "rhe (of_int 0) \<le> rhe (q / pow2 (ulp_exp q))" by (rule rhe_mono)
  then have "0 \<le> rhe (q / pow2 (ulp_exp q))" by (simp only: rhe_of_int)
  then show ?thesis by (simp add: grid_def)
qed

lemma grid_mono: "p \<le> q \<Longrightarrow> grid p \<le> grid q"
proof -
  assume pq: "p \<le> q"
  consider "0 < p" | "p \<le> 0" "0 \<le> q" | "q < 0" by linarith
  then show ?thesis
  proof cases
    case 1
    then show ?thesis using pq by (rule grid_mono_pos)
  next
    case 2
    then show ?thesis using grid_nonneg [of q] grid_nonneg [of "- p"] grid_minus [of p] by simp
  next
    case 3
    then show ?thesis using grid_mono_pos [of "- q" "- p"] pq by (simp add: grid_minus)
  qed
qed

lemma rnd_not_NaN [simp]: "rnd q \<noteq> NaN"
  by (simp add: rnd_def Let_def)

text \<open>Rounding is monotone: comparing rounded values never reverses an order.\<close>

lemma rnd_mono: "p \<le> q \<Longrightarrow> js_le (rnd p) (rnd q)"
  using grid_mono [of p q] pow2_pos [of 1024]
  by (auto simp: rnd_def Let_def js_le_def js_eq_def simp del: pow2_pos)

lemma num_of_big_not_NaN [simp]: "num_of_big n \<noteq> NaN"
  by (simp add: num_of_big_def)

lemma num_of_big_mono: "m \<le> n \<Longrightarrow> js_le (num_of_big m) (num_of_big n)"
  by (simp add: num_of_big_def rnd_mono)

text \<open>Every integer of at most 53 bits (every JavaScript safe integer) is exact.\<close>

lemma grid_int:
  assumes "\<bar>n\<bar> \<le> 2 ^ 53"
  shows "grid (of_int n) = of_int n"
proof (cases "n = 0")
  case True
  then show ?thesis by (simp add: grid_def)
next
  case False
  let ?q = "of_int n :: rat"
  have pos: "0 < \<bar>?q\<bar>" using False by simp
  have "(1::rat) \<le> \<bar>?q\<bar>" using False by linarith
  then have "pow2 0 < pow2 (ilog2 \<bar>?q\<bar> + 1)" using ilog2_bounds [OF pos] by (simp add: pow2_def)
  then have lo: "0 \<le> ilog2 \<bar>?q\<bar>" by simp
  have "\<bar>?q\<bar> \<le> of_int (2 ^ 53)" using assms by (metis of_int_abs of_int_le_iff)
  then have "pow2 (ilog2 \<bar>?q\<bar>) \<le> pow2 53" using ilog2_bounds [OF pos] by (simp add: pow2_def)
  then have hi: "ilog2 \<bar>?q\<bar> \<le> 53" by simp
  let ?e = "ulp_exp ?q"
  have e: "?e \<le> 1" "?e = ilog2 \<bar>?q\<bar> - 52" using lo hi by (auto simp: ulp_exp_def)
  have "\<exists>m. ?q / pow2 ?e = of_int m"
  proof (cases "?e \<le> 0")
    case True
    then obtain k :: int where "pow2 (- ?e) = of_int k" using pow2_int [of "- ?e"] by auto
    then have "?q / pow2 ?e = of_int (n * k)"
      using pow2_add [of ?e "- ?e"] by (simp add: field_simps pow2_def [of 0])
    then show ?thesis by blast
  next
    case False
    then have "?e = 1" "ilog2 \<bar>?q\<bar> = 53" using e by auto
    then have "pow2 53 \<le> \<bar>?q\<bar>" using ilog2_bounds [OF pos] by metis
    then have "\<bar>?q\<bar> = of_int (2 ^ 53)" using \<open>\<bar>?q\<bar> \<le> of_int (2 ^ 53)\<close> by (simp add: pow2_def)
    then have "?q = of_int (2 ^ 53) \<or> ?q = of_int (- (2 ^ 53))" by linarith
    then have "?q / pow2 ?e = of_int (2 ^ 52) \<or> ?q / pow2 ?e = of_int (- (2 ^ 52))"
      using \<open>?e = 1\<close> by (auto simp: pow2_def)
    then show ?thesis by blast
  qed
  then obtain m where m: "?q / pow2 ?e = of_int m" by blast
  then show ?thesis using False by (simp add: grid_def m) (simp add: field_simps flip: m)
qed

lemma rnd_int: "\<bar>n\<bar> \<le> 2 ^ 53 \<Longrightarrow> rnd (of_int n) = Fin (of_int n)"
proof -
  assume n: "\<bar>n\<bar> \<le> 2 ^ 53"
  have "(of_int \<bar>n\<bar> :: rat) \<le> of_int (2 ^ 53)" using n by (simp only: of_int_le_iff)
  moreover have "pow2 53 < pow2 1024" by simp
  ultimately have "\<bar>of_int n :: rat\<bar> < pow2 1024" by (simp add: pow2_def [of 53])
  then have "\<not> pow2 1024 \<le> of_int n" "\<not> of_int n \<le> - pow2 1024" by linarith+
  then show ?thesis using grid_int [OF n] by (simp add: rnd_def Let_def)
qed

lemma num_of_big_int: "\<bar>n\<bar> \<le> 2 ^ 53 \<Longrightarrow> num_of_big n = Fin (of_int n)"
  by (simp add: num_of_big_def rnd_int)

section \<open>Arithmetic\<close>

fun js_neg :: "jsnum \<Rightarrow> jsnum" where
  "js_neg NaN = NaN"
| "js_neg NInf = PInf"
| "js_neg PInf = NInf"
| "js_neg (Fin a) = Fin (- a)"

fun js_add :: "jsnum \<Rightarrow> jsnum \<Rightarrow> jsnum" where
  "js_add (Fin a) (Fin b) = rnd (a + b)"
| "js_add NaN _ = NaN"
| "js_add _ NaN = NaN"
| "js_add PInf NInf = NaN"
| "js_add NInf PInf = NaN"
| "js_add PInf _ = PInf"
| "js_add _ PInf = PInf"
| "js_add NInf _ = NInf"
| "js_add _ NInf = NInf"

definition js_sub :: "jsnum \<Rightarrow> jsnum \<Rightarrow> jsnum" where
  "js_sub a b = js_add a (js_neg b)"

definition js_sgn :: "jsnum \<Rightarrow> int" where
  "js_sgn a = (case a of NaN \<Rightarrow> 0 | NInf \<Rightarrow> -1 | PInf \<Rightarrow> 1
     | Fin q \<Rightarrow> if 0 < q then 1 else if q < 0 then -1 else 0)"

definition js_signed_inf :: "int \<Rightarrow> jsnum" where
  "js_signed_inf s = (if 0 < s then PInf else if s < 0 then NInf else NaN)"

fun js_mul :: "jsnum \<Rightarrow> jsnum \<Rightarrow> jsnum" where
  "js_mul (Fin a) (Fin b) = rnd (a * b)"
| "js_mul NaN _ = NaN"
| "js_mul _ NaN = NaN"
| "js_mul a b = js_signed_inf (js_sgn a * js_sgn b)"

text \<open>Division by zero gives an infinity (the sign of zero is not kept) or NaN.\<close>

fun js_div :: "jsnum \<Rightarrow> jsnum \<Rightarrow> jsnum" where
  "js_div (Fin a) (Fin b) = (if b = 0 then js_signed_inf (js_sgn (Fin a)) else rnd (a / b))"
| "js_div NaN _ = NaN"
| "js_div _ NaN = NaN"
| "js_div (Fin a) _ = Fin 0"
| "js_div a (Fin b) = js_signed_inf (js_sgn a * (if b < 0 then -1 else 1))"
| "js_div _ _ = NaN"

text \<open>Truncated remainder, exact on finite operands.\<close>

fun js_mod :: "jsnum \<Rightarrow> jsnum \<Rightarrow> jsnum" where
  "js_mod (Fin a) (Fin b) = (if b = 0 then NaN
     else Fin (a - b * of_int (let q = a / b in if 0 \<le> q then \<lfloor>q\<rfloor> else \<lceil>q\<rceil>)))"
| "js_mod NaN _ = NaN"
| "js_mod _ NaN = NaN"
| "js_mod (Fin a) _ = Fin a"
| "js_mod _ _ = NaN"

text \<open>Rounded values are left alone by a further rounding: adding zero changes nothing.\<close>

definition is_double :: "jsnum \<Rightarrow> bool" where
  "is_double x = (case x of Fin q \<Rightarrow> rnd q = Fin q | _ \<Rightarrow> True)"

lemma is_double_int: "\<bar>n\<bar> \<le> 2 ^ 53 \<Longrightarrow> is_double (Fin (of_int n))"
  by (simp add: is_double_def rnd_int)

lemma js_add_zero: "is_double x \<Longrightarrow> js_add x (Fin 0) = x"
  by (cases x) (simp_all add: is_double_def)

lemma js_zero_add: "is_double x \<Longrightarrow> js_add (Fin 0) x = x"
  by (cases x) (simp_all add: is_double_def)

lemma js_mul_one: "is_double x \<Longrightarrow> js_mul x (Fin 1) = x"
  by (cases x) (simp_all add: is_double_def js_signed_inf_def js_sgn_def)

lemma js_one_mul: "is_double x \<Longrightarrow> js_mul (Fin 1) x = x"
  by (cases x) (simp_all add: is_double_def js_signed_inf_def js_sgn_def)

lemma js_div_one: "is_double x \<Longrightarrow> js_div x (Fin 1) = x"
  by (cases x) (simp_all add: is_double_def js_signed_inf_def js_sgn_def)

text \<open>\<open>ToInt32\<close> and \<open>ToBigInt64\<close>: what a store into a typed integer array keeps of a number.\<close>

definition wrap_signed :: "nat \<Rightarrow> int \<Rightarrow> int" where
  "wrap_signed n v = (v + 2 ^ (n - 1)) mod 2 ^ n - 2 ^ (n - 1)"

lemma wrap_signed_id:
  assumes "0 < n" "- (2 ^ (n - 1)) \<le> v" "v < 2 ^ (n - 1)"
  shows "wrap_signed n v = v"
proof -
  have "(2::int) ^ n = 2 ^ (n - 1) + 2 ^ (n - 1)"
    using assms(1) by (cases n) simp_all
  then have "(v + 2 ^ (n - 1)) mod 2 ^ n = v + 2 ^ (n - 1)"
    using assms by (intro mod_pos_pos_trivial) linarith+
  then show ?thesis by (simp add: wrap_signed_def)
qed

definition js_trunc :: "jsnum \<Rightarrow> int" where
  "js_trunc x = (case x of Fin q \<Rightarrow> (if 0 \<le> q then \<lfloor>q\<rfloor> else \<lceil>q\<rceil>) | _ \<Rightarrow> 0)"

definition to_int32 :: "jsnum \<Rightarrow> int" where
  "to_int32 x = wrap_signed 32 (js_trunc x)"

lemma js_trunc_int [simp]: "js_trunc (Fin (of_int n)) = n"
  by (simp add: js_trunc_def)

text \<open>Evaluating a rounding at a small literal.\<close>

lemma rnd_numeral [simp]:
  "(numeral k :: int) \<le> 2 ^ 53 \<Longrightarrow> rnd (numeral k) = Fin (numeral k)"
  "(numeral k :: int) \<le> 2 ^ 53 \<Longrightarrow> rnd (- numeral k) = Fin (- numeral k)"
  "rnd 1 = Fin 1" "rnd 0 = Fin 0"
  using rnd_int [of "numeral k"] rnd_int [of "- numeral k"] rnd_int [of 1] rnd_int [of 0] by simp_all

section \<open>The 64 bits of a double\<close>

text \<open>Sign, biased exponent and fraction, as \<open>Float64Array\<close> stores them (zero has no sign here).\<close>

definition f64_magnitude :: "rat \<Rightarrow> nat" where
  "f64_magnitude a =
     (if a = 0 then 0
      else let e = ilog2 a
           in if - 1022 \<le> e then nat (e + 1023) * 2 ^ 52 + (nat \<lfloor>a / pow2 (e - 52)\<rfloor> - 2 ^ 52)
              else nat \<lfloor>a / pow2 (- 1074)\<rfloor>)"

definition f64_bits :: "jsnum \<Rightarrow> 64 word" where
  "f64_bits x = (case x of
       NaN \<Rightarrow> 0x7ff8000000000000
     | PInf \<Rightarrow> 0x7ff0000000000000
     | NInf \<Rightarrow> 0xfff0000000000000
     | Fin q \<Rightarrow> of_nat ((if q < 0 then 2 ^ 63 else 0) + f64_magnitude \<bar>q\<bar>))"

end
