(* ===== verification/JsValue.thy ===== *)
theory JsValue
  imports JsNumber
begin

text \<open>
  The values a column holds (\<open>ColumnValue\<close> of \<open>src/storage/data-type.ts\<close>) and the column types.
  A string is its list of UTF-16 code units, as JavaScript's \<open>length\<close>, \<open>charCodeAt\<close> and \<open><\<close> see it.
\<close>

type_synonym ustr = "16 word list"

datatype column_value = VNull | VNum jsnum | VBig int | VStr ustr | VBool bool

datatype data_type = BOOLEAN | INT32 | INT64 | FLOAT64 | DECIMAL | VARCHAR | DATE | TIMESTAMP

text \<open>A string literal of the model: every character is one code unit.\<close>

definition ustr_of :: "string \<Rightarrow> ustr" where
  "ustr_of s = map of_char s"

fun ustr_lt :: "ustr \<Rightarrow> ustr \<Rightarrow> bool" where
  "ustr_lt [] ys = (ys \<noteq> [])"
| "ustr_lt xs [] = False"
| "ustr_lt (x # xs) (y # ys) = (x < y \<or> x = y \<and> ustr_lt xs ys)"

definition ustr_le :: "ustr \<Rightarrow> ustr \<Rightarrow> bool" where
  "ustr_le s t \<longleftrightarrow> ustr_lt s t \<or> s = t"

lemma ustr_lt_nil [simp]: "\<not> ustr_lt s []"
  by (cases s) simp_all

lemma ustr_lt_irrefl [simp]: "\<not> ustr_lt s s"
  by (induction s) simp_all

lemma ustr_lt_trans: "ustr_lt s t \<Longrightarrow> ustr_lt t u \<Longrightarrow> ustr_lt s u"
proof (induction s u arbitrary: t rule: ustr_lt.induct)
  case (3 x xs y ys)
  from "3.prems" obtain z zs where "t = z # zs" by (cases t) auto
  with 3 show ?case by (auto dest: order.strict_trans)
qed (auto elim: ustr_lt.elims)

lemma ustr_lt_linear: "ustr_lt s t \<or> s = t \<or> ustr_lt t s"
proof (induction s t rule: ustr_lt.induct)
  case (1 ys)
  then show ?case by (cases ys) auto
qed auto

lemma ustr_le_refl [simp]: "ustr_le s s"
  by (simp add: ustr_le_def)

lemma ustr_le_trans: "ustr_le s t \<Longrightarrow> ustr_le t u \<Longrightarrow> ustr_le s u"
  by (auto simp: ustr_le_def dest: ustr_lt_trans)

lemma ustr_not_lt: "\<not> ustr_lt s t \<longleftrightarrow> ustr_le t s"
  using ustr_lt_linear [of s t] by (auto simp: ustr_le_def dest: ustr_lt_trans)

section \<open>Column types\<close>

fun byteWidthFor :: "data_type \<Rightarrow> nat" where
  "byteWidthFor BOOLEAN = 1"
| "byteWidthFor INT32 = 4"
| "byteWidthFor INT64 = 8"
| "byteWidthFor FLOAT64 = 8"
| "byteWidthFor DECIMAL = 8"
| "byteWidthFor DATE = 4"
| "byteWidthFor TIMESTAMP = 8"
| "byteWidthFor VARCHAR = 0"

definition isFixedWidth :: "data_type \<Rightarrow> bool" where
  "isFixedWidth t \<longleftrightarrow> t \<in> {BOOLEAN, INT32, INT64, FLOAT64, DECIMAL, DATE, TIMESTAMP}"

definition isNumeric :: "data_type \<Rightarrow> bool" where
  "isNumeric t \<longleftrightarrow> t = INT32 \<or> t = INT64 \<or> t = FLOAT64 \<or> t = DECIMAL"

definition isTemporal :: "data_type \<Rightarrow> bool" where
  "isTemporal t \<longleftrightarrow> t = DATE \<or> t = TIMESTAMP"

definition isComparable :: "data_type \<Rightarrow> data_type \<Rightarrow> bool" where
  "isComparable a b \<longleftrightarrow>
     (if a = b then True
      else if isNumeric a \<and> isNumeric b then True
      else if isTemporal a \<and> isTemporal b then True
      else False)"

lemma isComparable_sym: "isComparable a b = isComparable b a"
  by (auto simp: isComparable_def)

lemma isComparable_trans: "isComparable a b \<Longrightarrow> isComparable b c \<Longrightarrow> isComparable a c"
  by (auto simp: isComparable_def isNumeric_def isTemporal_def split: if_splits)

section \<open>Values of expressions\<close>

text \<open>\<open>EvalValue\<close>: a column value, \<open>undefined\<close>, or an interval literal (amount and unit).\<close>

datatype eval_value = Val column_value | Undef | Interval jsnum string

end
