(* ===== verification/ByteIO.thy ===== *)
theory ByteIO
  imports JsValue
begin

text \<open>
  \<open>src/storage/encoding/byte-io.ts\<close>: the little-endian writer and reader of the page format.
  A write past the end of the buffer throws a \<open>RangeError\<close> (\<open>Inl\<close>), as \<open>DataView\<close> and
  \<open>Uint8Array.set\<close> do; a \<open>typed\<close> read past the end leaves zeros, as \<open>subarray\<close> clamps.
  \<open>TextEncoder\<close> and \<open>TextDecoder\<close> are written out: UTF-16 units to UTF-8 bytes and back, with the
  replacement character for what is malformed, and the byte order mark dropped on decoding.
\<close>

type_synonym byte = "8 word"

datatype io_error = RangeErr | UnknownColumnForm | UnknownDataTypeId nat
  | UnknownEncodingId nat | UnsupportedWidth nat

section \<open>UTF-8\<close>

definition is_high :: "16 word \<Rightarrow> bool" where
  "is_high u \<longleftrightarrow> 0xd800 \<le> u \<and> u \<le> 0xdbff"

definition is_low :: "16 word \<Rightarrow> bool" where
  "is_low u \<longleftrightarrow> 0xdc00 \<le> u \<and> u \<le> 0xdfff"

fun utf8ByteLength :: "ustr \<Rightarrow> nat" where
  "utf8ByteLength [] = 0"
| "utf8ByteLength (code # rest) =
     (if code < 0x80 then 1 + utf8ByteLength rest
      else if code < 0x800 then 2 + utf8ByteLength rest
      else if is_high code then
        (case rest of
           [] \<Rightarrow> 3 + utf8ByteLength rest
         | nxt # rest' \<Rightarrow> if is_low nxt then 4 + utf8ByteLength rest' else 3 + utf8ByteLength rest)
      else 3 + utf8ByteLength rest)"

definition utf8RecordBytes :: "ustr \<Rightarrow> nat" where
  "utf8RecordBytes s = 4 + utf8ByteLength s"

text \<open>The scalar values of a string; a lone surrogate reads as U+FFFD.\<close>

fun code_points :: "ustr \<Rightarrow> nat list" where
  "code_points [] = []"
| "code_points (u # rest) =
     (if is_high u then
        (case rest of
           [] \<Rightarrow> [0xfffd]
         | v # rest' \<Rightarrow>
             if is_low v
             then (0x10000 + (unat u - 0xd800) * 0x400 + (unat v - 0xdc00)) # code_points rest'
             else 0xfffd # code_points rest)
      else if is_low u then 0xfffd # code_points rest
      else unat u # code_points rest)"

definition utf8_bytes :: "nat \<Rightarrow> byte list" where
  "utf8_bytes c =
     (if c < 0x80 then [of_nat c]
      else if c < 0x800 then [of_nat (0xc0 + c div 64), of_nat (0x80 + c mod 64)]
      else if c < 0x10000 then
        [of_nat (0xe0 + c div 4096), of_nat (0x80 + c div 64 mod 64), of_nat (0x80 + c mod 64)]
      else [of_nat (0xf0 + c div 262144), of_nat (0x80 + c div 4096 mod 64),
            of_nat (0x80 + c div 64 mod 64), of_nat (0x80 + c mod 64)])"

definition utf8_encode :: "ustr \<Rightarrow> byte list" where
  "utf8_encode s = concat (map utf8_bytes (code_points s))"

text \<open>
  The decoder: bytes still needed, the code point so far, the bounds of the next byte. A byte
  that does not continue a sequence ends it with U+FFFD and is then read as a first byte.
\<close>

fun utf8_decode_loop :: "nat \<Rightarrow> nat \<Rightarrow> nat \<Rightarrow> nat \<Rightarrow> byte list \<Rightarrow> nat list" where
  "utf8_decode_loop needed cp lo hi [] = (if needed = 0 then [] else [0xfffd])"
| "utf8_decode_loop needed cp lo hi (byte # bs) =
     (let b = unat byte in
      if needed \<noteq> 0 \<and> lo \<le> b \<and> b \<le> hi then
        (if needed = 1 then (cp * 64 + b mod 64) # utf8_decode_loop 0 0 0x80 0xbf bs
         else utf8_decode_loop (needed - 1) (cp * 64 + b mod 64) 0x80 0xbf bs)
      else
        (if needed \<noteq> 0 then [0xfffd] else []) @
        (if b < 0x80 then b # utf8_decode_loop 0 0 0x80 0xbf bs
         else if 0xc2 \<le> b \<and> b \<le> 0xdf then utf8_decode_loop 1 (b mod 32) 0x80 0xbf bs
         else if 0xe0 \<le> b \<and> b \<le> 0xef then
           utf8_decode_loop 2 (b mod 16) (if b = 0xe0 then 0xa0 else 0x80)
             (if b = 0xed then 0x9f else 0xbf) bs
         else if 0xf0 \<le> b \<and> b \<le> 0xf4 then
           utf8_decode_loop 3 (b mod 8) (if b = 0xf0 then 0x90 else 0x80)
             (if b = 0xf4 then 0x8f else 0xbf) bs
         else 0xfffd # utf8_decode_loop 0 0 0x80 0xbf bs))"

definition utf16_units :: "nat \<Rightarrow> ustr" where
  "utf16_units c =
     (if c < 0x10000 then [of_nat c]
      else [of_nat (0xd800 + (c - 0x10000) div 0x400), of_nat (0xdc00 + (c - 0x10000) mod 0x400)])"

definition utf8_decode :: "byte list \<Rightarrow> ustr" where
  "utf8_decode bs =
     (let cps = utf8_decode_loop 0 0 0x80 0xbf bs;
          cps' = (case cps of c # rest \<Rightarrow> if c = 0xfeff then rest else cps | [] \<Rightarrow> [])
      in concat (map utf16_units cps'))"

section \<open>Little-endian numbers\<close>

definition le_bytes :: "nat \<Rightarrow> nat \<Rightarrow> byte list" where
  "le_bytes k n = map (\<lambda>i. of_nat (n div 256 ^ i)) [0..<k]"

fun le_nat :: "byte list \<Rightarrow> nat" where
  "le_nat [] = 0"
| "le_nat (b # bs) = unat b + 256 * le_nat bs"

section \<open>The writer\<close>

record byte_writer =
  w_buf :: "byte list"
  w_off :: nat

definition put_bytes :: "byte list \<Rightarrow> byte_writer \<Rightarrow> io_error + byte_writer" where
  "put_bytes bs w =
     (if w_off w + length bs \<le> length (w_buf w)
      then Inr (w\<lparr>w_buf := take (w_off w) (w_buf w) @ bs @ drop (w_off w + length bs) (w_buf w),
                  w_off := w_off w + length bs\<rparr>)
      else Inl RangeErr)"

definition w_u8 :: "nat \<Rightarrow> byte_writer \<Rightarrow> io_error + byte_writer" where
  "w_u8 v = put_bytes (le_bytes 1 v)"

definition w_u16 :: "nat \<Rightarrow> byte_writer \<Rightarrow> io_error + byte_writer" where
  "w_u16 v = put_bytes (le_bytes 2 v)"

definition w_u32 :: "nat \<Rightarrow> byte_writer \<Rightarrow> io_error + byte_writer" where
  "w_u32 v = put_bytes (le_bytes 4 v)"

text \<open>An integer of any sign as \<open>k\<close> bytes of two's complement.\<close>

definition int_bytes :: "nat \<Rightarrow> int \<Rightarrow> byte list" where
  "int_bytes k v = le_bytes k (nat (v mod 2 ^ (8 * k)))"

definition w_i64 :: "int \<Rightarrow> byte_writer \<Rightarrow> io_error + byte_writer" where
  "w_i64 v = put_bytes (int_bytes 8 v)"

text \<open>\<open>bytes(source, byteLength)\<close>: the first \<open>byteLength\<close> bytes of a typed array of \<open>k\<close>-byte elements.\<close>

definition array_bytes :: "nat \<Rightarrow> int list \<Rightarrow> byte list" where
  "array_bytes k xs = concat (map (int_bytes k) xs)"

definition w_bytes :: "nat \<Rightarrow> int list \<Rightarrow> nat \<Rightarrow> byte_writer \<Rightarrow> io_error + byte_writer" where
  "w_bytes k xs byteLength = put_bytes (take byteLength (array_bytes k xs))"

fun w_words_from :: "32 word list \<Rightarrow> nat \<Rightarrow> nat \<Rightarrow> byte_writer \<Rightarrow> io_error + byte_writer" where
  "w_words_from source i 0 w = Inr w"
| "w_words_from source i (Suc n) w =
     bindE (w_u32 (if i < length source then unat (source ! i) else 0) w)
       (w_words_from source (Suc i) n)"

definition w_words :: "32 word list \<Rightarrow> nat \<Rightarrow> byte_writer \<Rightarrow> io_error + byte_writer" where
  "w_words source count = w_words_from source 0 count"

text \<open>\<open>TextEncoder.encodeInto\<close>: as many whole code points as the room takes.\<close>

fun encode_into :: "nat \<Rightarrow> nat list \<Rightarrow> byte list" where
  "encode_into room [] = []"
| "encode_into room (c # cs) =
     (let b = utf8_bytes c
      in if length b \<le> room then b @ encode_into (room - length b) cs else [])"

definition w_utf8 :: "ustr \<Rightarrow> byte_writer \<Rightarrow> io_error + byte_writer" where
  "w_utf8 s w =
     (let written = encode_into (length (w_buf w) - (w_off w + 4)) (code_points s)
      in bindE (w_u32 (length written) w) (put_bytes written))"

definition concatBytes :: "byte list list \<Rightarrow> byte list" where
  "concatBytes parts =
     (if length parts = 1 then hd parts
      else fst (fold (\<lambda>part (result, offset).
             (take offset result @ part @ drop (offset + length part) result, offset + length part))
             parts (replicate (sum_list (map length parts)) 0, 0)))"

section \<open>The reader\<close>

record byte_reader =
  r_buf :: "byte list"
  r_off :: nat

definition get_bytes :: "nat \<Rightarrow> byte_reader \<Rightarrow> io_error + byte list \<times> byte_reader" where
  "get_bytes k r =
     (if r_off r + k \<le> length (r_buf r)
      then Inr (take k (drop (r_off r) (r_buf r)), r\<lparr>r_off := r_off r + k\<rparr>)
      else Inl RangeErr)"

definition r_uint :: "nat \<Rightarrow> byte_reader \<Rightarrow> io_error + nat \<times> byte_reader" where
  "r_uint k r = bindE (get_bytes k r) (\<lambda>(bs, r'). Inr (le_nat bs, r'))"

definition r_u8 :: "byte_reader \<Rightarrow> io_error + nat \<times> byte_reader" where
  "r_u8 = r_uint 1"

definition r_u16 :: "byte_reader \<Rightarrow> io_error + nat \<times> byte_reader" where
  "r_u16 = r_uint 2"

definition r_u32 :: "byte_reader \<Rightarrow> io_error + nat \<times> byte_reader" where
  "r_u32 = r_uint 4"

definition r_i64 :: "byte_reader \<Rightarrow> io_error + int \<times> byte_reader" where
  "r_i64 r = bindE (r_uint 8 r) (\<lambda>(n, r'). Inr (wrap_signed 64 (int n), r'))"

definition typed_bytes :: "nat \<Rightarrow> byte_reader \<Rightarrow> byte list \<times> byte_reader" where
  "typed_bytes k r =
     (let got = take k (drop (r_off r) (r_buf r))
      in (got @ replicate (k - length got) 0, r\<lparr>r_off := r_off r + k\<rparr>))"

definition array_of_bytes :: "nat \<Rightarrow> nat \<Rightarrow> byte list \<Rightarrow> nat list" where
  "array_of_bytes k n bs = map (\<lambda>i. le_nat (take k (drop (k * i) bs))) [0..<n]"

text \<open>\<open>typed(Ctor, length)\<close> for \<open>k\<close>-byte elements, unsigned or two's complement.\<close>

definition r_typed_u :: "nat \<Rightarrow> nat \<Rightarrow> byte_reader \<Rightarrow> nat list \<times> byte_reader" where
  "r_typed_u k n r = (let (bs, r') = typed_bytes (k * n) r in (array_of_bytes k n bs, r'))"

definition r_typed_s :: "nat \<Rightarrow> nat \<Rightarrow> byte_reader \<Rightarrow> int list \<times> byte_reader" where
  "r_typed_s k n r = (let (xs, r') = r_typed_u k n r in (map (\<lambda>x. wrap_signed (8 * k) (int x)) xs, r'))"

definition r_utf8 :: "byte_reader \<Rightarrow> io_error + ustr \<times> byte_reader" where
  "r_utf8 r = bindE (r_u32 r) (\<lambda>(n, r1).
     Inr (utf8_decode (take n (drop (r_off r1) (r_buf r1))), r1\<lparr>r_off := r_off r1 + n\<rparr>))"

section \<open>Numbers\<close>

lemma length_le_bytes [simp]: "length (le_bytes k n) = k"
  by (simp add: le_bytes_def)

lemma le_bytes_Suc: "le_bytes (Suc k) n = of_nat n # le_bytes k (n div 256)"
  unfolding le_bytes_def
  by (simp add: upt_conv_Cons map_Suc_upt [symmetric] comp_def div_mult2_eq del: upt_Suc map_Suc_upt)

lemma unat_of_nat_byte: "unat (of_nat n :: byte) = n mod 256"
  by (simp add: unsigned_of_nat take_bit_eq_mod)

lemma le_nat_le_bytes: "le_nat (le_bytes k n) = n mod 256 ^ k"
proof (induction k arbitrary: n)
  case (Suc k)
  have "n mod 256 ^ Suc k = n mod 256 + 256 * (n div 256 mod 256 ^ k)"
    by (simp add: mod_mult2_eq)
  then show ?case using Suc by (simp add: le_bytes_Suc unat_of_nat_byte)
qed (simp add: le_bytes_def)

lemma le_nat_le_bytes_small [simp]: "n < 256 ^ k \<Longrightarrow> le_nat (le_bytes k n) = n"
  by (simp add: le_nat_le_bytes)

lemma length_int_bytes [simp]: "length (int_bytes k v) = k"
  by (simp add: int_bytes_def)

lemma pow256: "(256::nat) ^ k = 2 ^ (8 * k)"
  by (simp add: power_mult)

lemma le_nat_int_bytes: "int (le_nat (int_bytes k v)) = v mod 2 ^ (8 * k)"
proof -
  have "v mod 2 ^ (8 * k) < 2 ^ (8 * k)" "0 \<le> v mod 2 ^ (8 * k)" by simp_all
  moreover have "int (nat (v mod 2 ^ (8 * k)) mod 256 ^ k) = v mod 2 ^ (8 * k)"
    by (simp add: pow256 zmod_int)
  ultimately show ?thesis by (simp add: int_bytes_def le_nat_le_bytes)
qed

lemma wrap_signed_mod: "wrap_signed n (v mod 2 ^ n) = wrap_signed n v"
  by (simp add: wrap_signed_def mod_simps)

lemma wrap_int_bytes:
  assumes "0 < k" "- (2 ^ (8 * k - 1)) \<le> v" "v < 2 ^ (8 * k - 1)"
  shows "wrap_signed (8 * k) (int (le_nat (int_bytes k v))) = v"
  using assms by (simp add: le_nat_int_bytes wrap_signed_mod wrap_signed_id)

lemma unsigned_int_bytes:
  "0 \<le> v \<Longrightarrow> v < 2 ^ (8 * k) \<Longrightarrow> int (le_nat (int_bytes k v)) = v"
  by (simp add: le_nat_int_bytes)

lemma int_bytes_nat: "int_bytes k (int n) = le_bytes k (n mod 256 ^ k)"
  by (simp add: int_bytes_def pow256 nat_mod_distrib nat_power_eq)

lemma length_array_bytes [simp]: "length (array_bytes k xs) = k * length xs"
  by (induction xs) (simp_all add: array_bytes_def)

lemma array_bytes_append: "array_bytes k (xs @ ys) = array_bytes k xs @ array_bytes k ys"
  by (simp add: array_bytes_def)

lemma array_bytes_nth:
  "i < length xs \<Longrightarrow> take k (drop (k * i) (array_bytes k xs)) = int_bytes k (xs ! i)"
proof (induction xs arbitrary: i)
  case (Cons x xs)
  show ?case
  proof (cases i)
    case 0
    then show ?thesis by (simp add: array_bytes_def)
  next
    case (Suc j)
    then show ?thesis using Cons by (simp add: array_bytes_def)
  qed
qed simp

lemma array_of_array_bytes:
  "array_of_bytes k (length xs) (array_bytes k xs) = map (\<lambda>x. le_nat (int_bytes k x)) xs"
  by (rule nth_equalityI) (simp_all add: array_of_bytes_def array_bytes_nth)

lemma take_array_bytes: "take (k * n) (array_bytes k xs) = array_bytes k (take n xs)"
proof (induction xs arbitrary: n)
  case (Cons x xs)
  then show ?case by (cases n) (simp_all add: array_bytes_def)
qed (simp add: array_bytes_def)

section \<open>Writing is appending\<close>

lemma put_bytes_append:
  fixes w :: byte_writer
  shows "bindE (put_bytes a w) (put_bytes b) = put_bytes (a @ b) w"
proof (cases "w_off w + length (a @ b) \<le> length (w_buf w)")
  case True
  let ?pre = "take (w_off w) (w_buf w)"
  obtain rest where buf: "w_buf w = ?pre @ rest" by (metis append_take_drop_id)
  have off: "length ?pre = w_off w" using True by simp
  have "length rest = length (w_buf w) - w_off w" using buf off by (metis add_diff_cancel_left' length_append)
  then have room: "length a + length b \<le> length rest" using True by simp
  define p where "p = ?pre"
  obtain o' where w: "w = \<lparr>w_buf = p @ rest, w_off = o'\<rparr>" "o' = length p"
    using buf off unfolding p_def by (cases w) simp
  show ?thesis using room unfolding w by (simp add: put_bytes_def add.commute)
next
  case False
  then show ?thesis by (auto simp: put_bytes_def)
qed

lemma put_bytes_nil [simp]: "w_off (w :: byte_writer) \<le> length (w_buf w) \<Longrightarrow> put_bytes [] w = Inr w"
  by (simp add: put_bytes_def)

text \<open>A write operation that always appends the same bytes.\<close>

definition emits :: "(byte_writer \<Rightarrow> io_error + byte_writer) \<Rightarrow> byte list \<Rightarrow> bool" where
  "emits f bs \<longleftrightarrow> (\<forall>w. w_off w + length bs \<le> length (w_buf w) \<longrightarrow> f w = put_bytes bs w)"

lemma emits_put [intro]: "emits (put_bytes bs) bs"
  by (simp add: emits_def)

lemma emits_seq:
  assumes "emits f a" "emits g b"
  shows "emits (\<lambda>w. bindE (f w) g) (a @ b)"
  unfolding emits_def
proof (intro allI impI)
  fix w :: byte_writer assume w: "w_off w + length (a @ b) \<le> length (w_buf w)"
  then obtain w1 where w1: "put_bytes a w = Inr w1" "w_off w1 = w_off w + length a"
      "length (w_buf w1) = length (w_buf w)"
    by (auto simp: put_bytes_def)
  then have "f w = Inr w1" "g w1 = put_bytes b w1" using assms w by (auto simp: emits_def)
  then show "bindE (f w) g = put_bytes (a @ b) w"
    using w1(1) put_bytes_append [of a w b] by simp
qed

lemma emits_w_u8: "emits (w_u8 n) (le_bytes 1 n)"
  and emits_w_u16: "emits (w_u16 n) (le_bytes 2 n)"
  and emits_w_u32: "emits (w_u32 n) (le_bytes 4 n)"
  and emits_w_i64: "emits (w_i64 v) (int_bytes 8 v)"
  and emits_w_bytes: "emits (w_bytes k xs n) (take n (array_bytes k xs))"
  by (simp_all add: w_u8_def w_u16_def w_u32_def w_i64_def w_bytes_def emits_put)

text \<open>Filling a buffer of exactly the emitted size succeeds and leaves those bytes in it.\<close>

lemma emits_exact:
  "emits f bs \<Longrightarrow> length buf = length bs \<Longrightarrow>
     f \<lparr>w_buf = buf, w_off = 0\<rparr> = Inr \<lparr>w_buf = bs, w_off = length bs\<rparr>"
  by (simp add: emits_def put_bytes_def)

section \<open>Reading back\<close>

text \<open>\<open>parses f bs v\<close>: positioned at \<open>bs\<close> inside any buffer, \<open>f\<close> returns \<open>v\<close> and stops after it.\<close>

definition parses :: "(byte_reader \<Rightarrow> io_error + 'a \<times> byte_reader) \<Rightarrow> byte list \<Rightarrow> 'a \<Rightarrow> bool" where
  "parses f bs v \<longleftrightarrow> (\<forall>pre post.
     f \<lparr>r_buf = pre @ bs @ post, r_off = length pre\<rparr>
       = Inr (v, \<lparr>r_buf = pre @ bs @ post, r_off = length pre + length bs\<rparr>))"

lemma parses_bind:
  assumes "parses f a x" "parses (g x) b y"
  shows "parses (\<lambda>r. bindE (f r) (\<lambda>(x, r'). g x r')) (a @ b) y"
  unfolding parses_def
proof (intro allI)
  fix pre post
  let ?buf = "pre @ (a @ b) @ post"
  have "f \<lparr>r_buf = ?buf, r_off = length pre\<rparr> = Inr (x, \<lparr>r_buf = ?buf, r_off = length pre + length a\<rparr>)"
    using assms(1) [unfolded parses_def, rule_format, of pre "b @ post"] by simp
  moreover have "g x \<lparr>r_buf = ?buf, r_off = length pre + length a\<rparr>
      = Inr (y, \<lparr>r_buf = ?buf, r_off = length pre + length a + length b\<rparr>)"
    using assms(2) [unfolded parses_def, rule_format, of "pre @ a" post] by simp
  ultimately show "bindE (f \<lparr>r_buf = ?buf, r_off = length pre\<rparr>) (\<lambda>(x, r'). g x r')
      = Inr (y, \<lparr>r_buf = ?buf, r_off = length pre + length (a @ b)\<rparr>)"
    by (simp add: add.assoc)
qed

lemma parses_return: "parses (\<lambda>r. Inr (v, r)) [] v"
  by (simp add: parses_def)

lemma parses_map:
  assumes "parses f a x"
  shows "parses (\<lambda>r. bindE (f r) (\<lambda>(x, r'). Inr (h x, r'))) a (h x)"
  using parses_bind [OF assms, of "\<lambda>x r. Inr (h x, r)" "[]" "h x"] by (simp add: parses_return)

lemma parses_uint: "n < 256 ^ k \<Longrightarrow> parses (r_uint k) (le_bytes k n) n"
  by (simp add: parses_def r_uint_def get_bytes_def)

lemma parses_u8: "n < 256 \<Longrightarrow> parses r_u8 (le_bytes 1 n) n"
  and parses_u16: "n < 65536 \<Longrightarrow> parses r_u16 (le_bytes 2 n) n"
  and parses_u32: "n < 2 ^ 32 \<Longrightarrow> parses r_u32 (le_bytes 4 n) n"
  unfolding r_u8_def r_u16_def r_u32_def by (rule parses_uint, simp)+

lemma parses_i64:
  assumes "- (2 ^ 63) \<le> v" "v < 2 ^ 63"
  shows "parses r_i64 (int_bytes 8 v) v"
proof -
  let ?n = "nat (v mod 2 ^ (8 * 8))"
  have "?n < 256 ^ 8" by (simp add: nat_less_iff)
  then have "parses (r_uint 8) (int_bytes 8 v) ?n"
    unfolding int_bytes_def by (rule parses_uint)
  from parses_map [OF this, of "\<lambda>n. wrap_signed 64 (int n)"]
  have p: "parses r_i64 (int_bytes 8 v) (wrap_signed 64 (int ?n))"
    unfolding r_i64_def [abs_def] .
  have "int ?n = v mod 2 ^ 64" by simp
  then have "wrap_signed 64 (int ?n) = wrap_signed 64 v" by (simp only: wrap_signed_mod)
  moreover have "wrap_signed 64 v = v" by (rule wrap_signed_id) (use assms in simp_all)
  ultimately show ?thesis using p by simp
qed

lemma parses_typed_u:
  assumes "\<And>x. x \<in> set xs \<Longrightarrow> 0 \<le> x \<and> x < 2 ^ (8 * k)" "length xs = n"
  shows "parses (\<lambda>r. Inr (r_typed_u k n r)) (array_bytes k xs) (map nat xs)"
proof -
  have "map (\<lambda>x. le_nat (int_bytes k x)) xs = map nat xs"
  proof (rule map_cong [OF refl])
    fix x assume "x \<in> set xs"
    then have "int (le_nat (int_bytes k x)) = x" using assms(1) [of x] by (intro unsigned_int_bytes) auto
    then show "le_nat (int_bytes k x) = nat x" by linarith
  qed
  then show ?thesis using array_of_array_bytes [of k xs] assms(2)
    by (simp add: parses_def r_typed_u_def typed_bytes_def)
qed

lemma parses_typed_s:
  assumes "\<And>x. x \<in> set xs \<Longrightarrow> - (2 ^ (8 * k - 1)) \<le> x \<and> x < 2 ^ (8 * k - 1)" "length xs = n" "0 < k"
  shows "parses (\<lambda>r. Inr (r_typed_s k n r)) (array_bytes k xs) xs"
proof -
  have "map (\<lambda>x. wrap_signed (8 * k) (int (le_nat (int_bytes k x)))) xs = xs"
    using assms(1,3) wrap_int_bytes [of k] by (simp add: map_idI)
  then show ?thesis using array_of_array_bytes [of k xs] assms(2)
    by (simp add: parses_def r_typed_s_def r_typed_u_def typed_bytes_def comp_def)
qed

section \<open>UTF-8 round trip\<close>

definition scalar_value :: "nat \<Rightarrow> bool" where
  "scalar_value c \<longleftrightarrow> c < 0xd800 \<or> 0xe000 \<le> c \<and> c < 0x110000"

text \<open>Well-formed UTF-16: every surrogate is half of a pair.\<close>

fun well_formed :: "ustr \<Rightarrow> bool" where
  "well_formed [] = True"
| "well_formed (u # rest) =
     (if is_high u then (case rest of [] \<Rightarrow> False | v # rest' \<Rightarrow> is_low v \<and> well_formed rest')
      else \<not> is_low u \<and> well_formed rest)"

lemma is_high_unat: "is_high u \<longleftrightarrow> 0xd800 \<le> unat u \<and> unat u \<le> 0xdbff"
  by (simp add: is_high_def word_le_nat_alt)

lemma is_low_unat: "is_low u \<longleftrightarrow> 0xdc00 \<le> unat u \<and> unat u \<le> 0xdfff"
  by (simp add: is_low_def word_le_nat_alt)

lemma unat16: "unat (u :: 16 word) < 0x10000"
  using unsigned_less [of u] by simp

lemma code_points_scalar: "c \<in> set (code_points s) \<Longrightarrow> scalar_value c"
proof (induction s rule: code_points.induct)
  case (2 u rest)
  show ?case
  proof (cases "is_high u")
    case True
    show ?thesis
    proof (cases rest)
      case Nil
      then show ?thesis using 2 True by (simp add: scalar_value_def)
    next
      case (Cons v rest')
      then show ?thesis using 2 True
        by (auto simp: scalar_value_def is_high_unat is_low_unat split: if_splits)
    qed
  next
    case False
    then show ?thesis using 2 unat16 [of u]
      by (auto simp: scalar_value_def is_high_unat is_low_unat split: if_splits)
  qed
qed simp

lemma length_utf8_bytes:
  "length (utf8_bytes c) = (if c < 0x80 then 1 else if c < 0x800 then 2 else if c < 0x10000 then 3 else 4)"
  by (simp add: utf8_bytes_def)

lemma utf8ByteLength_encode: "utf8ByteLength s = length (utf8_encode s)"
proof (induction s rule: utf8ByteLength.induct)
  case (2 u rest)
  have u: "u < 0x80 \<longleftrightarrow> unat u < 0x80" "u < 0x800 \<longleftrightarrow> unat u < 0x800"
    by (simp_all add: word_less_nat_alt)
  show ?case
  proof (cases "is_high u")
    case high: True
    then have ge: "\<not> unat u < 0x800" by (simp add: is_high_unat)
    show ?thesis
    proof (cases rest)
      case Nil
      then show ?thesis using high ge u by (simp add: utf8_encode_def length_utf8_bytes)
    next
      case (Cons v rest')
      then show ?thesis using 2 high ge u by (auto simp: utf8_encode_def length_utf8_bytes)
    qed
  next
    case False
    then show ?thesis using 2 u unat16 [of u]
      by (auto simp: utf8_encode_def length_utf8_bytes is_low_unat)
  qed
qed (simp add: utf8_encode_def)

lemma lead_byte:
  "q < 32 \<Longrightarrow> unat (of_nat (192 + q) :: byte) = 192 + q" "q < 32 \<Longrightarrow> (192 + q) mod 32 = q"
  "q < 16 \<Longrightarrow> unat (of_nat (224 + q) :: byte) = 224 + q" "q < 16 \<Longrightarrow> (224 + q) mod 16 = q"
  "q < 8 \<Longrightarrow> unat (of_nat (240 + q) :: byte) = 240 + q" "q < 8 \<Longrightarrow> (240 + q) mod 8 = q"
  "q < 64 \<Longrightarrow> unat (of_nat (128 + q) :: byte) = 128 + q" "q < 64 \<Longrightarrow> (128 + q) mod 64 = q"
  using mod_mult_self3 [of 6 32 q] mod_mult_self3 [of 14 16 q] mod_mult_self3 [of 30 8 q]
    mod_mult_self3 [of 2 64 q]
  unfolding unat_of_nat_byte by simp_all

lemma digits: "(c::nat) div 262144 = c div 64 div 64 div 64" "(c::nat) div 4096 = c div 64 div 64"
  by (simp_all add: div_mult2_eq [symmetric])

lemma decode_utf8_bytes:
  assumes "scalar_value c"
  shows "utf8_decode_loop 0 0 0x80 0xbf (utf8_bytes c @ bs) = c # utf8_decode_loop 0 0 0x80 0xbf bs"
proof -
  consider "c < 0x80" | "0x80 \<le> c" "c < 0x800" | "0x800 \<le> c" "c < 0x10000"
    | "0x10000 \<le> c" "c < 0x110000"
    using assms unfolding scalar_value_def by linarith
  then show ?thesis
  proof cases
    case 1
    then show ?thesis by (simp add: utf8_bytes_def unat_of_nat_byte)
  next
    case 2
    define q r where qr: "q = c div 64" "r = c mod 64"
    then have c: "c = q * 64 + r" "r < 64" by simp_all
    then have q: "2 \<le> q" "q < 32" using 2 by linarith+
    have bytes: "utf8_bytes c = [of_nat (192 + q), of_nat (128 + r)]"
      using 2 by (simp add: utf8_bytes_def qr)
    show ?thesis unfolding bytes using q c(2)
      by (simp del: of_nat_add add: lead_byte Let_def c(1) [symmetric])
  next
    case 3
    define p q r where pqr: "p = c div 4096" "q = c div 64 mod 64" "r = c mod 64"
    have c: "c = (p * 64 + q) * 64 + r" "r < 64" "q < 64"
      unfolding pqr digits(2) [of c] by simp_all
    then have sum: "c = 4096 * p + 64 * q + r" by simp
    then have p: "p < 16" using 3 by linarith
    have p0: "p = 0 \<Longrightarrow> 32 \<le> q" using 3 c(2,3) sum by linarith
    have d: "p = 13 \<Longrightarrow> q < 32" using assms c(2,3) sum unfolding scalar_value_def by linarith
    have bytes: "utf8_bytes c = [of_nat (224 + p), of_nat (128 + q), of_nat (128 + r)]"
      using 3 by (simp add: utf8_bytes_def pqr)
    show ?thesis unfolding bytes using p p0 c(2,3) d sum
      by (auto simp del: of_nat_add simp: lead_byte Let_def)
  next
    case 4
    define n p q r where npqr: "n = c div 262144" "p = c div 4096 mod 64" "q = c div 64 mod 64" "r = c mod 64"
    have c: "c = ((n * 64 + p) * 64 + q) * 64 + r" "r < 64" "q < 64" "p < 64"
      unfolding npqr digits [of c] by simp_all
    then have sum: "c = 262144 * n + 4096 * p + 64 * q + r" by simp
    then have n: "n < 5" using 4 by linarith
    have n0: "n = 0 \<Longrightarrow> 16 \<le> p" using 4 c(2,3) sum by linarith
    have n4: "n = 4 \<Longrightarrow> p < 16" using 4 c(2,3) sum by linarith
    have bytes: "utf8_bytes c = [of_nat (240 + n), of_nat (128 + p), of_nat (128 + q), of_nat (128 + r)]"
      using 4 by (simp add: utf8_bytes_def npqr)
    show ?thesis unfolding bytes using n n0 n4 c(2,3,4) sum
      by (auto simp del: of_nat_add simp: lead_byte Let_def)
  qed
qed

lemma decode_all:
  "\<forall>c\<in>set cs. scalar_value c \<Longrightarrow> utf8_decode_loop 0 0 0x80 0xbf (concat (map utf8_bytes cs)) = cs"
  by (induction cs) (simp_all add: decode_utf8_bytes)

lemma units_code_points: "well_formed s \<Longrightarrow> concat (map utf16_units (code_points s)) = s"
proof (induction s rule: code_points.induct)
  case (2 u rest)
  show ?case
  proof (cases "is_high u")
    case high: True
    then obtain v rest' where r: "rest = v # rest'" "is_low v" "well_formed rest'"
      using 2 by (auto split: list.splits)
    define a b where ab: "a = unat u - 0xd800" "b = unat v - 0xdc00"
    then have u: "unat u = 0xd800 + a" "unat v = 0xdc00 + b" "b < 0x400" "a < 0x400"
      using high r(2) unfolding is_high_unat is_low_unat by linarith+
    have "utf16_units (0x10000 + a * 0x400 + b) = [of_nat (unat u), of_nat (unat v)]"
      unfolding u(1,2) using u(3) by (simp add: utf16_units_def)
    then show ?thesis using 2 high r by (simp add: ab)
  next
    case False
    then show ?thesis using 2 unat16 [of u] by (simp add: utf16_units_def)
  qed
qed simp

text \<open>\<open>TextDecoder\<close> without \<open>ignoreBOM\<close> drops a leading U+FEFF.\<close>

lemma code_points_head: "well_formed s \<Longrightarrow> code_points s = 0xfeff # cs \<Longrightarrow> \<exists>t. s = 0xfeff # t"
proof -
  assume a: "well_formed s" "code_points s = 0xfeff # cs"
  have "s = concat (map utf16_units (code_points s))" using units_code_points [OF a(1)] by simp
  then show ?thesis unfolding a(2) by (simp add: utf16_units_def)
qed

lemma utf8_decode_encode:
  assumes "well_formed s" "s = [] \<or> hd s \<noteq> 0xfeff"
  shows "utf8_decode (utf8_encode s) = s"
proof -
  have loop: "utf8_decode_loop 0 0 0x80 0xbf (utf8_encode s) = code_points s"
    unfolding utf8_encode_def using code_points_scalar by (intro decode_all) blast
  have "code_points s \<noteq> 0xfeff # cs" for cs
    using code_points_head [OF assms(1), of cs] assms(2) by auto
  then show ?thesis
    using units_code_points [OF assms(1)]
    by (auto simp: utf8_decode_def loop Let_def split: list.splits)
qed

lemma utf8_decode_bom: "utf8_decode (utf8_encode [0xfeff]) = []"
  by (simp add: utf8_encode_def utf8_bytes_def utf8_decode_def is_high_unat is_low_unat unat_of_nat_byte)

text \<open>\<open>encodeInto\<close> with room for the whole string writes the whole string.\<close>

lemma encode_into_all:
  "length (concat (map utf8_bytes cs)) \<le> room \<Longrightarrow> encode_into room cs = concat (map utf8_bytes cs)"
  by (induction cs arbitrary: room) (simp_all add: Let_def)

definition utf8_record :: "ustr \<Rightarrow> byte list" where
  "utf8_record s = le_bytes 4 (length (utf8_encode s)) @ utf8_encode s"

lemma length_utf8_record: "length (utf8_record s) = utf8RecordBytes s"
  by (simp add: utf8_record_def utf8RecordBytes_def utf8ByteLength_encode)

lemma emits_w_utf8: "emits (w_utf8 s) (utf8_record s)"
  unfolding emits_def
proof (intro allI impI)
  fix w :: byte_writer
  assume w: "w_off w + length (utf8_record s) \<le> length (w_buf w)"
  then have "encode_into (length (w_buf w) - (w_off w + 4)) (code_points s) = utf8_encode s"
    unfolding utf8_encode_def by (intro encode_into_all) (auto simp: utf8_record_def utf8_encode_def)
  then show "w_utf8 s w = put_bytes (utf8_record s) w"
    unfolding w_utf8_def Let_def utf8_record_def w_u32_def by (simp add: put_bytes_append)
qed

lemma parses_utf8:
  assumes "well_formed s" "s = [] \<or> hd s \<noteq> 0xfeff" "utf8ByteLength s < 2 ^ 32"
  shows "parses r_utf8 (utf8_record s) s"
proof -
  let ?n = "length (utf8_encode s)"
  have n: "parses r_u32 (le_bytes 4 ?n) ?n"
    using assms(3) by (intro parses_u32) (simp add: utf8ByteLength_encode)
  have "parses (\<lambda>r1. Inr (utf8_decode (take ?n (drop (r_off r1) (r_buf r1))), r1\<lparr>r_off := r_off r1 + ?n\<rparr>))
      (utf8_encode s) s"
    using utf8_decode_encode [OF assms(1,2)] by (simp add: parses_def)
  with n show ?thesis unfolding r_utf8_def [abs_def] utf8_record_def
    by (rule parses_bind [where g = "\<lambda>n r1. Inr (utf8_decode (take n (drop (r_off r1) (r_buf r1))),
          r1\<lparr>r_off := r_off r1 + n\<rparr>)"])
qed

end
