(* ===== verification/IntegerValues.thy ===== *)
theory IntegerValues
  imports JsValue
begin

text \<open>
  \<open>src/storage/encoding/integer-values.ts\<close> and the records of \<open>encoding-types.ts\<close>: the integer
  arrays the column encoders work on, and the one-pass statistics that choose an encoder.

  An \<open>IntegerArray\<close> is an \<open>Int32Array\<close> (for INT32) or a \<open>BigInt64Array\<close> (for INT64); it is a
  list of integers, every store goes through \<open>store_int\<close> (which wraps to the element width),
  and \<open>int_value\<close> is what reading an element gives: a number or a bigint.
\<close>

datatype encoding_kind = RUN_LENGTH | BIT_PACKED | FRAME_OF_REFERENCE

record int_stats =
  st_length :: nat
  runCount :: nat
  st_min :: int
  st_max :: int

record encodable =
  e_type :: data_type
  e_length :: nat
  e_values :: "int list"
  e_stats :: int_stats

record encoding_plan =
  p_bytes :: nat
  p_withinThreshold :: bool

definition isWideInteger :: "data_type \<Rightarrow> bool" where
  "isWideInteger t \<longleftrightarrow> t = INT64"

definition ENCODABLE_TYPES :: "data_type set" where
  "ENCODABLE_TYPES = {INT32, INT64}"

definition int_bits :: "data_type \<Rightarrow> nat" where
  "int_bits t = (if isWideInteger t then 64 else 32)"

definition integerArray :: "data_type \<Rightarrow> nat \<Rightarrow> int list" where
  "integerArray t n = replicate n 0"

definition store_int :: "data_type \<Rightarrow> int \<Rightarrow> int" where
  "store_int t v = wrap_signed (int_bits t) v"

definition int_value :: "data_type \<Rightarrow> int \<Rightarrow> column_value" where
  "int_value t v = (if isWideInteger t then VBig v else VNum (Fin (of_int v)))"

definition in_range :: "data_type \<Rightarrow> int \<Rightarrow> bool" where
  "in_range t v \<longleftrightarrow> - (2 ^ (int_bits t - 1)) \<le> v \<and> v < 2 ^ (int_bits t - 1)"

lemmas integer_defs [qe_defs] =
  isWideInteger_def int_bits_def integerArray_def store_int_def int_value_def in_range_def

lemma store_int_id [simp]: "in_range t v \<Longrightarrow> store_int t v = v"
  unfolding store_int_def in_range_def
  by (rule wrap_signed_id) (auto simp: int_bits_def)

lemma length_integerArray [simp]: "length (integerArray t n) = n"
  by (simp add: integerArray_def)

section \<open>The statistics pass\<close>

text \<open>
  \<open>scanValues\<close>: the loop state is \<open>(min, max, previous, runCount)\<close>; the first value starts it.
\<close>

definition scan_step :: "int list \<Rightarrow> nat \<Rightarrow> int \<times> int \<times> int \<times> nat \<Rightarrow> int \<times> int \<times> int \<times> nat" where
  "scan_step values index = (\<lambda>(mn, mx, previous, runs).
     let v = values ! index;
         mn' = (if v < mn then v else mn);
         mx' = (if v < mn then mx else if v > mx then v else mx)
     in if v \<noteq> previous then (mn', mx', v, runs + 1) else (mn', mx', previous, runs))"

definition scanValues :: "int list \<Rightarrow> nat \<Rightarrow> int \<times> int \<times> nat" where
  "scanValues values n =
     (let (mn, mx, _, runs) =
        fold (scan_step values) [1..<n] (values ! 0, values ! 0, values ! 0, 1)
      in (mn, mx, runs))"

definition summarizeIntegers :: "int list \<Rightarrow> nat \<Rightarrow> int_stats" where
  "summarizeIntegers values n =
     (let (mn, mx, runs) = scanValues values n
      in \<lparr>st_length = n, runCount = runs, st_min = mn, st_max = mx\<rparr>)"

text \<open>The runs of a list are \<open>remdups_adj\<close> of it.\<close>

lemma remdups_adj_snoc:
  "remdups_adj (xs @ [x]) =
     (if xs \<noteq> [] \<and> last xs = x then remdups_adj xs else remdups_adj xs @ [x])"
  by (induction xs rule: remdups_adj.induct) auto

lemma remdups_adj_take_Suc:
  assumes "0 < k" "k < length xs"
  shows "remdups_adj (take (Suc k) xs) =
     (if xs ! (k - 1) = xs ! k then remdups_adj (take k xs) else remdups_adj (take k xs) @ [xs ! k])"
proof -
  have "take (Suc k) xs = take k xs @ [xs ! k]" using assms by (simp add: take_Suc_conv_app_nth)
  moreover have ne: "take k xs \<noteq> []" using assms by auto
  moreover have "last (take k xs) = xs ! (k - 1)"
    using assms last_conv_nth [OF ne] by (simp add: min_def)
  ultimately show ?thesis by (simp add: remdups_adj_snoc)
qed

lemma Min_insert_if:
  fixes v :: int
  assumes "finite S" "S \<noteq> {}"
  shows "Min (insert v S) = (if v < Min S then v else Min S)"
proof -
  obtain m where m: "Min S = m" by blast
  show ?thesis unfolding Min_insert [OF assms] m by (simp add: min_def)
qed

lemma Max_insert_if:
  fixes v :: int
  assumes "finite S" "S \<noteq> {}" "Min S \<le> Max S"
  shows "Max (insert v S) = (if v < Min S then Max S else if v > Max S then v else Max S)"
proof -
  obtain m M where m: "Min S = m" "Max S = M" by blast
  then show ?thesis using assms(3) unfolding Max_insert [OF assms(1,2)] m by (simp add: max_def)
qed

lemma scanValues_correct:
  assumes "0 < n" "n \<le> length values"
  shows "scanValues values n =
    (Min (set (take n values)), Max (set (take n values)), length (remdups_adj (take n values)))"
proof -
  let ?P = "\<lambda>k (mn, mx, prev, runs). mn = Min (set (take k values)) \<and> mx = Max (set (take k values))
      \<and> prev = values ! (k - 1) \<and> runs = length (remdups_adj (take k values))"
  have one: "take (Suc 0) values = [values ! 0]"
    using assms by (cases "values") auto
  have "?P n (fold (scan_step values) [1..<n] (values ! 0, values ! 0, values ! 0, 1))"
  proof (rule fold_upt_invariant [where P = ?P])
    show "?P 1 (values ! 0, values ! 0, values ! 0, 1)" using one by simp
    show "1 \<le> n" using assms by simp
    fix k and s :: "int \<times> int \<times> int \<times> nat"
    assume k: "1 \<le> k" "k < n" and P: "?P k s"
    obtain mn mx prev runs where s: "s = (mn, mx, prev, runs)" by (cases s) auto
    have ne: "set (take k values) \<noteq> {}" using k assms by auto
    have take: "set (take (Suc k) values) = insert (values ! k) (set (take k values))"
      using k assms by (simp add: take_Suc_conv_app_nth)
    let ?S = "set (take k values)" and ?v = "values ! k"
    have "Min ?S \<in> ?S" using ne by (intro Min_in) simp_all
    then have mM: "Min ?S \<le> Max ?S" by (intro Max_ge) simp_all
    have mn: "Min (insert ?v ?S) = (if ?v < Min ?S then ?v else Min ?S)"
      by (rule Min_insert_if) (use ne in simp_all)
    have mx: "Max (insert ?v ?S) = (if ?v < Min ?S then Max ?S else if ?v > Max ?S then ?v else Max ?S)"
      by (rule Max_insert_if) (use ne mM in simp_all)
    have "?v \<noteq> prev \<longleftrightarrow> values ! (k - 1) \<noteq> values ! k" using P s by auto
    moreover have "length (remdups_adj (take (Suc k) values))
        = (if values ! (k - 1) = values ! k then runs else runs + 1)"
      using remdups_adj_take_Suc [of k "values"] k assms P s by simp
    ultimately show "?P (Suc k) (scan_step values k s)"
      using P unfolding s scan_step_def Let_def take mn mx by (simp split: if_split)
  qed
  then show ?thesis unfolding scanValues_def by (auto split: prod.splits)
qed

lemma summarizeIntegers_correct:
  assumes "0 < n" "n \<le> length values"
  shows "summarizeIntegers values n =
    \<lparr>st_length = n, runCount = length (remdups_adj (take n values)),
     st_min = Min (set (take n values)), st_max = Max (set (take n values))\<rparr>"
  using scanValues_correct [OF assms] by (simp add: summarizeIntegers_def)

section \<open>Sources handed to an encoder\<close>

text \<open>
  What \<open>encodeColumnValues\<close> builds: the values of a column of an encodable type, at least one,
  each in the range of its typed array, with the statistics of those values. The bound on the
  length keeps every bit position below \<open>2^32\<close> (a chunk has 2048 rows by default).
\<close>

definition encodable_of :: "data_type \<Rightarrow> int list \<Rightarrow> nat \<Rightarrow> encodable" where
  "encodable_of t values n =
     \<lparr>e_type = t, e_length = n, e_values = values, e_stats = summarizeIntegers values n\<rparr>"

definition valid_source :: "encodable \<Rightarrow> bool" where
  "valid_source src \<longleftrightarrow>
     e_type src \<in> ENCODABLE_TYPES \<and> 0 < e_length src \<and> e_length src \<le> length (e_values src)
     \<and> e_length src < 2 ^ 27
     \<and> list_all (in_range (e_type src)) (e_values src)
     \<and> e_stats src = summarizeIntegers (e_values src) (e_length src)"

lemma valid_source_range:
  "valid_source src \<Longrightarrow> i < e_length src \<Longrightarrow> in_range (e_type src) (e_values src ! i)"
  by (auto simp: valid_source_def list_all_length)

lemma valid_source_stats:
  assumes "valid_source src"
  shows "st_length (e_stats src) = e_length src"
    "runCount (e_stats src) = length (remdups_adj (take (e_length src) (e_values src)))"
    "st_min (e_stats src) = Min (set (take (e_length src) (e_values src)))"
    "st_max (e_stats src) = Max (set (take (e_length src) (e_values src)))"
  using assms by (auto simp: valid_source_def summarizeIntegers_correct)

lemma valid_source_bounds:
  assumes "valid_source src" "i < e_length src"
  shows "st_min (e_stats src) \<le> e_values src ! i" "e_values src ! i \<le> st_max (e_stats src)"
proof -
  have "e_values src ! i \<in> set (take (e_length src) (e_values src))"
    using assms by (auto simp: valid_source_def in_set_conv_nth intro: exI [of _ i])
  then show "st_min (e_stats src) \<le> e_values src ! i" "e_values src ! i \<le> st_max (e_stats src)"
    using valid_source_stats [OF assms(1)] by simp_all
qed

lemma valid_source_min_in:
  assumes "valid_source src"
  shows "\<exists>i<e_length src. st_min (e_stats src) = e_values src ! i"
proof -
  have "set (take (e_length src) (e_values src)) \<noteq> {}" using assms by (auto simp: valid_source_def)
  then have "Min (set (take (e_length src) (e_values src))) \<in> set (take (e_length src) (e_values src))"
    by (intro Min_in) simp_all
  then show ?thesis using valid_source_stats [OF assms] by (auto simp: in_set_conv_nth)
qed

lemma int_value_inj: "int_value t a = int_value t b \<longleftrightarrow> a = b"
  by (simp add: int_value_def)

end
