(* ===== verification/RunLength.thy ===== *)
theory RunLength
  imports IntegerValues
begin

text \<open>
  \<open>src/storage/encoding/run-length.ts\<close>: a column as its runs, each a start position (kept in a
  \<open>Uint32Array\<close>) and a value. Reading one row searches the run starts by bisection.
\<close>

record run_length_vector =
  rl_type :: data_type
  rl_length :: nat
  runStarts :: "32 word list"
  runValues :: "int list"

definition RUN_HEADER_BYTES :: nat where
  "RUN_HEADER_BYTES = 4"

text \<open>
  \<open>collectRuns\<close>: one iteration. \<open>runValues[run]\<close> past the end is \<open>undefined\<close>, equal to no value.
\<close>

definition collect_step ::
  "data_type \<Rightarrow> int list \<Rightarrow> nat \<Rightarrow> nat \<times> 32 word list \<times> int list \<Rightarrow> nat \<times> 32 word list \<times> int list" where
  "collect_step t values index = (\<lambda>(run, starts, vals).
     let v = values ! index
     in if run < length vals \<and> v = vals ! run then (run, starts, vals)
        else (run + 1, starts[run + 1 := of_nat index], vals[run + 1 := store_int t v]))"

definition collectRuns ::
  "data_type \<Rightarrow> int list \<Rightarrow> nat \<Rightarrow> 32 word list \<Rightarrow> int list \<Rightarrow> 32 word list \<times> int list" where
  "collectRuns t values n starts vals =
     snd (fold (collect_step t values) [1..<n]
            (0, starts[0 := 0], vals[0 := store_int t (values ! 0)]))"

text \<open>\<open>expandRuns\<close>: run by run, \<open>target.fill\<close> up to the next start.\<close>

definition expand_step ::
  "32 word list \<Rightarrow> int list \<Rightarrow> nat \<Rightarrow> nat \<Rightarrow> int list \<Rightarrow> int list" where
  "expand_step starts vals n run target =
     (let stop = (if run + 1 < length starts then unat (starts ! (run + 1)) else n)
      in fill_range target (vals ! run) (unat (starts ! run)) stop)"

definition expandRuns :: "int list \<Rightarrow> 32 word list \<Rightarrow> int list \<Rightarrow> nat \<Rightarrow> int list" where
  "expandRuns target starts vals n =
     fold (expand_step starts vals n) [0..<length starts] target"

text \<open>\<open>runIndexOf\<close>: the bisection loop over \<open>low .. high\<close>.\<close>

function run_index_loop :: "32 word list \<Rightarrow> nat \<Rightarrow> nat \<Rightarrow> nat \<Rightarrow> nat" where
  "run_index_loop starts index low high =
     (if low < high then
        let mid = (low + high + 1) div 2
        in if unat (starts ! mid) \<le> index then run_index_loop starts index mid high
           else run_index_loop starts index low (mid - 1)
      else low)"
  by pat_completeness auto
termination
  by (relation "measure (\<lambda>(starts, index, low, high). high - low)") auto

declare run_index_loop.simps [simp del]

definition rl_runIndexOf :: "run_length_vector \<Rightarrow> nat \<Rightarrow> nat" where
  "rl_runIndexOf v index = run_index_loop (runStarts v) index 0 (length (runStarts v) - 1)"

definition rl_valueAt :: "run_length_vector \<Rightarrow> nat \<Rightarrow> column_value" where
  "rl_valueAt v index = int_value (rl_type v) (runValues v ! rl_runIndexOf v index)"

definition rl_decode :: "run_length_vector \<Rightarrow> int list" where
  "rl_decode v =
     expandRuns (integerArray (rl_type v) (rl_length v)) (runStarts v) (runValues v) (rl_length v)"

definition rl_byteSize :: "run_length_vector \<Rightarrow> nat" where
  "rl_byteSize v =
     RUN_HEADER_BYTES + 4 * length (runStarts v) + byteWidthFor (rl_type v) * length (runValues v)"

definition rl_plan :: "jsnum \<Rightarrow> int_stats \<Rightarrow> data_type \<Rightarrow> encoding_plan" where
  "rl_plan maxRunRatio stats t =
     \<lparr>p_bytes = RUN_HEADER_BYTES + runCount stats * (4 + byteWidthFor t),
      p_withinThreshold =
        js_le (Fin (of_nat (runCount stats))) (js_mul (Fin (of_nat (st_length stats))) maxRunRatio)\<rparr>"

definition rl_encode :: "encodable \<Rightarrow> run_length_vector" where
  "rl_encode src =
     (let n = runCount (e_stats src);
          (starts, vals) = collectRuns (e_type src) (e_values src) (e_length src)
             (replicate n 0) (integerArray (e_type src) n)
      in \<lparr>rl_type = e_type src, rl_length = e_length src, runStarts = starts, runValues = vals\<rparr>)"

section \<open>What the collected runs mean\<close>

text \<open>
  \<open>runs_describe xs k starts vals m\<close>: the first \<open>m\<close> runs cover positions \<open>0 ..< k\<close> of \<open>xs\<close>,
  their starts increase, and every position holds its run's value.
\<close>

definition run_end :: "32 word list \<Rightarrow> nat \<Rightarrow> nat \<Rightarrow> nat \<Rightarrow> nat" where
  "run_end starts m k j = (if j + 1 < m then unat (starts ! (j + 1)) else k)"

definition runs_describe :: "int list \<Rightarrow> nat \<Rightarrow> 32 word list \<Rightarrow> int list \<Rightarrow> nat \<Rightarrow> bool" where
  "runs_describe xs k starts vals m \<longleftrightarrow>
     0 < m \<and> m \<le> length starts \<and> length vals = length starts \<and> unat (starts ! 0) = 0
     \<and> (\<forall>j<m. unat (starts ! j) < run_end starts m k j)
     \<and> (\<forall>j<m. \<forall>i. unat (starts ! j) \<le> i \<and> i < run_end starts m k j \<longrightarrow> xs ! i = vals ! j)"

lemma runs_describe_extend:
  assumes "runs_describe xs k starts vals m" "xs ! k = vals ! (m - 1)"
  shows "runs_describe xs (Suc k) starts vals m"
proof -
  from assms(1) have m: "0 < m" by (simp add: runs_describe_def)
  have re: "run_end starts m (Suc k) j = (if j = m - 1 then Suc k else run_end starts m k j)"
    if "j < m" for j
    using that m by (auto simp: run_end_def)
  have le: "run_end starts m k (m - 1) = k" using m by (simp add: run_end_def)
  have "unat (starts ! (m - 1)) < k"
    using assms(1) m le unfolding runs_describe_def by (metis diff_less zero_less_one)
  then show ?thesis
    using assms le unfolding runs_describe_def by (auto simp: re less_Suc_eq)
qed

lemma runs_describe_new:
  assumes d: "runs_describe xs k starts vals m" and m: "m < length starts" and k: "k < 2 ^ 32"
  shows "runs_describe xs (Suc k) (starts[m := of_nat k]) (vals[m := xs ! k]) (Suc m)"
proof -
  have uk: "unat (of_nat k :: 32 word) = k" using k by (simp add: unat_of_nat_small)
  have re: "run_end (starts[m := of_nat k]) (Suc m) (Suc k) j
      = (if j = m then Suc k else run_end starts m k j)" if "j < Suc m" for j
    using that m uk by (auto simp: run_end_def nth_list_update)
  show ?thesis
    using d m uk unfolding runs_describe_def by (auto simp: re nth_list_update less_Suc_eq)
qed

lemma runs_describe_last:
  assumes "runs_describe xs k starts vals (Suc r)"
  shows "unat (starts ! r) < k \<and> xs ! (k - 1) = vals ! r"
proof -
  have e: "run_end starts (Suc r) k r = k" by (simp add: run_end_def)
  then have lt: "unat (starts ! r) < k"
    using assms unfolding runs_describe_def by (metis lessI)
  moreover have "xs ! i = vals ! r" if "unat (starts ! r) \<le> i" "i < k" for i
    using assms that e unfolding runs_describe_def by (metis lessI)
  ultimately show ?thesis by simp
qed

lemma collectRuns_describe:
  assumes src: "valid_source src"
  defines "r \<equiv> collectRuns (e_type src) (e_values src) (e_length src)
     (replicate (runCount (e_stats src)) 0) (integerArray (e_type src) (runCount (e_stats src)))"
  shows "length (fst r) = runCount (e_stats src)
    \<and> runs_describe (e_values src) (e_length src) (fst r) (snd r) (runCount (e_stats src))"
proof -
  let ?t = "e_type src" and ?xs = "e_values src" and ?n = "e_length src"
  let ?R = "runCount (e_stats src)"
  let ?runs = "\<lambda>k. length (remdups_adj (take k ?xs))"
  have n: "0 < ?n" "?n \<le> length ?xs" "?n < 2 ^ 27" using src by (auto simp: valid_source_def)
  have R: "?R = ?runs ?n" using valid_source_stats [OF src] by simp
  have step: "?runs (Suc k) = (if ?xs ! (k - 1) = ?xs ! k then ?runs k else Suc (?runs k))"
    if "1 \<le> k" "k < ?n" for k
    using that n remdups_adj_take_Suc [of k ?xs] by simp
  have mono: "?runs a \<le> ?runs b" if "1 \<le> a" "a \<le> b" "b \<le> ?n" for a b
    using that(2,1,3)
  proof (induction b rule: dec_induct)
    case (step k)
    then show ?case using \<open>\<And>k. _ \<Longrightarrow> _ \<Longrightarrow> ?runs (Suc k) = _\<close> [of k] by (auto split: if_splits)
  qed simp
  have one: "?runs 1 = 1" using n by (cases ?xs) auto
  have nonempty: "?xs \<noteq> []" using n by auto
  let ?P = "\<lambda>k (run, starts, vals). Suc run = ?runs k \<and> length starts = ?R
      \<and> runs_describe ?xs k starts vals (Suc run)"
  have "?P ?n (fold (collect_step ?t ?xs) [1..<?n]
      (0, (replicate ?R 0)[0 := 0], (integerArray ?t ?R)[0 := store_int ?t (?xs ! 0)]))"
  proof (rule fold_upt_invariant [where P = ?P])
    have "0 < ?R" using R mono [of 1 ?n] one n nonempty by simp
    then show "?P 1 (0, (replicate ?R 0)[0 := 0], (integerArray ?t ?R)[0 := store_int ?t (?xs ! 0)])"
      using one n nonempty valid_source_range [OF src, of 0]
      by (simp add: runs_describe_def run_end_def)
    show "1 \<le> ?n" using n by simp
    fix k and s :: "nat \<times> 32 word list \<times> int list"
    assume k: "1 \<le> k" "k < ?n" and P: "?P k s"
    obtain run starts vals where s: "s = (run, starts, vals)" by (cases s) auto
    have d: "runs_describe ?xs k starts vals (Suc run)" and run: "Suc run = ?runs k"
      and len: "length starts = ?R" using P s by auto
    have last: "?xs ! (k - 1) = vals ! run" using runs_describe_last [OF d] by simp
    have lv: "run < length vals" using d by (simp add: runs_describe_def)
    show "?P (Suc k) (collect_step ?t ?xs k s)"
    proof (cases "?xs ! k = vals ! run")
      case True
      then have "runs_describe ?xs (Suc k) starts vals (Suc run)"
        using runs_describe_extend [OF d] by simp
      then show ?thesis using True s lv run len step [OF k] last
        by (simp add: collect_step_def)
    next
      case False
      then have runs: "?runs (Suc k) = Suc (Suc run)" using step [OF k] last run by auto
      then have "Suc run < length starts"
        using mono [of "Suc k" ?n] k R len by simp
      then show ?thesis
        using s False runs len runs_describe_new [OF d] k n valid_source_range [OF src, of k]
        by (simp add: collect_step_def Let_def)
    qed
  qed
  then show ?thesis unfolding r_def collectRuns_def using R
    by (auto split: prod.splits)
qed

section \<open>Decoding and random access\<close>

lemma runs_describe_mono:
  assumes "runs_describe xs k starts vals m" "i \<le> j" "j < m"
  shows "unat (starts ! i) \<le> unat (starts ! j)"
  using assms(2,3)
proof (induction j rule: dec_induct)
  case (step n)
  have "unat (starts ! n) < run_end starts m k n"
    using assms(1) step by (simp add: runs_describe_def)
  then show ?case using step by (simp add: run_end_def)
qed simp

lemma expandRuns_describe:
  assumes d: "runs_describe xs n starts vals (length starts)" and len: "length target = n"
  shows "expandRuns target starts vals n = take n xs \<or> length xs < n"
proof (cases "length xs < n")
  case False
  let ?m = "length starts"
  let ?P = "\<lambda>j t. length t = n \<and> (\<forall>i. i < (if j < ?m then unat (starts ! j) else n) \<longrightarrow> t ! i = xs ! i)"
  have "?P ?m (fold (expand_step starts vals n) [0..<?m] target)"
  proof (rule fold_upt_invariant [where P = ?P])
    show "?P 0 target" using d len by (simp add: runs_describe_def)
    show "0 \<le> ?m" by simp
    fix j t assume j: "0 \<le> j" "j < ?m" and P: "?P j t"
    have stop: "(if j + 1 < ?m then unat (starts ! (j + 1)) else n) = run_end starts ?m n j"
      by (simp add: run_end_def)
    have val: "xs ! i = vals ! j" if "unat (starts ! j) \<le> i" "i < run_end starts ?m n j" for i
      using d j that unfolding runs_describe_def by blast
    have le: "run_end starts ?m n j \<le> n"
    proof (cases "j + 1 < ?m")
      case True
      have "unat (starts ! (j + 1)) \<le> unat (starts ! (?m - 1))"
        by (rule runs_describe_mono [OF d]) (use True in auto)
      also have "\<dots> < run_end starts ?m n (?m - 1)" using d j by (simp add: runs_describe_def)
      also have "\<dots> = n"
      proof -
        have "\<not> ?m - 1 + 1 < ?m" using j by linarith
        then show ?thesis by (simp only: run_end_def if_False)
      qed
      finally show ?thesis using True by (simp add: run_end_def)
    qed (simp add: run_end_def)
    have e: "expand_step starts vals n j t
        = fill_range t (vals ! j) (unat (starts ! j)) (run_end starts ?m n j)"
      by (simp only: expand_step_def Let_def stop)
    have upto: "(if Suc j < ?m then unat (starts ! Suc j) else n) = run_end starts ?m n j"
      by (simp add: run_end_def)
    have "fill_range t (vals ! j) (unat (starts ! j)) (run_end starts ?m n j) ! i = xs ! i"
      if "i < run_end starts ?m n j" for i
      using that val [of i] le P j by (cases "unat (starts ! j) \<le> i") auto
    then show "?P (Suc j) (expand_step starts vals n j t)"
      using P unfolding e upto by simp
  qed
  then show ?thesis using False unfolding expandRuns_def
    by (intro disjI1 nth_equalityI) auto
qed simp

text \<open>The bisection ends at the last run that starts at or before the index.\<close>

lemma run_index_loop_spec:
  assumes "low \<le> high" "high < m" "unat (starts ! low) \<le> index"
    and "\<And>i j. i \<le> j \<Longrightarrow> j < m \<Longrightarrow> unat (starts ! i) \<le> unat (starts ! j)"
    and "\<And>j. high < j \<Longrightarrow> j < m \<Longrightarrow> index < unat (starts ! j)"
  shows "run_index_loop starts index low high < m
    \<and> unat (starts ! run_index_loop starts index low high) \<le> index
    \<and> (\<forall>j. run_index_loop starts index low high < j \<longrightarrow> j < m \<longrightarrow> index < unat (starts ! j))"
  using assms
proof (induction starts index low high rule: run_index_loop.induct)
  case (1 starts index low high)
  show ?case
  proof (cases "low < high")
    case True
    let ?mid = "(low + high + 1) div 2"
    have mid: "low < ?mid" "?mid \<le> high" using True by auto
    show ?thesis
    proof (cases "unat (starts ! ?mid) \<le> index")
      case le: True
      have "run_index_loop starts index low high = run_index_loop starts index ?mid high"
        using True le by (subst run_index_loop.simps) simp
      then show ?thesis using "1.IH"(1) [OF True refl le] mid "1.prems" le by simp
    next
      case gt: False
      have eq: "run_index_loop starts index low high = run_index_loop starts index low (?mid - 1)"
        using True gt by (subst run_index_loop.simps) simp
      have "index < unat (starts ! j)" if "?mid - 1 < j" "j < m" for j
      proof -
        have "unat (starts ! ?mid) \<le> unat (starts ! j)" using "1.prems"(4) that by simp
        then show ?thesis using gt by linarith
      qed
      moreover have "low \<le> ?mid - 1" "?mid - 1 < m" using mid "1.prems" by linarith+
      ultimately show ?thesis unfolding eq
        using "1.IH"(2) [OF True refl gt] "1.prems" by blast
    qed
  next
    case False
    then have "low = high" using "1.prems" by simp
    then show ?thesis using "1.prems" by (simp add: run_index_loop.simps [of starts index high high])
  qed
qed

lemma rl_encode_describe:
  assumes "valid_source src"
  shows "rl_type (rl_encode src) = e_type src" "rl_length (rl_encode src) = e_length src"
    "runs_describe (e_values src) (e_length src) (runStarts (rl_encode src))
       (runValues (rl_encode src)) (length (runStarts (rl_encode src)))"
    "length (runStarts (rl_encode src)) = runCount (e_stats src)"
  using collectRuns_describe [OF assms]
  by (auto simp: rl_encode_def Let_def split: prod.splits)

lemma rl_decode_encode:
  assumes "valid_source src"
  shows "rl_decode (rl_encode src) = take (e_length src) (e_values src)"
proof -
  have "e_length src \<le> length (e_values src)" using assms by (simp add: valid_source_def)
  then show ?thesis
    using expandRuns_describe [OF rl_encode_describe(3) [OF assms], of "integerArray (e_type src) (e_length src)"]
      rl_encode_describe(1,2) [OF assms]
    by (auto simp: rl_decode_def)
qed

lemma rl_valueAt_encode:
  assumes src: "valid_source src" and i: "i < e_length src"
  shows "rl_valueAt (rl_encode src) i = int_value (e_type src) (e_values src ! i)"
proof -
  let ?v = "rl_encode src"
  let ?s = "runStarts ?v" and ?m = "length (runStarts (rl_encode src))"
  note d = rl_encode_describe(3) [OF src]
  let ?r = "rl_runIndexOf ?v i"
  have "?r < ?m \<and> unat (?s ! ?r) \<le> i \<and> (\<forall>j. ?r < j \<longrightarrow> j < ?m \<longrightarrow> i < unat (?s ! j))"
    unfolding rl_runIndexOf_def
    by (rule run_index_loop_spec) (use d runs_describe_mono [OF d] in \<open>auto simp: runs_describe_def\<close>)
  then have r: "?r < ?m" "unat (?s ! ?r) \<le> i" "i < run_end ?s ?m (e_length src) ?r"
    using i by (auto simp: run_end_def)
  then have "e_values src ! i = runValues ?v ! ?r"
    using d unfolding runs_describe_def by blast
  then show ?thesis using rl_encode_describe(1) [OF src] by (simp add: rl_valueAt_def)
qed

end
