(* ===== verification/BitPacked.thy ===== *)
theory BitPacked
  imports IntegerValues
begin

text \<open>
  \<open>src/storage/encoding/bit-packed.ts\<close>: non-negative values of at most 32 bits, packed at a fixed
  bit width into a \<open>Uint32Array\<close>; a value may straddle two words. Words are 32-bit machine words,
  so JavaScript's 32-bit shift operators are \<open>push_bit\<close> and \<open>drop_bit\<close>.
\<close>

record bit_packed_vector =
  bp_type :: data_type
  bp_length :: nat
  bitWidth :: nat
  bp_words :: "32 word list"
  bp_mask :: "32 word"

definition PACK_WORD_BITS :: nat where
  "PACK_WORD_BITS = 32"

definition PACK_HEADER_BYTES :: nat where
  "PACK_HEADER_BYTES = 1 + 4"

text \<open>\<open>bitLength\<close>: shifts the bigint to the right until it is not positive.\<close>

function bitLength :: "int \<Rightarrow> nat" where
  "bitLength v = (if 0 < v then Suc (bitLength (v div 2)) else 0)"
  by pat_completeness auto
termination
  by (relation "measure nat") auto

declare bitLength.simps [simp del]

definition packedBitWidth :: "int_stats \<Rightarrow> nat" where
  "packedBitWidth stats = max 1 (bitLength (st_max stats))"

definition packedWordCount :: "nat \<Rightarrow> nat \<Rightarrow> nat" where
  "packedWordCount n width = (n * width + 31) div PACK_WORD_BITS"

definition packValue :: "32 word list \<Rightarrow> nat \<Rightarrow> nat \<Rightarrow> 32 word \<Rightarrow> 32 word list" where
  "packValue words index width v =
     (let bitPosition = index * width;
          wordIndex = ushr bitPosition 5;
          bitOffset = low_bits bitPosition 5;
          words1 = words[wordIndex := word_at words wordIndex OR push_bit bitOffset v]
      in if bitOffset > 0 \<and> bitOffset + width > PACK_WORD_BITS
         then words1[wordIndex + 1 :=
                word_at words1 (wordIndex + 1) OR drop_bit (PACK_WORD_BITS - bitOffset) v]
         else words1)"

definition bp_make :: "data_type \<Rightarrow> nat \<Rightarrow> nat \<Rightarrow> 32 word list \<Rightarrow> bit_packed_vector" where
  "bp_make t n width words =
     \<lparr>bp_type = t, bp_length = n, bitWidth = width, bp_words = words,
      bp_mask = (if width = PACK_WORD_BITS then - 1 else push_bit (low_bits width 5) 1 - 1)\<rparr>"

definition unpack :: "bit_packed_vector \<Rightarrow> nat \<Rightarrow> 32 word" where
  "unpack v index =
     (let bitPosition = index * bitWidth v;
          wordIndex = ushr bitPosition 5;
          bitOffset = low_bits bitPosition 5;
          raw = drop_bit bitOffset (word_at (bp_words v) wordIndex);
          raw' = (if bitOffset > 0 \<and> bitOffset + bitWidth v > PACK_WORD_BITS
                  then raw OR push_bit (PACK_WORD_BITS - bitOffset) (word_at (bp_words v) (wordIndex + 1))
                  else raw)
      in raw' AND bp_mask v)"

definition bp_valueAt :: "bit_packed_vector \<Rightarrow> nat \<Rightarrow> column_value" where
  "bp_valueAt v index = int_value (bp_type v) (uint (unpack v index))"

definition bp_decode :: "bit_packed_vector \<Rightarrow> int list" where
  "bp_decode v = map (\<lambda>index. store_int (bp_type v) (uint (unpack v index))) [0..<bp_length v]"

definition bp_byteSize :: "bit_packed_vector \<Rightarrow> nat" where
  "bp_byteSize v = PACK_HEADER_BYTES + 4 * length (bp_words v)"

definition bp_plan :: "jsnum \<Rightarrow> int_stats \<Rightarrow> data_type \<Rightarrow> encoding_plan option" where
  "bp_plan maxWidthRatio stats t =
     (if st_min stats < 0 then None
      else let width = packedBitWidth stats
           in if width > PACK_WORD_BITS then None
              else let nativeBits = byteWidthFor t * 8
                   in Some \<lparr>p_bytes = PACK_HEADER_BYTES + packedWordCount (st_length stats) width * 4,
                        p_withinThreshold =
                          js_le (Fin (of_nat width)) (js_mul (Fin (of_nat nativeBits)) maxWidthRatio)\<rparr>)"

text \<open>The value handed to \<open>packValue\<close>: a number, turned into a 32-bit integer by the shifts.\<close>

definition pack_operand :: "data_type \<Rightarrow> int \<Rightarrow> 32 word" where
  "pack_operand t v =
     word_of_int (js_trunc (if isWideInteger t then num_of_big v else Fin (of_int v)))"

definition bp_encode :: "encodable \<Rightarrow> bit_packed_vector" where
  "bp_encode src =
     (let width = packedBitWidth (e_stats src);
          words = replicate (packedWordCount (e_length src) width) 0
      in bp_make (e_type src) (e_length src) width
           (fold (\<lambda>index words. packValue words index width
              (pack_operand (e_type src) (e_values src ! index))) [0..<e_length src] words))"

section \<open>The bit string of the words\<close>

definition pbit :: "32 word list \<Rightarrow> nat \<Rightarrow> bool" where
  "pbit ws p \<longleftrightarrow> bit (word_at ws (p div 32)) (p mod 32)"

lemma length_packValue [simp]: "length (packValue ws i w v) = length ws"
  by (simp add: packValue_def Let_def)

lemma bit_above:
  assumes "unat (v :: 32 word) < 2 ^ w" "w \<le> k"
  shows "\<not> bit v k"
proof
  assume "bit v k"
  then have "bit (unat v) k" by (simp add: bit_unsigned_iff bit_imp_possible_bit)
  moreover have "unat v < 2 ^ k"
    using assms by (meson less_le_trans one_le_numeral power_increasing)
  ultimately show False by (simp add: bit_iff_odd)
qed

text \<open>
  Packing a value below \<open>2^width\<close> adds exactly its bits, from position \<open>index * width\<close> on.
\<close>

lemma pbit_packValue:
  assumes w: "width \<le> 32" and fit: "(index + 1) * width \<le> 32 * length ws"
    and pos: "index * width < 2 ^ 32" and v: "unat v < 2 ^ width"
  shows "pbit (packValue ws index width v) p \<longleftrightarrow>
     pbit ws p \<or> index * width \<le> p \<and> bit v (p - index * width)"
proof (cases "width = 0")
  case True
  then have "v = 0" using v by (simp add: unat_eq_zero)
  then show ?thesis using True by (simp add: packValue_def low_bits_def word_at_def)
next
  case False
  let ?b = "index * width"
  let ?wi = "?b div 32" and ?off = "?b mod 32"
  have b: "?b = 32 * ?wi + ?off" by (rule nat_mod_div_split)
  have p: "p = 32 * (p div 32) + p mod 32" by (rule nat_mod_div_split)
  have off: "?off < 32" "p mod 32 < 32" by simp_all
  have wi: "?wi < length ws" using fit False by (simp add: less_mult_imp_div_less algebra_simps)
  have wi1: "?wi + 1 < length ws" if "?off + width > 32"
  proof -
    have "?b + width \<le> 32 * length ws" using fit by simp
    then show ?thesis using that b by linarith
  qed
  have hi: "bit v k \<Longrightarrow> k < width" for k using bit_above [OF v] by (meson not_less)
  consider (lo) "p div 32 < ?wi" | (here) "p div 32 = ?wi" | (next_) "p div 32 = ?wi + 1"
    | (far) "?wi + 1 < p div 32" by linarith
  then show ?thesis
  proof cases
    case lo
    then have "p < ?b" using b p off by linarith
    then show ?thesis using lo pos
      by (simp add: pbit_def packValue_def Let_def low_bits_def word_at_update)
  next
    case here
    then have le: "?b \<le> p \<longleftrightarrow> ?off \<le> p mod 32" and sub: "?b \<le> p \<Longrightarrow> p - ?b = p mod 32 - ?off"
      using b p by linarith+
    show ?thesis using here pos wi off le sub
      by (auto simp: pbit_def packValue_def Let_def low_bits_def word_at_update bit_or_iff bit_push_bit_iff)
  next
    case next_
    then have ge: "?b \<le> p" and sub: "p - ?b = p mod 32 + (32 - ?off)"
      using b p off by linarith+
    show ?thesis
    proof (cases "?off > 0 \<and> ?off + width > 32")
      case True
      then show ?thesis using next_ pos wi wi1 ge sub
        by (simp add: pbit_def packValue_def Let_def low_bits_def word_at_update bit_or_iff
            bit_drop_bit_eq PACK_WORD_BITS_def add.commute)
    next
      case F: False
      then have "\<not> bit v (p - ?b)" using hi [of "p - ?b"] sub bit_imp_le_length [of v "p - ?b"] by force
      then show ?thesis using F next_ pos
        by (auto simp: pbit_def packValue_def Let_def low_bits_def word_at_update PACK_WORD_BITS_def)
    qed
  next
    case far
    then have "p - ?b \<ge> 32" using b p off by linarith
    then have "\<not> bit v (p - ?b)" using bit_imp_le_length [of v "p - ?b"] by auto
    then show ?thesis using far pos
      by (simp add: pbit_def packValue_def Let_def low_bits_def word_at_update)
  qed
qed

lemma bit_bp_mask:
  assumes "0 < width" "width \<le> 32"
  shows "bit (bp_mask (bp_make t n width ws)) k \<longleftrightarrow> k < width"
proof (cases "width = 32")
  case True
  then show ?thesis by (auto simp: bp_make_def PACK_WORD_BITS_def dest: bit_imp_le_length)
next
  case False
  then have "low_bits width 5 = width" using assms by (simp add: low_bits_def)
  then show ?thesis using False assms
    by (auto simp: bp_make_def PACK_WORD_BITS_def push_bit_of_1 bit_mask_iff
        mask_eq_exp_minus_1 [symmetric])
qed

lemma bit_unpack:
  assumes w: "0 < width" "width \<le> 32" and pos: "index * width < 2 ^ 32"
  shows "bit (unpack (bp_make t n width ws) index) k \<longleftrightarrow> k < width \<and> pbit ws (index * width + k)"
proof (cases "k < width")
  case True
  let ?b = "index * width"
  let ?wi = "?b div 32" and ?off = "?b mod 32"
  have b: "?b = 32 * ?wi + ?off" by (rule nat_mod_div_split)
  have off: "?off < 32" by simp
  have simps: "bitWidth (bp_make t n width ws) = width" "bp_words (bp_make t n width ws) = ws"
    by (simp_all add: bp_make_def)
  have k: "k < 32" using True w by simp
  show ?thesis
  proof (cases "?off + k < 32")
    case in1: True
    note d = word_position_in [OF in1]
    show ?thesis using True in1 k pos w
      by (auto simp: unpack_def Let_def simps low_bits_def pbit_def d bit_and_iff bit_or_iff
          bit_drop_bit_eq bit_push_bit_iff bit_bp_mask PACK_WORD_BITS_def)
  next
    case False
    then have over: "32 \<le> ?off + k" by simp
    note d = word_position_next [OF k over]
    have c: "?off > 0 \<and> ?off + width > 32" using False True k by linarith
    have nb: "\<not> bit (word_at ws ?wi) (?off + k)"
      using False bit_imp_le_length [of "word_at ws ?wi" "?off + k"] by auto
    have ge: "32 - ?off \<le> k" using over by linarith
    show ?thesis using True False k pos w c nb ge
      by (simp add: unpack_def Let_def simps low_bits_def pbit_def d bit_and_iff bit_or_iff
          bit_drop_bit_eq bit_push_bit_iff bit_bp_mask PACK_WORD_BITS_def)
  qed
next
  case False
  then show ?thesis using w
    by (simp add: unpack_def Let_def bit_and_iff bit_bp_mask)
qed

section \<open>Correctness\<close>

lemma bitLength_bound: "0 \<le> v \<Longrightarrow> v < 2 ^ bitLength v"
proof (induction v rule: bitLength.induct)
  case (1 v)
  show ?case
  proof (cases "0 < v")
    case True
    then have "v div 2 < 2 ^ bitLength (v div 2)" using "1.IH" by simp
    then show ?thesis using True by (simp add: bitLength.simps [of v])
  qed (use 1 in simp)
qed

lemma packedBitWidth_bound:
  assumes "0 \<le> v" "v \<le> st_max stats"
  shows "v < 2 ^ packedBitWidth stats"
proof -
  have "v < 2 ^ bitLength (st_max stats)"
    using bitLength_bound [of "st_max stats"] assms by linarith
  also have "\<dots> \<le> 2 ^ packedBitWidth stats" by (simp add: packedBitWidth_def)
  finally show ?thesis .
qed

definition bp_eligible :: "encodable \<Rightarrow> bool" where
  "bp_eligible src \<longleftrightarrow> 0 \<le> st_min (e_stats src) \<and> packedBitWidth (e_stats src) \<le> PACK_WORD_BITS"

lemma bp_eligible_plan: "bp_plan ratio (e_stats src) t \<noteq> None \<longleftrightarrow> bp_eligible src"
  by (auto simp: bp_plan_def bp_eligible_def Let_def)

lemma block_index: "0 < (w::nat) \<Longrightarrow> k * w \<le> p \<and> p - k * w < w \<longleftrightarrow> p div w = k"
proof
  assume w: "0 < w" and h: "k * w \<le> p \<and> p - k * w < w"
  then obtain d where "p = k * w + d" "d < w" by (metis le_add_diff_inverse)
  then show "p div w = k" using w by simp
next
  assume w: "0 < w" and "p div w = k"
  then have "p = k * w + p mod w" "p mod w < w" by auto
  then show "k * w \<le> p \<and> p - k * w < w" by linarith
qed

lemma pack_operand_exact:
  assumes "0 \<le> v" "v < 2 ^ w" "w \<le> 32"
  shows "unat (pack_operand t v) < 2 ^ w" "uint (pack_operand t v) = v"
proof -
  have "(2::int) ^ w \<le> 2 ^ 32" using assms(3) by (rule power_increasing) simp
  then have v32: "v < 2 ^ 32" using assms(2) by linarith
  then have "pack_operand t v = word_of_int v"
    using assms(1) by (simp add: pack_operand_def num_of_big_int)
  then show u: "uint (pack_operand t v) = v"
    using assms(1) v32 by (simp add: uint_word_of_int)
  have "int (unat (pack_operand t v)) < int (2 ^ w)" using assms(2) u by simp
  then show "unat (pack_operand t v) < 2 ^ w" by (simp only: of_nat_less_iff)
qed

lemma bp_unpack_encode:
  assumes src: "valid_source src" and el: "bp_eligible src" and i: "i < e_length src"
  shows "uint (unpack (bp_encode src) i) = e_values src ! i"
proof -
  let ?w = "packedBitWidth (e_stats src)" and ?n = "e_length src" and ?t = "e_type src"
  let ?v = "\<lambda>i. pack_operand ?t (e_values src ! i)"
  have w: "0 < ?w" "?w \<le> 32" "?n * ?w < 2 ^ 32"
  proof -
    show "0 < ?w" "?w \<le> 32"
      using el by (auto simp: bp_eligible_def PACK_WORD_BITS_def packedBitWidth_def)
    then have "?n * ?w \<le> ?n * 32" by (intro mult_le_mono2)
    also have "\<dots> < 2 ^ 32" using src by (simp add: valid_source_def)
    finally show "?n * ?w < 2 ^ 32" .
  qed
  have range: "0 \<le> e_values src ! j" "e_values src ! j < 2 ^ ?w" if "j < ?n" for j
    using valid_source_bounds [OF src that] el packedBitWidth_bound [of "e_values src ! j" "e_stats src"]
    by (auto simp: bp_eligible_def)
  note op = pack_operand_exact [OF range w(2), where t = ?t]
  have room: "?n * ?w \<le> 32 * packedWordCount ?n ?w"
    unfolding packedWordCount_def PACK_WORD_BITS_def by linarith
  let ?pack = "\<lambda>index words. packValue words index ?w (?v index)"
  let ?P = "\<lambda>k ws. length ws = packedWordCount ?n ?w
     \<and> (\<forall>p. pbit ws p \<longleftrightarrow> p div ?w < k \<and> bit (?v (p div ?w)) (p mod ?w))"
  let ?ws = "fold ?pack [0..<?n] (replicate (packedWordCount ?n ?w) 0)"
  have "?P ?n ?ws"
  proof (rule fold_upt_invariant [where P = ?P])
    show "?P 0 (replicate (packedWordCount ?n ?w) 0)" by (simp add: pbit_def word_at_def)
    show "0 \<le> ?n" by simp
    fix k ws assume k: "0 \<le> k" "k < ?n" and P: "?P k ws"
    have le: "(k + 1) * ?w \<le> ?n * ?w" using k by (intro mult_le_mono1) simp
    have new: "k * ?w \<le> p \<and> bit (?v k) (p - k * ?w) \<longleftrightarrow> p div ?w = k \<and> bit (?v k) (p mod ?w)" for p
    proof -
      have "bit (?v k) (p - k * ?w) \<Longrightarrow> p - k * ?w < ?w"
        using bit_above [OF op(1) [OF k(2) k(2)]] by (meson not_less)
      moreover have "k * ?w \<le> p \<and> p - k * ?w < ?w \<longleftrightarrow> p div ?w = k"
        using w(1) by (rule block_index)
      moreover have "p div ?w = k \<Longrightarrow> p - k * ?w = p mod ?w"
        by (metis minus_div_mult_eq_mod)
      ultimately show ?thesis by (metis mod_less_divisor w(1))
    qed
    have "pbit (?pack k ws) p \<longleftrightarrow> pbit ws p \<or> k * ?w \<le> p \<and> bit (?v k) (p - k * ?w)" for p
      by (rule pbit_packValue) (use w le room P op(1) [OF k(2) k(2)] k in auto)
    then show "?P (Suc k) (?pack k ws)"
      using P unfolding new by (auto simp: less_Suc_eq)
  qed
  then have bits: "pbit ?ws p \<longleftrightarrow> p div ?w < ?n \<and> bit (?v (p div ?w)) (p mod ?w)" for p by blast
  have pos: "i * ?w < 2 ^ 32" using w i by (meson le_less_trans less_imp_le mult_le_mono1)
  have "unpack (bp_encode src) i = ?v i"
  proof (rule bit_word_eqI)
    fix k
    have v: "bp_encode src = bp_make ?t ?n ?w ?ws" by (simp add: bp_encode_def Let_def)
    show "bit (unpack (bp_encode src) i) k = bit (?v i) k"
    proof (cases "k < ?w")
      case True
      then have "(i * ?w + k) div ?w = i" "(i * ?w + k) mod ?w = k" by simp_all
      then show ?thesis
        unfolding v bit_unpack [OF w(1,2) pos] bits using True i by simp
    next
      case False
      then show ?thesis
        unfolding v bit_unpack [OF w(1,2) pos] using bit_above [OF op(1) [OF i i], of k] by simp
    qed
  qed
  then show ?thesis using op(2) [OF i i] by simp
qed

lemma bp_encode_fields [simp]:
  "bp_type (bp_encode src) = e_type src" "bp_length (bp_encode src) = e_length src"
  "bitWidth (bp_encode src) = packedBitWidth (e_stats src)"
  by (simp_all add: bp_encode_def bp_make_def Let_def)

lemma bp_valueAt_encode:
  "valid_source src \<Longrightarrow> bp_eligible src \<Longrightarrow> i < e_length src \<Longrightarrow>
     bp_valueAt (bp_encode src) i = int_value (e_type src) (e_values src ! i)"
  by (simp add: bp_valueAt_def bp_unpack_encode)

lemma bp_decode_encode:
  assumes "valid_source src" "bp_eligible src"
  shows "bp_decode (bp_encode src) = take (e_length src) (e_values src)"
proof (rule nth_equalityI)
  have len: "e_length src \<le> length (e_values src)" using assms by (simp add: valid_source_def)
  show "length (bp_decode (bp_encode src)) = length (take (e_length src) (e_values src))"
    using len by (simp add: bp_decode_def)
  fix i assume "i < length (bp_decode (bp_encode src))"
  then have i: "i < e_length src" by (simp add: bp_decode_def)
  then show "bp_decode (bp_encode src) ! i = take (e_length src) (e_values src) ! i"
    using bp_unpack_encode [OF assms i] valid_source_range [OF assms(1) i] by (simp add: bp_decode_def)
qed

end
