(* ===== verification/FrameOfReference.thy ===== *)
theory FrameOfReference
  imports IntegerValues
begin

text \<open>
  \<open>src/storage/encoding/frame-of-reference.ts\<close>: a column as an anchor (its least value) and
  unsigned offsets from it, kept in the narrowest array (1, 2 or 4 bytes) that holds the range.
\<close>

datatype for_error = UnsupportedOffsetWidth nat | RangeExceedsContainer

record for_vector =
  fr_type :: data_type
  fr_length :: nat
  anchor :: int
  fr_width :: nat
  offsets :: "int list"

definition FOR_HEADER_BYTES :: nat where
  "FOR_HEADER_BYTES = 1 + 8"

text \<open>\<open>OFFSET_CONTAINERS\<close>: width in bytes and exclusive limit.\<close>

definition OFFSET_CONTAINERS :: "(nat \<times> int) list" where
  "OFFSET_CONTAINERS = [(1, 2 ^ 8), (2, 2 ^ 16), (4, 2 ^ 32)]"

definition containerForRange :: "int \<Rightarrow> nat option" where
  "containerForRange width_range =
     map_option fst (find (\<lambda>(_, limit). width_range < limit) OFFSET_CONTAINERS)"

definition containerForWidth :: "nat \<Rightarrow> for_error + nat" where
  "containerForWidth width =
     (case find (\<lambda>(w, _). w = width) OFFSET_CONTAINERS of
        None \<Rightarrow> Inl (UnsupportedOffsetWidth width)
      | Some (w, _) \<Rightarrow> Inr w)"

definition fr_offset :: "for_vector \<Rightarrow> nat \<Rightarrow> int" where
  "fr_offset v index = offsets v ! index"

definition fr_valueAt :: "for_vector \<Rightarrow> nat \<Rightarrow> column_value" where
  "fr_valueAt v index =
     (if isWideInteger (fr_type v) then VBig (anchor v + fr_offset v index)
      else VNum (js_add (num_of_big (anchor v)) (Fin (of_int (fr_offset v index)))))"

definition fr_decode :: "for_vector \<Rightarrow> int list" where
  "fr_decode v = map (\<lambda>index.
     if isWideInteger (fr_type v) then store_int (fr_type v) (anchor v + fr_offset v index)
     else to_int32 (js_add (num_of_big (anchor v)) (Fin (of_int (fr_offset v index)))))
     [0..<fr_length v]"

definition fr_byteSize :: "for_vector \<Rightarrow> nat" where
  "fr_byteSize v = FOR_HEADER_BYTES + fr_width v * length (offsets v)"

definition fr_plan :: "jsnum \<Rightarrow> int_stats \<Rightarrow> data_type \<Rightarrow> encoding_plan option" where
  "fr_plan maxWidthRatio stats t =
     (case containerForRange (st_max stats - st_min stats) of
        None \<Rightarrow> None
      | Some width \<Rightarrow> Some \<lparr>p_bytes = FOR_HEADER_BYTES + st_length stats * width,
          p_withinThreshold =
            js_le (Fin (of_nat width)) (js_mul (Fin (of_nat (byteWidthFor t))) maxWidthRatio)\<rparr>)"

text \<open>A store into \<open>Uint8Array\<close>, \<open>Uint16Array\<close> or \<open>Uint32Array\<close> keeps the low bits.\<close>

definition store_offset :: "nat \<Rightarrow> jsnum \<Rightarrow> int" where
  "store_offset width x = js_trunc x mod 2 ^ (8 * width)"

definition fr_encode :: "encodable \<Rightarrow> for_error + for_vector" where
  "fr_encode src =
     (let a = st_min (e_stats src)
      in case containerForRange (st_max (e_stats src) - a) of
           None \<Rightarrow> Inl RangeExceedsContainer
         | Some width \<Rightarrow> Inr \<lparr>fr_type = e_type src, fr_length = e_length src, anchor = a,
             fr_width = width,
             offsets = map (\<lambda>index. store_offset width
               (if isWideInteger (e_type src) then num_of_big (e_values src ! index - a)
                else js_sub (Fin (of_int (e_values src ! index))) (num_of_big a)))
               [0..<e_length src]\<rparr>)"

section \<open>Correctness\<close>

lemma containerForRange_Some:
  "containerForRange r = Some w \<Longrightarrow> w \<in> {1, 2, 4} \<and> r < 2 ^ (8 * w)"
  by (auto simp: containerForRange_def OFFSET_CONTAINERS_def split: if_splits)

lemma containerForRange_None: "containerForRange r = None \<longleftrightarrow> 2 ^ 32 \<le> r"
  by (auto simp: containerForRange_def OFFSET_CONTAINERS_def)

text \<open>The container is the narrowest that fits.\<close>

lemma containerForRange_narrowest:
  "containerForRange r = Some w \<Longrightarrow> w' \<in> {1, 2, 4} \<Longrightarrow> r < 2 ^ (8 * w') \<Longrightarrow> w \<le> w'"
  by (auto simp: containerForRange_def OFFSET_CONTAINERS_def split: if_splits)

lemma narrow_bounds: "in_range INT32 v \<Longrightarrow> \<bar>v\<bar> \<le> 2 ^ 31"
  by (auto simp: in_range_def int_bits_def isWideInteger_def)

lemma narrow_arith:
  assumes "\<bar>a\<bar> \<le> 2 ^ 31" "\<bar>b\<bar> \<le> 2 ^ 32"
  shows "js_add (num_of_big a) (Fin (of_int b)) = Fin (of_int (a + b))"
    "js_sub (Fin (of_int b)) (num_of_big a) = Fin (of_int (b - a))"
proof -
  have "\<bar>a + b\<bar> \<le> 2 ^ 53" using assms by (auto simp: abs_le_iff)
  moreover have "\<bar>b - a\<bar> \<le> 2 ^ 53" using assms by (auto simp: abs_le_iff)
  ultimately show "js_add (num_of_big a) (Fin (of_int b)) = Fin (of_int (a + b))"
    "js_sub (Fin (of_int b)) (num_of_big a) = Fin (of_int (b - a))"
    using assms(1) rnd_int [of "a + b"] rnd_int [of "b - a"]
    by (simp_all add: num_of_big_int js_sub_def)
qed

text \<open>Every stored offset is the exact distance from the anchor.\<close>

lemma fr_encode_offset:
  assumes src: "valid_source src" and enc: "fr_encode src = Inr v" and i: "i < e_length src"
  shows "fr_offset v i = e_values src ! i - st_min (e_stats src)"
proof -
  let ?a = "st_min (e_stats src)" and ?x = "e_values src ! i"
  obtain w where w: "containerForRange (st_max (e_stats src) - ?a) = Some w"
    using enc by (auto simp: fr_encode_def Let_def split: option.splits)
  have v: "fr_offset v i = store_offset w (if isWideInteger (e_type src) then num_of_big (?x - ?a)
      else js_sub (Fin (of_int ?x)) (num_of_big ?a))"
    using enc w i by (auto simp: fr_encode_def Let_def fr_offset_def)
  have b: "?a \<le> ?x" "?x \<le> st_max (e_stats src)" using valid_source_bounds [OF src i] by auto
  then have lt: "?x - ?a < 2 ^ (8 * w)" "0 \<le> ?x - ?a"
    using containerForRange_Some [OF w] by linarith+
  moreover have "(2::int) ^ (8 * w) \<le> 2 ^ 32" using containerForRange_Some [OF w] by auto
  ultimately have le: "\<bar>?x - ?a\<bar> \<le> 2 ^ 53" by (auto simp: abs_le_iff)
  have "js_trunc (if isWideInteger (e_type src) then num_of_big (?x - ?a)
      else js_sub (Fin (of_int ?x)) (num_of_big ?a)) = ?x - ?a"
  proof (cases "isWideInteger (e_type src)")
    case True
    then show ?thesis using le by (simp add: num_of_big_int del: of_int_diff)
  next
    case False
    then have t: "e_type src = INT32"
      using src by (auto simp: valid_source_def ENCODABLE_TYPES_def isWideInteger_def)
    obtain j where "j < e_length src" "?a = e_values src ! j" using valid_source_min_in [OF src] by auto
    then have "\<bar>?a\<bar> \<le> 2 ^ 31" "\<bar>?x\<bar> \<le> 2 ^ 31"
      using valid_source_range [OF src] i t narrow_bounds by metis+
    then show ?thesis using False narrow_arith(2) [of ?a ?x] by (simp del: of_int_diff)
  qed
  then show ?thesis using v lt by (simp add: store_offset_def)
qed

lemma fr_encode_fields:
  assumes "fr_encode src = Inr v"
  shows "fr_type v = e_type src" "fr_length v = e_length src" "anchor v = st_min (e_stats src)"
    "length (offsets v) = e_length src" "fr_width v \<in> {1, 2, 4}"
    "list_all (\<lambda>x. 0 \<le> x \<and> x < 2 ^ (8 * fr_width v)) (offsets v)"
  using assms
  by (auto simp: fr_encode_def Let_def list_all_length store_offset_def split: option.splits
      dest!: containerForRange_Some)

lemma fr_sum:
  assumes src: "valid_source src" and enc: "fr_encode src = Inr v" and i: "i < e_length src"
  shows "anchor v + fr_offset v i = e_values src ! i"
    "\<not> isWideInteger (e_type src) \<Longrightarrow>
      js_add (num_of_big (anchor v)) (Fin (of_int (fr_offset v i))) = Fin (of_int (e_values src ! i))"
proof -
  show sum: "anchor v + fr_offset v i = e_values src ! i"
    using fr_encode_offset [OF assms] fr_encode_fields(3) [OF enc] by simp
  assume nw: "\<not> isWideInteger (e_type src)"
  then have t: "e_type src = INT32"
    using src by (auto simp: valid_source_def ENCODABLE_TYPES_def isWideInteger_def)
  obtain j where "j < e_length src" "st_min (e_stats src) = e_values src ! j"
    using valid_source_min_in [OF src] by auto
  then have "\<bar>anchor v\<bar> \<le> 2 ^ 31" "\<bar>e_values src ! i\<bar> \<le> 2 ^ 31"
    using valid_source_range [OF src] i t narrow_bounds fr_encode_fields(3) [OF enc] by metis+
  then show "js_add (num_of_big (anchor v)) (Fin (of_int (fr_offset v i)))
      = Fin (of_int (e_values src ! i))"
    using narrow_arith(1) [of "anchor v" "fr_offset v i"] sum by simp
qed

lemma fr_valueAt_encode:
  assumes "valid_source src" "fr_encode src = Inr v" "i < e_length src"
  shows "fr_valueAt v i = int_value (e_type src) (e_values src ! i)"
  using fr_sum [OF assms] fr_encode_fields(1) [OF assms(2)]
  by (simp add: fr_valueAt_def int_value_def)

lemma fr_decode_encode:
  assumes src: "valid_source src" and enc: "fr_encode src = Inr v"
  shows "fr_decode v = take (e_length src) (e_values src)"
proof (rule nth_equalityI)
  have len: "e_length src \<le> length (e_values src)" using src by (simp add: valid_source_def)
  show "length (fr_decode v) = length (take (e_length src) (e_values src))"
    using len fr_encode_fields(2) [OF enc] by (simp add: fr_decode_def)
  fix i assume "i < length (fr_decode v)"
  then have i: "i < e_length src" using fr_encode_fields(2) [OF enc] by (simp add: fr_decode_def)
  have r: "store_int (e_type src) (e_values src ! i) = e_values src ! i"
    using valid_source_range [OF src i] by simp
  have r32: "to_int32 (Fin (of_int (e_values src ! i))) = e_values src ! i"
    if "\<not> isWideInteger (e_type src)"
    using r that by (simp add: to_int32_def store_int_def int_bits_def)
  show "fr_decode v ! i = take (e_length src) (e_values src) ! i"
    using i fr_sum [OF src enc i] r r32 fr_encode_fields(1,2) [OF enc]
    by (auto simp: fr_decode_def)
qed

lemma fr_encode_succeeds:
  "fr_plan ratio (e_stats src) t \<noteq> None \<Longrightarrow> \<exists>v. fr_encode src = Inr v"
  by (auto simp: fr_plan_def fr_encode_def Let_def split: option.splits)

end
