(* ===== verification/ColumnEncoding.thy ===== *)
theory ColumnEncoding
  imports ByteIO RunLength BitPacked FrameOfReference
begin

text \<open>
  The page form of the three encoded vectors (\<open>writeTo\<close> and \<open>read\<close> of \<open>src/storage/encoding/\<close>),
  the encoder registry (\<open>registry.ts\<close>) and the choice of an encoder (\<open>column-encoding.ts\<close>).

  The contract of a column encoder is the locale \<open>column_encoder\<close>: the values, the size promised
  by the plan, and the bytes of a page. It is interpreted for each encoder and for the
  registry's dispatch on the encoding kind.
\<close>

section \<open>Page form of the vectors\<close>

definition rl_writeTo :: "run_length_vector \<Rightarrow> byte_writer \<Rightarrow> io_error + byte_writer" where
  "rl_writeTo v w =
     bindE (w_u32 (length (runStarts v)) w) (\<lambda>w.
     bindE (w_bytes 4 (map uint (runStarts v)) (4 * length (runStarts v)) w)
       (w_bytes (byteWidthFor (rl_type v)) (runValues v)
          (byteWidthFor (rl_type v) * length (runValues v))))"

definition rl_read :: "data_type \<Rightarrow> nat \<Rightarrow> byte_reader \<Rightarrow> io_error + run_length_vector \<times> byte_reader" where
  "rl_read t n r =
     bindE (r_u32 r) (\<lambda>(runs, r).
     bindE (Inr (r_typed_u 4 runs r)) (\<lambda>(starts, r).
     bindE (Inr (r_typed_s (byteWidthFor t) runs r)) (\<lambda>(vals, r).
       Inr (\<lparr>rl_type = t, rl_length = n, runStarts = map of_nat starts, runValues = vals\<rparr>, r))))"

definition bp_writeTo :: "bit_packed_vector \<Rightarrow> byte_writer \<Rightarrow> io_error + byte_writer" where
  "bp_writeTo v w =
     bindE (w_u8 (bitWidth v) w) (\<lambda>w.
     bindE (w_u32 (length (bp_words v)) w)
       (w_bytes 4 (map uint (bp_words v)) (4 * length (bp_words v))))"

definition bp_read :: "data_type \<Rightarrow> nat \<Rightarrow> byte_reader \<Rightarrow> io_error + bit_packed_vector \<times> byte_reader" where
  "bp_read t n r =
     bindE (r_u8 r) (\<lambda>(width, r).
     bindE (r_u32 r) (\<lambda>(wordCount, r).
     bindE (Inr (r_typed_u 4 wordCount r)) (\<lambda>(words, r).
       Inr (bp_make t n width (map of_nat words), r))))"

definition fr_writeTo :: "for_vector \<Rightarrow> byte_writer \<Rightarrow> io_error + byte_writer" where
  "fr_writeTo v w =
     bindE (w_u8 (fr_width v) w) (\<lambda>w.
     bindE (w_i64 (anchor v) w)
       (w_bytes (fr_width v) (offsets v) (fr_width v * length (offsets v))))"

definition fr_read :: "data_type \<Rightarrow> nat \<Rightarrow> byte_reader \<Rightarrow> io_error + for_vector \<times> byte_reader" where
  "fr_read t n r =
     bindE (r_u8 r) (\<lambda>(code, r).
     case containerForWidth code of
       Inl _ \<Rightarrow> Inl (UnsupportedWidth code)
     | Inr width \<Rightarrow>
         bindE (r_i64 r) (\<lambda>(a, r).
         bindE (Inr (r_typed_u width n r)) (\<lambda>(offs, r).
           Inr (\<lparr>fr_type = t, fr_length = n, anchor = a, fr_width = width,
                 offsets = map int offs\<rparr>, r))))"

section \<open>The bytes they write\<close>

definition rl_image :: "run_length_vector \<Rightarrow> byte list" where
  "rl_image v = le_bytes 4 (length (runStarts v)) @ array_bytes 4 (map uint (runStarts v))
     @ array_bytes (byteWidthFor (rl_type v)) (runValues v)"

definition bp_image :: "bit_packed_vector \<Rightarrow> byte list" where
  "bp_image v = le_bytes 1 (bitWidth v) @ le_bytes 4 (length (bp_words v))
     @ array_bytes 4 (map uint (bp_words v))"

definition fr_image :: "for_vector \<Rightarrow> byte list" where
  "fr_image v = le_bytes 1 (fr_width v) @ int_bytes 8 (anchor v) @ array_bytes (fr_width v) (offsets v)"

lemma emits_array: "emits (w_bytes k xs (k * length xs)) (array_bytes k xs)"
  using emits_w_bytes [of k xs "k * length xs"] by simp

lemma emits_uint_array: "emits (w_bytes 4 (map uint ws) (4 * length ws)) (array_bytes 4 (map uint ws))"
  using emits_array [of 4 "map uint ws"] by simp

lemma emits_rl: "emits (rl_writeTo v) (rl_image v)"
  unfolding rl_writeTo_def [abs_def] rl_image_def
  by (intro emits_seq emits_w_u32 emits_uint_array emits_array)

lemma emits_bp: "emits (bp_writeTo v) (bp_image v)"
  unfolding bp_writeTo_def [abs_def] bp_image_def
  by (intro emits_seq emits_w_u8 emits_w_u32 emits_uint_array)

lemma emits_fr: "emits (fr_writeTo v) (fr_image v)"
  unfolding fr_writeTo_def [abs_def] fr_image_def
  by (intro emits_seq emits_w_u8 emits_w_i64 emits_array)

lemma length_rl_image: "length (rl_image v) = rl_byteSize v"
  by (simp add: rl_image_def rl_byteSize_def RUN_HEADER_BYTES_def)

lemma length_bp_image: "length (bp_image v) = bp_byteSize v"
  by (simp add: bp_image_def bp_byteSize_def PACK_HEADER_BYTES_def)

lemma length_fr_image: "length (fr_image v) = fr_byteSize v"
  by (simp add: fr_image_def fr_byteSize_def FOR_HEADER_BYTES_def)

lemma map_of_nat_uint: "map of_nat (map nat (map uint ws)) = (ws :: 32 word list)"
  by (simp add: comp_def)

lemma parses_words:
  "length ws = n \<Longrightarrow>
   parses (\<lambda>r. Inr (r_typed_u 4 n r)) (array_bytes 4 (map uint (ws :: 32 word list))) (map nat (map uint ws))"
  by (rule parses_typed_u) (use uint_bounded [where 'a = 32] in auto)

lemma parses_rl:
  assumes "length (runStarts v) < 2 ^ 32" "length (runValues v) = length (runStarts v)"
    "rl_type v \<in> ENCODABLE_TYPES" "list_all (in_range (rl_type v)) (runValues v)"
  shows "parses (rl_read (rl_type v) (rl_length v)) (rl_image v) v"
proof -
  let ?t = "rl_type v" and ?n = "length (runStarts v)"
  have width: "8 * byteWidthFor ?t = int_bits ?t" "0 < byteWidthFor ?t"
    using assms(3) by (auto simp: ENCODABLE_TYPES_def int_bits_def isWideInteger_def)
  have vals: "parses (\<lambda>r. Inr (r_typed_s (byteWidthFor ?t) ?n r))
      (array_bytes (byteWidthFor ?t) (runValues v)) (runValues v)"
    by (rule parses_typed_s) (use assms width in \<open>auto simp: list_all_iff in_range_def\<close>)
  have last: "parses (\<lambda>r. bindE (Inr (r_typed_s (byteWidthFor ?t) ?n r)) (\<lambda>(vals, r).
      Inr (\<lparr>rl_type = ?t, rl_length = rl_length v,
            runStarts = map of_nat (map nat (map uint (runStarts v))), runValues = vals\<rparr>, r)))
      (array_bytes (byteWidthFor ?t) (runValues v))
      \<lparr>rl_type = ?t, rl_length = rl_length v,
       runStarts = map of_nat (map nat (map uint (runStarts v))), runValues = runValues v\<rparr>"
    by (rule parses_map [OF vals])
  have "parses (rl_read ?t (rl_length v)) (rl_image v)
      \<lparr>rl_type = ?t, rl_length = rl_length v,
       runStarts = map of_nat (map nat (map uint (runStarts v))), runValues = runValues v\<rparr>"
    unfolding rl_read_def [abs_def] rl_image_def
    by (rule parses_bind [OF parses_u32 [OF assms(1)]], rule parses_bind [OF parses_words [OF refl]],
        rule last)
  then show ?thesis unfolding map_of_nat_uint by (cases v) simp
qed

lemma parses_bp:
  assumes "bitWidth v < 256" "length (bp_words v) < 2 ^ 32"
    "v = bp_make (bp_type v) (bp_length v) (bitWidth v) (bp_words v)"
  shows "parses (bp_read (bp_type v) (bp_length v)) (bp_image v) v"
proof -
  have last: "parses (\<lambda>r. bindE (Inr (r_typed_u 4 (length (bp_words v)) r)) (\<lambda>(words, r).
      Inr (bp_make (bp_type v) (bp_length v) (bitWidth v) (map of_nat words), r)))
      (array_bytes 4 (map uint (bp_words v)))
      (bp_make (bp_type v) (bp_length v) (bitWidth v) (map of_nat (map nat (map uint (bp_words v)))))"
    by (rule parses_map [OF parses_words [OF refl]])
  have "parses (bp_read (bp_type v) (bp_length v)) (bp_image v)
      (bp_make (bp_type v) (bp_length v) (bitWidth v) (map of_nat (map nat (map uint (bp_words v)))))"
    unfolding bp_read_def [abs_def] bp_image_def
    by (rule parses_bind [OF parses_u8 [OF assms(1)]], rule parses_bind [OF parses_u32 [OF assms(2)]],
        rule last)
  then show ?thesis unfolding map_of_nat_uint using assms(3) by simp
qed

lemma parses_fr:
  assumes "fr_width v \<in> {1, 2, 4}" "- (2 ^ 63) \<le> anchor v" "anchor v < 2 ^ 63"
    "length (offsets v) = fr_length v" "list_all (\<lambda>x. 0 \<le> x \<and> x < 2 ^ (8 * fr_width v)) (offsets v)"
  shows "parses (fr_read (fr_type v) (fr_length v)) (fr_image v) v"
proof -
  let ?w = "fr_width v"
  have w: "?w < 256" "containerForWidth ?w = Inr ?w"
    using assms(1) by (auto simp: containerForWidth_def OFFSET_CONTAINERS_def)
  have offs: "parses (\<lambda>r. Inr (r_typed_u ?w (fr_length v) r)) (array_bytes ?w (offsets v)) (map nat (offsets v))"
    by (rule parses_typed_u) (use assms in \<open>auto simp: list_all_iff\<close>)
  have id: "map int (map nat (offsets v)) = offsets v"
    using assms(5) by (simp add: list_all_iff map_idI)
  have last: "parses (\<lambda>r. bindE (Inr (r_typed_u ?w (fr_length v) r)) (\<lambda>(offs, r).
      Inr (\<lparr>fr_type = fr_type v, fr_length = fr_length v, anchor = anchor v, fr_width = ?w,
            offsets = map int offs\<rparr>, r)))
      (array_bytes ?w (offsets v))
      \<lparr>fr_type = fr_type v, fr_length = fr_length v, anchor = anchor v, fr_width = ?w,
       offsets = map int (map nat (offsets v))\<rparr>"
    by (rule parses_map [OF offs])
  have mid: "parses (\<lambda>r. case containerForWidth ?w of Inl _ \<Rightarrow> Inl (UnsupportedWidth ?w)
     | Inr width \<Rightarrow>
         bindE (r_i64 r) (\<lambda>(a, r).
         bindE (Inr (r_typed_u width (fr_length v) r)) (\<lambda>(offs, r).
           Inr (\<lparr>fr_type = fr_type v, fr_length = fr_length v, anchor = a, fr_width = width,
                 offsets = map int offs\<rparr>, r))))
     (int_bytes 8 (anchor v) @ array_bytes ?w (offsets v))
     \<lparr>fr_type = fr_type v, fr_length = fr_length v, anchor = anchor v, fr_width = ?w,
       offsets = map int (map nat (offsets v))\<rparr>"
    unfolding w(2) sum.case by (rule parses_bind [OF parses_i64 [OF assms(2,3)]], rule last)
  have "parses (fr_read (fr_type v) (fr_length v)) (fr_image v)
     \<lparr>fr_type = fr_type v, fr_length = fr_length v, anchor = anchor v, fr_width = ?w,
       offsets = map int (map nat (offsets v))\<rparr>"
    unfolding fr_read_def [abs_def] fr_image_def
    by (rule parses_bind [OF parses_u8 [OF w(1)]], rule mid)
  then show ?thesis unfolding id by (cases v) simp
qed

section \<open>What encoding a valid source gives\<close>

lemma rl_encode_page:
  assumes "valid_source src"
  shows "parses (rl_read (e_type src) (e_length src)) (rl_image (rl_encode src)) (rl_encode src)"
proof -
  let ?v = "rl_encode src" and ?m = "length (runStarts (rl_encode src))"
  note d = rl_encode_describe [OF assms]
  have n: "e_length src < 2 ^ 27" "e_length src \<le> length (e_values src)"
    using assms by (simp_all add: valid_source_def)
  have "length (remdups_adj (take (e_length src) (e_values src))) \<le> length (take (e_length src) (e_values src))"
    by (rule remdups_adj_length)
  then have len: "?m < 2 ^ 32" using n d(4) valid_source_stats(2) [OF assms] by simp
  have same: "length (runValues ?v) = ?m" using d(3) by (simp add: runs_describe_def)
  have "in_range (e_type src) (runValues ?v ! j)" if j: "j < ?m" for j
  proof -
    let ?s = "unat (runStarts ?v ! j)"
    have lt: "?s < run_end (runStarts ?v) ?m (e_length src) j" using d(3) j by (simp add: runs_describe_def)
    then have "e_values src ! ?s = runValues ?v ! j" using d(3) j unfolding runs_describe_def by blast
    moreover have "?s < e_length src"
    proof -
      obtain m' where m': "?m = Suc m'" using j by (cases ?m) auto
      have "unat (runStarts ?v ! m') < e_length src"
        using runs_describe_last d(3) unfolding m' by blast
      moreover have "?s \<le> unat (runStarts ?v ! m')"
        using j m' by (intro runs_describe_mono [OF d(3)]) simp_all
      ultimately show ?thesis by linarith
    qed
    ultimately show ?thesis using valid_source_range [OF assms] by metis
  qed
  then have "list_all (in_range (rl_type ?v)) (runValues ?v)" using same d(1) by (simp add: list_all_length)
  moreover have "rl_type ?v \<in> ENCODABLE_TYPES" using assms d(1) by (simp add: valid_source_def)
  ultimately have "parses (rl_read (rl_type ?v) (rl_length ?v)) (rl_image ?v) ?v"
    using parses_rl [OF len same] by blast
  then show ?thesis by (simp only: d(1,2))
qed

lemma bp_encode_page:
  assumes "valid_source src" "bp_eligible src"
  shows "parses (bp_read (e_type src) (e_length src)) (bp_image (bp_encode src)) (bp_encode src)"
proof -
  let ?v = "bp_encode src" and ?w = "packedBitWidth (e_stats src)"
  have w: "?w \<le> 32" using assms(2) by (simp add: bp_eligible_def PACK_WORD_BITS_def)
  have make: "bp_encode src = bp_make (e_type src) (e_length src) ?w (bp_words ?v)"
    by (simp add: bp_encode_def bp_make_def Let_def)
  have len: "length (bp_words ?v) = packedWordCount (e_length src) ?w"
    by (simp add: bp_encode_def bp_make_def Let_def fold_length)
  have "e_length src * ?w \<le> 2 ^ 27 * 32"
    using assms(1) w by (intro mult_le_mono) (simp_all add: valid_source_def)
  then have "length (bp_words ?v) < 2 ^ 32" unfolding len packedWordCount_def PACK_WORD_BITS_def by simp
  then have "parses (bp_read (bp_type ?v) (bp_length ?v)) (bp_image ?v) ?v"
    using w make by (intro parses_bp) simp_all
  then show ?thesis by simp
qed

lemma fr_encode_page:
  assumes src: "valid_source src" and enc: "fr_encode src = Inr v"
  shows "parses (fr_read (e_type src) (e_length src)) (fr_image v) v"
proof -
  note f = fr_encode_fields [OF enc]
  obtain i where i: "i < e_length src" "anchor v = e_values src ! i"
    using valid_source_min_in [OF src] f(3) by auto
  have "in_range (e_type src) (anchor v)" using valid_source_range [OF src i(1)] i(2) by simp
  then have "- (2 ^ 63) \<le> anchor v \<and> anchor v < 2 ^ 63"
    by (auto simp: in_range_def int_bits_def split: if_splits)
  then have "parses (fr_read (fr_type v) (fr_length v)) (fr_image v) v"
    using f by (intro parses_fr) simp_all
  then show ?thesis using f(1,2) by simp
qed

section \<open>The contract of a column encoder\<close>

locale column_encoder =
  fixes plan :: "int_stats \<Rightarrow> data_type \<Rightarrow> encoding_plan option"
    and encode :: "encodable \<Rightarrow> for_error + 'v"
    and valueAt :: "'v \<Rightarrow> nat \<Rightarrow> column_value"
    and decode :: "'v \<Rightarrow> int list"
    and byteSize :: "'v \<Rightarrow> nat"
    and writeTo :: "'v \<Rightarrow> byte_writer \<Rightarrow> io_error + byte_writer"
    and read :: "data_type \<Rightarrow> nat \<Rightarrow> byte_reader \<Rightarrow> io_error + 'v \<times> byte_reader"
  assumes encode_total:
      "valid_source src \<Longrightarrow> plan (e_stats src) (e_type src) \<noteq> None \<Longrightarrow> \<exists>v. encode src = Inr v"
    and value_law:
      "valid_source src \<Longrightarrow> plan (e_stats src) (e_type src) \<noteq> None \<Longrightarrow> encode src = Inr v \<Longrightarrow>
       i < e_length src \<Longrightarrow> valueAt v i = int_value (e_type src) (e_values src ! i)"
    and decode_law:
      "valid_source src \<Longrightarrow> plan (e_stats src) (e_type src) \<noteq> None \<Longrightarrow> encode src = Inr v \<Longrightarrow>
       decode v = take (e_length src) (e_values src)"
    and size_law:
      "valid_source src \<Longrightarrow> plan (e_stats src) (e_type src) = Some p \<Longrightarrow> encode src = Inr v \<Longrightarrow>
       byteSize v = p_bytes p"
    and page_law:
      "valid_source src \<Longrightarrow> plan (e_stats src) (e_type src) \<noteq> None \<Longrightarrow> encode src = Inr v \<Longrightarrow>
       \<exists>img. length img = byteSize v \<and> emits (writeTo v) img
         \<and> parses (read (e_type src) (e_length src)) img v"
begin

text \<open>
  A planned source is encoded; the vector fills a buffer of the planned size exactly; reading
  that buffer back gives a vector with the values of the source.
\<close>

lemma stored_page:
  assumes src: "valid_source src" and p: "plan (e_stats src) (e_type src) = Some p"
    and buf: "length buf = p_bytes p"
  shows "\<exists>v w. encode src = Inr v \<and> writeTo v \<lparr>w_buf = buf, w_off = 0\<rparr> = Inr w
    \<and> w_off w = p_bytes p
    \<and> read (e_type src) (e_length src) \<lparr>r_buf = w_buf w, r_off = 0\<rparr>
        = Inr (v, \<lparr>r_buf = w_buf w, r_off = p_bytes p\<rparr>)
    \<and> (\<forall>i<e_length src. valueAt v i = int_value (e_type src) (e_values src ! i))
    \<and> decode v = take (e_length src) (e_values src)"
proof -
  have ne: "plan (e_stats src) (e_type src) \<noteq> None" using p by simp
  obtain v where v: "encode src = Inr v" using encode_total [OF src ne] by blast
  obtain img where img: "length img = byteSize v" "emits (writeTo v) img"
      "parses (read (e_type src) (e_length src)) img v"
    using page_law [OF src ne v] by blast
  have size: "byteSize v = p_bytes p" by (rule size_law [OF src p v])
  let ?w = "\<lparr>w_buf = img, w_off = length img\<rparr>"
  have "writeTo v \<lparr>w_buf = buf, w_off = 0\<rparr> = Inr ?w"
    using img(1,2) buf size by (intro emits_exact) simp_all
  moreover have "read (e_type src) (e_length src) \<lparr>r_buf = img, r_off = 0\<rparr>
      = Inr (v, \<lparr>r_buf = img, r_off = length img\<rparr>)"
    using img(3) [unfolded parses_def, rule_format, of "[]" "[]"] by simp
  ultimately show ?thesis
    using v value_law [OF src ne v] decode_law [OF src ne v] img(1) size by auto
qed

end

interpretation rl: column_encoder "\<lambda>stats t. Some (rl_plan ratio stats t)" "\<lambda>src. Inr (rl_encode src)"
  rl_valueAt rl_decode rl_byteSize rl_writeTo rl_read for ratio
proof unfold_locales
  fix src p v
  assume src: "valid_source src"
  { assume p: "Some (rl_plan ratio (e_stats src) (e_type src)) = Some p" and v: "Inr (rl_encode src) = Inr v"
    have same: "length (runValues (rl_encode src)) = length (runStarts (rl_encode src))"
      using rl_encode_describe(3) [OF src] by (simp add: runs_describe_def)
    show "rl_byteSize v = p_bytes p"
      using p v same rl_encode_describe [OF src]
      by (auto simp: rl_byteSize_def rl_plan_def algebra_simps) }
qed (auto simp: rl_valueAt_encode rl_decode_encode intro!: exI [of _ "rl_image (rl_encode src)" for src]
      length_rl_image emits_rl rl_encode_page)

lemma bp_plan_eligible: "bp_plan ratio (e_stats src) t = Some p \<Longrightarrow> bp_eligible src"
  using bp_eligible_plan [of ratio src t] by simp

interpretation bp: column_encoder "bp_plan ratio" "\<lambda>src. Inr (bp_encode src)"
  bp_valueAt bp_decode bp_byteSize bp_writeTo bp_read for ratio
proof unfold_locales
  fix src p v
  assume src: "valid_source src"
  { assume p: "bp_plan ratio (e_stats src) (e_type src) = Some p" and v: "Inr (bp_encode src) = Inr v"
    have "length (bp_words (bp_encode src)) = packedWordCount (e_length src) (packedBitWidth (e_stats src))"
      by (simp add: bp_encode_def bp_make_def Let_def fold_length)
    then show "bp_byteSize v = p_bytes p"
      using p v valid_source_stats(1) [OF src]
      by (auto simp: bp_byteSize_def bp_plan_def Let_def split: if_splits) }
qed (auto simp: bp_valueAt_encode bp_decode_encode bp_plan_eligible
      intro!: exI [of _ "bp_image (bp_encode src)" for src] length_bp_image emits_bp bp_encode_page)

interpretation fr: column_encoder "fr_plan ratio" fr_encode
  fr_valueAt fr_decode fr_byteSize fr_writeTo fr_read for ratio
proof unfold_locales
  fix src p v
  assume src: "valid_source src" and p: "fr_plan ratio (e_stats src) (e_type src) = Some p"
    and v: "fr_encode src = Inr v"
  show "fr_byteSize v = p_bytes p"
    using p v valid_source_stats(1) [OF src]
    by (auto simp: fr_byteSize_def fr_plan_def fr_encode_def Let_def split: option.splits)
next
  fix src v
  assume "valid_source src" "fr_encode src = Inr v"
  then show "\<exists>img. length img = fr_byteSize v \<and> emits (fr_writeTo v) img
      \<and> parses (fr_read (e_type src) (e_length src)) img v"
    using length_fr_image emits_fr fr_encode_page by blast
qed (auto simp: fr_valueAt_encode fr_decode_encode fr_encode_succeeds)

section \<open>The registry\<close>

datatype encoded_vector = EV_RL run_length_vector | EV_BP bit_packed_vector | EV_FR for_vector

fun ev_kind :: "encoded_vector \<Rightarrow> encoding_kind" where
  "ev_kind (EV_RL v) = RUN_LENGTH"
| "ev_kind (EV_BP v) = BIT_PACKED"
| "ev_kind (EV_FR v) = FRAME_OF_REFERENCE"

fun ev_valueAt :: "encoded_vector \<Rightarrow> nat \<Rightarrow> column_value" where
  "ev_valueAt (EV_RL v) = rl_valueAt v"
| "ev_valueAt (EV_BP v) = bp_valueAt v"
| "ev_valueAt (EV_FR v) = fr_valueAt v"

fun ev_decode :: "encoded_vector \<Rightarrow> int list" where
  "ev_decode (EV_RL v) = rl_decode v"
| "ev_decode (EV_BP v) = bp_decode v"
| "ev_decode (EV_FR v) = fr_decode v"

fun ev_byteSize :: "encoded_vector \<Rightarrow> nat" where
  "ev_byteSize (EV_RL v) = rl_byteSize v"
| "ev_byteSize (EV_BP v) = bp_byteSize v"
| "ev_byteSize (EV_FR v) = fr_byteSize v"

fun ev_writeTo :: "encoded_vector \<Rightarrow> byte_writer \<Rightarrow> io_error + byte_writer" where
  "ev_writeTo (EV_RL v) = rl_writeTo v"
| "ev_writeTo (EV_BP v) = bp_writeTo v"
| "ev_writeTo (EV_FR v) = fr_writeTo v"

text \<open>The part of \<open>Config\<close> that the encoders read.\<close>

record encoding_config =
  columnEncoding :: bool
  forcedColumnEncoding :: string
  encodingMinRows :: jsnum
  encodingMinCompressionRatio :: jsnum
  encodingRleMaxRunRatio :: jsnum
  encodingBitPackMaxWidthRatio :: jsnum
  encodingForMaxWidthRatio :: jsnum

definition default_encoding_config :: encoding_config where
  "default_encoding_config =
     \<lparr>columnEncoding = True, forcedColumnEncoding = [], encodingMinRows = Fin 64,
      encodingMinCompressionRatio = Fin (3/4), encodingRleMaxRunRatio = Fin (1/2),
      encodingBitPackMaxWidthRatio = Fin (3/4), encodingForMaxWidthRatio = Fin (1/2)\<rparr>"

text \<open>\<open>COLUMN_ENCODERS\<close>: the kinds in registration order, their names and their page ids.\<close>

definition REGISTERED_ENCODERS :: "encoding_kind list" where
  "REGISTERED_ENCODERS = [RUN_LENGTH, BIT_PACKED, FRAME_OF_REFERENCE]"

fun kind_name :: "encoding_kind \<Rightarrow> string" where
  "kind_name RUN_LENGTH = ''RUN_LENGTH''"
| "kind_name BIT_PACKED = ''BIT_PACKED''"
| "kind_name FRAME_OF_REFERENCE = ''FRAME_OF_REFERENCE''"

fun encoder_id :: "encoding_kind \<Rightarrow> nat" where
  "encoder_id RUN_LENGTH = 1"
| "encoder_id BIT_PACKED = 2"
| "encoder_id FRAME_OF_REFERENCE = 3"

definition encoderForId :: "nat \<Rightarrow> io_error + encoding_kind" where
  "encoderForId i =
     (case find (\<lambda>k. encoder_id k = i) REGISTERED_ENCODERS of
        None \<Rightarrow> Inl (UnknownEncodingId i)
      | Some k \<Rightarrow> Inr k)"

fun encoder_plan :: "encoding_config \<Rightarrow> encoding_kind \<Rightarrow> int_stats \<Rightarrow> data_type \<Rightarrow> encoding_plan option" where
  "encoder_plan cfg RUN_LENGTH stats t = Some (rl_plan (encodingRleMaxRunRatio cfg) stats t)"
| "encoder_plan cfg BIT_PACKED stats t = bp_plan (encodingBitPackMaxWidthRatio cfg) stats t"
| "encoder_plan cfg FRAME_OF_REFERENCE stats t = fr_plan (encodingForMaxWidthRatio cfg) stats t"

fun encoder_encode :: "encoding_kind \<Rightarrow> encodable \<Rightarrow> for_error + encoded_vector" where
  "encoder_encode RUN_LENGTH src = Inr (EV_RL (rl_encode src))"
| "encoder_encode BIT_PACKED src = Inr (EV_BP (bp_encode src))"
| "encoder_encode FRAME_OF_REFERENCE src = bindE (fr_encode src) (\<lambda>v. Inr (EV_FR v))"

fun encoder_read ::
  "encoding_kind \<Rightarrow> data_type \<Rightarrow> nat \<Rightarrow> byte_reader \<Rightarrow> io_error + encoded_vector \<times> byte_reader" where
  "encoder_read RUN_LENGTH t n r = bindE (rl_read t n r) (\<lambda>(v, r). Inr (EV_RL v, r))"
| "encoder_read BIT_PACKED t n r = bindE (bp_read t n r) (\<lambda>(v, r). Inr (EV_BP v, r))"
| "encoder_read FRAME_OF_REFERENCE t n r = bindE (fr_read t n r) (\<lambda>(v, r). Inr (EV_FR v, r))"

lemma registry_page:
  assumes "parses f img u" "length img = sz" "emits wr img"
    and "\<And>r. g r = bindE (f r) (\<lambda>(v, r). Inr (c v, r))"
  shows "\<exists>img. length img = sz \<and> emits wr img \<and> parses g img (c u)"
proof -
  have "g = (\<lambda>r. bindE (f r) (\<lambda>(v, r). Inr (c v, r)))" using assms(4) by (rule ext)
  then show ?thesis using parses_map [OF assms(1), of c] assms(2,3) by blast
qed

text \<open>Every registered encoder keeps the contract, so the dispatch on the kind keeps it.\<close>

interpretation registry: column_encoder "encoder_plan cfg kind" "encoder_encode kind"
  ev_valueAt ev_decode ev_byteSize ev_writeTo "encoder_read kind" for cfg kind
proof unfold_locales
  fix src v
  assume src: "valid_source src" and p: "encoder_plan cfg kind (e_stats src) (e_type src) \<noteq> None"
  show "\<exists>v. encoder_encode kind src = Inr v"
    using p fr.encode_total [OF src, of "encodingForMaxWidthRatio cfg"]
    by (cases kind) (auto simp: bindE_Inr_iff)
  assume v: "encoder_encode kind src = Inr v"
  show "\<And>i. i < e_length src \<Longrightarrow> ev_valueAt v i = int_value (e_type src) (e_values src ! i)"
    using p v rl.value_law [OF src, of "encodingRleMaxRunRatio cfg"]
      bp.value_law [OF src, of "encodingBitPackMaxWidthRatio cfg"]
      fr.value_law [OF src, of "encodingForMaxWidthRatio cfg"]
    by (cases kind) (auto simp: bindE_Inr_iff)
  show "ev_decode v = take (e_length src) (e_values src)"
    using p v rl.decode_law [OF src, of "encodingRleMaxRunRatio cfg"]
      bp.decode_law [OF src, of "encodingBitPackMaxWidthRatio cfg"]
      fr.decode_law [OF src, of "encodingForMaxWidthRatio cfg"]
    by (cases kind) (auto simp: bindE_Inr_iff)
  show "\<exists>img. length img = ev_byteSize v \<and> emits (ev_writeTo v) img
      \<and> parses (encoder_read kind (e_type src) (e_length src)) img v"
  proof (cases kind)
    case RUN_LENGTH
    then have "v = EV_RL (rl_encode src)" using v by simp
    then show ?thesis
      using registry_page [where c = EV_RL, OF rl_encode_page [OF src] length_rl_image emits_rl]
        RUN_LENGTH by simp
  next
    case BIT_PACKED
    then have "bp_eligible src" "v = EV_BP (bp_encode src)" using p v bp_plan_eligible by auto
    then show ?thesis
      using registry_page [where c = EV_BP, OF bp_encode_page [OF src] length_bp_image emits_bp]
        BIT_PACKED by simp
  next
    case FRAME_OF_REFERENCE
    then obtain u where u: "fr_encode src = Inr u" "v = EV_FR u" using v by (auto simp: bindE_Inr_iff)
    then show ?thesis
      using registry_page [where c = EV_FR, OF fr_encode_page [OF src u(1)] length_fr_image emits_fr]
        FRAME_OF_REFERENCE by simp
  qed
next
  fix src p v
  assume src: "valid_source src" and p: "encoder_plan cfg kind (e_stats src) (e_type src) = Some p"
    and v: "encoder_encode kind src = Inr v"
  show "ev_byteSize v = p_bytes p"
    using p v rl.size_law [OF src, of "encodingRleMaxRunRatio cfg"]
      bp.size_law [OF src, of "encodingBitPackMaxWidthRatio cfg"]
      fr.size_law [OF src, of "encodingForMaxWidthRatio cfg"]
    by (cases kind) (auto simp: bindE_Inr_iff)
qed

lemma encoderForId_id: "encoderForId (encoder_id k) = Inr k"
  by (cases k) (simp_all add: encoderForId_def REGISTERED_ENCODERS_def)

lemma ev_kind_encode: "encoder_encode k src = Inr v \<Longrightarrow> ev_kind v = k"
  by (cases k) (auto simp: bindE_Inr_iff)

section \<open>Choosing an encoder\<close>

definition flatBytes :: "int_stats \<Rightarrow> data_type \<Rightarrow> nat" where
  "flatBytes stats t = st_length stats * byteWidthFor t"

definition choose_step ::
  "encoding_config \<Rightarrow> int_stats \<Rightarrow> data_type \<Rightarrow> encoding_kind \<Rightarrow>
   (encoding_kind \<times> nat) option \<Rightarrow> (encoding_kind \<times> nat) option" where
  "choose_step cfg stats t kind best =
     (case encoder_plan cfg kind stats t of
        None \<Rightarrow> best
      | Some plan \<Rightarrow>
          if \<not> p_withinThreshold plan then best
          else case best of
            None \<Rightarrow> Some (kind, p_bytes plan)
          | Some (_, bytes) \<Rightarrow> if p_bytes plan < bytes then Some (kind, p_bytes plan) else best)"

definition best_encoder :: "encoding_config \<Rightarrow> int_stats \<Rightarrow> data_type \<Rightarrow> (encoding_kind \<times> nat) option" where
  "best_encoder cfg stats t = fold (choose_step cfg stats t) REGISTERED_ENCODERS None"

definition chooseEncoder :: "encoding_config \<Rightarrow> int_stats \<Rightarrow> data_type \<Rightarrow> encoding_kind option" where
  "chooseEncoder cfg stats t =
     (if forcedColumnEncoding cfg \<noteq> [] then
        (case find (\<lambda>k. kind_name k = forcedColumnEncoding cfg) REGISTERED_ENCODERS of
           None \<Rightarrow> None
         | Some k \<Rightarrow> if encoder_plan cfg k stats t = None then None else Some k)
      else if js_lt (Fin (of_nat (st_length stats))) (encodingMinRows cfg) then None
      else case best_encoder cfg stats t of
        None \<Rightarrow> None
      | Some (k, bytes) \<Rightarrow>
          if js_le (Fin (of_nat bytes))
               (js_mul (Fin (of_nat (flatBytes stats t))) (encodingMinCompressionRatio cfg))
          then Some k else None)"

text \<open>
  \<open>encodeColumnValues\<close> of a column: its type, its \<open>encoded\<close> vector if it has one, its typed
  array if it has one, and its length.
\<close>

definition encodeColumnValues ::
  "encoding_config \<Rightarrow> data_type \<Rightarrow> encoded_vector option \<Rightarrow> int list option \<Rightarrow> nat \<Rightarrow>
   for_error + encoded_vector option" where
  "encodeColumnValues cfg t encoded data n =
     (if \<not> columnEncoding cfg then Inr None
      else case encoded of
        Some v \<Rightarrow> Inr (Some v)
      | None \<Rightarrow>
          if t \<notin> ENCODABLE_TYPES \<or> n = 0 then Inr None
          else case data of
            None \<Rightarrow> Inr None
          | Some values \<Rightarrow>
              let stats = summarizeIntegers values n
              in case chooseEncoder cfg stats t of
                   None \<Rightarrow> Inr None
                 | Some kind \<Rightarrow>
                     bindE (encoder_encode kind
                       \<lparr>e_type = t, e_length = n, e_values = values, e_stats = stats\<rparr>)
                       (\<lambda>v. Inr (Some v)))"

text \<open>The loop keeps a least plan among those within their threshold.\<close>

definition candidate :: "encoding_config \<Rightarrow> int_stats \<Rightarrow> data_type \<Rightarrow> encoding_kind \<Rightarrow> nat \<Rightarrow> bool" where
  "candidate cfg stats t k b \<longleftrightarrow>
     (case encoder_plan cfg k stats t of
        None \<Rightarrow> False
      | Some p \<Rightarrow> p_withinThreshold p \<and> p_bytes p = b)"

lemma choose_fold:
  assumes "fold (choose_step cfg stats t) ks None = r"
  shows "(case r of None \<Rightarrow> \<forall>k\<in>set ks. \<forall>b. \<not> candidate cfg stats t k b
    | Some (k, b) \<Rightarrow> candidate cfg stats t k b
        \<and> (\<forall>k'\<in>set ks. \<forall>b'. candidate cfg stats t k' b' \<longrightarrow> b \<le> b'))"
  using assms
proof (induction ks arbitrary: r rule: rev_induct)
  case (snoc k ks)
  define m where "m = fold (choose_step cfg stats t) ks None"
  have IH: "case m of None \<Rightarrow> \<forall>k\<in>set ks. \<forall>b. \<not> candidate cfg stats t k b
    | Some (k, b) \<Rightarrow> candidate cfg stats t k b
        \<and> (\<forall>k'\<in>set ks. \<forall>b'. candidate cfg stats t k' b' \<longrightarrow> b \<le> b')"
    using snoc.IH [OF m_def [symmetric]] .
  have r: "r = choose_step cfg stats t k m" using snoc.prems by (simp add: m_def)
  show ?case
  proof (cases "encoder_plan cfg k stats t")
    case None
    then have "\<And>b. \<not> candidate cfg stats t k b" by (simp add: candidate_def)
    then show ?thesis using IH r None by (auto simp: choose_step_def split: option.splits)
  next
    case (Some p)
    then have c: "\<And>b. candidate cfg stats t k b \<longleftrightarrow> p_withinThreshold p \<and> b = p_bytes p"
      by (auto simp: candidate_def)
    show ?thesis
      using IH r Some c by (cases m) (fastforce simp: choose_step_def split: if_splits)+
  qed
qed simp

lemma best_encoder_least:
  assumes "best_encoder cfg stats t = Some (k, b)"
  shows "candidate cfg stats t k b" "candidate cfg stats t k' b' \<Longrightarrow> b \<le> b'"
proof -
  have "k' \<in> set REGISTERED_ENCODERS" by (cases k') (simp_all add: REGISTERED_ENCODERS_def)
  then show "candidate cfg stats t k b" "candidate cfg stats t k' b' \<Longrightarrow> b \<le> b'"
    using choose_fold [OF assms [unfolded best_encoder_def]] by auto
qed

lemma chooseEncoder_plan:
  assumes "chooseEncoder cfg stats t = Some k"
  shows "encoder_plan cfg k stats t \<noteq> None"
  using assms best_encoder_least(1) [of cfg stats t k]
  by (auto simp: chooseEncoder_def candidate_def split: if_splits option.splits)

lemma encodeColumnValues_cases:
  assumes "encodeColumnValues cfg t None (Some values) n = Inr (Some v)"
  obtains k where "chooseEncoder cfg (summarizeIntegers values n) t = Some k"
    "encoder_encode k (encodable_of t values n) = Inr v"
    "encoder_plan cfg k (e_stats (encodable_of t values n)) (e_type (encodable_of t values n)) \<noteq> None"
  using assms chooseEncoder_plan [of cfg "summarizeIntegers values n" t]
  by (auto simp: encodeColumnValues_def encodable_of_def Let_def bindE_Inr_iff split: if_splits option.splits)

lemma best_encoder_none: "best_encoder cfg stats t = None \<Longrightarrow> \<not> candidate cfg stats t k b"
proof -
  have "k \<in> set REGISTERED_ENCODERS" by (cases k) (simp_all add: REGISTERED_ENCODERS_def)
  then show "best_encoder cfg stats t = None \<Longrightarrow> \<not> candidate cfg stats t k b"
    using choose_fold [OF best_encoder_def [symmetric], of cfg stats t] by auto
qed

text \<open>What a best choice is, and what it has to save.\<close>

definition best_plan :: "encoding_config \<Rightarrow> int_stats \<Rightarrow> data_type \<Rightarrow> encoding_kind \<Rightarrow> nat \<Rightarrow> bool" where
  "best_plan cfg stats t k b \<longleftrightarrow>
     candidate cfg stats t k b \<and> (\<forall>k' b'. candidate cfg stats t k' b' \<longrightarrow> b \<le> b')"

definition saves_enough :: "encoding_config \<Rightarrow> int_stats \<Rightarrow> data_type \<Rightarrow> nat \<Rightarrow> bool" where
  "saves_enough cfg stats t b \<longleftrightarrow>
     js_le (Fin (of_nat b)) (js_mul (Fin (of_nat (flatBytes stats t))) (encodingMinCompressionRatio cfg))"

end
