(* ===== verification/LruCache.thy ===== *)
theory LruCache
  imports Prelude "HOL-Library.AList"
begin

text \<open>
  \<open>src/utils/lru-cache.ts\<close>: a bounded map that evicts the least recently used key. The nodes are
  objects that are mutated through \<open>prev\<close>, \<open>next\<close>, \<open>_head\<close>, \<open>_tail\<close> and the key map, so the model
  keeps an explicit heap of nodes; the \<open>Map\<close> is an association list (insertion order, no key
  twice). The specification is the list of entries, most recently used first.
\<close>

record ('k, 'v) lru_node =
  n_key :: 'k
  n_val :: 'v
  n_prev :: "nat option"
  n_next :: "nat option"

record ('k, 'v) lru =
  l_max :: nat
  l_map :: "('k \<times> nat) list"
  l_head :: "nat option"
  l_tail :: "nat option"
  l_heap :: "nat \<Rightarrow> ('k, 'v) lru_node option"
  l_fresh :: nat

definition node_at :: "('k, 'v) lru \<Rightarrow> nat \<Rightarrow> ('k, 'v) lru_node" where
  "node_at s a = the (l_heap s a)"

definition put_node :: "nat \<Rightarrow> ('k, 'v) lru_node \<Rightarrow> ('k, 'v) lru \<Rightarrow> ('k, 'v) lru" where
  "put_node a n s = s\<lparr>l_heap := (l_heap s)(a := Some n)\<rparr>"

definition lru_new :: "nat \<Rightarrow> ('k, 'v) lru" where
  "lru_new maxSize =
     \<lparr>l_max = maxSize, l_map = [], l_head = None, l_tail = None, l_heap = (\<lambda>_. None), l_fresh = 0\<rparr>"

definition lru_detach :: "nat \<Rightarrow> ('k, 'v) lru \<Rightarrow> ('k, 'v) lru" where
  "lru_detach a s =
     (let s1 = (case n_prev (node_at s a) of
                  Some p \<Rightarrow> put_node p ((node_at s p)\<lparr>n_next := n_next (node_at s a)\<rparr>) s
                | None \<Rightarrow> s\<lparr>l_head := n_next (node_at s a)\<rparr>);
          s2 = (case n_next (node_at s1 a) of
                  Some q \<Rightarrow> put_node q ((node_at s1 q)\<lparr>n_prev := n_prev (node_at s1 a)\<rparr>) s1
                | None \<Rightarrow> s1\<lparr>l_tail := n_prev (node_at s1 a)\<rparr>)
      in put_node a ((node_at s2 a)\<lparr>n_prev := None, n_next := None\<rparr>) s2)"

definition lru_prepend :: "nat \<Rightarrow> ('k, 'v) lru \<Rightarrow> ('k, 'v) lru" where
  "lru_prepend a s =
     (let s1 = put_node a ((node_at s a)\<lparr>n_next := l_head s, n_prev := None\<rparr>) s;
          s2 = (case l_head s1 of
                  Some h \<Rightarrow> put_node h ((node_at s1 h)\<lparr>n_prev := Some a\<rparr>) s1
                | None \<Rightarrow> s1);
          s3 = s2\<lparr>l_head := Some a\<rparr>
      in if l_tail s3 = None then s3\<lparr>l_tail := Some a\<rparr> else s3)"

definition lru_moveToHead :: "nat \<Rightarrow> ('k, 'v) lru \<Rightarrow> ('k, 'v) lru" where
  "lru_moveToHead a s = (if Some a = l_head s then s else lru_prepend a (lru_detach a s))"

definition lru_evictTail :: "('k, 'v) lru \<Rightarrow> 'k option \<times> ('k, 'v) lru" where
  "lru_evictTail s =
     (case l_tail s of
        None \<Rightarrow> (None, s)
      | Some a \<Rightarrow>
          let k = n_key (node_at s a)
          in (Some k, lru_detach a (s\<lparr>l_map := AList.delete k (l_map s)\<rparr>)))"

definition lru_get :: "'k \<Rightarrow> ('k, 'v) lru \<Rightarrow> 'v option \<times> ('k, 'v) lru" where
  "lru_get k s =
     (case map_of (l_map s) k of
        None \<Rightarrow> (None, s)
      | Some a \<Rightarrow> let s' = lru_moveToHead a s in (Some (n_val (node_at s' a)), s'))"

definition lru_set :: "'k \<Rightarrow> 'v \<Rightarrow> ('k, 'v) lru \<Rightarrow> 'k option \<times> ('k, 'v) lru" where
  "lru_set k v s =
     (case map_of (l_map s) k of
        Some a \<Rightarrow> (None, lru_moveToHead a (put_node a ((node_at s a)\<lparr>n_val := v\<rparr>) s))
      | None \<Rightarrow>
          let a = l_fresh s;
              s1 = put_node a \<lparr>n_key = k, n_val = v, n_prev = None, n_next = None\<rparr>
                     (s\<lparr>l_fresh := Suc a\<rparr>);
              s2 = s1\<lparr>l_map := AList.update k a (l_map s1)\<rparr>;
              s3 = lru_prepend a s2
          in if length (l_map s3) > l_max s3 then lru_evictTail s3 else (None, s3))"

definition lru_has :: "'k \<Rightarrow> ('k, 'v) lru \<Rightarrow> bool" where
  "lru_has k s = (map_of (l_map s) k \<noteq> None)"

definition lru_delete :: "'k \<Rightarrow> ('k, 'v) lru \<Rightarrow> bool \<times> ('k, 'v) lru" where
  "lru_delete k s =
     (case map_of (l_map s) k of
        None \<Rightarrow> (False, s)
      | Some a \<Rightarrow> let s' = lru_detach a s in (True, s'\<lparr>l_map := AList.delete k (l_map s')\<rparr>))"

definition lru_clear :: "('k, 'v) lru \<Rightarrow> ('k, 'v) lru" where
  "lru_clear s = s\<lparr>l_map := [], l_head := None, l_tail := None\<rparr>"

definition lru_size :: "('k, 'v) lru \<Rightarrow> nat" where
  "lru_size s = length (l_map s)"

section \<open>The entries, most recently used first\<close>

definition spec_get :: "'k \<Rightarrow> ('k \<times> 'v) list \<Rightarrow> 'v option \<times> ('k \<times> 'v) list" where
  "spec_get k es =
     (case map_of es k of None \<Rightarrow> (None, es) | Some v \<Rightarrow> (Some v, (k, v) # AList.delete k es))"

definition spec_set :: "nat \<Rightarrow> 'k \<Rightarrow> 'v \<Rightarrow> ('k \<times> 'v) list \<Rightarrow> 'k option \<times> ('k \<times> 'v) list" where
  "spec_set maxSize k v es =
     (case map_of es k of
        Some _ \<Rightarrow> (None, (k, v) # AList.delete k es)
      | None \<Rightarrow>
          if Suc (length es) > maxSize then (Some (fst (last ((k, v) # es))), butlast ((k, v) # es))
          else (None, (k, v) # es))"

section \<open>Doubly linked segments\<close>

definition hd_opt :: "nat list \<Rightarrow> nat option \<Rightarrow> nat option" where
  "hd_opt xs q = (case xs of [] \<Rightarrow> q | a # _ \<Rightarrow> Some a)"

definition last_opt :: "nat option \<Rightarrow> nat list \<Rightarrow> nat option" where
  "last_opt p xs = (if xs = [] then p else Some (last xs))"

fun seg :: "(nat \<Rightarrow> ('k, 'v) lru_node option) \<Rightarrow> nat option \<Rightarrow> nat list \<Rightarrow> nat option \<Rightarrow> bool" where
  "seg h p [] q = True"
| "seg h p (a # xs) q =
     (case h a of None \<Rightarrow> False
      | Some n \<Rightarrow> n_prev n = p \<and> n_next n = hd_opt xs q \<and> seg h (Some a) xs q)"

lemma hd_opt_simps [simp]:
  "hd_opt [] q = q" "hd_opt (a # xs) q = Some a" "hd_opt (xs @ a # ys) q = hd_opt xs (Some a)"
  by (auto simp: hd_opt_def split: list.splits)

lemma last_opt_simps [simp]:
  "last_opt p [] = p" "last_opt p (xs @ [a]) = Some a" "last_opt p (a # xs) = last_opt (Some a) xs"
  "last_opt p (xs @ a # ys) = last_opt (Some a) ys"
  by (auto simp: last_opt_def)

lemma hd_opt_append: "hd_opt (xs @ ys) q = hd_opt xs (hd_opt ys q)"
  by (auto simp: hd_opt_def split: list.splits)

lemma last_opt_append: "last_opt p (xs @ ys) = last_opt (last_opt p xs) ys"
  by (auto simp: last_opt_def)

lemma seg_append:
  "seg h p (xs @ ys) q \<longleftrightarrow> seg h p xs (hd_opt ys q) \<and> seg h (last_opt p xs) ys q"
  by (induction xs arbitrary: p) (auto simp: hd_opt_append split: option.splits)

lemma seg_frame: "a \<notin> set xs \<Longrightarrow> seg (h(a := n)) p xs q = seg h p xs q"
  by (induction xs arbitrary: p) (auto split: option.splits)

lemma seg_at:
  "seg h p (xs @ a # ys) q \<Longrightarrow>
     \<exists>n. h a = Some n \<and> n_prev n = last_opt p xs \<and> n_next n = hd_opt ys q"
  by (auto simp: seg_append split: option.splits)

lemma seg_dom: "seg h p xs q \<Longrightarrow> a \<in> set xs \<Longrightarrow> \<exists>n. h a = Some n"
  by (induction xs arbitrary: p) (auto split: option.splits)

text \<open>Redirecting the pointer out of the last node, or the one into the first.\<close>

lemma seg_set_next:
  assumes "seg h p (xs @ [a]) q" "a \<notin> set xs"
  shows "seg (h(a := Some ((the (h a))\<lparr>n_next := q'\<rparr>))) p (xs @ [a]) q'"
  using assms by (auto simp: seg_append seg_frame split: option.splits)

lemma seg_set_prev:
  assumes "seg h p (a # ys) q" "a \<notin> set ys"
  shows "seg (h(a := Some ((the (h a))\<lparr>n_prev := p'\<rparr>))) p' (a # ys) q"
  using assms by (auto simp: seg_frame split: option.splits)

section \<open>The representation invariant\<close>

definition kv :: "('k, 'v) lru \<Rightarrow> nat \<Rightarrow> 'k \<times> 'v" where
  "kv s a = (n_key (node_at s a), n_val (node_at s a))"

definition linked :: "('k, 'v) lru \<Rightarrow> nat list \<Rightarrow> bool" where
  "linked s xs \<longleftrightarrow> distinct xs \<and> seg (l_heap s) None xs None
     \<and> l_head s = hd_opt xs None \<and> l_tail s = last_opt None xs"

definition mapped :: "('k, 'v) lru \<Rightarrow> nat list \<Rightarrow> bool" where
  "mapped s xs \<longleftrightarrow> distinct (map fst (l_map s)) \<and> distinct (map (fst \<circ> kv s) xs)
     \<and> set (l_map s) = (\<lambda>a. (fst (kv s a), a)) ` set xs"

definition lru_rep :: "('k, 'v) lru \<Rightarrow> nat list \<Rightarrow> bool" where
  "lru_rep s xs \<longleftrightarrow> linked s xs \<and> mapped s xs \<and> (\<forall>a. l_heap s a \<noteq> None \<longrightarrow> a < l_fresh s)"

text \<open>What the cache holds, and that it holds at most \<open>l_max\<close> entries.\<close>

definition lru_abs :: "('k, 'v) lru \<Rightarrow> ('k \<times> 'v) list \<Rightarrow> bool" where
  "lru_abs s es \<longleftrightarrow> (\<exists>xs. lru_rep s xs \<and> es = map (kv s) xs) \<and> length es \<le> l_max s"

text \<open>Writing a node back with the same key and value keeps what the cache holds.\<close>

lemma kv_put:
  "n_key n = n_key (node_at s a) \<Longrightarrow> n_val n = n_val (node_at s a) \<Longrightarrow> kv (put_node a n s) = kv s"
  by (rule ext) (simp add: kv_def node_at_def put_node_def)

lemma put_node_fields [simp]:
  "l_map (put_node a n s) = l_map s" "l_max (put_node a n s) = l_max s"
  "l_head (put_node a n s) = l_head s" "l_tail (put_node a n s) = l_tail s"
  "l_fresh (put_node a n s) = l_fresh s" "l_heap (put_node a n s) = (l_heap s)(a := Some n)"
  by (simp_all add: put_node_def)

lemma kv_fields [simp]:
  "kv (s\<lparr>l_head := x\<rparr>) = kv s" "kv (s\<lparr>l_tail := x\<rparr>) = kv s" "kv (s\<lparr>l_map := m\<rparr>) = kv s"
  by (simp_all add: fun_eq_iff kv_def node_at_def)

lemma node_at_put [simp]: "node_at (put_node a n s) b = (if b = a then n else node_at s b)"
  by (simp add: node_at_def)

lemma node_at_fields [simp]:
  "node_at (s\<lparr>l_head := x\<rparr>) b = node_at s b" "node_at (s\<lparr>l_tail := x\<rparr>) b = node_at s b"
  "node_at (s\<lparr>l_map := m\<rparr>) b = node_at s b" "node_at (s\<lparr>l_fresh := k\<rparr>) b = node_at s b"
  by (simp_all add: node_at_def)

lemma detach_frame:
  "kv (lru_detach a s) = kv s" "l_map (lru_detach a s) = l_map s" "l_max (lru_detach a s) = l_max s"
  "l_fresh (lru_detach a s) = l_fresh s"
  unfolding lru_detach_def Let_def
  by (simp_all add: fun_eq_iff kv_def split: option.splits)

lemma detach_linked:
  assumes "linked s (xs @ a # ys)"
  shows "linked (lru_detach a s) (xs @ ys)"
proof -
  let ?h = "l_heap s"
  have seg: "seg ?h None (xs @ a # ys) None" and d: "distinct (xs @ a # ys)"
    and ht: "l_head s = hd_opt (xs @ a # ys) None" "l_tail s = last_opt None (xs @ a # ys)"
    using assms by (auto simp: linked_def)
  obtain n where n: "?h a = Some n" "n_prev n = last_opt None xs" "n_next n = hd_opt ys None"
    using seg_at [OF seg] by blast
  have parts: "seg ?h None xs (Some a)" "seg ?h (Some a) ys None"
    using seg by (auto simp: seg_append split: option.splits)
  have na: "node_at s a = n" using n by (simp add: node_at_def)
  show ?thesis
  proof (cases xs rule: rev_cases)
    case xs: Nil
    show ?thesis
    proof (cases ys)
      case ys: Nil
      then show ?thesis using xs n by (simp add: linked_def lru_detach_def na)
    next
      case ys: (Cons q vs)
      then have "seg (?h(q := Some ((the (?h q))\<lparr>n_prev := None\<rparr>))) None (q # vs) None"
        using parts(2) d by (intro seg_set_prev) auto
      then show ?thesis using xs ys n d ht
        by (simp add: linked_def lru_detach_def na seg_frame node_at_def)
    qed
  next
    case xs: (snoc us p)
    show ?thesis
    proof (cases ys)
      case ys: Nil
      have "seg (?h(p := Some ((the (?h p))\<lparr>n_next := None\<rparr>))) None (us @ [p]) None"
        using parts(1) xs d by (intro seg_set_next) auto
      then show ?thesis using xs ys n d ht
        by (auto simp: linked_def lru_detach_def na seg_frame node_at_def hd_opt_append)
    next
      case ys: (Cons q vs)
      let ?h1 = "?h(p := Some ((the (?h p))\<lparr>n_next := Some q\<rparr>))"
      let ?h2 = "?h1(q := Some ((the (?h1 q))\<lparr>n_prev := Some p\<rparr>))"
      have "seg ?h1 None (us @ [p]) (Some q)"
        using parts(1) xs d by (intro seg_set_next) auto
      then have left: "seg ?h2 None (us @ [p]) (Some q)"
        using xs ys d by (subst seg_frame) auto
      have "seg ?h1 (Some a) (q # vs) None" using parts(2) xs ys d by (subst seg_frame) auto
      then have right: "seg ?h2 (Some p) (q # vs) None"
        using ys d by (intro seg_set_prev) auto
      have "seg ?h2 None (xs @ ys) None"
        using left right xs ys by (simp only: seg_append) simp
      then show ?thesis using xs ys n d ht
        by (auto simp: linked_def lru_detach_def na seg_frame node_at_def hd_opt_append)
    qed
  qed
qed

lemma prepend_frame:
  "kv (lru_prepend a s) = kv s" "l_map (lru_prepend a s) = l_map s" "l_max (lru_prepend a s) = l_max s"
  "l_fresh (lru_prepend a s) = l_fresh s"
  unfolding lru_prepend_def Let_def
  by (simp_all add: fun_eq_iff kv_def split: option.splits)

lemma prepend_linked:
  assumes "linked s xs" "a \<notin> set xs"
  shows "linked (lru_prepend a s) (a # xs)"
proof (cases xs)
  case Nil
  then show ?thesis using assms by (simp add: linked_def lru_prepend_def node_at_def)
next
  case (Cons h zs)
  let ?h1 = "(l_heap s)(a := Some ((node_at s a)\<lparr>n_next := Some h, n_prev := None\<rparr>))"
  have "seg ?h1 None (h # zs) None" using assms Cons by (subst seg_frame) (auto simp: linked_def)
  then have "seg (?h1(h := Some ((the (?h1 h))\<lparr>n_prev := Some a\<rparr>))) (Some a) (h # zs) None"
    using assms Cons by (intro seg_set_prev) (auto simp: linked_def)
  then show ?thesis using assms Cons
    by (auto simp: linked_def lru_prepend_def node_at_def last_opt_def)
qed

lemma moveToHead_frame:
  "kv (lru_moveToHead a s) = kv s" "l_map (lru_moveToHead a s) = l_map s"
  "l_max (lru_moveToHead a s) = l_max s" "l_fresh (lru_moveToHead a s) = l_fresh s"
  by (simp_all add: lru_moveToHead_def detach_frame prepend_frame)

lemma moveToHead_linked:
  assumes "linked s (xs @ a # ys)"
  shows "linked (lru_moveToHead a s) (a # xs @ ys)"
proof (cases xs)
  case Nil
  then show ?thesis using assms by (simp add: lru_moveToHead_def linked_def)
next
  case (Cons x us)
  have "Some a \<noteq> l_head s" "a \<notin> set (xs @ ys)" using assms Cons by (auto simp: linked_def)
  then show ?thesis
    using prepend_linked [OF detach_linked [OF assms]] by (simp add: lru_moveToHead_def)
qed

text \<open>Allocated addresses: no operation but \<open>lru_set\<close> adds one.\<close>

definition alloc :: "('k, 'v) lru \<Rightarrow> nat set" where
  "alloc s = {a. l_heap s a \<noteq> None}"

lemma alloc_put [simp]: "alloc (put_node a n s) = insert a (alloc s)"
  by (auto simp: alloc_def)

lemma alloc_fields [simp]:
  "alloc (s\<lparr>l_head := x\<rparr>) = alloc s" "alloc (s\<lparr>l_tail := x\<rparr>) = alloc s" "alloc (s\<lparr>l_map := m\<rparr>) = alloc s"
  "alloc (s\<lparr>l_fresh := k\<rparr>) = alloc s"
  by (simp_all add: alloc_def)

lemma linked_alloc:
  assumes "linked s xs"
  shows "set xs \<subseteq> alloc s"
proof
  fix a assume "a \<in> set xs"
  then show "a \<in> alloc s"
    using seg_dom [of "l_heap s" None xs None a] assms by (auto simp: linked_def alloc_def)
qed

lemma linked_neighbours:
  assumes "linked s (xs @ a # ys)"
  shows "n_prev (node_at s a) = last_opt None xs" "n_next (node_at s a) = hd_opt ys None"
  using seg_at [of "l_heap s" None xs a ys None] assms by (auto simp: linked_def node_at_def)

lemma last_opt_mem: "last_opt None xs = Some p \<Longrightarrow> p \<in> set xs"
  by (auto simp: last_opt_def split: if_splits)

lemma hd_opt_mem: "hd_opt xs None = Some p \<Longrightarrow> p \<in> set xs"
  by (auto simp: hd_opt_def split: list.splits)

lemma detach_alloc:
  assumes "linked s (xs @ a # ys)"
  shows "alloc (lru_detach a s) = alloc s"
proof -
  note nb = linked_neighbours [OF assms]
  have sub: "set (xs @ a # ys) \<subseteq> alloc s" by (rule linked_alloc [OF assms])
  have d: "distinct (xs @ a # ys)" using assms by (simp add: linked_def)
  have "last_opt None xs = Some p \<Longrightarrow> p \<in> alloc s \<and> p \<noteq> a" for p
    using sub d by (auto dest!: last_opt_mem)
  moreover have "hd_opt ys None = Some q \<Longrightarrow> q \<in> alloc s \<and> q \<noteq> a" for q
    using sub d by (auto dest!: hd_opt_mem)
  ultimately show ?thesis using sub
    by (auto simp: lru_detach_def Let_def nb split: option.splits)
qed

lemma prepend_alloc:
  assumes "linked s xs" "a \<in> alloc s"
  shows "alloc (lru_prepend a s) = alloc s"
proof -
  have "l_head s = Some h \<Longrightarrow> h \<in> alloc s" for h
    using linked_alloc [OF assms(1)] assms(1) by (auto simp: linked_def dest!: hd_opt_mem [OF sym])
  then show ?thesis using assms(2)
    by (auto simp: lru_prepend_def Let_def split: option.splits if_splits)
qed

lemma moveToHead_alloc:
  assumes "linked s (xs @ a # ys)"
  shows "alloc (lru_moveToHead a s) = alloc s"
proof -
  have "a \<in> alloc s" using linked_alloc [OF assms] by auto
  then show ?thesis
    using detach_alloc [OF assms] prepend_alloc [OF detach_linked [OF assms], of a]
    by (simp add: lru_moveToHead_def)
qed

section \<open>The operations refine the specification\<close>

lemma lru_rep_alloc: "lru_rep s xs \<longleftrightarrow> linked s xs \<and> mapped s xs \<and> (\<forall>a\<in>alloc s. a < l_fresh s)"
  by (auto simp: lru_rep_def alloc_def)

lemma mapped_cong:
  "mapped s xs \<Longrightarrow> kv s' = kv s \<Longrightarrow> l_map s' = l_map s \<Longrightarrow> set ys = set xs \<Longrightarrow> distinct ys \<Longrightarrow> mapped s' ys"
  by (auto simp: mapped_def distinct_map inj_on_def)

lemma mapped_lookup:
  assumes "mapped s xs"
  shows "map_of (l_map s) k = Some a \<longleftrightarrow> a \<in> set xs \<and> fst (kv s a) = k"
proof -
  have "map_of (l_map s) k = Some a \<longleftrightarrow> (k, a) \<in> set (l_map s)"
    using assms by (simp add: mapped_def)
  then show ?thesis using assms by (auto simp: mapped_def)
qed

lemma mapped_none:
  assumes "mapped s xs"
  shows "map_of (l_map s) k = None \<longleftrightarrow> map_of (map (kv s) xs) k = None"
  using assms by (auto simp: mapped_def map_of_eq_None_iff image_iff)

lemma mapped_value:
  assumes "mapped s xs" "a \<in> set xs"
  shows "map_of (map (kv s) xs) (fst (kv s a)) = Some (snd (kv s a))"
proof -
  have "distinct (map fst (map (kv s) xs))" using assms(1) by (simp add: mapped_def comp_def)
  moreover have "(fst (kv s a), snd (kv s a)) \<in> set (map (kv s) xs)" using assms(2) by simp
  ultimately show ?thesis by (simp only: map_of_eq_Some_iff)
qed

lemma delete_fresh: "k \<notin> fst ` set es \<Longrightarrow> AList.delete k es = es"
  by (induction es) auto

lemma delete_split:
  assumes "distinct (map (fst \<circ> f) (xs @ a # ys))"
  shows "AList.delete (fst (f a)) (map f (xs @ a # ys)) = map f (xs @ ys)"
proof -
  have "AList.delete (fst (f a)) (map f xs) = map f xs" "AList.delete (fst (f a)) (map f ys) = map f ys"
    using assms by (auto intro!: delete_fresh simp: image_iff)
  then show ?thesis by (simp add: AList.delete_eq case_prod_unfold)
qed

lemma mapped_size: "mapped s xs \<Longrightarrow> distinct xs \<Longrightarrow> length (l_map s) = length xs"
proof -
  assume m: "mapped s xs" and d: "distinct xs"
  have "distinct (l_map s)" using m by (simp add: mapped_def distinct_map)
  then have "length (l_map s) = card (set (l_map s))" by (simp add: distinct_card)
  also have "\<dots> = card (set xs)" using m by (simp add: mapped_def card_image inj_on_def)
  finally show ?thesis using d by (simp add: distinct_card)
qed

lemma detach_fields_map [simp]:
  "lru_detach a (s\<lparr>l_map := m\<rparr>) = (lru_detach a s)\<lparr>l_map := m\<rparr>"
  by (cases s) (simp add: lru_detach_def Let_def put_node_def node_at_def split: option.splits)

lemma lru_rep_moveToHead:
  assumes "lru_rep s (xs @ a # ys)"
  shows "lru_rep (lru_moveToHead a s) (a # xs @ ys)"
proof -
  have l: "linked s (xs @ a # ys)" and m: "mapped s (xs @ a # ys)"
    using assms by (simp_all add: lru_rep_def)
  have "mapped (lru_moveToHead a s) (a # xs @ ys)"
    by (rule mapped_cong [OF m]) (use l in \<open>auto simp: moveToHead_frame linked_def\<close>)
  then show ?thesis
    using moveToHead_linked [OF l] moveToHead_alloc [OF l] assms
    by (simp add: lru_rep_alloc moveToHead_frame)
qed

text \<open>Removing the node of a key, as \<open>delete\<close> and the eviction do.\<close>

lemma lru_rep_remove:
  assumes "lru_rep s (xs @ a # ys)" "k = fst (kv s a)"
  defines "s' \<equiv> lru_detach a (s\<lparr>l_map := AList.delete k (l_map s)\<rparr>)"
  shows "lru_rep s' (xs @ ys)" "kv s' = kv s" "l_max s' = l_max s"
proof -
  have l: "linked s (xs @ a # ys)" and m: "mapped s (xs @ a # ys)"
    using assms by (simp_all add: lru_rep_def)
  show kv: "kv s' = kv s" "l_max s' = l_max s" by (simp_all add: s'_def detach_frame)
  have dk: "distinct (map (fst \<circ> kv s) (xs @ a # ys))" using m by (simp add: mapped_def)
  have "set (l_map s') = (\<lambda>b. (fst (kv s' b), b)) ` set (xs @ ys)"
    using m dk unfolding mapped_def kv(1)
    by (auto simp: s'_def detach_frame AList.delete_eq assms(2) image_iff)
  moreover have "distinct (map fst (l_map s'))"
    using m by (simp add: s'_def detach_frame mapped_def distinct_delete)
  moreover have "distinct (map (fst \<circ> kv s') (xs @ ys))" using dk unfolding kv(1) by auto
  moreover have "linked s' (xs @ ys)"
    using detach_linked [OF l] by (simp add: s'_def linked_def)
  moreover have "alloc s' = alloc s" "l_fresh s' = l_fresh s"
    using detach_alloc [OF l] by (simp_all add: s'_def detach_frame)
  ultimately show "lru_rep s' (xs @ ys)"
    using assms(1) by (simp add: lru_rep_alloc mapped_def)
qed

text \<open>\<open>get\<close>: the value, and the entry moves to the front.\<close>

lemma lru_get_refines:
  assumes "lru_abs s es" "lru_get k s = (r, s')"
  shows "lru_abs s' (snd (spec_get k es)) \<and> r = fst (spec_get k es) \<and> l_max s' = l_max s"
proof -
  obtain xs where rep: "lru_rep s xs" and es: "es = map (kv s) xs" and len: "length es \<le> l_max s"
    using assms(1) by (auto simp: lru_abs_def)
  then have m: "mapped s xs" by (simp add: lru_rep_def)
  show ?thesis
  proof (cases "map_of (l_map s) k")
    case None
    then have "map_of es k = None" using mapped_none [OF m] es by simp
    then show ?thesis using assms None by (simp add: lru_get_def spec_get_def)
  next
    case (Some a)
    then have a: "a \<in> set xs" "k = fst (kv s a)" using mapped_lookup [OF m] by auto
    then obtain us vs where xs: "xs = us @ a # vs" by (meson split_list)
    have kv: "kv (lru_moveToHead a s) = kv s" by (rule moveToHead_frame)
    have v: "map_of es k = Some (snd (kv s a))" using mapped_value [OF m a(1)] es a(2) by simp
    have "AList.delete k es = map (kv s) (us @ vs)"
      using delete_split [of "kv s" us a vs] m unfolding es xs a(2) mapped_def by blast
    moreover have "lru_rep (lru_moveToHead a s) (a # us @ vs)"
      using lru_rep_moveToHead rep xs by blast
    moreover have "n_val (node_at (lru_moveToHead a s) a) = snd (kv s a)"
      using fun_cong [OF kv, of a] by (simp add: kv_def)
    ultimately show ?thesis
      using assms(2) Some v a(2) len es xs kv
      by (auto simp: lru_get_def spec_get_def lru_abs_def moveToHead_frame Let_def
          intro!: exI [of _ "a # us @ vs"])
  qed
qed

text \<open>\<open>delete\<close> removes the entry and says whether there was one.\<close>

lemma lru_delete_refines:
  assumes "lru_abs s es" "lru_delete k s = (r, s')"
  shows "lru_abs s' (AList.delete k es) \<and> (r \<longleftrightarrow> map_of es k \<noteq> None) \<and> l_max s' = l_max s"
proof -
  obtain xs where rep: "lru_rep s xs" and es: "es = map (kv s) xs" and len: "length es \<le> l_max s"
    using assms(1) by (auto simp: lru_abs_def)
  then have m: "mapped s xs" by (simp add: lru_rep_def)
  show ?thesis
  proof (cases "map_of (l_map s) k")
    case None
    then have n: "map_of es k = None" using mapped_none [OF m] es by simp
    then have "AList.delete k es = es" by (intro delete_fresh) (simp add: map_of_eq_None_iff)
    then show ?thesis using assms None n by (auto simp: lru_delete_def)
  next
    case (Some a)
    then have a: "a \<in> set xs" "k = fst (kv s a)" using mapped_lookup [OF m] by auto
    then obtain us vs where xs: "xs = us @ a # vs" by (meson split_list)
    have d: "AList.delete k es = map (kv s) (us @ vs)"
      using delete_split [of "kv s" us a vs] m unfolding es xs a(2) mapped_def by blast
    have "s' = lru_detach a (s\<lparr>l_map := AList.delete k (l_map s)\<rparr>)"
      using assms(2) Some by (simp add: lru_delete_def Let_def detach_frame)
    then have "lru_rep s' (us @ vs)" "kv s' = kv s" "l_max s' = l_max s"
      using lru_rep_remove [of s us a vs k] rep xs a(2) by simp_all
    then show ?thesis
      using assms(2) Some mapped_value [OF m a(1)] a(2) es d len xs
      by (auto simp: lru_delete_def Let_def lru_abs_def intro!: exI [of _ "us @ vs"])
  qed
qed

lemma update_fresh: "map_of al k = None \<Longrightarrow> AList.update k v al = al @ [(k, v)]"
  by (induction al) (auto split: if_splits)

lemma spec_set_length: "length es \<le> maxSize \<Longrightarrow> length (snd (spec_set maxSize k v es)) \<le> maxSize"
proof (cases "map_of es k")
  case (Some w)
  assume len: "length es \<le> maxSize"
  have "length (AList.delete k es) < length es"
    using Some by (auto simp: AList.delete_eq intro!: length_filter_less dest!: map_of_SomeD)
  then show ?thesis using Some len by (simp add: spec_set_def)
qed (simp add: spec_set_def)

text \<open>
  \<open>set\<close>: the entry is at the front; a new key beyond the capacity pushes out the last entry,
  whose key is returned.
\<close>

lemma lru_set_refines:
  assumes "lru_abs s es" "lru_set k v s = (r, s')"
  shows "lru_abs s' (snd (spec_set (l_max s) k v es)) \<and> r = fst (spec_set (l_max s) k v es)
    \<and> l_max s' = l_max s"
proof -
  obtain xs where rep: "lru_rep s xs" and es: "es = map (kv s) xs" and len: "length es \<le> l_max s"
    using assms(1) by (auto simp: lru_abs_def)
  then have m: "mapped s xs" and l: "linked s xs" by (simp_all add: lru_rep_def)
  show ?thesis
  proof (cases "map_of (l_map s) k")
    case (Some a)
    then have a: "a \<in> set xs" "k = fst (kv s a)" using mapped_lookup [OF m] by auto
    then obtain us vs where xs: "xs = us @ a # vs" by (meson split_list)
    define t where "t = put_node a ((node_at s a)\<lparr>n_val := v\<rparr>) s"
    have kvt: "kv t b = (if b = a then (k, v) else kv s b)" for b
      using a(2) by (simp add: t_def kv_def)
    have fst_kv: "fst (kv t b) = fst (kv s b)" for b using a(2) by (simp add: kvt)
    have seg_eq: "seg (l_heap t) p ys q = seg (l_heap s) p ys q" if "set ys \<subseteq> set xs" for p ys q
      using that linked_alloc [OF l]
    proof (induction ys arbitrary: p)
      case (Cons b ys)
      then show ?case by (auto simp: t_def node_at_def alloc_def split: option.splits)
    qed simp
    have "alloc t = alloc s" using linked_alloc [OF l] a(1) by (auto simp: t_def)
    moreover have "linked t xs" using l seg_eq by (simp add: linked_def t_def)
    moreover have "mapped t xs" using m by (simp add: mapped_def fst_kv comp_def) (simp add: t_def)
    ultimately have rept: "lru_rep t (us @ a # vs)"
      using rep xs by (simp add: lru_rep_alloc t_def)
    then have rep': "lru_rep (lru_moveToHead a t) (a # us @ vs)" by (rule lru_rep_moveToHead)
    have kvm: "kv (lru_moveToHead a t) = kv t" by (rule moveToHead_frame)
    have some: "map_of es k = Some (snd (kv s a))" using mapped_value [OF m a(1)] es a(2) by simp
    have del: "AList.delete k es = map (kv s) (us @ vs)"
      using delete_split [of "kv s" us a vs] m unfolding es xs a(2) mapped_def by blast
    have "a \<notin> set (us @ vs)" using l xs by (simp add: linked_def)
    then have abs': "(k, v) # AList.delete k es = map (kv (lru_moveToHead a t)) (a # us @ vs)"
      unfolding del kvm by (auto simp: kvt)
    have "r = None" "s' = lru_moveToHead a t"
      using assms(2) Some by (simp_all add: lru_set_def t_def)
    moreover have "length ((k, v) # AList.delete k es) \<le> l_max s"
      using spec_set_length [OF len, of k v] some by (simp add: spec_set_def)
    ultimately show ?thesis
      using rep' abs' some by (auto simp: spec_set_def lru_abs_def moveToHead_frame t_def)
  next
    case None
    define a where "a = l_fresh s"
    define t where "t = (put_node a \<lparr>n_key = k, n_val = v, n_prev = None, n_next = None\<rparr>
      (s\<lparr>l_fresh := Suc a\<rparr>))\<lparr>l_map := AList.update k a (l_map s)\<rparr>"
    have fresh: "a \<notin> alloc s" using rep by (auto simp: lru_rep_alloc a_def)
    then have nin: "a \<notin> set xs" using linked_alloc [OF l] by blast
    have kvt: "kv t b = (if b = a then (k, v) else kv s b)" for b
      by (simp add: t_def kv_def)
    have kx: "map (kv t) xs = es" using nin es by (auto simp: kvt)
    have lt: "linked t xs" using l nin by (simp add: linked_def t_def seg_frame)
    have no: "map_of es k = None" using mapped_none [OF m] None es by simp
    then have kn: "k \<notin> fst ` set es" by (simp add: map_of_eq_None_iff)
    have mapt: "l_map t = l_map s @ [(k, a)]"
      using update_fresh [OF None] by (simp add: t_def)
    define u where "u = lru_prepend a t"
    have kvu: "kv u = kv t" "l_map u = l_map t" "l_max u = l_max s" by (simp_all add: u_def prepend_frame t_def)
    have lu: "linked u (a # xs)" unfolding u_def by (rule prepend_linked [OF lt nin])
    have "alloc u = insert a (alloc s)"
      unfolding u_def using prepend_alloc [OF lt, of a] by (simp add: t_def)
    moreover have "mapped u (a # xs)"
    proof -
      have same: "b \<in> set xs \<Longrightarrow> kv u b = kv s b" for b using nin by (auto simp: kvu kvt)
      have "map (fst \<circ> kv u) xs = map (fst \<circ> kv s) xs" using same by simp
      then have "distinct (map (fst \<circ> kv u) xs)" using m unfolding mapped_def by argo
      moreover have "k \<notin> (fst \<circ> kv u) ` set xs" using kn es same by (auto simp: image_iff)
      moreover have "k \<notin> (fst \<circ> kv s) ` set xs" using kn es by (auto simp: image_iff)
      moreover have "fst (kv u a) = k" by (simp add: kvu kvt)
      moreover have "k \<notin> fst ` set (l_map s)" using None by (simp add: map_of_eq_None_iff)
      moreover have "(\<lambda>b. (fst (kv u b), b)) ` set xs = (\<lambda>b. (fst (kv s b), b)) ` set xs"
        using same by (intro image_cong) simp_all
      ultimately show ?thesis
        using m unfolding mapped_def kvu(2) mapt by (auto simp: comp_def)
    qed
    ultimately have repu: "lru_rep u (a # xs)"
      using lu rep by (auto simp: lru_rep_alloc u_def prepend_frame t_def a_def)
    have absu: "map (kv u) (a # xs) = (k, v) # es" using kx by (simp add: kvu kvt)
    have size: "length (l_map u) = Suc (length es)"
      using mapped_size [of u "a # xs"] repu es by (simp add: lru_rep_def linked_def)
    show ?thesis
    proof (cases "length (l_map u) > l_max u")
      case False
      then have "r = None" "s' = u"
        using assms(2) None by (simp_all add: lru_set_def Let_def u_def t_def a_def)
      then show ?thesis
        using False repu absu size no kvu(3) by (auto simp: spec_set_def lru_abs_def)
    next
      case True
      obtain ys z where z: "a # xs = ys @ [z]" by (metis append_butlast_last_id list.discI)
      have tail: "l_tail u = Some z" using lu z by (simp add: linked_def del: last_opt_simps(3))
      define k' where "k' = fst (kv u z)"
      have ev: "(r, s') = (Some k', lru_detach z (u\<lparr>l_map := AList.delete k' (l_map u)\<rparr>))"
        using assms(2) None True tail
        by (simp add: lru_set_def Let_def u_def t_def a_def lru_evictTail_def k'_def kv_def)
      have rep': "lru_rep s' ys" "kv s' = kv u" "l_max s' = l_max u"
        using lru_rep_remove [of u ys z "[]" k'] repu z ev by (simp_all add: k'_def)
      have "(k, v) # es = map (kv u) (ys @ [z])" using absu z by simp
      then have "butlast ((k, v) # es) = map (kv u) ys" "last ((k, v) # es) = kv u z"
        by (metis butlast_snoc map_butlast, metis last_map last_snoc snoc_eq_iff_butlast)
      moreover have "length (map (kv u) ys) \<le> l_max s" using z es len by (metis length_map length_append_singleton length_Cons Suc_inject)
      ultimately show ?thesis
        using True size no ev rep' kvu(3) by (auto simp: spec_set_def lru_abs_def k'_def)
    qed
  qed
qed

section \<open>The cache as a whole\<close>

lemma lru_new_abs: "lru_abs (lru_new m) []"
  unfolding lru_abs_def
  by (auto simp: lru_new_def lru_rep_def linked_def mapped_def intro!: exI [of _ "[]"])

lemma lru_clear_abs: "lru_abs s es \<Longrightarrow> lru_abs (lru_clear s) [] \<and> l_max (lru_clear s) = l_max s"
  by (auto simp: lru_abs_def lru_clear_def lru_rep_def linked_def mapped_def intro!: exI [of _ "[]"])

lemma lru_size_abs: "lru_abs s es \<Longrightarrow> lru_size s = length es"
proof -
  assume "lru_abs s es"
  then obtain xs where "mapped s xs" "distinct xs" "es = map (kv s) xs"
    by (auto simp: lru_abs_def lru_rep_def linked_def)
  then show ?thesis using mapped_size [of s xs] by (simp add: lru_size_def)
qed

lemma lru_has_abs: "lru_abs s es \<Longrightarrow> lru_has k s \<longleftrightarrow> map_of es k \<noteq> None"
proof -
  assume "lru_abs s es"
  then obtain xs where "mapped s xs" "es = map (kv s) xs" by (auto simp: lru_abs_def lru_rep_def)
  then show ?thesis using mapped_none [of s xs k] by (simp add: lru_has_def)
qed

text \<open>One call of the public interface, and any sequence of calls.\<close>

datatype ('k, 'v) lru_op = Op_get 'k | Op_set 'k 'v | Op_delete 'k | Op_clear

fun lru_exec :: "('k, 'v) lru_op \<Rightarrow> ('k, 'v) lru \<Rightarrow> ('k, 'v) lru" where
  "lru_exec (Op_get k) s = snd (lru_get k s)"
| "lru_exec (Op_set k v) s = snd (lru_set k v s)"
| "lru_exec (Op_delete k) s = snd (lru_delete k s)"
| "lru_exec Op_clear s = lru_clear s"

fun spec_exec :: "nat \<Rightarrow> ('k, 'v) lru_op \<Rightarrow> ('k \<times> 'v) list \<Rightarrow> ('k \<times> 'v) list" where
  "spec_exec m (Op_get k) es = snd (spec_get k es)"
| "spec_exec m (Op_set k v) es = snd (spec_set m k v es)"
| "spec_exec m (Op_delete k) es = AList.delete k es"
| "spec_exec m Op_clear es = []"

lemma lru_exec_refines:
  assumes "lru_abs s es"
  shows "lru_abs (lru_exec p s) (spec_exec (l_max s) p es) \<and> l_max (lru_exec p s) = l_max s"
proof (cases p)
  case (Op_get k)
  then show ?thesis using lru_get_refines [OF assms surjective_pairing] by simp
next
  case (Op_set k v)
  then show ?thesis using lru_set_refines [OF assms surjective_pairing] by simp
next
  case (Op_delete k)
  then show ?thesis using lru_delete_refines [OF assms surjective_pairing] by simp
next
  case Op_clear
  then show ?thesis using lru_clear_abs [OF assms] by simp
qed

lemma lru_run_refines:
  assumes "lru_abs s es"
  shows "lru_abs (fold lru_exec ps s) (fold (spec_exec (l_max s)) ps es)
    \<and> l_max (fold lru_exec ps s) = l_max s"
  using assms
proof (induction ps arbitrary: s es)
  case (Cons p ps)
  show ?case using Cons.IH lru_exec_refines [OF Cons.prems, of p] by fastforce
qed simp

section \<open>The contract a cache keeps for its clients\<close>

text \<open>
  What a client may rely on: what \<open>get\<close> finds was put there, \<open>set\<close> adds at most the one entry,
  and the cache may forget entries at any time.
\<close>

locale cache =
  fixes holds :: "'s \<Rightarrow> ('k \<times> 'v) list \<Rightarrow> bool"
    and get :: "'k \<Rightarrow> 's \<Rightarrow> 'v option \<times> 's"
    and put :: "'k \<Rightarrow> 'v \<Rightarrow> 's \<Rightarrow> 'k option \<times> 's"
  assumes get_law:
      "holds s es \<Longrightarrow> get k s = (r, s') \<Longrightarrow>
       r = map_of es k \<and> (\<exists>es'. holds s' es' \<and> map_of es' \<subseteq>\<^sub>m map_of es)"
    and put_law:
      "holds s es \<Longrightarrow> put k v s = (evicted, s') \<Longrightarrow>
       \<exists>es'. holds s' es' \<and> map_of es' \<subseteq>\<^sub>m (map_of es)(k \<mapsto> v)"
begin

text \<open>A cache is coherent with a source \<open>f\<close> when every entry is what \<open>f\<close> says.\<close>

definition coherent :: "'s \<Rightarrow> ('k \<Rightarrow> 'v) \<Rightarrow> bool" where
  "coherent s f \<longleftrightarrow> (\<exists>es. holds s es \<and> (\<forall>k v. map_of es k = Some v \<longrightarrow> v = f k))"

lemma get_coherent:
  assumes "coherent s f" "get k s = (r, s')"
  shows "coherent s' f" "r = Some v \<Longrightarrow> v = f k"
proof -
  obtain es where es: "holds s es" "\<forall>k v. map_of es k = Some v \<longrightarrow> v = f k"
    using assms(1) by (auto simp: coherent_def)
  from get_law [OF es(1) assms(2)] obtain es' where
    "r = map_of es k" "holds s' es'" "map_of es' \<subseteq>\<^sub>m map_of es" by blast
  with es show "coherent s' f" "r = Some v \<Longrightarrow> v = f k"
    by (auto simp: coherent_def map_le_def dom_def intro!: exI [of _ es'])
qed

lemma put_coherent:
  assumes "coherent s f" "put k (f k) s = (r, s')"
  shows "coherent s' f"
proof -
  obtain es where es: "holds s es" "\<forall>k v. map_of es k = Some v \<longrightarrow> v = f k"
    using assms(1) by (auto simp: coherent_def)
  from put_law [OF es(1) assms(2)] obtain es' where
    "holds s' es'" "map_of es' \<subseteq>\<^sub>m (map_of es)(k \<mapsto> f k)" by blast
  with es show ?thesis
    unfolding coherent_def map_le_def dom_def
    by (intro exI [of _ es']) (auto split: if_splits, metis (mono_tags, lifting) mem_Collect_eq option.inject fun_upd_apply option.distinct(1))
qed

text \<open>A change of the source outside the cached keys keeps coherence.\<close>

lemma coherent_source:
  "coherent s f \<Longrightarrow> (\<And>es k. holds s es \<Longrightarrow> k \<in> dom (map_of es) \<Longrightarrow> g k = f k) \<Longrightarrow> coherent s g"
  by (auto simp: coherent_def dom_def)

end

lemma map_of_delete_le: "map_of ((k, v) # AList.delete k es) \<subseteq>\<^sub>m (map_of es)(k \<mapsto> v)"
  by (auto simp: map_le_def delete_conv' split: if_splits)

lemma map_of_butlast_le: "distinct (map fst es) \<Longrightarrow> map_of (butlast es) \<subseteq>\<^sub>m map_of es"
proof (cases es rule: rev_cases)
  case (snoc ys y)
  then show "distinct (map fst es) \<Longrightarrow> ?thesis"
    by (cases y) (auto simp: map_le_def map_add_def split: option.splits)
qed simp

lemma lru_abs_distinct: "lru_abs s es \<Longrightarrow> distinct (map fst es)"
  by (auto simp: lru_abs_def lru_rep_def mapped_def)

interpretation lru: cache lru_abs lru_get lru_set
proof unfold_locales
  fix s :: "('k, 'v) lru" and es k r s'
  assume s: "lru_abs s es" and g: "lru_get k s = (r, s')"
  show "r = map_of es k \<and> (\<exists>es'. lru_abs s' es' \<and> map_of es' \<subseteq>\<^sub>m map_of es)"
  proof (cases "map_of es k")
    case None
    then show ?thesis using lru_get_refines [OF s g] by (auto simp: spec_get_def intro!: exI [of _ es])
  next
    case (Some v)
    then have "(map_of es)(k \<mapsto> v) = map_of es" by (simp add: map_upd_triv)
    then show ?thesis
      using lru_get_refines [OF s g] map_of_delete_le [of k v es] Some
      by (auto simp: spec_get_def intro!: exI [of _ "(k, v) # AList.delete k es"])
  qed
next
  fix s :: "('k, 'v) lru" and es k v r s'
  assume s: "lru_abs s es" and p: "lru_set k v s = (r, s')"
  let ?es = "snd (spec_set (l_max s) k v es)"
  have "map_of ?es \<subseteq>\<^sub>m (map_of es)(k \<mapsto> v)"
  proof (cases "map_of es k")
    case None
    then have "distinct (map fst ((k, v) # es))"
      using lru_abs_distinct [OF s] by (simp add: map_of_eq_None_iff)
    from map_of_butlast_le [OF this] show ?thesis using None by (simp add: spec_set_def)
  next
    case (Some w)
    then show ?thesis using map_of_delete_le [of k v es] by (simp add: spec_set_def)
  qed
  then show "\<exists>es'. lru_abs s' es' \<and> map_of es' \<subseteq>\<^sub>m (map_of es)(k \<mapsto> v)"
    using lru_set_refines [OF s p] by blast
qed

end
