(* ===== verification/PageCache.thy ===== *)
theory PageCache
  imports LruCache
begin

text \<open>
  \<open>src/storage/page-cache.ts\<close> over the in-memory page store of
  \<open>src/storage/page-store/memory-page-store.ts\<close>. \<open>fetchPage\<close> is asynchronous: between the cache
  lookup and the \<open>set\<close> after \<open>await readPage\<close> other calls run, so a fetch is two steps of a
  transition system, with the read in flight in between. A page is any value: only its identity
  matters here. A store that does not know the page gives \<open>null\<close> (\<open>None\<close>).
\<close>

record 'c page_cache =
  pc_cache :: "(string, 'c option) lru"
  pc_pages :: "string \<Rightarrow> 'c option"

definition page_cache_new :: "nat \<Rightarrow> 'c page_cache" where
  "page_cache_new maxPages = \<lparr>pc_cache = lru_new maxPages, pc_pages = (\<lambda>_. None)\<rparr>"

definition ms_write :: "string \<Rightarrow> 'c \<Rightarrow> 'c page_cache \<Rightarrow> 'c page_cache" where
  "ms_write pageId chunk s = s\<lparr>pc_pages := (pc_pages s)(pageId := Some chunk)\<rparr>"

definition ms_read :: "string \<Rightarrow> 'c page_cache \<Rightarrow> 'c option" where
  "ms_read pageId s = pc_pages s pageId"

definition pc_clear :: "'c page_cache \<Rightarrow> 'c page_cache" where
  "pc_clear s = s\<lparr>pc_cache := lru_clear (pc_cache s), pc_pages := (\<lambda>_. None)\<rparr>"

definition writePage :: "string \<Rightarrow> 'c \<Rightarrow> 'c page_cache \<Rightarrow> 'c page_cache" where
  "writePage pageId chunk s = ms_write pageId chunk s"

definition readPage :: "string \<Rightarrow> 'c page_cache \<Rightarrow> 'c option" where
  "readPage pageId s = ms_read pageId s"

text \<open>The two halves of \<open>fetchPage\<close>: up to \<open>await this.readPage\<close>, and what follows it.\<close>

definition fetch_lookup :: "string \<Rightarrow> 'c page_cache \<Rightarrow> 'c option option \<times> 'c page_cache" where
  "fetch_lookup pageId s =
     (let (cached, cache') = lru_get pageId (pc_cache s) in (cached, s\<lparr>pc_cache := cache'\<rparr>))"

definition fetch_finish :: "string \<Rightarrow> bool \<Rightarrow> 'c option \<Rightarrow> 'c page_cache \<Rightarrow> 'c page_cache" where
  "fetch_finish pageId bypassCache chunk s =
     (if bypassCache then s else s\<lparr>pc_cache := snd (lru_set pageId chunk (pc_cache s))\<rparr>)"

definition fetchPage :: "string \<Rightarrow> bool \<Rightarrow> 'c page_cache \<Rightarrow> 'c option \<times> 'c page_cache" where
  "fetchPage pageId bypassCache s =
     (case fetch_lookup pageId s of
        (Some cached, s1) \<Rightarrow> (cached, s1)
      | (None, s1) \<Rightarrow>
          let chunk = readPage pageId s1 in (chunk, fetch_finish pageId bypassCache chunk s1))"

section \<open>Interleaved fetches\<close>

text \<open>
  The system state: the cache, and the reads in flight (page, bypass flag, what the store gave).
  \<open>writePage\<close> is used as \<open>Table.addChunk\<close> uses it: once per page id, and a page is fetched only
  after it was written.
\<close>

record 'c page_system =
  ps_cache :: "'c page_cache"
  ps_flight :: "(string \<times> bool \<times> 'c option) list"

datatype 'c page_event = Wrote string 'c | Returned string "'c option" | Started string | Tau

inductive page_step :: "'c page_system \<Rightarrow> 'c page_event \<Rightarrow> 'c page_system \<Rightarrow> bool" where
  wrote: "pc_pages (ps_cache s) pageId = None \<Longrightarrow>
     page_step s (Wrote pageId chunk) (s\<lparr>ps_cache := writePage pageId chunk (ps_cache s)\<rparr>)"
| hit: "pc_pages (ps_cache s) pageId \<noteq> None \<Longrightarrow>
     fetch_lookup pageId (ps_cache s) = (Some cached, c') \<Longrightarrow>
     page_step s (Returned pageId cached) (s\<lparr>ps_cache := c'\<rparr>)"
| miss: "pc_pages (ps_cache s) pageId \<noteq> None \<Longrightarrow>
     fetch_lookup pageId (ps_cache s) = (None, c') \<Longrightarrow>
     page_step s (Started pageId)
       (s\<lparr>ps_cache := c', ps_flight := (pageId, bypass, readPage pageId c') # ps_flight s\<rparr>)"
| finish: "ps_flight s = xs @ (pageId, bypass, chunk) # ys \<Longrightarrow>
     page_step s (Returned pageId chunk)
       (s\<lparr>ps_cache := fetch_finish pageId bypass chunk (ps_cache s), ps_flight := xs @ ys\<rparr>)"

inductive_cases page_step_returned: "page_step s (Returned pageId chunk) s'"

inductive page_reach :: "nat \<Rightarrow> 'c page_system \<Rightarrow> bool" for maxPages :: nat where
  start: "page_reach maxPages \<lparr>ps_cache = page_cache_new maxPages, ps_flight = []\<rparr>"
| step: "page_reach maxPages s \<Longrightarrow> page_step s e s' \<Longrightarrow> page_reach maxPages s'"

text \<open>
  The invariant: the cache agrees with the store, holds only written pages, and every read in
  flight has what the store has.
\<close>

definition page_inv :: "'c page_system \<Rightarrow> bool" where
  "page_inv s \<longleftrightarrow>
     (\<exists>es. lru_abs (pc_cache (ps_cache s)) es
        \<and> (\<forall>k v. map_of es k = Some v \<longrightarrow> v = pc_pages (ps_cache s) k \<and> v \<noteq> None))
     \<and> (\<forall>k b v. (k, b, v) \<in> set (ps_flight s) \<longrightarrow> v = pc_pages (ps_cache s) k \<and> v \<noteq> None)"

lemma lookup_fields:
  assumes "fetch_lookup pageId c = (r, c')"
  shows "pc_pages c' = pc_pages c" "lru_get pageId (pc_cache c) = (r, pc_cache c')"
  using assms by (auto simp: fetch_lookup_def split: prod.splits)

lemma finish_fields [simp]: "pc_pages (fetch_finish pageId bypass chunk c) = pc_pages c"
  by (simp add: fetch_finish_def)

lemma page_inv_step:
  assumes "page_step s e s'" "page_inv s"
  shows "page_inv s'"
  using assms
proof (induction rule: page_step.induct)
  case (wrote s pageId chunk)
  then obtain es where es: "lru_abs (pc_cache (ps_cache s)) es"
    "\<forall>k v. map_of es k = Some v \<longrightarrow> v = pc_pages (ps_cache s) k \<and> v \<noteq> None"
    "\<forall>k b v. (k, b, v) \<in> set (ps_flight s) \<longrightarrow> v = pc_pages (ps_cache s) k \<and> v \<noteq> None"
    by (auto simp: page_inv_def)
  have "\<forall>k v. map_of es k = Some v \<longrightarrow> k \<noteq> pageId" using es(2) wrote by metis
  moreover have "\<forall>b v. (pageId, b, v) \<notin> set (ps_flight s)" using es(3) wrote by metis
  ultimately show ?case using es wrote
    unfolding page_inv_def by (auto simp: writePage_def ms_write_def intro!: exI [of _ es])
next
  case (hit s pageId cached c')
  then obtain es where es: "lru_abs (pc_cache (ps_cache s)) es"
    "\<forall>k v. map_of es k = Some v \<longrightarrow> v = pc_pages (ps_cache s) k \<and> v \<noteq> None"
    by (auto simp: page_inv_def)
  obtain es' where "lru_abs (pc_cache c') es'" "map_of es' \<subseteq>\<^sub>m map_of es"
    using lru.get_law [OF es(1) lookup_fields(2) [OF hit(2)]] by blast
  then show ?case using hit es(2) lookup_fields(1) [OF hit(2)]
    unfolding page_inv_def by (auto simp: map_le_def dom_def intro!: exI [of _ es'])
next
  case (miss s pageId c' bypass)
  then obtain es where es: "lru_abs (pc_cache (ps_cache s)) es"
    "\<forall>k v. map_of es k = Some v \<longrightarrow> v = pc_pages (ps_cache s) k \<and> v \<noteq> None"
    by (auto simp: page_inv_def)
  obtain es' where "lru_abs (pc_cache c') es'" "map_of es' \<subseteq>\<^sub>m map_of es"
    using lru.get_law [OF es(1) lookup_fields(2) [OF miss(2)]] by blast
  then show ?case using miss es(2) lookup_fields(1) [OF miss(2)]
    unfolding page_inv_def
    by (auto simp: map_le_def dom_def readPage_def ms_read_def intro!: exI [of _ es'])
next
  case (finish s xs pageId bypass chunk ys)
  then obtain es where es: "lru_abs (pc_cache (ps_cache s)) es"
    "\<forall>k v. map_of es k = Some v \<longrightarrow> v = pc_pages (ps_cache s) k \<and> v \<noteq> None"
    by (auto simp: page_inv_def)
  have chunk: "chunk = pc_pages (ps_cache s) pageId" "chunk \<noteq> None"
    using finish by (auto simp: page_inv_def)
  have "\<exists>es'. lru_abs (pc_cache (fetch_finish pageId bypass chunk (ps_cache s))) es'
      \<and> (\<forall>k v. map_of es' k = Some v \<longrightarrow> v = pc_pages (ps_cache s) k \<and> v \<noteq> None)"
  proof (cases bypass)
    case True
    then show ?thesis using es by (auto simp: fetch_finish_def)
  next
    case False
    obtain es' where e': "lru_abs (snd (lru_set pageId chunk (pc_cache (ps_cache s)))) es'"
        "map_of es' \<subseteq>\<^sub>m (map_of es)(pageId \<mapsto> chunk)"
      using lru.put_law [OF es(1) surjective_pairing] by blast
    have "v = pc_pages (ps_cache s) k \<and> v \<noteq> None" if "map_of es' k = Some v" for k v
    proof -
      have "((map_of es)(pageId \<mapsto> chunk)) k = Some v" using e'(2) that by (auto simp: map_le_def dom_def)
      then show ?thesis using es(2) chunk by (cases "k = pageId") auto
    qed
    then show ?thesis using e'(1) False by (auto simp: fetch_finish_def)
  qed
  then show ?case using finish unfolding page_inv_def by auto
qed

lemma page_inv_reach: "page_reach m s \<Longrightarrow> page_inv s"
proof (induction rule: page_reach.induct)
  case start
  show ?case using lru_new_abs by (fastforce simp: page_inv_def page_cache_new_def)
next
  case (step s e s')
  then show ?case using page_inv_step by blast
qed

lemma page_returns:
  assumes "page_inv s" "page_step s (Returned pageId chunk) s'"
  shows "chunk = pc_pages (ps_cache s) pageId \<and> chunk \<noteq> None"
proof -
  obtain es where es: "lru_abs (pc_cache (ps_cache s)) es"
    "\<forall>k v. map_of es k = Some v \<longrightarrow> v = pc_pages (ps_cache s) k \<and> v \<noteq> None"
    "\<forall>k b v. (k, b, v) \<in> set (ps_flight s) \<longrightarrow> v = pc_pages (ps_cache s) k \<and> v \<noteq> None"
    using assms(1) by (auto simp: page_inv_def)
  have hit: "map_of es pageId = Some chunk"
    if "fetch_lookup pageId (ps_cache s) = (Some chunk, c')" for c'
    using lru.get_law [OF es(1) lookup_fields(2) [OF that]] by simp
  show ?thesis using assms(2) by (cases rule: page_step_returned) (use es(2,3) hit in auto)
qed

text \<open>The cache never outgrows its capacity.\<close>

lemma page_capacity:
  "page_reach m s \<Longrightarrow> lru_size (pc_cache (ps_cache s)) \<le> m"
proof -
  assume r: "page_reach m s"
  have "\<exists>es. lru_abs (pc_cache (ps_cache s)) es \<and> l_max (pc_cache (ps_cache s)) = m"
    using r
  proof (induction rule: page_reach.induct)
    case start
    show ?case using lru_new_abs by (fastforce simp: page_cache_new_def lru_new_def)
  next
    case (step s e s')
    from step(2,3) show ?case
    proof (induction rule: page_step.induct)
      case (hit s pageId cached c')
      then show ?case using lru_get_refines lookup_fields(2) [OF hit(2)] by fastforce
    next
      case (miss s pageId c' bypass)
      then show ?case using lru_get_refines lookup_fields(2) [OF miss(2)] by fastforce
    next
      case (finish s xs pageId bypass chunk ys)
      then show ?case using lru_set_refines [OF _ surjective_pairing]
        by (fastforce simp: fetch_finish_def)
    qed (auto simp: writePage_def ms_write_def)
  qed
  then obtain es where "lru_abs (pc_cache (ps_cache s)) es" "l_max (pc_cache (ps_cache s)) = m" by blast
  then show ?thesis using lru_size_abs [of "pc_cache (ps_cache s)" es] by (auto simp: lru_abs_def)
qed

end
