(* ===== verification/PriorityQueue.thy ===== *)
theory PriorityQueue
  imports Prelude "HOL-Library.Multiset"
begin

text \<open>
  \<open>src/utils/priority-queue.ts\<close>: a binary heap in an array, ordered by a comparator whose result
  is negative when its first argument goes first. The loops of \<open>_siftUp\<close> and \<open>_siftDown\<close> are
  recursions on the node index. Indices stay below \<open>2^30\<close>, so the shifts are plain arithmetic.
\<close>

definition pq_parent :: "nat \<Rightarrow> nat" where
  "pq_parent i = (i + 1) div 2 - 1"

definition pq_left :: "nat \<Rightarrow> nat" where
  "pq_left i = 2 * i + 1"

definition pq_right :: "nat \<Rightarrow> nat" where
  "pq_right i = (i + 1) * 2"

definition pq_compare :: "('a \<Rightarrow> 'a \<Rightarrow> int) \<Rightarrow> 'a list \<Rightarrow> nat \<Rightarrow> nat \<Rightarrow> bool" where
  "pq_compare cmp h i j \<longleftrightarrow> cmp (h ! i) (h ! j) < 0"

definition pq_swap :: "'a list \<Rightarrow> nat \<Rightarrow> nat \<Rightarrow> 'a list" where
  "pq_swap h i j = h[i := h ! j, j := h ! i]"

lemma parent_less: "0 < i \<Longrightarrow> pq_parent i < i"
  unfolding pq_parent_def by presburger

function pq_siftUp :: "('a \<Rightarrow> 'a \<Rightarrow> int) \<Rightarrow> nat \<Rightarrow> 'a list \<Rightarrow> 'a list" where
  "pq_siftUp cmp node h =
     (if node > 0 \<and> pq_compare cmp h node (pq_parent node)
      then pq_siftUp cmp (pq_parent node) (pq_swap h node (pq_parent node))
      else h)"
  by pat_completeness auto
termination
  by (relation "measure (\<lambda>(cmp, node, h). node)") (auto simp: parent_less)

definition pq_maxChild :: "('a \<Rightarrow> 'a \<Rightarrow> int) \<Rightarrow> 'a list \<Rightarrow> nat \<Rightarrow> nat" where
  "pq_maxChild cmp h node =
     (if pq_right node < length h \<and> pq_compare cmp h (pq_right node) (pq_left node)
      then pq_right node else pq_left node)"

function pq_siftDown :: "('a \<Rightarrow> 'a \<Rightarrow> int) \<Rightarrow> nat \<Rightarrow> 'a list \<Rightarrow> 'a list" where
  "pq_siftDown cmp node h =
     (if (pq_left node < length h \<and> pq_compare cmp h (pq_left node) node)
         \<or> (pq_right node < length h \<and> pq_compare cmp h (pq_right node) node)
      then pq_siftDown cmp (pq_maxChild cmp h node) (pq_swap h node (pq_maxChild cmp h node))
      else h)"
  by pat_completeness auto
termination
  by (relation "measure (\<lambda>(cmp, node, h). length h - node)")
    (auto simp: pq_maxChild_def pq_swap_def pq_left_def pq_right_def)

declare pq_siftUp.simps [simp del] pq_siftDown.simps [simp del]

definition pq_peek :: "'a list \<Rightarrow> 'a option" where
  "pq_peek h = (if h = [] then None else Some (h ! 0))"

definition pq_push :: "('a \<Rightarrow> 'a \<Rightarrow> int) \<Rightarrow> 'a \<Rightarrow> 'a list \<Rightarrow> 'a list" where
  "pq_push cmp v h = (let h' = h @ [v] in pq_siftUp cmp (length h' - 1) h')"

definition pq_pop :: "('a \<Rightarrow> 'a \<Rightarrow> int) \<Rightarrow> 'a list \<Rightarrow> 'a option \<times> 'a list" where
  "pq_pop cmp h =
     (if h = [] then (None, h)
      else let popped = pq_peek h;
               bottom = length h - 1;
               h1 = (if bottom > 0 then h[0 := h ! bottom] else h)
           in (popped, pq_siftDown cmp 0 (butlast h1)))"

text \<open>\<open>pop\<close> until the queue is empty, as the clients of the queue do.\<close>

fun pq_drain :: "('a \<Rightarrow> 'a \<Rightarrow> int) \<Rightarrow> nat \<Rightarrow> 'a list \<Rightarrow> 'a list" where
  "pq_drain cmp 0 h = []"
| "pq_drain cmp (Suc n) h =
     (case pq_pop cmp h of
        (None, _) \<Rightarrow> []
      | (Some v, h') \<Rightarrow> v # pq_drain cmp n h')"

text \<open>The default comparator, on numbers without rounding.\<close>

definition default_cmp :: "int \<Rightarrow> int \<Rightarrow> int" where
  "default_cmp a b = a - b"

section \<open>Indices\<close>

lemma pq_parent_child: "pq_parent (pq_left i) = i" "pq_parent (pq_right i) = i"
  by (simp_all add: pq_parent_def pq_left_def pq_right_def)

lemma parent_cases: "0 < i \<Longrightarrow> pq_parent i = k \<longleftrightarrow> i = pq_left k \<or> i = pq_right k"
  unfolding pq_parent_def pq_left_def pq_right_def by presburger

lemma length_swap [simp]: "length (pq_swap h i j) = length h"
  by (simp add: pq_swap_def)

lemma nth_swap:
  "i < length h \<Longrightarrow> j < length h \<Longrightarrow> k < length h \<Longrightarrow>
   pq_swap h i j ! k = (if k = j then h ! i else if k = i then h ! j else h ! k)"
  by (simp add: pq_swap_def nth_list_update)

lemma mset_pq_swap: "i < length h \<Longrightarrow> j < length h \<Longrightarrow> mset (pq_swap h i j) = mset h"
  by (simp add: pq_swap_def mset_swap)

section \<open>Heaps of a comparator\<close>

text \<open>The law a comparator keeps: a total preorder.\<close>

locale comparator =
  fixes cmp :: "'a \<Rightarrow> 'a \<Rightarrow> int"
  assumes cmp_asym: "cmp a b < 0 \<Longrightarrow> \<not> cmp b a < 0"
    and cmp_trans: "\<not> cmp b a < 0 \<Longrightarrow> \<not> cmp c b < 0 \<Longrightarrow> \<not> cmp c a < 0"
begin

definition before :: "'a \<Rightarrow> 'a \<Rightarrow> bool" where
  "before a b \<longleftrightarrow> \<not> cmp b a < 0"

lemma before_trans: "before a b \<Longrightarrow> before b c \<Longrightarrow> before a c"
  using cmp_trans by (simp add: before_def)

lemma before_total: "before a b \<or> before b a"
  using cmp_asym by (auto simp: before_def)

lemma before_refl: "before a a"
  using before_total by blast

lemma less_before: "cmp a b < 0 \<Longrightarrow> before a b"
  using cmp_asym by (auto simp: before_def)

definition heap :: "'a list \<Rightarrow> bool" where
  "heap h \<longleftrightarrow> (\<forall>i<length h. 0 < i \<longrightarrow> before (h ! pq_parent i) (h ! i))"

text \<open>A heap but for the edge into, or the edges out of, one node.\<close>

definition heap_up :: "nat \<Rightarrow> 'a list \<Rightarrow> bool" where
  "heap_up k h \<longleftrightarrow>
     (\<forall>i<length h. 0 < i \<longrightarrow> i \<noteq> k \<longrightarrow> before (h ! pq_parent i) (h ! i))
     \<and> (0 < k \<longrightarrow> (\<forall>i<length h. 0 < i \<longrightarrow> pq_parent i = k \<longrightarrow> before (h ! pq_parent k) (h ! i)))"

definition heap_down :: "nat \<Rightarrow> 'a list \<Rightarrow> bool" where
  "heap_down k h \<longleftrightarrow>
     (\<forall>i<length h. 0 < i \<longrightarrow> pq_parent i \<noteq> k \<longrightarrow> before (h ! pq_parent i) (h ! i))
     \<and> (0 < k \<longrightarrow> (\<forall>i<length h. 0 < i \<longrightarrow> pq_parent i = k \<longrightarrow> before (h ! pq_parent k) (h ! i)))"

lemma heap_up_step:
  assumes h: "heap_up k h" and k: "0 < k" "k < length h" and lt: "cmp (h ! k) (h ! pq_parent k) < 0"
  shows "heap_up (pq_parent k) (pq_swap h k (pq_parent k))"
proof -
  let ?p = "pq_parent k" and ?s = "pq_swap h k (pq_parent k)"
  have pk: "?p < k" by (rule parent_less [OF k(1)])
  have nth: "i < length h \<Longrightarrow> ?s ! i = (if i = ?p then h ! k else if i = k then h ! ?p else h ! i)" for i
    using k pk by (simp add: nth_swap)
  have xy: "before (h ! k) (h ! ?p)" by (rule less_before [OF lt])
  have ok: "i < length h \<Longrightarrow> 0 < i \<Longrightarrow> i \<noteq> k \<Longrightarrow> before (h ! pq_parent i) (h ! i)" for i
    using h by (simp add: heap_up_def)
  have gp: "i < length h \<Longrightarrow> 0 < i \<Longrightarrow> pq_parent i = k \<Longrightarrow> before (h ! ?p) (h ! i)" for i
    using h k by (simp add: heap_up_def)
  have one: "before (?s ! pq_parent i) (?s ! i)" if i: "i < length h" "0 < i" "i \<noteq> ?p" for i
  proof -
    have pi: "pq_parent i < i" by (rule parent_less [OF i(2)])
    consider "i = k" | "pq_parent i = k" | "i \<noteq> k" "pq_parent i = ?p"
      | "i \<noteq> k" "pq_parent i \<noteq> k" "pq_parent i \<noteq> ?p" by blast
    then show ?thesis
    proof cases
      case 1
      then show ?thesis using xy k pk nth by simp
    next
      case 2
      then show ?thesis using gp [OF i(1,2)] i pk k pi nth by simp
    next
      case 3
      then show ?thesis
        using before_trans [OF xy] ok [OF i(1,2)] i pk k nth by simp
    next
      case 4
      then show ?thesis using ok [OF i(1,2)] i pi nth by simp
    qed
  qed
  have two: "before (?s ! pq_parent ?p) (?s ! i)"
    if i: "0 < ?p" "i < length h" "0 < i" "pq_parent i = ?p" for i
  proof -
    have pp: "pq_parent ?p < ?p" by (rule parent_less [OF i(1)])
    have top: "before (h ! pq_parent ?p) (h ! ?p)" using ok [of ?p] i(1) pk k by simp
    have "i \<noteq> ?p" using parent_less [OF i(3)] i(4) by auto
    then show ?thesis
      using top before_trans [OF top] ok [OF i(2,3)] i pp pk k nth by (cases "i = k") simp_all
  qed
  show ?thesis unfolding heap_up_def using one two by simp
qed

lemma siftUp_heap: "heap_up k h \<Longrightarrow> k < length h \<Longrightarrow> heap (pq_siftUp cmp k h)"
proof (induction k arbitrary: h rule: less_induct)
  case (less k)
  show ?case
  proof (cases "0 < k \<and> cmp (h ! k) (h ! pq_parent k) < 0")
    case True
    then have "heap_up (pq_parent k) (pq_swap h k (pq_parent k))"
      using heap_up_step less.prems by blast
    then have "heap (pq_siftUp cmp (pq_parent k) (pq_swap h k (pq_parent k)))"
      using less True parent_less [of k] by simp
    then show ?thesis using True by (simp add: pq_siftUp.simps [of cmp k] pq_compare_def)
  next
    case False
    then have "heap h" using less.prems by (auto simp: heap_def heap_up_def before_def)
    then show ?thesis using False by (auto simp: pq_siftUp.simps [of cmp k] pq_compare_def)
  qed
qed

lemma siftUp_mset: "k < length h \<Longrightarrow> mset (pq_siftUp cmp k h) = mset h"
proof (induction k arbitrary: h rule: less_induct)
  case (less k)
  then show ?case
    using parent_less [of k] by (auto simp: pq_siftUp.simps [of cmp k] mset_pq_swap)
qed

lemma maxChild_facts:
  assumes c: "(pq_left k < length h \<and> pq_compare cmp h (pq_left k) k)
      \<or> (pq_right k < length h \<and> pq_compare cmp h (pq_right k) k)"
  defines "m \<equiv> pq_maxChild cmp h k"
  shows "m < length h" "pq_parent m = k" "k < m" "cmp (h ! m) (h ! k) < 0"
    "i < length h \<Longrightarrow> 0 < i \<Longrightarrow> pq_parent i = k \<Longrightarrow> before (h ! m) (h ! i)"
proof -
  have lr: "pq_left k < pq_right k" "k < pq_left k" by (simp_all add: pq_left_def pq_right_def)
  show "m < length h" "pq_parent m = k" "k < m"
    using c lr by (auto simp: m_def pq_maxChild_def pq_parent_child)
  show "cmp (h ! m) (h ! k) < 0"
    using c lr cmp_trans [of "h ! pq_right k" "h ! k" "h ! pq_left k"]
      cmp_trans [of "h ! pq_left k" "h ! k" "h ! pq_right k"]
      cmp_asym [of "h ! pq_right k" "h ! pq_left k"]
    unfolding m_def pq_maxChild_def pq_compare_def by auto
  assume "i < length h" "0 < i" "pq_parent i = k"
  then show "before (h ! m) (h ! i)"
    using parent_cases [of i k] before_refl less_before
    by (auto simp: m_def pq_maxChild_def pq_compare_def before_def)
qed

lemma heap_down_step:
  assumes h: "heap_down k h"
    and c: "(pq_left k < length h \<and> pq_compare cmp h (pq_left k) k)
      \<or> (pq_right k < length h \<and> pq_compare cmp h (pq_right k) k)"
  shows "heap_down (pq_maxChild cmp h k) (pq_swap h k (pq_maxChild cmp h k))"
proof -
  let ?m = "pq_maxChild cmp h k" and ?s = "pq_swap h k (pq_maxChild cmp h k)"
  note m = maxChild_facts [OF c]
  have nth: "i < length h \<Longrightarrow> ?s ! i = (if i = ?m then h ! k else if i = k then h ! ?m else h ! i)" for i
    using m by (simp add: nth_swap)
  have yx: "before (h ! ?m) (h ! k)" by (rule less_before [OF m(4)])
  have ok: "i < length h \<Longrightarrow> 0 < i \<Longrightarrow> pq_parent i \<noteq> k \<Longrightarrow> before (h ! pq_parent i) (h ! i)" for i
    using h by (simp add: heap_down_def)
  have gp: "0 < k \<Longrightarrow> before (h ! pq_parent k) (h ! ?m)"
    using h m by (simp add: heap_down_def)
  have one: "before (?s ! pq_parent i) (?s ! i)" if i: "i < length h" "0 < i" "pq_parent i \<noteq> ?m" for i
  proof -
    have pi: "pq_parent i < i" by (rule parent_less [OF i(2)])
    consider "i = k" | "pq_parent i = k" | "i \<noteq> k" "pq_parent i \<noteq> k" by blast
    then show ?thesis
    proof cases
      case 1
      then show ?thesis using gp i pi m nth by simp
    next
      case 2
      then show ?thesis using yx m(5) [OF i(1,2)] i pi m nth by (cases "i = ?m") simp_all
    next
      case 3
      then have "i \<noteq> ?m" using m(2) by auto
      then show ?thesis using ok [OF i(1,2)] 3 i pi m nth by simp
    qed
  qed
  have two: "before (?s ! pq_parent ?m) (?s ! i)" if i: "i < length h" "0 < i" "pq_parent i = ?m" for i
  proof -
    have "i \<noteq> ?m" "i \<noteq> k" using parent_less [OF i(2)] i(3) m(3) by auto
    then show ?thesis using ok [OF i(1,2)] i m nth by simp
  qed
  show ?thesis unfolding heap_down_def using one two by simp
qed

lemma siftDown_stop:
  assumes "heap_down k h"
    and "\<not> ((pq_left k < length h \<and> pq_compare cmp h (pq_left k) k)
      \<or> (pq_right k < length h \<and> pq_compare cmp h (pq_right k) k))"
  shows "heap h"
  unfolding heap_def
proof (intro allI impI)
  fix i assume i: "i < length h" "0 < i"
  show "before (h ! pq_parent i) (h ! i)"
  proof (cases "pq_parent i = k")
    case True
    then show ?thesis using assms(2) i parent_cases [of i k] by (auto simp: pq_compare_def before_def)
  next
    case False
    then show ?thesis using assms(1) i by (simp add: heap_down_def)
  qed
qed

lemma siftDown_correct:
  "heap_down k h \<Longrightarrow> heap (pq_siftDown cmp k h)"
  "mset (pq_siftDown cmp k h) = mset h"
proof (induction "length h - k" arbitrary: h k rule: less_induct)
  case (less h k)
  let ?c = "(pq_left k < length h \<and> pq_compare cmp h (pq_left k) k)
      \<or> (pq_right k < length h \<and> pq_compare cmp h (pq_right k) k)"
  let ?m = "pq_maxChild cmp h k" and ?s = "pq_swap h k (pq_maxChild cmp h k)"
  have step: "pq_siftDown cmp k h = (if ?c then pq_siftDown cmp ?m ?s else h)"
    by (rule pq_siftDown.simps)
  {
    assume h: "heap_down k h"
    show "heap (pq_siftDown cmp k h)"
    proof (cases ?c)
      case True
      have "heap (pq_siftDown cmp ?m ?s)"
        using less.hyps(1) [of ?s ?m] heap_down_step [OF h True] maxChild_facts [OF True] by simp
      then show ?thesis unfolding step if_P [OF True] .
    next
      case False
      show ?thesis unfolding step if_not_P [OF False] by (rule siftDown_stop [OF h False])
    qed
  }
  show "mset (pq_siftDown cmp k h) = mset h"
  proof (cases ?c)
    case True
    have "mset (pq_siftDown cmp ?m ?s) = mset h"
      using less.hyps(2) [of ?s ?m] maxChild_facts [OF True] by (simp add: mset_pq_swap)
    then show ?thesis unfolding step if_P [OF True] .
  next
    case False
    show ?thesis unfolding step if_not_P [OF False] ..
  qed
qed

text \<open>The root of a heap goes before everything.\<close>

lemma heap_root: "heap h \<Longrightarrow> i < length h \<Longrightarrow> before (h ! 0) (h ! i)"
proof (induction i rule: less_induct)
  case (less i)
  show ?case
  proof (cases "i = 0")
    case False
    then have "pq_parent i < i" by (simp add: parent_less)
    then have "before (h ! 0) (h ! pq_parent i)" using less by simp
    moreover have "before (h ! pq_parent i) (h ! i)" using less.prems False by (simp add: heap_def)
    ultimately show ?thesis by (rule before_trans)
  qed (simp add: before_refl)
qed

lemma push_heap:
  assumes "heap h"
  shows "heap (pq_push cmp v h)" "mset (pq_push cmp v h) = add_mset v (mset h)"
proof -
  have up: "heap_up (length h) (h @ [v])"
    unfolding heap_up_def
  proof (intro conjI allI impI)
    fix i assume i: "i < length (h @ [v])" "0 < i"
    have pi: "pq_parent i < i" by (rule parent_less [OF i(2)])
    { assume "i \<noteq> length h"
      then show "before ((h @ [v]) ! pq_parent i) ((h @ [v]) ! i)"
        using i pi assms by (simp add: heap_def nth_append) }
    { assume "pq_parent i = length h"
      then show "before ((h @ [v]) ! pq_parent (length h)) ((h @ [v]) ! i)" using pi i by simp }
  qed
  then show "heap (pq_push cmp v h)" "mset (pq_push cmp v h) = add_mset v (mset h)"
    using siftUp_heap [OF up] siftUp_mset [of "length h" "h @ [v]"]
    by (simp_all add: pq_push_def)
qed

lemma pop_heap:
  assumes h: "heap h" and ne: "h \<noteq> []" and pop: "pq_pop cmp h = (r, h')"
  shows "heap h'" "r = Some (h ! 0)" "mset h = add_mset (h ! 0) (mset h')"
    "\<And>x. x \<in> set h' \<Longrightarrow> before (h ! 0) x"
proof -
  define b where "b = (if length h - 1 > 0 then h[0 := h ! (length h - 1)] else h)"
  have h': "h' = pq_siftDown cmp 0 (butlast b)" and r: "r = Some (h ! 0)"
    using pop ne by (auto simp: pq_pop_def b_def pq_peek_def Let_def)
  obtain x t where ht: "h = x # t" using ne by (cases h) auto
  have bl: "butlast b = (if t = [] then [] else last t # butlast t)"
    using ht by (auto simp: b_def last_conv_nth nth_Cons')
  have m: "mset h = add_mset (h ! 0) (mset (butlast b))"
    using ht bl by (cases t rule: rev_cases) (simp_all add: add_mset_commute)
  have nth: "i < length (butlast b) \<Longrightarrow> 0 < i \<Longrightarrow> butlast b ! i = h ! i" for i
    using ht bl by (auto simp: nth_Cons' nth_butlast)
  have "heap_down 0 (butlast b)"
    unfolding heap_down_def
  proof (intro conjI allI impI)
    fix i assume i: "i < length (butlast b)" "0 < i" "pq_parent i \<noteq> 0"
    have pi: "pq_parent i < i" by (rule parent_less [OF i(2)])
    have "length (butlast b) \<le> length h" by (simp add: b_def)
    then have "before (h ! pq_parent i) (h ! i)" using h i by (simp add: heap_def)
    then show "before (butlast b ! pq_parent i) (butlast b ! i)" using nth i pi by simp
  qed simp
  then show "heap h'" unfolding h' by (rule siftDown_correct)
  show "r = Some (h ! 0)" by (rule r)
  show m': "mset h = add_mset (h ! 0) (mset h')" unfolding h' siftDown_correct(2) by (rule m)
  show "before (h ! 0) y" if "y \<in> set h'" for y
  proof -
    have "y \<in> set h" using that m' by (metis insert_iff set_mset_add_mset_insert set_mset_mset)
    then show ?thesis using heap_root [OF h] by (auto simp: in_set_conv_nth)
  qed
qed

text \<open>Popping a heap empty lists it in order.\<close>

lemma drain_sorted:
  assumes "heap h"
  shows "mset (pq_drain cmp (length h) h) = mset h \<and> sorted_wrt before (pq_drain cmp (length h) h)"
  using assms
proof (induction "length h" arbitrary: h)
  case (Suc n)
  obtain r h' where pop: "pq_pop cmp h = (r, h')" by (cases "pq_pop cmp h")
  have ne: "h \<noteq> []" using Suc.hyps(2) by auto
  note p = pop_heap [OF Suc.prems ne pop]
  have len: "length h' = n"
    using p(3) Suc.hyps(2) by (metis Suc_inject size_add_mset size_mset)
  have ih: "mset (pq_drain cmp n h') = mset h'" "sorted_wrt before (pq_drain cmp n h')"
    using Suc.hyps(1) [of h'] len p(1) by auto
  have "set (pq_drain cmp n h') = set h'" using ih(1) by (metis set_mset_mset)
  then show ?case using ih p pop Suc.hyps(2) [symmetric] by simp
qed simp

lemma fold_push_heap:
  "heap h \<Longrightarrow> heap (fold (pq_push cmp) xs h) \<and> mset (fold (pq_push cmp) xs h) = mset h + mset xs"
  by (induction xs arbitrary: h) (simp_all add: push_heap)

lemma heap_sort:
  "mset (pq_drain cmp (length xs) (fold (pq_push cmp) xs [])) = mset xs
   \<and> sorted_wrt before (pq_drain cmp (length xs) (fold (pq_push cmp) xs []))"
proof -
  have h: "heap (fold (pq_push cmp) xs [])" "mset (fold (pq_push cmp) xs []) = mset xs"
    using fold_push_heap [of "[]" xs] by (simp_all add: heap_def)
  then have "length (fold (pq_push cmp) xs []) = length xs" by (metis size_mset)
  then show ?thesis using drain_sorted [OF h(1)] h(2) by simp
qed

end

interpretation num: comparator default_cmp
  by unfold_locales (auto simp: default_cmp_def)

end
