(* ===== verification/HashTable.thy ===== *)
theory HashTable
  imports JsValue
begin

text \<open>
  \<open>src/utils/hash.ts\<close> and \<open>src/execution/hash-table.ts\<close>: the identity of a key value, its hash, and
  the two tables that number distinct keys, one over a \<open>Map\<close> (a single key column), one with
  open addressing and linear probing. Hashes are 32-bit words; \<open>Math.imul\<close> is word multiplication.
\<close>

section \<open>Hashing\<close>

fun hash_string :: "32 word \<Rightarrow> ustr \<Rightarrow> 32 word" where
  "hash_string h [] = h"
| "hash_string h (u # us) = hash_string ((h XOR ucast u) * 0x01000193) us"

definition hash_number :: "jsnum \<Rightarrow> 32 word" where
  "hash_number x =
     (let bits = f64_bits x;
          lo = ucast bits :: 32 word;
          hi = ucast (drop_bit 32 bits) :: 32 word;
          h1 = lo XOR (hi * 0x9e3779b1);
          h2 = (h1 XOR drop_bit 16 h1) * 0x85ebca6b
      in h2 XOR drop_bit 13 h2)"

definition hashValue :: "column_value \<Rightarrow> 32 word" where
  "hashValue v = (case v of
       VNum x \<Rightarrow> hash_number x
     | VStr s \<Rightarrow> hash_string 0x811c9dc5 s
     | VBig b \<Rightarrow> hash_number (num_of_big (wrap_signed 53 b))
     | VBool b \<Rightarrow> (if b then 1 else 0)
     | VNull \<Rightarrow> 0)"

section \<open>Key identities\<close>

text \<open>\<open>KeyIdentity\<close>; \<open>INaN\<close> is the symbol that stands for NaN. Identities compare with \<open>===\<close>.\<close>

datatype identity = INull | INum jsnum | IBig int | IStr ustr | IBool bool | INaN

definition MAX_SAFE :: int where
  "MAX_SAFE = 2 ^ 53 - 1"

definition is_integer :: "jsnum \<Rightarrow> bool" where
  "is_integer x = (case x of Fin q \<Rightarrow> q = of_int \<lfloor>q\<rfloor> | _ \<Rightarrow> False)"

definition isSafeInteger :: "jsnum \<Rightarrow> bool" where
  "isSafeInteger x = (case x of Fin q \<Rightarrow> q = of_int \<lfloor>q\<rfloor> \<and> \<bar>\<lfloor>q\<rfloor>\<bar> \<le> MAX_SAFE | _ \<Rightarrow> False)"

fun keyIdentityOf :: "eval_value \<Rightarrow> identity" where
  "keyIdentityOf Undef = INull"
| "keyIdentityOf (Val VNull) = INull"
| "keyIdentityOf (Val (VNum x)) =
     (if isSafeInteger x then INum x
      else if x = NaN then INaN
      else if is_integer x then IBig (js_trunc x) else INum x)"
| "keyIdentityOf (Val (VBig b)) =
     (let asNumber = num_of_big b in if isSafeInteger asNumber then INum asNumber else IBig b)"
| "keyIdentityOf (Val (VStr s)) = IStr s"
| "keyIdentityOf (Val (VBool b)) = IBool b"
| "keyIdentityOf (Interval _ _) = IStr (ustr_of ''[object Object]'')"

fun identity_value :: "identity \<Rightarrow> column_value" where
  "identity_value INull = VNull"
| "identity_value (INum x) = VNum x"
| "identity_value (IBig b) = VBig b"
| "identity_value (IStr s) = VStr s"
| "identity_value (IBool b) = VBool b"
| "identity_value INaN = VNull"

definition is_int32 :: "jsnum \<Rightarrow> bool" where
  "is_int32 x \<longleftrightarrow> x = Fin (of_int (to_int32 x))"

definition identityHash :: "identity \<Rightarrow> 32 word" where
  "identityHash i =
     (case i of
        INum x \<Rightarrow>
          if is_int32 x then
            let w = word_of_int (to_int32 x) :: 32 word;
                mixed = (w XOR drop_bit 15 w) * 0x85ebca6b
            in mixed XOR drop_bit 13 mixed
          else hashValue (VNum x)
      | _ \<Rightarrow> hashValue (identity_value i))"

definition HASH_SEED :: "32 word" where
  "HASH_SEED = 0x811c9dc5"

definition HASH_PRIME :: "32 word" where
  "HASH_PRIME = 0x01000193"

definition mixIdentity :: "32 word \<Rightarrow> identity \<Rightarrow> 32 word" where
  "mixIdentity hash i = (hash XOR identityHash i) * HASH_PRIME"

text \<open>\<open>values[col]\<close> past the end of the array is \<open>undefined\<close>.\<close>

definition value_at :: "eval_value list \<Rightarrow> nat \<Rightarrow> eval_value" where
  "value_at values col = (if col < length values then values ! col else Undef)"

definition key_of :: "nat \<Rightarrow> eval_value list \<Rightarrow> identity list" where
  "key_of arity values = map (\<lambda>col. keyIdentityOf (value_at values col)) [0..<arity]"

definition hashKeyValues :: "eval_value list \<Rightarrow> nat \<Rightarrow> 32 word" where
  "hashKeyValues values arity =
     fold (\<lambda>col hash. mixIdentity hash (keyIdentityOf (value_at values col))) [0..<arity] HASH_SEED"

text \<open>\<open>value ?? null\<close> as a column value; an interval is never a group key.\<close>

fun original_of :: "eval_value \<Rightarrow> column_value" where
  "original_of (Val v) = v"
| "original_of _ = VNull"

section \<open>The single-key table\<close>

record single_table =
  sk_entries :: "(identity \<times> nat) list"
  sk_hashes :: "32 word list"
  sk_originals :: "column_value list"

definition sk_new :: single_table where
  "sk_new = \<lparr>sk_entries = [], sk_hashes = [], sk_originals = []\<rparr>"

definition sk_findOrInsert :: "eval_value list \<Rightarrow> single_table \<Rightarrow> nat \<times> single_table" where
  "sk_findOrInsert values t =
     (let i = keyIdentityOf (value_at values 0)
      in case map_of (sk_entries t) i of
           Some existing \<Rightarrow> (existing, t)
         | None \<Rightarrow>
             let entry = length (sk_entries t)
             in (entry, t\<lparr>sk_entries := (i, entry) # sk_entries t,
                  sk_hashes := sk_hashes t @ [identityHash i],
                  sk_originals := sk_originals t @ [original_of (value_at values 0)]\<rparr>))"

definition sk_find :: "eval_value list \<Rightarrow> single_table \<Rightarrow> nat option" where
  "sk_find values t = map_of (sk_entries t) (keyIdentityOf (value_at values 0))"

definition sk_clear :: "single_table \<Rightarrow> single_table" where
  "sk_clear t = \<lparr>sk_entries = [], sk_hashes = [], sk_originals = []\<rparr>"

section \<open>The open-addressing table\<close>

record open_table =
  oa_arity :: nat
  oa_slots :: "int list"
  oa_slotMask :: nat
  oa_growAt :: nat
  oa_hashes :: "32 word list"
  oa_identities :: "identity list"
  oa_originals :: "column_value list"
  oa_scratch :: "identity list"
  oa_scratchHash :: "32 word"
  oa_size :: nat

definition EMPTY_SLOT :: int where
  "EMPTY_SLOT = - 1"

definition INITIAL_SLOT_COUNT :: nat where
  "INITIAL_SLOT_COUNT = 64"

definition loadLimit :: "nat \<Rightarrow> nat" where
  "loadLimit slotCount = slotCount * 7 div 10"

definition oa_new :: "nat \<Rightarrow> open_table" where
  "oa_new arity =
     \<lparr>oa_arity = arity, oa_slots = replicate INITIAL_SLOT_COUNT EMPTY_SLOT,
      oa_slotMask = INITIAL_SLOT_COUNT - 1, oa_growAt = loadLimit INITIAL_SLOT_COUNT,
      oa_hashes = replicate INITIAL_SLOT_COUNT 0, oa_identities = [], oa_originals = [],
      oa_scratch = replicate arity INull, oa_scratchHash = 0, oa_size = 0\<rparr>"

definition oa_prepare :: "eval_value list \<Rightarrow> open_table \<Rightarrow> open_table" where
  "oa_prepare values t =
     t\<lparr>oa_scratch := key_of (oa_arity t) values, oa_scratchHash := hashKeyValues values (oa_arity t)\<rparr>"

text \<open>\<open>_matches\<close>: every column of the entry has the prepared identity.\<close>

definition oa_matches :: "open_table \<Rightarrow> nat \<Rightarrow> bool" where
  "oa_matches t entry \<longleftrightarrow>
     list_all (\<lambda>col. oa_identities t ! (entry * oa_arity t + col) = oa_scratch t ! col) [0..<oa_arity t]"

text \<open>
  The probe loop of \<open>find\<close> and \<open>findOrInsert\<close>: it stops at an empty slot (\<open>Inl\<close>) or at the entry
  of the key (\<open>Inr\<close>). It need not stop in general, so it is a partial function.
\<close>

partial_function (option) oa_probe :: "open_table \<Rightarrow> 32 word \<Rightarrow> nat \<Rightarrow> (nat + nat) option" where
  "oa_probe t hash slot =
     (let entry = oa_slots t ! slot
      in if entry = EMPTY_SLOT then Some (Inl slot)
         else if oa_hashes t ! nat entry = hash \<and> oa_matches t (nat entry) then Some (Inr (nat entry))
         else oa_probe t hash ((slot + 1) AND oa_slotMask t))"

definition home_slot :: "32 word \<Rightarrow> nat \<Rightarrow> nat" where
  "home_slot hash smask = unat hash AND smask"

definition oa_growEntries :: "open_table \<Rightarrow> open_table" where
  "oa_growEntries t = t\<lparr>oa_hashes := oa_hashes t @ replicate (length (oa_hashes t)) 0\<rparr>"

definition oa_append :: "eval_value list \<Rightarrow> 32 word \<Rightarrow> open_table \<Rightarrow> nat \<times> open_table" where
  "oa_append values hash t =
     (let entry = oa_size t;
          t1 = t\<lparr>oa_size := entry + 1\<rparr>;
          t2 = (if length (oa_hashes t1) \<le> entry then oa_growEntries t1 else t1);
          t3 = t2\<lparr>oa_hashes := (oa_hashes t2)[entry := hash]\<rparr>
      in (entry, t3\<lparr>oa_identities := oa_identities t3 @ take (oa_arity t) (oa_scratch t),
             oa_originals := oa_originals t3
               @ map (\<lambda>col. original_of (value_at values col)) [0..<oa_arity t]\<rparr>))"

text \<open>\<open>_growSlots\<close>: the first free slot from the home slot on, for each entry in turn.\<close>

partial_function (option) free_slot :: "int list \<Rightarrow> nat \<Rightarrow> nat \<Rightarrow> nat option" where
  "free_slot slots smask slot =
     (if slots ! slot \<noteq> EMPTY_SLOT then free_slot slots smask ((slot + 1) AND smask) else Some slot)"

fun place_entries :: "32 word list \<Rightarrow> nat \<Rightarrow> nat list \<Rightarrow> int list \<Rightarrow> int list option" where
  "place_entries hashes smask [] slots = Some slots"
| "place_entries hashes smask (entry # entries) slots =
     (case free_slot slots smask (home_slot (hashes ! entry) smask) of
        None \<Rightarrow> None
      | Some slot \<Rightarrow> place_entries hashes smask entries (slots[slot := int entry]))"

definition oa_growSlots :: "open_table \<Rightarrow> open_table option" where
  "oa_growSlots t =
     (let slotCount = length (oa_slots t) * 2
      in case place_entries (oa_hashes t) (slotCount - 1) [0..<oa_size t] (replicate slotCount EMPTY_SLOT) of
           None \<Rightarrow> None
         | Some slots \<Rightarrow>
             Some (t\<lparr>oa_slots := slots, oa_slotMask := slotCount - 1, oa_growAt := loadLimit slotCount\<rparr>))"

definition oa_findOrInsert :: "eval_value list \<Rightarrow> open_table \<Rightarrow> (nat \<times> open_table) option" where
  "oa_findOrInsert values t0 =
     (let t = oa_prepare values t0; hash = oa_scratchHash t
      in case oa_probe t hash (home_slot hash (oa_slotMask t)) of
           None \<Rightarrow> None
         | Some (Inr entry) \<Rightarrow> Some (entry, t)
         | Some (Inl slot) \<Rightarrow>
             let (inserted, t1) = oa_append values hash t;
                 t2 = t1\<lparr>oa_slots := (oa_slots t1)[slot := int inserted]\<rparr>
             in if oa_growAt t2 \<le> oa_size t2
                then map_option (\<lambda>t3. (inserted, t3)) (oa_growSlots t2)
                else Some (inserted, t2))"

text \<open>\<open>find\<close>: \<open>None\<close> inside is \<open>NO_ENTRY\<close>; the outer \<open>None\<close> is a loop that does not return.\<close>

definition oa_find :: "eval_value list \<Rightarrow> open_table \<Rightarrow> (nat option \<times> open_table) option" where
  "oa_find values t0 =
     (let t = oa_prepare values t0; hash = oa_scratchHash t
      in map_option (\<lambda>r. (case r of Inl _ \<Rightarrow> None | Inr entry \<Rightarrow> Some entry, t))
           (oa_probe t hash (home_slot hash (oa_slotMask t))))"

definition oa_clear :: "open_table \<Rightarrow> open_table" where
  "oa_clear t = t\<lparr>oa_slots := map (\<lambda>_. EMPTY_SLOT) (oa_slots t), oa_identities := [],
     oa_originals := [], oa_size := 0\<rparr>"

definition oa_hashOf :: "open_table \<Rightarrow> nat \<Rightarrow> 32 word" where
  "oa_hashOf t entry = oa_hashes t ! entry"

definition oa_keyAt :: "open_table \<Rightarrow> nat \<Rightarrow> nat \<Rightarrow> column_value" where
  "oa_keyAt t entry col = oa_originals t ! (entry * oa_arity t + col)"

section \<open>Probing\<close>

text \<open>The \<open>d\<close>-th slot of a probe path in a table of \<open>n\<close> slots.\<close>

definition path :: "nat \<Rightarrow> nat \<Rightarrow> nat \<Rightarrow> nat" where
  "path n s d = (s + d) mod n"

lemma path_0: "s < n \<Longrightarrow> path n s 0 = s"
  by (simp add: path_def)

lemma path_step: "path n (Suc s mod n) d = path n s (Suc d)"
  by (simp add: path_def mod_simps)

lemma path_less: "0 < n \<Longrightarrow> path n s d < n"
  by (simp add: path_def)

lemma path_covers:
  assumes "s < n" "q < n"
  obtains d where "d < n" "path n s d = q"
proof (cases "s \<le> q")
  case True
  then show ?thesis using that [of "q - s"] assms by (simp add: path_def)
next
  case False
  then have "path n s (n - s + q) = q" using assms by (simp add: path_def)
  then show ?thesis using that [of "n - s + q"] False assms by simp
qed

text \<open>A slot mask: one less than a power of two.\<close>

definition masks :: "nat \<Rightarrow> nat \<Rightarrow> bool" where
  "masks m n \<longleftrightarrow> (\<exists>k. n = 2 ^ k \<and> m = 2 ^ k - 1)"

lemma masks_and:
  assumes "masks m n"
  shows "x AND m = x mod n"
proof -
  obtain k where k: "n = 2 ^ k" "m = 2 ^ k - 1" using assms by (auto simp: masks_def)
  have "x AND m = x AND mask k" by (simp add: k mask_eq_exp_minus_1)
  also have "\<dots> = x mod n" by (simp add: k take_bit_eq_mask [symmetric] take_bit_eq_mod)
  finally show ?thesis .
qed

lemma masks_pos: "masks m n \<Longrightarrow> 0 < n"
  by (auto simp: masks_def)

lemma masks_double: "masks (n - 1) n \<Longrightarrow> masks (n * 2 - 1) (n * 2)"
  by (auto simp: masks_def intro: exI [of _ "Suc k" for k])

lemma masks_initial: "masks 63 64"
  unfolding masks_def by (rule exI [of _ 6]) simp

lemma path_next: "masks m n \<Longrightarrow> Suc (path n s d) AND m = path n s (Suc d)"
  by (simp add: masks_and path_def mod_simps)

text \<open>A probe from \<open>s\<close> reaches position \<open>d\<close> when no earlier slot stops it.\<close>

definition stops :: "open_table \<Rightarrow> 32 word \<Rightarrow> nat \<Rightarrow> bool" where
  "stops t hash q \<longleftrightarrow> oa_slots t ! q = EMPTY_SLOT
     \<or> (oa_hashes t ! nat (oa_slots t ! q) = hash \<and> oa_matches t (nat (oa_slots t ! q)))"

lemma probe_skip:
  assumes "masks (oa_slotMask t) n" "s < n" "\<forall>i<d. \<not> stops t hash (path n s i)"
  shows "oa_probe t hash s = oa_probe t hash (path n s d)"
  using assms(3)
proof (induction d)
  case 0
  then show ?case by (simp add: path_0 [OF assms(2)])
next
  case (Suc d)
  then have "oa_probe t hash s = oa_probe t hash (path n s d)" by simp
  also have "\<dots> = oa_probe t hash (path n s (Suc d))"
    using Suc.prems by (subst oa_probe.simps) (auto simp: stops_def path_next [OF assms(1)] Let_def)
  finally show ?case .
qed

lemma probe_empty:
  assumes "masks (oa_slotMask t) n" "s < n" "\<forall>i<d. \<not> stops t hash (path n s i)"
    "oa_slots t ! path n s d = EMPTY_SLOT"
  shows "oa_probe t hash s = Some (Inl (path n s d))"
  unfolding probe_skip [OF assms(1-3)] using assms(4) by (subst oa_probe.simps) simp

lemma probe_hit:
  assumes "masks (oa_slotMask t) n" "s < n" "\<forall>i<d. \<not> stops t hash (path n s i)"
    "oa_slots t ! path n s d = int e" "oa_hashes t ! e = hash" "oa_matches t e"
  shows "oa_probe t hash s = Some (Inr e)"
  unfolding probe_skip [OF assms(1-3)] using assms(4-6)
  by (subst oa_probe.simps) (simp add: EMPTY_SLOT_def)

section \<open>The slots of a set of entries\<close>

text \<open>
  Every non-empty slot holds an entry of \<open>E\<close>, no entry twice, and every entry is on the probe path
  from its home with no gap before it.
\<close>

definition slot_inv :: "int list \<Rightarrow> nat set \<Rightarrow> (nat \<Rightarrow> nat) \<Rightarrow> bool" where
  "slot_inv slots E home \<longleftrightarrow>
     (\<forall>q<length slots. slots ! q \<noteq> EMPTY_SLOT \<longrightarrow> slots ! q \<in> int ` E)
     \<and> (\<forall>q<length slots. \<forall>q'<length slots. slots ! q \<noteq> EMPTY_SLOT \<longrightarrow> slots ! q = slots ! q' \<longrightarrow> q = q')
     \<and> (\<forall>e\<in>E. \<exists>d. slots ! path (length slots) (home e) d = int e
          \<and> (\<forall>i<d. slots ! path (length slots) (home e) i \<noteq> EMPTY_SLOT))"

lemma slot_inv_empty: "slot_inv (replicate n EMPTY_SLOT) {} home"
  by (simp add: slot_inv_def)

lemma slot_inv_free:
  assumes "slot_inv slots E home" "finite E" "card E < length slots"
  shows "\<exists>q<length slots. slots ! q = EMPTY_SLOT"
proof (rule ccontr)
  assume "\<not> ?thesis"
  then have full: "\<forall>q<length slots. slots ! q \<noteq> EMPTY_SLOT" by blast
  have "inj_on ((!) slots) {..<length slots}"
    using assms(1) full unfolding slot_inv_def inj_on_def by auto
  moreover have "(!) slots ` {..<length slots} \<subseteq> int ` E"
    using assms(1) full unfolding slot_inv_def by auto
  ultimately have "card {..<length slots} \<le> card (int ` E)"
    using assms(2) by (metis card_inj_on_le finite_imageI)
  then show False using assms(2,3) by (simp add: card_image)
qed

text \<open>The first empty slot on a path.\<close>

lemma first_empty:
  assumes "slot_inv slots E home" "finite E" "card E < length slots" "s < length slots"
  obtains d where "slots ! path (length slots) s d = EMPTY_SLOT"
    "\<forall>i<d. slots ! path (length slots) s i \<noteq> EMPTY_SLOT"
proof -
  obtain q where q: "q < length slots" "slots ! q = EMPTY_SLOT"
    using slot_inv_free [OF assms(1-3)] by blast
  obtain d where "path (length slots) s d = q" using path_covers [OF assms(4) q(1)] by metis
  then have "slots ! path (length slots) s d = EMPTY_SLOT" using q by simp
  then show ?thesis
    using that [of "LEAST d. slots ! path (length slots) s d = EMPTY_SLOT"]
      LeastI [of "\<lambda>d. slots ! path (length slots) s d = EMPTY_SLOT" d]
      not_less_Least [of _ "\<lambda>d. slots ! path (length slots) s d = EMPTY_SLOT"] by metis
qed

lemma slot_inv_put:
  assumes inv: "slot_inv slots E home" and n: "0 < length slots" and e: "e \<notin> E"
    and q: "slots ! path (length slots) (home e) d = EMPTY_SLOT"
    and run: "\<forall>i<d. slots ! path (length slots) (home e) i \<noteq> EMPTY_SLOT"
  shows "slot_inv (slots[path (length slots) (home e) d := int e]) (insert e E) home"
proof -
  let ?n = "length slots" and ?q = "path (length slots) (home e) d"
  let ?s = "slots[?q := int e]"
  have less: "path ?n s i < ?n" for s i by (rule path_less [OF n])
  have nth: "j < ?n \<Longrightarrow> ?s ! j = (if j = ?q then int e else slots ! j)" for j
    using less by (simp add: nth_list_update)
  have ne: "int e \<noteq> EMPTY_SLOT" by (simp add: EMPTY_SLOT_def)
  have vals: "j < ?n \<Longrightarrow> slots ! j \<noteq> EMPTY_SLOT \<Longrightarrow> slots ! j \<in> int ` E" for j
    using inv by (simp add: slot_inv_def)
  then have other: "j < ?n \<Longrightarrow> slots ! j \<noteq> int e" for j using e ne by force
  have inj: "j < ?n \<Longrightarrow> j' < ?n \<Longrightarrow> slots ! j \<noteq> EMPTY_SLOT \<Longrightarrow> slots ! j = slots ! j' \<Longrightarrow> j = j'" for j j'
    using inv by (simp add: slot_inv_def)
  have one: "\<forall>j<length ?s. ?s ! j \<noteq> EMPTY_SLOT \<longrightarrow> ?s ! j \<in> int ` insert e E"
    using vals nth by auto
  have two: "\<forall>j<length ?s. \<forall>j'<length ?s. ?s ! j \<noteq> EMPTY_SLOT \<longrightarrow> ?s ! j = ?s ! j' \<longrightarrow> j = j'"
    using nth other inj by (metis length_list_update)
  have three: "\<exists>d. ?s ! path (length ?s) (home f) d = int f
      \<and> (\<forall>i<d. ?s ! path (length ?s) (home f) i \<noteq> EMPTY_SLOT)" if f: "f \<in> insert e E" for f
  proof (cases "f = e")
    case True
    then show ?thesis using run less nth ne by (intro exI [of _ d]) (simp add: n)
  next
    case False
    then obtain df where df: "slots ! path ?n (home f) df = int f"
        "\<forall>i<df. slots ! path ?n (home f) i \<noteq> EMPTY_SLOT"
      using inv f by (auto simp: slot_inv_def)
    then have "path ?n (home f) df \<noteq> ?q" using q by (auto simp: EMPTY_SLOT_def)
    then show ?thesis using df less nth ne by (intro exI [of _ df]) simp
  qed
  show ?thesis unfolding slot_inv_def using one two three by blast
qed

lemma free_slot_path:
  assumes "masks m (length slots)" "s < length slots"
    "\<forall>i<d. slots ! path (length slots) s i \<noteq> EMPTY_SLOT"
    "slots ! path (length slots) s d = EMPTY_SLOT"
  shows "free_slot slots m s = Some (path (length slots) s d)"
proof -
  have "free_slot slots m s = free_slot slots m (path (length slots) s k)" if "k \<le> d" for k
    using that
  proof (induction k)
    case 0
    then show ?case by (simp add: path_0 [OF assms(2)])
  next
    case (Suc k)
    then have "free_slot slots m s = free_slot slots m (path (length slots) s k)" by simp
    also have "\<dots> = free_slot slots m (path (length slots) s (Suc k))"
      using assms(3) Suc.prems by (subst free_slot.simps) (simp add: path_next [OF assms(1)])
    finally show ?case .
  qed
  then have "free_slot slots m s = free_slot slots m (path (length slots) s d)" by simp
  then show ?thesis using assms(4) by (subst (asm) (2) free_slot.simps) simp
qed

lemma home_less: "masks m n \<Longrightarrow> home_slot h m < n"
  by (simp add: home_slot_def masks_and masks_pos)

lemma place_entries_inv:
  assumes "masks m (length slots)" "slot_inv slots E (\<lambda>e. home_slot (hashes ! e) m)" "finite E"
    "distinct es" "set es \<inter> E = {}" "card E + length es < length slots"
  shows "\<exists>slots'. place_entries hashes m es slots = Some slots' \<and> length slots' = length slots
    \<and> slot_inv slots' (E \<union> set es) (\<lambda>e. home_slot (hashes ! e) m)"
  using assms
proof (induction es arbitrary: slots E)
  case (Cons e es)
  let ?h = "home_slot (hashes ! e) m"
  have n: "0 < length slots" using Cons.prems(1) by (rule masks_pos)
  obtain d where d: "slots ! path (length slots) ?h d = EMPTY_SLOT"
      "\<forall>i<d. slots ! path (length slots) ?h i \<noteq> EMPTY_SLOT"
    using first_empty [OF Cons.prems(2,3) _ home_less [OF Cons.prems(1)]] Cons.prems(6) by auto
  let ?s = "slots[path (length slots) ?h d := int e]"
  have free: "free_slot slots m ?h = Some (path (length slots) ?h d)"
    by (rule free_slot_path [OF Cons.prems(1) home_less [OF Cons.prems(1)] d(2,1)])
  have "slot_inv ?s (insert e E) (\<lambda>e. home_slot (hashes ! e) m)"
    by (rule slot_inv_put [OF Cons.prems(2) n]) (use Cons.prems(5) d in auto)
  moreover have "card (insert e E) + length es < length ?s"
    using Cons.prems(3,5,6) by simp
  ultimately show ?case
    using Cons.IH [of ?s "insert e E"] Cons.prems free by auto
qed simp

section \<open>The invariant of the table\<close>

definition hash_ids :: "identity list \<Rightarrow> 32 word" where
  "hash_ids ids = fold (\<lambda>i hash. mixIdentity hash i) ids HASH_SEED"

lemma hash_key: "hashKeyValues values arity = hash_ids (key_of arity values)"
  by (simp add: hashKeyValues_def hash_ids_def key_of_def fold_map comp_def)

definition entry_key :: "open_table \<Rightarrow> nat \<Rightarrow> identity list" where
  "entry_key t e = take (oa_arity t) (drop (e * oa_arity t) (oa_identities t))"

text \<open>What a table holds: the keys in the order of their entry numbers.\<close>

definition oa_keys :: "open_table \<Rightarrow> identity list list" where
  "oa_keys t = map (entry_key t) [0..<oa_size t]"

definition oa_inv :: "open_table \<Rightarrow> bool" where
  "oa_inv t \<longleftrightarrow>
     masks (oa_slotMask t) (length (oa_slots t)) \<and> 64 \<le> length (oa_slots t)
     \<and> oa_growAt t = loadLimit (length (oa_slots t)) \<and> oa_size t < oa_growAt t
     \<and> 0 < length (oa_hashes t) \<and> oa_size t \<le> length (oa_hashes t)
     \<and> length (oa_identities t) = oa_size t * oa_arity t
     \<and> length (oa_originals t) = oa_size t * oa_arity t
     \<and> (\<forall>e<oa_size t. oa_hashes t ! e = hash_ids (entry_key t e))
     \<and> distinct (oa_keys t)
     \<and> slot_inv (oa_slots t) {..<oa_size t} (\<lambda>e. home_slot (oa_hashes t ! e) (oa_slotMask t))"

lemma loadLimit_less: "0 < n \<Longrightarrow> loadLimit n < n"
  by (simp add: loadLimit_def)

lemma loadLimit_double: "64 \<le> n \<Longrightarrow> k \<le> loadLimit n \<Longrightarrow> k < loadLimit (n * 2)"
  unfolding loadLimit_def by linarith

lemma oa_new_inv: "oa_inv (oa_new arity)" "oa_keys (oa_new arity) = []"
  using slot_inv_empty
  by (auto simp: oa_inv_def oa_new_def oa_keys_def loadLimit_def INITIAL_SLOT_COUNT_def masks_initial
      slot_inv_def)

lemma oa_clear_inv: "oa_inv t \<Longrightarrow> oa_inv (oa_clear t)" "oa_keys (oa_clear t) = []"
proof -
  assume inv: "oa_inv t"
  have "map (\<lambda>_. EMPTY_SLOT) (oa_slots t) = replicate (length (oa_slots t)) EMPTY_SLOT"
    by (simp add: map_replicate_const)
  then show "oa_inv (oa_clear t)"
    using inv slot_inv_empty loadLimit_double [of 64 0]
    by (auto simp: oa_inv_def oa_clear_def oa_keys_def slot_inv_def)
qed (simp add: oa_keys_def oa_clear_def)

lemma entry_key_length: "oa_inv t \<Longrightarrow> e < oa_size t \<Longrightarrow> length (entry_key t e) = oa_arity t"
proof -
  assume inv: "oa_inv t" and e: "e < oa_size t"
  then have "(e + 1) * oa_arity t \<le> oa_size t * oa_arity t" by (intro mult_le_mono1) simp
  then show ?thesis using inv by (simp add: entry_key_def oa_inv_def)
qed

lemma matches_key:
  assumes inv: "oa_inv t" and e: "e < oa_size t" and s: "oa_scratch t = k" "length k = oa_arity t"
  shows "oa_matches t e \<longleftrightarrow> entry_key t e = k"
proof -
  have "(e + 1) * oa_arity t \<le> oa_size t * oa_arity t" using e by (intro mult_le_mono1) simp
  then have "col < oa_arity t \<Longrightarrow> entry_key t e ! col = oa_identities t ! (e * oa_arity t + col)" for col
    using inv by (simp add: entry_key_def oa_inv_def nth_drop [OF order_trans [OF le_add2]])
  then show ?thesis
    using entry_key_length [OF inv e] s by (auto simp: oa_matches_def list_all_iff list_eq_iff_nth_eq)
qed

lemma length_key_of [simp]: "length (key_of arity values) = arity"
  by (simp add: key_of_def)

lemma prepare_fields [simp]:
  "oa_arity (oa_prepare vs t) = oa_arity t" "oa_slots (oa_prepare vs t) = oa_slots t"
  "oa_slotMask (oa_prepare vs t) = oa_slotMask t" "oa_hashes (oa_prepare vs t) = oa_hashes t"
  "oa_size (oa_prepare vs t) = oa_size t" "oa_scratch (oa_prepare vs t) = key_of (oa_arity t) vs"
  "oa_scratchHash (oa_prepare vs t) = hash_ids (key_of (oa_arity t) vs)"
  "oa_growAt (oa_prepare vs t) = oa_growAt t" "oa_identities (oa_prepare vs t) = oa_identities t"
  "oa_originals (oa_prepare vs t) = oa_originals t"
  by (simp_all add: oa_prepare_def hash_key)

lemma prepare_inv [simp]: "oa_inv (oa_prepare vs t) = oa_inv t" "oa_keys (oa_prepare vs t) = oa_keys t"
  "entry_key (oa_prepare vs t) = entry_key t"
proof -
  show k: "entry_key (oa_prepare vs t) = entry_key t" by (simp add: fun_eq_iff entry_key_def)
  then show "oa_keys (oa_prepare vs t) = oa_keys t" by (simp add: oa_keys_def)
  then show "oa_inv (oa_prepare vs t) = oa_inv t" using k by (simp add: oa_inv_def)
qed

text \<open>Where a probe for the key \<open>k\<close> ends.\<close>

lemma probe_finds:
  assumes inv: "oa_inv t" and k: "oa_scratch t = k" "length k = oa_arity t"
    and e: "e < oa_size t" "entry_key t e = k"
  shows "oa_probe t (hash_ids k) (home_slot (hash_ids k) (oa_slotMask t)) = Some (Inr e)"
proof -
  let ?n = "length (oa_slots t)" and ?s = "home_slot (hash_ids k) (oa_slotMask t)"
  have m: "masks (oa_slotMask t) ?n" and si: "slot_inv (oa_slots t) {..<oa_size t}
      (\<lambda>e. home_slot (oa_hashes t ! e) (oa_slotMask t))"
    and h: "\<And>e. e < oa_size t \<Longrightarrow> oa_hashes t ! e = hash_ids (entry_key t e)"
    and dk: "distinct (oa_keys t)"
    using inv by (simp_all add: oa_inv_def)
  define P where "P d \<longleftrightarrow> oa_slots t ! path ?n ?s d = int e
      \<and> (\<forall>i<d. oa_slots t ! path ?n ?s i \<noteq> EMPTY_SLOT)" for d
  have home: "home_slot (oa_hashes t ! e) (oa_slotMask t) = ?s" using h [OF e(1)] e(2) by simp
  have "\<exists>d. oa_slots t ! path ?n (home_slot (oa_hashes t ! e) (oa_slotMask t)) d = int e
      \<and> (\<forall>i<d. oa_slots t ! path ?n (home_slot (oa_hashes t ! e) (oa_slotMask t)) i \<noteq> EMPTY_SLOT)"
    using si e(1) unfolding slot_inv_def by blast
  then have "\<exists>d. P d" unfolding home P_def .
  then obtain d where d: "P d" "\<forall>i<d. \<not> P i" using exists_least_iff [of P] by blast
  then have at_d: "oa_slots t ! path ?n ?s d = int e"
    and run: "\<forall>i<d. oa_slots t ! path ?n ?s i \<noteq> EMPTY_SLOT" by (simp_all add: P_def)
  have early: "\<not> stops t (hash_ids k) (path ?n ?s i)" if i: "i < d" for i
  proof
    assume stop: "stops t (hash_ids k) (path ?n ?s i)"
    let ?v = "oa_slots t ! path ?n ?s i"
    have ne: "?v \<noteq> EMPTY_SLOT" using run i by simp
    have "path ?n ?s i < ?n" using masks_pos [OF m] by (rule path_less)
    then obtain f where f: "?v = int f" "f < oa_size t" using si ne by (auto simp: slot_inv_def)
    then have "oa_matches t f" using stop ne by (simp add: stops_def)
    then have "entry_key t f = entry_key t e" using matches_key [OF inv f(2) k] e by simp
    then have "oa_keys t ! f = oa_keys t ! e" using f(2) e(1) by (simp add: oa_keys_def)
    then have "f = e"
      using nth_eq_iff_index_eq [OF dk, of f e] f(2) e(1) by (simp add: oa_keys_def)
    then have "P i" using f run i by (simp add: P_def)
    then show False using i d(2) by blast
  qed
  show ?thesis
    by (rule probe_hit [OF m home_less [OF m], where d = d])
      (use early at_d e h [OF e(1)] matches_key [OF inv e(1) k] in auto)
qed

lemma probe_misses:
  assumes inv: "oa_inv t" and k: "oa_scratch t = k" "length k = oa_arity t"
    and new: "k \<notin> set (oa_keys t)"
  obtains d where
    "oa_probe t (hash_ids k) (home_slot (hash_ids k) (oa_slotMask t))
       = Some (Inl (path (length (oa_slots t)) (home_slot (hash_ids k) (oa_slotMask t)) d))"
    "oa_slots t ! path (length (oa_slots t)) (home_slot (hash_ids k) (oa_slotMask t)) d = EMPTY_SLOT"
    "\<forall>i<d. oa_slots t ! path (length (oa_slots t)) (home_slot (hash_ids k) (oa_slotMask t)) i \<noteq> EMPTY_SLOT"
proof -
  let ?n = "length (oa_slots t)" and ?s = "home_slot (hash_ids k) (oa_slotMask t)"
  have m: "masks (oa_slotMask t) ?n" and si: "slot_inv (oa_slots t) {..<oa_size t}
      (\<lambda>e. home_slot (oa_hashes t ! e) (oa_slotMask t))"
    using inv by (simp_all add: oa_inv_def)
  have "oa_size t < ?n"
    using inv loadLimit_less [OF masks_pos [OF m]] by (simp add: oa_inv_def)
  then obtain d where d: "oa_slots t ! path ?n ?s d = EMPTY_SLOT"
      "\<forall>i<d. oa_slots t ! path ?n ?s i \<noteq> EMPTY_SLOT"
    using first_empty [OF si _ _ home_less [OF m]] by auto
  have early: "\<not> stops t (hash_ids k) (path ?n ?s i)" if i: "i < d" for i
  proof
    assume stop: "stops t (hash_ids k) (path ?n ?s i)"
    let ?v = "oa_slots t ! path ?n ?s i"
    have ne: "?v \<noteq> EMPTY_SLOT" using d i by simp
    have "path ?n ?s i < ?n" using masks_pos [OF m] by (rule path_less)
    then obtain f where f: "?v = int f" "f < oa_size t" using si ne by (auto simp: slot_inv_def)
    then have "entry_key t f = k" using stop ne matches_key [OF inv f(2) k] by (simp add: stops_def)
    then show False using new f(2) by (auto simp: oa_keys_def)
  qed
  then show ?thesis using that [of d] probe_empty [OF m home_less [OF m]] d by blast
qed

section \<open>The operations\<close>

text \<open>The entry number of a key: its position among the keys.\<close>

definition key_index :: "'k list \<Rightarrow> 'k \<Rightarrow> nat option" where
  "key_index ks k = (if k \<in> set ks then Some (length (takeWhile (\<lambda>x. x \<noteq> k) ks)) else None)"

lemma takeWhile_hit:
  assumes "k \<in> set ks"
  shows "length (takeWhile (\<lambda>x. x \<noteq> k) ks) < length ks"
    "ks ! length (takeWhile (\<lambda>x. x \<noteq> k) ks) = k"
proof -
  have "takeWhile (\<lambda>x. x \<noteq> k) ks \<noteq> ks" using assms by (auto simp: takeWhile_eq_all_conv)
  then show less: "length (takeWhile (\<lambda>x. x \<noteq> k) ks) < length ks"
    using length_takeWhile_le [of "\<lambda>x. x \<noteq> k" ks] takeWhile_eq_take [of "\<lambda>x. x \<noteq> k" ks]
    by (metis le_neq_implies_less take_all_iff order_refl)
  show "ks ! length (takeWhile (\<lambda>x. x \<noteq> k) ks) = k" using nth_length_takeWhile [OF less] by simp
qed

lemma key_index_nth:
  assumes "distinct ks" "e < length ks" "ks ! e = k"
  shows "key_index ks k = Some e"
proof -
  let ?i = "length (takeWhile (\<lambda>x. x \<noteq> k) ks)"
  have k: "k \<in> set ks" using assms by (auto simp: in_set_conv_nth)
  then have "?i = e"
    using takeWhile_hit assms nth_eq_iff_index_eq [OF assms(1), of ?i e] by metis
  then show ?thesis using k by (simp add: key_index_def)
qed

lemma key_index_Some: "key_index ks k = Some e \<Longrightarrow> e < length ks \<and> ks ! e = k"
  using takeWhile_hit [of k ks] by (auto simp: key_index_def split: if_splits)

lemma key_index_None: "key_index ks k = None \<longleftrightarrow> k \<notin> set ks"
  by (simp add: key_index_def)

definition entry_for :: "'k list \<Rightarrow> 'k \<Rightarrow> nat" where
  "entry_for ks k = (case key_index ks k of Some e \<Rightarrow> e | None \<Rightarrow> length ks)"

definition add_key :: "'k list \<Rightarrow> 'k \<Rightarrow> 'k list" where
  "add_key ks k = (if k \<in> set ks then ks else ks @ [k])"

lemma oa_probe_index:
  assumes inv: "oa_inv t" and k: "oa_scratch t = k" "length k = oa_arity t" and mem: "k \<in> set (oa_keys t)"
  obtains e where "key_index (oa_keys t) k = Some e"
    "oa_probe t (hash_ids k) (home_slot (hash_ids k) (oa_slotMask t)) = Some (Inr e)"
proof -
  obtain e where e: "e < oa_size t" "entry_key t e = k"
    using mem by (auto simp: oa_keys_def)
  have "distinct (oa_keys t)" using inv by (simp add: oa_inv_def)
  then have "key_index (oa_keys t) k = Some e"
    using e by (intro key_index_nth) (simp_all add: oa_keys_def)
  then show ?thesis using that probe_finds [OF inv k e] by blast
qed

lemma oa_find_correct:
  assumes inv: "oa_inv t"
  shows "\<exists>t'. oa_find vs t = Some (key_index (oa_keys t) (key_of (oa_arity t) vs), t')
    \<and> oa_inv t' \<and> oa_keys t' = oa_keys t \<and> oa_arity t' = oa_arity t"
proof -
  let ?k = "key_of (oa_arity t) vs" and ?t = "oa_prepare vs t"
  have s: "oa_scratch ?t = ?k" "length ?k = oa_arity ?t" and pinv: "oa_inv ?t" using inv by simp_all
  show ?thesis
  proof (cases "?k \<in> set (oa_keys t)")
    case True
    then obtain e where "key_index (oa_keys t) ?k = Some e"
        "oa_probe ?t (hash_ids ?k) (home_slot (hash_ids ?k) (oa_slotMask ?t)) = Some (Inr e)"
      using oa_probe_index [OF pinv s] by auto
    then show ?thesis using inv by (simp add: oa_find_def Let_def)
  next
    case False
    then have "?k \<notin> set (oa_keys ?t)" by simp
    then obtain d where "oa_probe ?t (hash_ids ?k) (home_slot (hash_ids ?k) (oa_slotMask ?t)) = Some (Inl d)"
      using probe_misses [OF pinv s] by blast
    then show ?thesis using inv False by (simp add: oa_find_def Let_def key_index_def)
  qed
qed

lemma slot_inv_cong:
  "(\<And>e. e \<in> E \<Longrightarrow> home e = home' e) \<Longrightarrow> slot_inv slots E home = slot_inv slots E home'"
  unfolding slot_inv_def by auto

lemma oa_append_inv:
  assumes inv: "oa_inv t" and k: "oa_scratch t = k" "length k = oa_arity t" and new: "k \<notin> set (oa_keys t)"
    and app: "oa_append vs (hash_ids k) t = (entry, t')"
  shows "entry = oa_size t" "oa_size t' = Suc (oa_size t)" "oa_arity t' = oa_arity t"
    "oa_slots t' = oa_slots t" "oa_slotMask t' = oa_slotMask t" "oa_growAt t' = oa_growAt t"
    "oa_keys t' = oa_keys t @ [k]" "0 < length (oa_hashes t')" "oa_size t' \<le> length (oa_hashes t')"
    "length (oa_identities t') = oa_size t' * oa_arity t'"
    "length (oa_originals t') = oa_size t' * oa_arity t'"
    "\<forall>e<oa_size t'. oa_hashes t' ! e = hash_ids (entry_key t' e)"
    "\<forall>e<oa_size t. oa_hashes t' ! e = oa_hashes t ! e"
proof -
  have len: "length (oa_identities t) = oa_size t * oa_arity t"
    "length (oa_originals t) = oa_size t * oa_arity t" "0 < length (oa_hashes t)"
    "oa_size t \<le> length (oa_hashes t)"
    and h: "\<forall>e<oa_size t. oa_hashes t ! e = hash_ids (entry_key t e)"
    using inv by (simp_all add: oa_inv_def)
  define hs where "hs = (if length (oa_hashes t) \<le> oa_size t
    then oa_hashes t @ replicate (length (oa_hashes t)) 0 else oa_hashes t)"
  have hs: "oa_size t < length hs" "\<forall>e<oa_size t. hs ! e = oa_hashes t ! e"
    using len by (auto simp: hs_def nth_append simp del: length_greater_0_conv)
  have t': "t' = t\<lparr>oa_size := Suc (oa_size t), oa_hashes := hs[oa_size t := hash_ids k],
      oa_identities := oa_identities t @ k,
      oa_originals := oa_originals t @ map (\<lambda>col. original_of (value_at vs col)) [0..<oa_arity t]\<rparr>"
    and entry: "entry = oa_size t"
    using app k by (auto simp: oa_append_def Let_def oa_growEntries_def hs_def)
  show "entry = oa_size t" by (rule entry)
  show "oa_size t' = Suc (oa_size t)" "oa_arity t' = oa_arity t" "oa_slots t' = oa_slots t"
    "oa_slotMask t' = oa_slotMask t" "oa_growAt t' = oa_growAt t" "0 < length (oa_hashes t')"
    "oa_size t' \<le> length (oa_hashes t')"
    "length (oa_identities t') = oa_size t' * oa_arity t'"
    "length (oa_originals t') = oa_size t' * oa_arity t'"
    "\<forall>e<oa_size t. oa_hashes t' ! e = oa_hashes t ! e"
    using hs len k by (auto simp: t')
  have old: "entry_key t' e = entry_key t e" if "e < oa_size t" for e
  proof -
    have "(e + 1) * oa_arity t \<le> oa_size t * oa_arity t" using that by (intro mult_le_mono1) simp
    then show ?thesis using len by (simp add: entry_key_def t')
  qed
  have new_key: "entry_key t' (oa_size t) = k" using len k by (simp add: entry_key_def t')
  show "oa_keys t' = oa_keys t @ [k]" using old new_key by (simp add: oa_keys_def t')
  show "\<forall>e<oa_size t'. oa_hashes t' ! e = hash_ids (entry_key t' e)"
    using hs h old new_key by (auto simp: less_Suc_eq t')
qed

lemma oa_findOrInsert_correct:
  assumes inv: "oa_inv t"
  shows "\<exists>t'. oa_findOrInsert vs t = Some (entry_for (oa_keys t) (key_of (oa_arity t) vs), t')
    \<and> oa_inv t' \<and> oa_keys t' = add_key (oa_keys t) (key_of (oa_arity t) vs) \<and> oa_arity t' = oa_arity t"
proof -
  let ?k = "key_of (oa_arity t) vs" and ?t = "oa_prepare vs t"
  have s: "oa_scratch ?t = ?k" "length ?k = oa_arity ?t" and pinv: "oa_inv ?t" using inv by simp_all
  show ?thesis
  proof (cases "?k \<in> set (oa_keys t)")
    case True
    then obtain e where "key_index (oa_keys ?t) ?k = Some e"
        "oa_probe ?t (hash_ids ?k) (home_slot (hash_ids ?k) (oa_slotMask ?t)) = Some (Inr e)"
      using oa_probe_index [OF pinv s] by auto
    then show ?thesis using inv True by (auto simp: oa_findOrInsert_def Let_def entry_for_def add_key_def)
  next
    case False
    then have nk: "?k \<notin> set (oa_keys ?t)" by simp
    let ?n = "length (oa_slots t)"
    obtain d where d: "oa_probe ?t (hash_ids ?k) (home_slot (hash_ids ?k) (oa_slotMask ?t))
          = Some (Inl (path (length (oa_slots ?t)) (home_slot (hash_ids ?k) (oa_slotMask ?t)) d))"
        "oa_slots ?t ! path (length (oa_slots ?t)) (home_slot (hash_ids ?k) (oa_slotMask ?t)) d = EMPTY_SLOT"
        "\<forall>i<d. oa_slots ?t ! path (length (oa_slots ?t)) (home_slot (hash_ids ?k) (oa_slotMask ?t)) i
          \<noteq> EMPTY_SLOT"
      using probe_misses [OF pinv s nk] by blast
    define q where "q = path ?n (home_slot (hash_ids ?k) (oa_slotMask t)) d"
    obtain entry t1 where app: "oa_append vs (hash_ids ?k) ?t = (entry, t1)"
      by (cases "oa_append vs (hash_ids ?k) ?t")
    note a = oa_append_inv [OF pinv s nk app]
    define t2 where "t2 = t1\<lparr>oa_slots := (oa_slots t1)[q := int entry]\<rparr>"
    have m: "masks (oa_slotMask t) ?n" and n64: "64 \<le> ?n" and grow: "oa_growAt t = loadLimit ?n"
        "oa_size t < oa_growAt t" and dk: "distinct (oa_keys t)"
      and si: "slot_inv (oa_slots t) {..<oa_size t} (\<lambda>e. home_slot (oa_hashes t ! e) (oa_slotMask t))"
      using inv by (simp_all add: oa_inv_def)
    have same: "entry_key t2 = entry_key t1" "oa_keys t2 = oa_keys t1"
      by (simp_all add: fun_eq_iff t2_def entry_key_def oa_keys_def)
    have key_new: "entry_key t1 (oa_size t) = ?k"
    proof -
      have "oa_keys t1 ! oa_size t = ?k" using a(7) by (simp add: oa_keys_def nth_append)
      then show ?thesis using a(2) by (simp add: oa_keys_def del: upt_Suc)
    qed
    have home_new: "home_slot (oa_hashes t1 ! oa_size t) (oa_slotMask t) = home_slot (hash_ids ?k) (oa_slotMask t)"
      using a(2,12) key_new by simp
    have slots2: "oa_slots t2 = (oa_slots t)[q := int (oa_size t)]" using a(1,4) by (simp add: t2_def)
    have si2: "slot_inv (oa_slots t2) {..<oa_size t2} (\<lambda>e. home_slot (oa_hashes t2 ! e) (oa_slotMask t2))"
    proof -
      have "slot_inv (oa_slots t) {..<oa_size t} (\<lambda>e. home_slot (oa_hashes t1 ! e) (oa_slotMask t))"
        using si a(13) by (subst slot_inv_cong [where home' = "\<lambda>e. home_slot (oa_hashes t ! e) (oa_slotMask t)"]) auto
      from slot_inv_put [OF this masks_pos [OF m], of "oa_size t" d]
      show ?thesis using d a home_new by (simp add: t2_def q_def lessThan_Suc)
    qed
    have inv_base: "masks (oa_slotMask t2) (length (oa_slots t2))" "64 \<le> length (oa_slots t2)"
        "oa_growAt t2 = loadLimit (length (oa_slots t2))" "0 < length (oa_hashes t2)"
        "oa_size t2 \<le> length (oa_hashes t2)" "length (oa_identities t2) = oa_size t2 * oa_arity t2"
        "length (oa_originals t2) = oa_size t2 * oa_arity t2"
        "\<forall>e<oa_size t2. oa_hashes t2 ! e = hash_ids (entry_key t2 e)" "distinct (oa_keys t2)"
        "oa_size t2 = Suc (oa_size t)" "oa_arity t2 = oa_arity t"
      using a m n64 grow dk False same by (simp_all add: t2_def)
    have keys2: "oa_keys t2 = add_key (oa_keys t) ?k"
      using a(7) same False by (simp add: add_key_def)
    have entry: "entry = entry_for (oa_keys t) ?k"
      using a(1) False by (simp add: entry_for_def key_index_def oa_keys_def)
    have run: "oa_findOrInsert vs t = (if oa_growAt t2 \<le> oa_size t2
        then map_option (\<lambda>t3. (entry, t3)) (oa_growSlots t2) else Some (entry, t2))"
      using d(1) app by (simp add: oa_findOrInsert_def Let_def q_def t2_def)
    show ?thesis
    proof (cases "oa_growAt t2 \<le> oa_size t2")
      case False
      then have "oa_inv t2" using inv_base si2 by (simp add: oa_inv_def)
      then show ?thesis using False run keys2 entry inv_base(11) by auto
    next
      case True
      let ?slots = "replicate (?n * 2) EMPTY_SLOT" and ?m = "?n * 2 - 1"
      have n2: "length (oa_slots t2) = ?n" using slots2 by simp
      have nm: "oa_slotMask t = ?n - 1" using m by (auto simp: masks_def)
      have md: "masks ?m (?n * 2)" using masks_double m nm by simp
      have lt: "oa_size t2 < ?n"
        using grow inv_base(10) loadLimit_less [of ?n] n64 by linarith
      obtain slots' where sl: "place_entries (oa_hashes t2) ?m [0..<oa_size t2] ?slots = Some slots'"
          "length slots' = ?n * 2"
          "slot_inv slots' {..<oa_size t2} (\<lambda>e. home_slot (oa_hashes t2 ! e) ?m)"
        using place_entries_inv [of ?m ?slots "{}" "oa_hashes t2" "[0..<oa_size t2]"] md lt slot_inv_empty
        by (auto simp: atLeast0LessThan)
      define t3 where "t3 = t2\<lparr>oa_slots := slots', oa_slotMask := ?m, oa_growAt := loadLimit (?n * 2)\<rparr>"
      have g: "oa_growSlots t2 = Some t3"
        using sl(1) n2 by (simp add: oa_growSlots_def Let_def t3_def)
      have k3: "entry_key t3 = entry_key t2" "oa_keys t3 = oa_keys t2"
        by (simp_all add: fun_eq_iff t3_def entry_key_def oa_keys_def)
      have "oa_size t2 < loadLimit (?n * 2)"
        using loadLimit_double [OF n64] grow inv_base(10) by simp
      then have "oa_inv t3"
        using inv_base md sl n64 k3 unfolding oa_inv_def by (simp add: t3_def)
      then show ?thesis using True run g keys2 entry inv_base(11) k3 by (auto simp: t3_def)
    qed
  qed
qed

section \<open>The contract of a keyed hash table\<close>

text \<open>
  \<open>KeyedHashTable\<close>: distinct keys get consecutive entry numbers in the order they are first seen.
  The outer option is termination: \<open>None\<close> is a probe loop that runs forever.
\<close>

locale keyed_table =
  fixes inv :: "'t \<Rightarrow> bool"
    and keys :: "'t \<Rightarrow> identity list list"
    and arity :: "'t \<Rightarrow> nat"
    and findOrInsert :: "eval_value list \<Rightarrow> 't \<Rightarrow> (nat \<times> 't) option"
    and lookup :: "eval_value list \<Rightarrow> 't \<Rightarrow> (nat option \<times> 't) option"
    and reset :: "'t \<Rightarrow> 't"
  assumes insert_law:
      "inv t \<Longrightarrow> \<exists>t'. findOrInsert vs t = Some (entry_for (keys t) (key_of (arity t) vs), t')
         \<and> inv t' \<and> keys t' = add_key (keys t) (key_of (arity t) vs) \<and> arity t' = arity t"
    and lookup_law:
      "inv t \<Longrightarrow> \<exists>t'. lookup vs t = Some (key_index (keys t) (key_of (arity t) vs), t')
         \<and> inv t' \<and> keys t' = keys t \<and> arity t' = arity t"
    and reset_law: "inv t \<Longrightarrow> inv (reset t) \<and> keys (reset t) = [] \<and> arity (reset t) = arity t"
    and keys_distinct: "inv t \<Longrightarrow> distinct (keys t)"
begin

text \<open>Looking a key up after inserting it finds the entry that the insertion returned.\<close>

lemma find_after_insert:
  assumes "inv t" "findOrInsert vs t = Some (e, t1)"
  shows "\<exists>t2. lookup vs t1 = Some (Some e, t2) \<and> keys t1 ! e = key_of (arity t) vs \<and> e < length (keys t1)"
proof -
  let ?k = "key_of (arity t) vs"
  have e: "e = entry_for (keys t) ?k" and t1: "inv t1" "keys t1 = add_key (keys t) ?k" "arity t1 = arity t"
    using insert_law [OF assms(1), of vs] assms(2) by auto
  have at: "e < length (keys t1) \<and> keys t1 ! e = ?k"
    using key_index_Some [of "keys t" ?k] key_index_None [of "keys t" ?k]
    unfolding e t1(2) entry_for_def add_key_def by (auto split: option.splits simp: nth_append)
  then have "key_index (keys t1) ?k = Some e"
    using keys_distinct [OF t1(1)] by (intro key_index_nth) auto
  then show ?thesis using lookup_law [OF t1(1), of vs] t1(3) at by auto
qed

text \<open>Numbering a list of rows, as the grouping operators do.\<close>

fun number_rows :: "eval_value list list \<Rightarrow> 't \<Rightarrow> (nat list \<times> 't) option" where
  "number_rows [] t = Some ([], t)"
| "number_rows (row # rows) t =
     (case findOrInsert row t of
        None \<Rightarrow> None
      | Some (e, t1) \<Rightarrow> map_option (\<lambda>(es, t2). (e # es, t2)) (number_rows rows t1))"

lemma number_rows_groups:
  assumes "inv t"
  shows "\<exists>es t'. number_rows rows t = Some (es, t') \<and> inv t' \<and> arity t' = arity t
    \<and> keys t' = fold (\<lambda>row ks. add_key ks (key_of (arity t) row)) rows (keys t)
    \<and> length es = length rows
    \<and> (\<forall>i<length rows. es ! i < length (keys t') \<and> keys t' ! (es ! i) = key_of (arity t) (rows ! i))
    \<and> (\<exists>ext. keys t' = keys t @ ext)"
  using assms
proof (induction rows arbitrary: t)
  case (Cons row rows)
  let ?k = "key_of (arity t) row"
  obtain t1 where t1: "findOrInsert row t = Some (entry_for (keys t) ?k, t1)" "inv t1"
      "keys t1 = add_key (keys t) ?k" "arity t1 = arity t"
    using insert_law [OF Cons.prems, of row] by blast
  obtain es t' where r: "number_rows rows t1 = Some (es, t')" "inv t'" "arity t' = arity t1"
      "keys t' = fold (\<lambda>row ks. add_key ks (key_of (arity t1) row)) rows (keys t1)"
      "length es = length rows"
      "\<forall>i<length rows. es ! i < length (keys t') \<and> keys t' ! (es ! i) = key_of (arity t1) (rows ! i)"
      "\<exists>ext. keys t' = keys t1 @ ext"
    using Cons.IH [OF t1(2)] by blast
  let ?e = "entry_for (keys t) ?k"
  have e1: "?e < length (keys t1) \<and> keys t1 ! ?e = ?k"
    using find_after_insert [OF Cons.prems t1(1)] by blast
  then have e: "?e < length (keys t') \<and> keys t' ! ?e = ?k" using r(7) by (auto simp: nth_append)
  have ext: "\<exists>ext. keys t' = keys t @ ext" using r(7) t1(3) by (auto simp: add_key_def split: if_splits)
  have "\<forall>i<length (row # rows). (?e # es) ! i < length (keys t')
      \<and> keys t' ! ((?e # es) ! i) = key_of (arity t) ((row # rows) ! i)"
    using r(6) e t1(4) by (auto simp: nth_Cons split: nat.splits)
  then show ?case using r(1-5) t1 ext by auto
qed simp

text \<open>Two rows get the same number exactly when their keys are the same.\<close>

lemma same_number:
  assumes "inv t" "number_rows rows t = Some (es, t')" "i < length rows" "j < length rows"
  shows "es ! i = es ! j \<longleftrightarrow> key_of (arity t) (rows ! i) = key_of (arity t) (rows ! j)"
proof -
  have *: "inv t'" "\<forall>i<length rows. es ! i < length (keys t') \<and> keys t' ! (es ! i) = key_of (arity t) (rows ! i)"
    using number_rows_groups [OF assms(1), of rows] assms(2) by auto
  then show ?thesis
    using assms(3,4) nth_eq_iff_index_eq [OF keys_distinct [OF *(1)], of "es ! i" "es ! j"] by metis
qed

end

interpretation oa: keyed_table oa_inv oa_keys oa_arity oa_findOrInsert oa_find oa_clear
  using oa_findOrInsert_correct oa_find_correct oa_clear_inv
  by unfold_locales (auto simp: oa_inv_def oa_clear_def)

definition sk_keys :: "single_table \<Rightarrow> identity list list" where
  "sk_keys t = rev (map (\<lambda>(i, _). [i]) (sk_entries t))"

definition sk_inv :: "single_table \<Rightarrow> bool" where
  "sk_inv t \<longleftrightarrow> distinct (map fst (sk_entries t))
     \<and> map snd (sk_entries t) = rev [0..<length (sk_entries t)]
     \<and> length (sk_hashes t) = length (sk_entries t)
     \<and> length (sk_originals t) = length (sk_entries t)
     \<and> sk_hashes t = rev (map (identityHash \<circ> fst) (sk_entries t))"

lemma key_of_1 [simp]: "key_of (Suc 0) vs = [keyIdentityOf (value_at vs 0)]"
  by (simp add: key_of_def)

lemma sk_lookup:
  assumes "sk_inv t"
  shows "map_of (sk_entries t) i = key_index (sk_keys t) [i]"
proof -
  let ?es = "sk_entries t"
  have d: "distinct (map fst ?es)" and s: "map snd ?es = rev [0..<length ?es]"
    using assms by (simp_all add: sk_inv_def)
  have nth: "j < length ?es \<Longrightarrow> ?es ! j = (fst (?es ! j), length ?es - Suc j)" for j
  proof -
    assume j: "j < length ?es"
    then have "snd (?es ! j) = map snd ?es ! j" by simp
    also have "\<dots> = length ?es - Suc j" unfolding s using j by (simp add: rev_nth)
    finally show ?thesis by (metis prod.collapse)
  qed
  have dk: "distinct (sk_keys t)"
  proof -
    have "map (\<lambda>(i, _). [i]) ?es = map (\<lambda>i. [i]) (map fst ?es)" by (simp add: case_prod_unfold)
    then show ?thesis using d by (simp add: sk_keys_def distinct_map inj_on_def)
  qed
  show ?thesis
  proof (cases "i \<in> fst ` set ?es")
    case True
    then obtain j where j: "j < length ?es" "fst (?es ! j) = i" by (auto simp: in_set_conv_nth)
    then have "map_of ?es i = Some (length ?es - Suc j)"
      using nth [OF j(1)] d by (metis map_of_eq_Some_iff nth_mem)
    moreover have "sk_keys t ! (length ?es - Suc j) = [i]"
      using j nth [OF j(1)] by (simp add: sk_keys_def rev_nth case_prod_unfold)
    then have "key_index (sk_keys t) [i] = Some (length ?es - Suc j)"
      using dk j(1) by (intro key_index_nth) (simp_all add: sk_keys_def)
    ultimately show ?thesis by simp
  next
    case False
    then have "map_of ?es i = None" by (simp add: map_of_eq_None_iff)
    moreover have "[i] \<notin> set (sk_keys t)" using False by (force simp: sk_keys_def)
    ultimately show ?thesis by (simp add: key_index_def)
  qed
qed

lemma sk_insert:
  assumes "sk_inv t"
  shows "\<exists>t'. sk_findOrInsert vs t = (entry_for (sk_keys t) (key_of 1 vs), t')
    \<and> sk_inv t' \<and> sk_keys t' = add_key (sk_keys t) (key_of 1 vs)"
proof (cases "map_of (sk_entries t) (keyIdentityOf (value_at vs 0))")
  case None
  let ?i = "keyIdentityOf (value_at vs 0)"
  have kn: "key_index (sk_keys t) [?i] = None" using sk_lookup [OF assms] None by simp
  then have new: "[?i] \<notin> set (sk_keys t)" by (simp add: key_index_None)
  have fresh: "?i \<notin> fst ` set (sk_entries t)" using None by (simp add: map_of_eq_None_iff)
  define t' where "t' = snd (sk_findOrInsert vs t)"
  have run: "sk_findOrInsert vs t = (length (sk_keys t), t')"
    using None by (simp add: t'_def sk_findOrInsert_def Let_def sk_keys_def)
  have "sk_keys t' = sk_keys t @ [[?i]]"
    using None by (simp add: t'_def sk_findOrInsert_def Let_def sk_keys_def)
  moreover have "sk_inv t'"
    using None assms fresh by (auto simp: t'_def sk_findOrInsert_def Let_def sk_inv_def)
  ultimately show ?thesis using run kn new by (simp add: entry_for_def add_key_def)
next
  case (Some e)
  then have "key_index (sk_keys t) (key_of 1 vs) = Some e" using sk_lookup [OF assms] by simp
  then show ?thesis using Some assms key_index_None [of "sk_keys t" "key_of 1 vs"]
    by (auto simp: sk_findOrInsert_def Let_def entry_for_def add_key_def)
qed

interpretation sk: keyed_table sk_inv sk_keys "\<lambda>_. 1" "\<lambda>vs t. Some (sk_findOrInsert vs t)"
  "\<lambda>vs t. Some (sk_find vs t, t)" sk_clear
proof unfold_locales
  fix t vs
  assume t: "sk_inv t"
  show "\<exists>t'. Some (sk_findOrInsert vs t) = Some (entry_for (sk_keys t) (key_of 1 vs), t')
      \<and> sk_inv t' \<and> sk_keys t' = add_key (sk_keys t) (key_of 1 vs) \<and> (1::nat) = 1"
    using sk_insert [OF t, of vs] by simp
  show "\<exists>t'. Some (sk_find vs t, t) = Some (key_index (sk_keys t) (key_of 1 vs), t')
      \<and> sk_inv t' \<and> sk_keys t' = sk_keys t \<and> (1::nat) = 1"
    using t sk_lookup [OF t] by (simp add: sk_find_def)
  show "sk_inv (sk_clear t) \<and> sk_keys (sk_clear t) = [] \<and> (1::nat) = 1"
    by (simp add: sk_inv_def sk_clear_def sk_keys_def)
  have "distinct (map fst (sk_entries t))" using t by (simp add: sk_inv_def)
  then show "distinct (sk_keys t)"
    by (simp add: sk_keys_def case_prod_unfold distinct_map inj_on_def)
qed

section \<open>The factory\<close>

datatype keyed_hash_table = Single_key single_table | Open_addressing open_table

definition createKeyedHashTable :: "nat \<Rightarrow> keyed_hash_table" where
  "createKeyedHashTable arity = (if arity = 1 then Single_key sk_new else Open_addressing (oa_new arity))"

fun kt_findOrInsert :: "eval_value list \<Rightarrow> keyed_hash_table \<Rightarrow> (nat \<times> keyed_hash_table) option" where
  "kt_findOrInsert vs (Single_key t) = (let (e, t') = sk_findOrInsert vs t in Some (e, Single_key t'))"
| "kt_findOrInsert vs (Open_addressing t) =
     map_option (\<lambda>(e, t'). (e, Open_addressing t')) (oa_findOrInsert vs t)"

fun kt_find :: "eval_value list \<Rightarrow> keyed_hash_table \<Rightarrow> (nat option \<times> keyed_hash_table) option" where
  "kt_find vs (Single_key t) = Some (sk_find vs t, Single_key t)"
| "kt_find vs (Open_addressing t) = map_option (\<lambda>(e, t'). (e, Open_addressing t')) (oa_find vs t)"

fun kt_clear :: "keyed_hash_table \<Rightarrow> keyed_hash_table" where
  "kt_clear (Single_key t) = Single_key (sk_clear t)"
| "kt_clear (Open_addressing t) = Open_addressing (oa_clear t)"

fun kt_inv :: "keyed_hash_table \<Rightarrow> bool" where
  "kt_inv (Single_key t) = sk_inv t"
| "kt_inv (Open_addressing t) = oa_inv t"

fun kt_keys :: "keyed_hash_table \<Rightarrow> identity list list" where
  "kt_keys (Single_key t) = sk_keys t"
| "kt_keys (Open_addressing t) = oa_keys t"

fun kt_arity :: "keyed_hash_table \<Rightarrow> nat" where
  "kt_arity (Single_key t) = 1"
| "kt_arity (Open_addressing t) = oa_arity t"

interpretation kt: keyed_table kt_inv kt_keys kt_arity kt_findOrInsert kt_find kt_clear
proof unfold_locales
  fix t vs
  assume t: "kt_inv t"
  show "\<exists>t'. kt_findOrInsert vs t = Some (entry_for (kt_keys t) (key_of (kt_arity t) vs), t')
      \<and> kt_inv t' \<and> kt_keys t' = add_key (kt_keys t) (key_of (kt_arity t) vs) \<and> kt_arity t' = kt_arity t"
  proof (cases t)
    case (Single_key u)
    then show ?thesis using t sk_insert [of u vs] by auto
  next
    case (Open_addressing u)
    then show ?thesis using t oa.insert_law [of u vs] by auto
  qed
  show "\<exists>t'. kt_find vs t = Some (key_index (kt_keys t) (key_of (kt_arity t) vs), t')
      \<and> kt_inv t' \<and> kt_keys t' = kt_keys t \<and> kt_arity t' = kt_arity t"
  proof (cases t)
    case (Single_key u)
    then show ?thesis using t sk_lookup [of u] by (simp add: sk_find_def)
  next
    case (Open_addressing u)
    then show ?thesis using t oa.lookup_law [of u vs] by auto
  qed
  show "kt_inv (kt_clear t) \<and> kt_keys (kt_clear t) = [] \<and> kt_arity (kt_clear t) = kt_arity t"
    using t sk.reset_law oa.reset_law by (cases t) auto
  show "distinct (kt_keys t)" using t sk.keys_distinct oa.keys_distinct by (cases t) auto
qed

lemma create_inv: "kt_inv (createKeyedHashTable n)" "kt_keys (createKeyedHashTable n) = []"
  "kt_arity (createKeyedHashTable n) = n"
  using oa_new_inv by (auto simp: createKeyedHashTable_def sk_new_def sk_inv_def sk_keys_def oa_new_def)

end
