(* ===== verification/Lexer.thy ===== *)
theory Lexer
  imports Prelude
begin

text \<open>
  The SQL lexer (\<open>src/parser/lexer.ts\<close>). The program text is a list of ASCII characters. The
  lexer's position is represented by the text that remains, so \<open>this.pos\<close> is the length of the input less
  the length of the rest, and \<open>input[pos + 1]\<close> past the end (\<open>undefined\<close>) equals no character.
  Every thrown error is an \<open>Inl\<close> with its message and the line and column it names.
\<close>

section \<open>Token types\<close>

text \<open>The enum's keys and values coincide, so a token type is that string.\<close>

definition TokenType :: "string list" where
  "TokenType =
    [''IDENT'', ''NUMBER'', ''STRING'', ''COMMA'', ''DOT'', ''STAR'', ''LPAREN'', ''RPAREN'',
     ''EQ'', ''NEQ'', ''LT'', ''GT'', ''LTE'', ''GTE'', ''PLUS'', ''MINUS'', ''SLASH'',
     ''PERCENT'', ''SEMICOLON'', ''CONCAT'', ''COLON'', ''PLACEHOLDER'', ''EOF'', ''EXPLAIN'',
     ''SELECT'', ''FROM'', ''WHERE'', ''AND'', ''OR'', ''NOT'', ''AS'', ''ON'', ''JOIN'',
     ''INNER'', ''LEFT'', ''RIGHT'', ''FULL'', ''OUTER'', ''CROSS'', ''IN'', ''EXISTS'',
     ''BETWEEN'', ''LIKE'', ''IS'', ''NULL'', ''TRUE'', ''FALSE'', ''CASE'', ''WHEN'', ''THEN'',
     ''ELSE'', ''END'', ''DISTINCT'', ''ALL'', ''GROUP'', ''BY'', ''HAVING'', ''ORDER'', ''ASC'',
     ''DESC'', ''LIMIT'', ''OFFSET'', ''UNION'', ''EXCEPT'', ''INTERSECT'', ''WITH'', ''CAST'',
     ''INTERVAL'', ''EXTRACT'', ''SUBSTRING'', ''TRIM'', ''YEAR'', ''MONTH'', ''DAY'', ''DATE'',
     ''SUM'', ''AVG'', ''COUNT'', ''MIN'', ''MAX'', ''CREATE'', ''VIEW'', ''NULLS'', ''FIRST'',
     ''LAST'', ''FETCH'', ''NEXT'', ''ROWS'', ''ONLY'', ''SOME'', ''ANY'', ''LEADING'',
     ''TRAILING'', ''BOTH'', ''FOR'', ''TIMESTAMP'', ''HOUR'', ''MINUTE'', ''SECOND'', ''OVER'',
     ''PARTITION'', ''RANGE'', ''GROUPS'', ''UNBOUNDED'', ''PRECEDING'', ''FOLLOWING'',
     ''CURRENT'', ''ROW'', ''NATURAL'', ''USING'', ''TABLE'', ''DROP'', ''IF'', ''ANALYZE'']"

definition NON_KEYWORD_TOKENS :: "string set" where
  "NON_KEYWORD_TOKENS = set
    [''IDENT'', ''NUMBER'', ''STRING'', ''COMMA'', ''DOT'', ''STAR'', ''LPAREN'', ''RPAREN'',
     ''EQ'', ''NEQ'', ''LT'', ''GT'', ''LTE'', ''GTE'', ''PLUS'', ''MINUS'', ''SLASH'',
     ''PERCENT'', ''SEMICOLON'', ''CONCAT'', ''COLON'', ''PLACEHOLDER'', ''EOF'']"

definition KEYWORDS :: "string \<Rightarrow> string option" where
  "KEYWORDS key = (if key \<in> set TokenType \<and> key \<notin> NON_KEYWORD_TOKENS then Some key else None)"

record token =
  tk_type :: string
  tk_value :: string
  tk_position :: nat
  tk_quoted :: bool

text \<open>
  The errors the lexer and the parser throw, with the line and column of the message.
  \<open>TypeErr\<close> is the read of a property of \<open>undefined\<close>; \<open>OutOfFuel\<close> is not an outcome of the program
  (the parser's theorems show that it does not occur).
\<close>

datatype sql_error =
    LexError string "nat \<times> nat"
  | ParseError string "nat \<times> nat"
  | TypeErr
  | OutOfFuel

section \<open>Positions\<close>

definition line_step :: "string \<Rightarrow> nat \<Rightarrow> nat \<times> nat \<Rightarrow> nat \<times> nat" where
  "line_step input i = (\<lambda>(line, lineStart). if input ! i = CHR 0x0A then (line + 1, i + 1) else (line, lineStart))"

definition positionOf :: "string \<Rightarrow> nat \<Rightarrow> nat \<times> nat" where
  "positionOf input offset =
     (let bounded = min offset (length input);
          (line, lineStart) = fold (line_step input) [0..<bounded] (1, 0)
      in (line, bounded - lineStart + 1))"

definition lex_fail :: "string \<Rightarrow> string \<Rightarrow> nat \<Rightarrow> sql_error + 'a" where
  "lex_fail input message offset = Inl (LexError message (positionOf input offset))"

section \<open>Character classes\<close>

definition char_in :: "char \<Rightarrow> char \<Rightarrow> char \<Rightarrow> bool" where
  "char_in lo hi ch \<longleftrightarrow> (of_char lo :: nat) \<le> of_char ch \<and> (of_char ch :: nat) \<le> of_char hi"

definition isDigit :: "char \<Rightarrow> bool" where
  "isDigit ch \<longleftrightarrow> char_in (CHR ''0'') (CHR ''9'') ch"

definition isIdentStart :: "char \<Rightarrow> bool" where
  "isIdentStart ch \<longleftrightarrow> char_in (CHR ''a'') (CHR ''z'') ch \<or> char_in (CHR ''A'') (CHR ''Z'') ch \<or> ch = CHR ''_''"

definition isIdentPart :: "char \<Rightarrow> bool" where
  "isIdentPart ch \<longleftrightarrow> isIdentStart ch \<or> isDigit ch"

definition upper_char :: "char \<Rightarrow> char" where
  "upper_char ch = (if char_in (CHR ''a'') (CHR ''z'') ch then char_of (of_char ch - 32 :: nat) else ch)"

text \<open>\<open>String.prototype.toUpperCase\<close> on ASCII text.\<close>

definition toUpperCase :: "string \<Rightarrow> string" where
  "toUpperCase s = map upper_char s"

text \<open>\<open>input[pos] === ch\<close>.\<close>

definition next_is :: "char \<Rightarrow> string \<Rightarrow> bool" where
  "next_is ch rest \<longleftrightarrow> (case rest of [] \<Rightarrow> False | c # _ \<Rightarrow> c = ch)"

lemma next_is_simps [simp]: "\<not> next_is ch []" "next_is ch (c # cs) \<longleftrightarrow> c = ch"
  by (simp_all add: next_is_def)

section \<open>Whitespace and comments\<close>

text \<open>The loop of \<open>_skipBlockComment\<close>: comments nest, \<open>None\<close> is an unterminated one.\<close>

fun skip_block :: "int \<Rightarrow> string \<Rightarrow> string option" where
  "skip_block depth [] = None"
| "skip_block depth [c] = None"
| "skip_block depth (c # d # cs) =
     (if c = CHR ''/'' \<and> d = CHR ''*'' then skip_block (depth + 1) cs
      else if c = CHR ''*'' \<and> d = CHR ''/''
        then (if depth - 1 = 0 then Some cs else skip_block (depth - 1) cs)
      else skip_block depth (d # cs))"

definition skipBlockComment :: "string \<Rightarrow> string \<Rightarrow> sql_error + string" where
  "skipBlockComment input rest =
     (case skip_block 0 rest of
        Some rest' \<Rightarrow> Inr rest'
      | None \<Rightarrow> lex_fail input ''Unterminated block comment'' (length input - length rest))"

lemma skip_block_shorter: "skip_block depth rest = Some rest' \<Longrightarrow> length rest' < length rest"
  by (induction depth rest rule: skip_block.induct) (fastforce split: if_splits)+

lemma skipBlockComment_shorter: "skipBlockComment input rest = Inr rest' \<Longrightarrow> length rest' < length rest"
  by (auto simp: skipBlockComment_def lex_fail_def skip_block_shorter split: option.splits)

definition isSpace :: "char \<Rightarrow> bool" where
  "isSpace ch \<longleftrightarrow> ch = CHR '' '' \<or> ch = CHR 0x09 \<or> ch = CHR 0x0A \<or> ch = CHR 0x0D"

function skipWhitespaceAndComments :: "string \<Rightarrow> string \<Rightarrow> sql_error + string" where
  "skipWhitespaceAndComments input [] = Inr []"
| "skipWhitespaceAndComments input (ch # cs) =
     (if isSpace ch then skipWhitespaceAndComments input cs
      else if ch = CHR ''-'' \<and> next_is (CHR ''-'') cs
        then skipWhitespaceAndComments input (dropWhile (\<lambda>c. c \<noteq> CHR 0x0A) cs)
      else if ch = CHR ''/'' \<and> next_is (CHR ''*'') cs
        then (case skipBlockComment input (ch # cs) of
                Inl e \<Rightarrow> Inl e
              | Inr rest \<Rightarrow> skipWhitespaceAndComments input rest)
      else Inr (ch # cs))"
  by pat_completeness auto

termination skipWhitespaceAndComments
  by (relation "measure (\<lambda>(input, rest). length rest)")
    (auto dest: skipBlockComment_shorter simp: less_Suc_eq_le length_dropWhile_le)

section \<open>Tokens with a body\<close>

text \<open>
  The loop of \<open>_readQuotedIdent\<close> and of \<open>_readString\<close> after the opening delimiter \<open>q\<close>: a doubled
  delimiter stands for one, a single one ends the token, \<open>None\<close> is the end of the input.
\<close>

fun quoted_body :: "char \<Rightarrow> string \<Rightarrow> (string \<times> string) option" where
  "quoted_body q [] = None"
| "quoted_body q [c] = (if c = q then Some ([], []) else None)"
| "quoted_body q (c # d # cs) =
     (if c = q
      then (if d = q then map_option (apfst ((#) q)) (quoted_body q cs) else Some ([], d # cs))
      else map_option (apfst ((#) c)) (quoted_body q (d # cs)))"

definition mk_token :: "string \<Rightarrow> string \<Rightarrow> nat \<Rightarrow> token" where
  "mk_token ty v start = \<lparr>tk_type = ty, tk_value = v, tk_position = start, tk_quoted = False\<rparr>"

definition readQuotedIdent :: "string \<Rightarrow> string \<Rightarrow> sql_error + token \<times> string" where
  "readQuotedIdent input rest =
     (let start = length input - length rest
      in case quoted_body (CHR 0x22) (tl rest) of
           None \<Rightarrow> lex_fail input ''Unterminated delimited identifier'' start
         | Some (v, rest') \<Rightarrow>
             if v = [] then lex_fail input ''Empty delimited identifier'' start
             else Inr (\<lparr>tk_type = ''IDENT'', tk_value = v, tk_position = start, tk_quoted = True\<rparr>, rest'))"

definition readString :: "string \<Rightarrow> string \<Rightarrow> sql_error + token \<times> string" where
  "readString input rest =
     (let start = length input - length rest
      in case quoted_body (CHR 0x27) (tl rest) of
           None \<Rightarrow> lex_fail input ''Unterminated string'' start
         | Some (v, rest') \<Rightarrow> Inr (mk_token ''STRING'' v start, rest'))"

definition readPlaceholder :: "string \<Rightarrow> string \<Rightarrow> sql_error + token \<times> string" where
  "readPlaceholder input rest =
     (let start = length input - length rest; digits = takeWhile isDigit (tl rest)
      in if digits = [] then lex_fail input (''Expected parameter number after '' @ [CHR 0x27, CHR ''$'', CHR 0x27]) start
         else Inr (mk_token ''PLACEHOLDER'' digits start, dropWhile isDigit (tl rest)))"

text \<open>\<open>_readExponent\<close>: the characters of the exponent, none if no digit follows the marker.\<close>

definition readExponent :: "string \<Rightarrow> string" where
  "readExponent rest =
     (case rest of
        [] \<Rightarrow> []
      | marker # cs \<Rightarrow>
          if marker \<noteq> CHR ''e'' \<and> marker \<noteq> CHR ''E'' then []
          else
            let sign = (if next_is (CHR ''+'') cs \<or> next_is (CHR ''-'') cs then [hd cs] else []);
                digits = takeWhile isDigit (drop (length sign) cs)
            in if digits = [] then [] else marker # sign @ digits)"

text \<open>The characters \<open>_readNumber\<close> consumes.\<close>

definition number_text :: "string \<Rightarrow> string" where
  "number_text rest =
     (let int_part = takeWhile isDigit rest;
          rest1 = dropWhile isDigit rest;
          frac = (if next_is (CHR ''.'') rest1 then CHR ''.'' # takeWhile isDigit (tl rest1) else [])
      in int_part @ frac @ readExponent (drop (length frac) rest1))"

definition readNumber :: "string \<Rightarrow> string \<Rightarrow> sql_error + token \<times> string" where
  "readNumber input rest =
     (let text = number_text rest
      in Inr (mk_token ''NUMBER'' text (length input - length rest), drop (length text) rest))"

definition readIdentOrKeyword :: "string \<Rightarrow> string \<Rightarrow> sql_error + token \<times> string" where
  "readIdentOrKeyword input rest =
     (let start = length input - length rest;
          v = takeWhile isIdentPart rest;
          upper = toUpperCase v
      in Inr (case KEYWORDS upper of
                Some keywordType \<Rightarrow> mk_token keywordType upper start
              | None \<Rightarrow> mk_token ''IDENT'' v start,
              dropWhile isIdentPart rest))"

definition SINGLE_SYMBOLS :: "(char \<times> string) list" where
  "SINGLE_SYMBOLS =
     [(CHR '','', ''COMMA''), (CHR ''.'', ''DOT''), (CHR ''*'', ''STAR''), (CHR ''('', ''LPAREN''),
      (CHR '')'', ''RPAREN''), (CHR ''+'', ''PLUS''), (CHR ''-'', ''MINUS''), (CHR ''/'', ''SLASH''),
      (CHR ''%'', ''PERCENT''), (CHR '';'', ''SEMICOLON''), (CHR '':'', ''COLON''), (CHR ''='', ''EQ'')]"

text \<open>\<open>Unexpected character 'c'\<close>.\<close>

definition unexpected_character :: "char \<Rightarrow> string" where
  "unexpected_character ch = ''Unexpected character '' @ [CHR 0x27, ch, CHR 0x27]"

definition readSymbol :: "string \<Rightarrow> string \<Rightarrow> sql_error + token \<times> string" where
  "readSymbol input rest =
     (let start = length input - length rest; ch = hd rest; cs = tl rest
      in case map_of SINGLE_SYMBOLS ch of
           Some ty \<Rightarrow> Inr (mk_token ty [ch] start, cs)
         | None \<Rightarrow>
             if ch = CHR ''<'' then
               (if next_is (CHR ''='') cs then Inr (mk_token ''LTE'' ''<='' start, tl cs)
                else if next_is (CHR ''>'') cs then Inr (mk_token ''NEQ'' ''<>'' start, tl cs)
                else Inr (mk_token ''LT'' ''<'' start, cs))
             else if ch = CHR ''>'' then
               (if next_is (CHR ''='') cs then Inr (mk_token ''GTE'' ''>='' start, tl cs)
                else Inr (mk_token ''GT'' ''>'' start, cs))
             else if ch = CHR ''!'' then
               (if next_is (CHR ''='') cs then Inr (mk_token ''NEQ'' ''!='' start, tl cs)
                else lex_fail input (unexpected_character ch) start)
             else if ch = CHR ''|'' then
               (if next_is (CHR ''|'') cs then Inr (mk_token ''CONCAT'' ''||'' start, tl cs)
                else lex_fail input (unexpected_character ch) start)
             else lex_fail input (unexpected_character ch) start)"

section \<open>The tokenizer\<close>

definition readToken :: "string \<Rightarrow> string \<Rightarrow> sql_error + token \<times> string" where
  "readToken input rest =
     (let ch = hd rest
      in if ch = CHR 0x27 then readString input rest
         else if ch = CHR 0x22 then readQuotedIdent input rest
         else if ch = CHR ''$'' then readPlaceholder input rest
         else if isDigit ch then readNumber input rest
         else if isIdentStart ch then readIdentOrKeyword input rest
         else readSymbol input rest)"

lemma quoted_body_shorter: "quoted_body q rest = Some (v, rest') \<Longrightarrow> length rest' < length rest"
proof (induction q rest arbitrary: v rest' rule: quoted_body.induct)
  case (3 q c d cs)
  show ?case
  proof (cases "c = q \<and> d = q")
    case True
    with "3.prems" obtain v' where "quoted_body q cs = Some (v', rest')" by (auto simp: apfst_def map_prod_def)
    with "3.IH"(1) [of v' rest'] True show ?thesis by simp
  next
    case False
    show ?thesis
    proof (cases "c = q")
      case True
      with "3.prems" False show ?thesis by auto
    next
      case neq: False
      with "3.prems" obtain v' where "quoted_body q (d # cs) = Some (v', rest')"
        by (auto simp: apfst_def map_prod_def)
      with "3.IH"(2) [of v' rest'] neq show ?thesis by simp
    qed
  qed
qed (auto split: if_splits)

lemma skip_shorter: "skipWhitespaceAndComments input rest = Inr rest' \<Longrightarrow> length rest' \<le> length rest"
proof (induction input rest rule: skipWhitespaceAndComments.induct)
  case (2 input ch cs)
  consider "isSpace ch" | "\<not> isSpace ch" "ch = CHR ''-'' \<and> next_is (CHR ''-'') cs"
    | "\<not> isSpace ch" "ch = CHR ''/'' \<and> next_is (CHR ''*'') cs" | "\<not> isSpace ch"
      "\<not> (ch = CHR ''-'' \<and> next_is (CHR ''-'') cs)" "\<not> (ch = CHR ''/'' \<and> next_is (CHR ''*'') cs)"
    by blast
  then show ?case
  proof cases
    case 1
    then show ?thesis using "2.IH"(1) "2.prems" by auto
  next
    case 2
    have "length (dropWhile (\<lambda>c. c \<noteq> CHR 0x0A) cs) \<le> length cs" by (rule length_dropWhile_le)
    then show ?thesis using 2 "2.IH"(2) "2.prems" by auto
  next
    case 3
    then obtain rest where r: "skipBlockComment input (ch # cs) = Inr rest"
      "skipWhitespaceAndComments input rest = Inr rest'"
      using "2.prems" by (auto split: sum.splits)
    have "length rest' \<le> length rest" using "2.IH"(3) [OF _ _ _ r] 3 by auto
    then show ?thesis using skipBlockComment_shorter [OF r(1)] by simp
  next
    case 4
    then show ?thesis using "2.prems" by auto
  qed
qed simp

lemma skip_ready:
  "skipWhitespaceAndComments input rest = Inr (ch # cs) \<Longrightarrow>
     \<not> isSpace ch \<and> \<not> (ch = CHR ''-'' \<and> next_is (CHR ''-'') cs) \<and> \<not> (ch = CHR ''/'' \<and> next_is (CHR ''*'') cs)"
  by (induction input rest rule: skipWhitespaceAndComments.induct) (auto split: if_splits sum.splits)

lemma number_text_nonempty: "isDigit ch \<Longrightarrow> number_text (ch # cs) \<noteq> []"
  by (simp add: number_text_def Let_def)

lemma isIdentStart_part: "isIdentStart ch \<Longrightarrow> isIdentPart ch"
  by (simp add: isIdentPart_def)

lemma readToken_shorter:
  assumes "readToken input (ch # cs) = Inr (t, rest)"
  shows "length rest < length (ch # cs)"
proof -
  have tl: "length (tl cs) \<le> length cs" "length (dropWhile P cs) \<le> length cs" for P
    by (simp_all add: length_dropWhile_le)
  consider "readString input (ch # cs) = Inr (t, rest)" | "readQuotedIdent input (ch # cs) = Inr (t, rest)"
    | "readPlaceholder input (ch # cs) = Inr (t, rest)"
    | "isDigit ch" "readNumber input (ch # cs) = Inr (t, rest)"
    | "isIdentStart ch" "readIdentOrKeyword input (ch # cs) = Inr (t, rest)"
    | "readSymbol input (ch # cs) = Inr (t, rest)"
    using assms by (auto simp: readToken_def Let_def split: if_splits)
  then show ?thesis
  proof cases
    case 1
    then show ?thesis
      by (auto simp: readString_def lex_fail_def Let_def less_Suc_eq split: option.splits dest: quoted_body_shorter)
  next
    case 2
    then show ?thesis
      by (auto simp: readQuotedIdent_def lex_fail_def Let_def split: option.splits if_splits
          dest: quoted_body_shorter)
  next
    case 3
    then show ?thesis using tl(2) [of isDigit]
      by (auto simp: readPlaceholder_def lex_fail_def Let_def split: if_splits)
  next
    case 4
    then show ?thesis using number_text_nonempty [of ch cs] by (auto simp: readNumber_def Let_def)
  next
    case 5
    then show ?thesis using tl(2) [of isIdentPart]
      by (auto simp: readIdentOrKeyword_def Let_def isIdentStart_part less_Suc_eq_le)
  next
    case 6
    then show ?thesis using tl(1)
      by (auto simp: readSymbol_def lex_fail_def Let_def less_Suc_eq_le split: option.splits if_splits)
  qed
qed

function tokenize :: "string \<Rightarrow> string \<Rightarrow> sql_error + token list" where
  "tokenize input rest =
     (case skipWhitespaceAndComments input rest of
        Inl e \<Rightarrow> Inl e
      | Inr [] \<Rightarrow> Inr [mk_token ''EOF'' [] (length input)]
      | Inr (ch # cs) \<Rightarrow>
          (case readToken input (ch # cs) of
             Inl e \<Rightarrow> Inl e
           | Inr (t, rest') \<Rightarrow>
               (case tokenize input rest' of Inl e \<Rightarrow> Inl e | Inr ts \<Rightarrow> Inr (t # ts))))"
  by pat_completeness auto

termination tokenize
  by (relation "measure (\<lambda>(input, rest). length rest)") (auto dest!: skip_shorter readToken_shorter)

declare tokenize.simps [simp del]

definition lex :: "string \<Rightarrow> sql_error + token list" where
  "lex input = tokenize input input"

section \<open>Positions of the tokens\<close>

lemma readToken_position: "readToken input rest = Inr (t, rest') \<Longrightarrow> tk_position t = length input - length rest"
  by (auto simp: readToken_def readString_def readQuotedIdent_def readPlaceholder_def readNumber_def
      readIdentOrKeyword_def readSymbol_def mk_token_def lex_fail_def Let_def
      split: if_splits option.splits)

lemma KEYWORDS_Some: "KEYWORDS k = Some ty \<longleftrightarrow> ty = k \<and> k \<in> set TokenType \<and> k \<notin> NON_KEYWORD_TOKENS"
  by (auto simp: KEYWORDS_def)

lemma readToken_not_eof: "readToken input rest = Inr (t, rest') \<Longrightarrow> tk_type t \<noteq> ''EOF''"
  by (auto simp: readToken_def readString_def readQuotedIdent_def readPlaceholder_def readNumber_def
      readIdentOrKeyword_def readSymbol_def SINGLE_SYMBOLS_def mk_token_def lex_fail_def Let_def
      KEYWORDS_Some NON_KEYWORD_TOKENS_def
      split: if_splits option.splits)

definition well_positioned :: "string \<Rightarrow> nat \<Rightarrow> token list \<Rightarrow> bool" where
  "well_positioned input from ts \<longleftrightarrow>
     (\<exists>body. ts = body @ [mk_token ''EOF'' [] (length input)]
        \<and> sorted_wrt (<) (map tk_position body)
        \<and> (\<forall>t \<in> set body. from \<le> tk_position t \<and> tk_position t < length input \<and> tk_type t \<noteq> ''EOF''))"

lemma well_positioned_Cons:
  assumes "from \<le> tk_position t" "tk_position t < from'" "from' \<le> length input" "tk_type t \<noteq> ''EOF''"
    and "well_positioned input from' ts"
  shows "well_positioned input from (t # ts)"
proof -
  obtain body where b: "ts = body @ [mk_token ''EOF'' [] (length input)]"
    "sorted_wrt (<) (map tk_position body)"
    "\<forall>t \<in> set body. from' \<le> tk_position t \<and> tk_position t < length input \<and> tk_type t \<noteq> ''EOF''"
    using assms(5) unfolding well_positioned_def by blast
  show ?thesis unfolding well_positioned_def
    by (rule exI [of _ "t # body"]) (use b assms(1-4) in fastforce)
qed

lemma tokenize_positions:
  assumes "tokenize input rest = Inr ts" "length rest \<le> length input"
  shows "well_positioned input (length input - length rest) ts"
  using assms
proof (induction input rest arbitrary: ts rule: tokenize.induct)
  case (1 input rest)
  obtain rest1 where skip: "skipWhitespaceAndComments input rest = Inr rest1"
    using "1.prems"(1) by (subst (asm) tokenize.simps) (auto split: sum.splits)
  have len1: "length rest1 \<le> length rest" using skip_shorter [OF skip] .
  show ?case
  proof (cases rest1)
    case Nil
    then have "ts = [mk_token ''EOF'' [] (length input)]"
      using "1.prems"(1) skip by (subst (asm) tokenize.simps) simp
    then show ?thesis by (simp add: well_positioned_def)
  next
    case (Cons ch cs)
    obtain t rest2 ts' where r: "readToken input (ch # cs) = Inr (t, rest2)"
      "tokenize input rest2 = Inr ts'" "ts = t # ts'"
      using "1.prems"(1) skip Cons by (subst (asm) tokenize.simps) (auto split: sum.splits)
    have len2: "length rest2 < length (ch # cs)" using readToken_shorter [OF r(1)] .
    have "well_positioned input (length input - length rest2) ts'"
      using "1.IH" [OF skip Cons r(1) refl r(2)] len1 len2 Cons "1.prems"(2) by simp
    then show ?thesis unfolding r(3)
      by (rule well_positioned_Cons [rotated 4])
        (use readToken_position [OF r(1)] readToken_not_eof [OF r(1)] len1 len2 Cons "1.prems"(2) in auto)
  qed
qed

lemma lex_positions: "lex input = Inr ts \<Longrightarrow> well_positioned input 0 ts"
  using tokenize_positions [of input input ts] by (simp add: lex_def)

section \<open>Printing tokens\<close>

definition escape :: "char \<Rightarrow> string \<Rightarrow> string" where
  "escape q s = concat (map (\<lambda>c. if c = q then [q, q] else [c]) s)"

definition quote_with :: "char \<Rightarrow> string \<Rightarrow> string" where
  "quote_with q s = q # escape q s @ [q]"

definition TWO_SYMBOLS :: "(string \<times> string) list" where
  "TWO_SYMBOLS = [(''<='', ''LTE''), (''<>'', ''NEQ''), (''<'', ''LT''), (''>='', ''GTE''), (''>'', ''GT''),
     (''!='', ''NEQ''), (''||'', ''CONCAT'')]"

definition token_text :: "token \<Rightarrow> string" where
  "token_text t =
     (if tk_quoted t then quote_with (CHR 0x22) (tk_value t)
      else if tk_type t = ''STRING'' then quote_with (CHR 0x27) (tk_value t)
      else if tk_type t = ''PLACEHOLDER'' then CHR ''$'' # tk_value t
      else tk_value t)"

definition spellable :: "token \<Rightarrow> bool" where
  "spellable t \<longleftrightarrow>
     (if tk_quoted t then tk_type t = ''IDENT'' \<and> tk_value t \<noteq> []
      else if tk_type t = ''STRING'' then True
      else if tk_type t = ''PLACEHOLDER'' then tk_value t \<noteq> [] \<and> list_all isDigit (tk_value t)
      else if tk_type t = ''NUMBER''
        then tk_value t \<noteq> [] \<and> isDigit (hd (tk_value t)) \<and> number_text (tk_value t) = tk_value t
      else if tk_type t = ''IDENT''
        then tk_value t \<noteq> [] \<and> isIdentStart (hd (tk_value t)) \<and> list_all isIdentPart (tk_value t)
          \<and> KEYWORDS (toUpperCase (tk_value t)) = None
      else KEYWORDS (tk_type t) = Some (tk_value t)
        \<or> (tk_value t, tk_type t) \<in> set TWO_SYMBOLS
        \<or> (\<exists>c. tk_value t = [c] \<and> (c, tk_type t) \<in> set SINGLE_SYMBOLS))"

definition print_tokens :: "token list \<Rightarrow> string" where
  "print_tokens ts = concat (map (\<lambda>t. token_text t @ '' '') ts)"

definition same_token :: "token \<Rightarrow> token \<Rightarrow> bool" where
  "same_token t u \<longleftrightarrow> tk_type t = tk_type u \<and> tk_value t = tk_value u \<and> tk_quoted t = tk_quoted u"

lemma quoted_body_escape:
  "\<not> next_is q rest \<Longrightarrow> quoted_body q (escape q s @ q # rest) = Some (s, rest)"
proof (induction s)
  case Nil
  then show ?case by (cases rest) (auto simp: escape_def)
next
  case (Cons c s)
  have "\<exists>d cs. escape q s @ q # rest = d # cs" by (cases "escape q s") auto
  then obtain d cs where d: "escape q s @ q # rest = d # cs" by blast
  show ?case
  proof (cases "c = q")
    case True
    have "quoted_body q (escape q (c # s) @ q # rest) = map_option (apfst ((#) q)) (quoted_body q (d # cs))"
      unfolding d [symmetric] using True by (simp add: escape_def)
    then show ?thesis using Cons True by (simp add: d [symmetric])
  next
    case False
    then have "quoted_body q (escape q (c # s) @ q # rest) = quoted_body q (c # d # cs)"
      using d by (simp add: escape_def)
    also have "\<dots> = map_option (apfst ((#) c)) (quoted_body q (escape q s @ q # rest))"
      using False by (simp add: d)
    finally show ?thesis using Cons by simp
  qed
qed

lemma isDigit_space [simp]: "\<not> isDigit (CHR '' '')"
  by code_simp

lemma isIdentPart_space [simp]: "\<not> isIdentPart (CHR '' '')"
  by code_simp

lemma takeWhile_sep: "\<not> P s \<Longrightarrow> takeWhile P (v @ s # rest) = takeWhile P v"
  by (induction v) auto

lemma dropWhile_sep: "\<not> P s \<Longrightarrow> dropWhile P (v @ s # rest) = dropWhile P v @ s # rest"
  by (induction v) auto

lemma next_is_sep: "c \<noteq> s \<Longrightarrow> next_is c (v @ s # rest) = next_is c v"
  by (cases v) auto

lemma readExponent_sep: "readExponent (v @ CHR '' '' # rest) = readExponent v"
proof (cases v)
  case (Cons m cs)
  have nx: "next_is (CHR ''+'') (cs @ CHR '' '' # rest) = next_is (CHR ''+'') cs"
    "next_is (CHR ''-'') (cs @ CHR '' '' # rest) = next_is (CHR ''-'') cs"
    by (simp_all add: next_is_sep)
  show ?thesis
  proof (cases "next_is (CHR ''+'') cs \<or> next_is (CHR ''-'') cs")
    case True
    then obtain c ds where "cs = c # ds" by (cases cs) auto
    then show ?thesis using Cons True nx by (auto simp: readExponent_def Let_def takeWhile_sep)
  next
    case False
    then show ?thesis using Cons nx by (auto simp: readExponent_def Let_def takeWhile_sep)
  qed
qed (simp add: readExponent_def)

lemma number_text_sep: "number_text (v @ CHR '' '' # rest) = number_text v"
proof -
  let ?r = "dropWhile isDigit v"
  show ?thesis
  proof (cases "next_is (CHR ''.'') ?r")
    case True
    then obtain ds where ds: "?r = CHR ''.'' # ds" by (cases ?r) auto
    have "drop (length (takeWhile isDigit ds)) (ds @ CHR '' '' # rest)
        = drop (length (takeWhile isDigit ds)) ds @ CHR '' '' # rest"
      using length_takeWhile_le [of isDigit ds] by simp
    then show ?thesis
      using ds by (simp add: number_text_def Let_def takeWhile_sep dropWhile_sep readExponent_sep)
  next
    case False
    then show ?thesis
      by (simp add: number_text_def Let_def takeWhile_sep dropWhile_sep readExponent_sep next_is_sep)
  qed
qed

lemma span_all: "list_all P v \<Longrightarrow> \<not> P s \<Longrightarrow> takeWhile P (v @ s # rest) = v \<and> dropWhile P (v @ s # rest) = s # rest"
  by (induction v) auto

definition plain_char :: "char \<Rightarrow> bool" where
  "plain_char ch \<longleftrightarrow> char_in (CHR ''A'') (CHR ''Z'') ch \<or> ch = CHR ''_''"

lemma plain_word: "k \<noteq> [] \<Longrightarrow> list_all plain_char k \<Longrightarrow> isIdentStart (hd k) \<and> list_all isIdentPart k \<and> toUpperCase k = k"
proof -
  assume k: "k \<noteq> []" "list_all plain_char k"
  have "plain_char ch \<Longrightarrow> isIdentStart ch \<and> upper_char ch = ch" for ch
    by (auto simp: plain_char_def isIdentStart_def upper_char_def char_in_def)
  then show ?thesis using k by (cases k) (auto simp: list_all_iff isIdentPart_def toUpperCase_def map_idI)
qed

lemma keywords_spelled:
  "\<forall>k \<in> set TokenType. k \<notin> NON_KEYWORD_TOKENS \<longrightarrow>
     k \<noteq> [] \<and> isIdentStart (hd k) \<and> list_all isIdentPart k \<and> toUpperCase k = k"
proof -
  have "list_all (\<lambda>k. k \<noteq> [] \<and> list_all plain_char k) TokenType"
    by (simp add: TokenType_def plain_char_def char_in_def)
  then show ?thesis using plain_word by (auto simp: list_all_iff)
qed

lemma keyword_types_plain:
  "KEYWORDS ty = Some v \<Longrightarrow>
     v = ty \<and> v \<noteq> [] \<and> isIdentStart (hd v) \<and> list_all isIdentPart v \<and> toUpperCase v = v \<and> KEYWORDS v = Some v"
  using keywords_spelled by (auto simp: KEYWORDS_Some)

lemma class_ranges:
  "isDigit c \<longleftrightarrow> of_char c \<in> {48..57::nat}"
  "isIdentStart c \<longleftrightarrow> of_char c \<in> {97..122::nat} \<or> of_char c \<in> {65..90::nat} \<or> c = CHR ''_''"
  by (auto simp: isDigit_def isIdentStart_def char_in_def)

lemma digit_head:
  assumes "isDigit c"
  shows "c \<noteq> CHR 0x27" "c \<noteq> CHR 0x22" "c \<noteq> CHR ''$''" "\<not> isSpace c" "c \<noteq> CHR ''-''" "c \<noteq> CHR ''/''"
  using assms by (auto simp: class_ranges isSpace_def)

lemma ident_head:
  assumes "isIdentStart c"
  shows "c \<noteq> CHR 0x27" "c \<noteq> CHR 0x22" "c \<noteq> CHR ''$''" "\<not> isDigit c" "\<not> isSpace c" "c \<noteq> CHR ''-''" "c \<noteq> CHR ''/''"
  using assms by (auto simp: class_ranges isSpace_def)

lemma skip_token:
  "\<not> isSpace ch \<Longrightarrow> \<not> (ch = CHR ''-'' \<and> next_is (CHR ''-'') cs) \<Longrightarrow> \<not> (ch = CHR ''/'' \<and> next_is (CHR ''*'') cs)
     \<Longrightarrow> skipWhitespaceAndComments input (ch # cs) = Inr (ch # cs)"
  by auto

lemma skip_space: "skipWhitespaceAndComments input (CHR '' '' # cs) = skipWhitespaceAndComments input cs"
  by (simp add: isSpace_def)

text \<open>Reading back one printed token, after which the separating space is left.\<close>

definition reads_back :: "token \<Rightarrow> bool" where
  "reads_back t \<longleftrightarrow> (\<forall>input rest. \<exists>ch cs u.
     token_text t @ CHR '' '' # rest = ch # cs
     \<and> skipWhitespaceAndComments input (ch # cs) = Inr (ch # cs)
     \<and> readToken input (ch # cs) = Inr (u, CHR '' '' # rest) \<and> same_token u t)"

lemma reads_back_quoted:
  assumes "tk_quoted t" "tk_type t = ''IDENT''" "tk_value t \<noteq> []"
  shows "reads_back t"
  unfolding reads_back_def
  using assms
  by (auto simp: token_text_def quote_with_def readToken_def readQuotedIdent_def quoted_body_escape
      same_token_def isSpace_def)

lemma reads_back_string:
  assumes "\<not> tk_quoted t" "tk_type t = ''STRING''"
  shows "reads_back t"
  unfolding reads_back_def
  using assms
  by (auto simp: token_text_def quote_with_def readToken_def readString_def quoted_body_escape
      same_token_def isSpace_def mk_token_def)

lemma reads_back_placeholder:
  assumes "\<not> tk_quoted t" "tk_type t = ''PLACEHOLDER''" "tk_value t \<noteq> []" "list_all isDigit (tk_value t)"
  shows "reads_back t"
  unfolding reads_back_def
  using assms span_all [OF assms(4), of "CHR '' ''"]
  by (auto simp: token_text_def readToken_def readPlaceholder_def Let_def
      same_token_def isSpace_def mk_token_def)

lemma reads_back_number:
  assumes "\<not> tk_quoted t" "tk_type t = ''NUMBER''" "tk_value t \<noteq> []" "isDigit (hd (tk_value t))"
    and "number_text (tk_value t) = tk_value t"
  shows "reads_back t"
proof -
  obtain c v where v: "tk_value t = c # v" using assms(3) by (cases "tk_value t") auto
  have c: "isDigit c" using assms(4) v by simp
  have "number_text ((c # v) @ CHR '' '' # rest) = c # v" for rest
    using number_text_sep [of "c # v" rest] assms(5) v by simp
  then show ?thesis
    unfolding reads_back_def using assms(1,2) v c digit_head [OF c]
    by (auto simp: token_text_def readToken_def readNumber_def Let_def same_token_def mk_token_def
        skip_token)
qed

lemma reads_back_word:
  assumes "\<not> tk_quoted t" "tk_type t \<notin> {''STRING'', ''PLACEHOLDER''}" "tk_value t \<noteq> []"
    and "isIdentStart (hd (tk_value t))" "list_all isIdentPart (tk_value t)"
    and "KEYWORDS (toUpperCase (tk_value t)) = None \<and> tk_type t = ''IDENT''
      \<or> KEYWORDS (toUpperCase (tk_value t)) = Some (tk_type t) \<and> toUpperCase (tk_value t) = tk_value t"
  shows "reads_back t"
proof -
  obtain c v where v: "tk_value t = c # v" using assms(3) by (cases "tk_value t") auto
  have c: "isIdentStart c" using assms(4) v by simp
  have sp: "takeWhile isIdentPart (c # v @ CHR '' '' # rest) = c # v"
    "dropWhile isIdentPart (c # v @ CHR '' '' # rest) = CHR '' '' # rest" for rest
    using span_all [of isIdentPart "c # v" "CHR '' ''" rest] assms(5) v by simp_all
  show ?thesis
    unfolding reads_back_def using assms(1,2,6) v ident_head [OF c] c sp
    by (auto simp: token_text_def readToken_def readIdentOrKeyword_def Let_def same_token_def
        mk_token_def skip_token simp del: takeWhile.simps dropWhile.simps)
qed

text \<open>The characters that start a symbol, and how each symbol is read.\<close>

definition symbol_head :: "char \<Rightarrow> bool" where
  "symbol_head c \<longleftrightarrow> c \<noteq> CHR 0x27 \<and> c \<noteq> CHR 0x22 \<and> c \<noteq> CHR ''$'' \<and> \<not> isDigit c \<and> \<not> isIdentStart c \<and> \<not> isSpace c"

lemma symbol_heads:
  "\<forall>(v, ty) \<in> set TWO_SYMBOLS. symbol_head (hd v) \<and> v \<noteq> [] \<and> ty \<noteq> ''STRING'' \<and> ty \<noteq> ''PLACEHOLDER''
     \<and> hd v \<noteq> CHR ''-'' \<and> hd v \<noteq> CHR ''/''"
  "\<forall>(c, ty) \<in> set SINGLE_SYMBOLS. symbol_head c \<and> ty \<noteq> ''STRING'' \<and> ty \<noteq> ''PLACEHOLDER''"
  by code_simp+

lemma two_symbol_read:
  "(v, ty) \<in> set TWO_SYMBOLS \<Longrightarrow>
     readSymbol input (v @ CHR '' '' # rest)
       = Inr (mk_token ty v (length input - length (v @ CHR '' '' # rest)), CHR '' '' # rest)"
  by (simp add: TWO_SYMBOLS_def, elim disjE; simp add: readSymbol_def SINGLE_SYMBOLS_def Let_def)

lemma single_symbol_read:
  "(c, ty) \<in> set SINGLE_SYMBOLS \<Longrightarrow>
     readSymbol input (c # cs) = Inr (mk_token ty [c] (length input - length (c # cs)), cs)"
  by (simp add: SINGLE_SYMBOLS_def, elim disjE; simp add: readSymbol_def SINGLE_SYMBOLS_def Let_def)

lemma readToken_symbol: "symbol_head c \<Longrightarrow> readToken input (c # cs) = readSymbol input (c # cs)"
  by (simp add: readToken_def symbol_head_def)

lemma reads_back_two:
  assumes "\<not> tk_quoted t" "(tk_value t, tk_type t) \<in> set TWO_SYMBOLS"
  shows "reads_back t"
proof -
  obtain c cs where v: "tk_value t = c # cs" using symbol_heads(1) assms(2) by (cases "tk_value t") auto
  have h: "symbol_head c" "c \<noteq> CHR ''-''" "c \<noteq> CHR ''/''" "tk_type t \<notin> {''STRING'', ''PLACEHOLDER''}"
    using symbol_heads(1) assms(2) v by fastforce+
  show ?thesis
    unfolding reads_back_def
  proof (intro allI exI conjI)
    fix input rest
    show "token_text t @ CHR '' '' # rest = c # (cs @ CHR '' '' # rest)"
      using h(4) assms(1) v by (simp add: token_text_def)
    show "skipWhitespaceAndComments input (c # (cs @ CHR '' '' # rest)) = Inr (c # (cs @ CHR '' '' # rest))"
      by (rule skip_token) (use h in \<open>simp_all add: symbol_head_def\<close>)
    show "readToken input (c # (cs @ CHR '' '' # rest))
        = Inr (mk_token (tk_type t) (tk_value t) (length input - length (tk_value t @ CHR '' '' # rest)),
            CHR '' '' # rest)"
      using readToken_symbol [OF h(1)] two_symbol_read [OF assms(2), of input rest] v by simp
    show "same_token (mk_token (tk_type t) (tk_value t)
        (length input - length (tk_value t @ CHR '' '' # rest))) t"
      using assms(1) by (simp add: same_token_def mk_token_def)
  qed
qed

lemma reads_back_single:
  assumes "\<not> tk_quoted t" "tk_value t = [c]" "(c, tk_type t) \<in> set SINGLE_SYMBOLS"
  shows "reads_back t"
proof -
  have h: "symbol_head c" "tk_type t \<notin> {''STRING'', ''PLACEHOLDER''}"
    using symbol_heads(2) assms(3) by fastforce+
  show ?thesis
    unfolding reads_back_def
  proof (intro allI exI conjI)
    fix input rest
    show "token_text t @ CHR '' '' # rest = c # CHR '' '' # rest"
      using h(2) assms(1,2) by (simp add: token_text_def)
    show "skipWhitespaceAndComments input (c # CHR '' '' # rest) = Inr (c # CHR '' '' # rest)"
      by (rule skip_token) (use h in \<open>simp_all add: symbol_head_def\<close>)
    show "readToken input (c # CHR '' '' # rest)
        = Inr (mk_token (tk_type t) [c] (length input - length (c # CHR '' '' # rest)), CHR '' '' # rest)"
      using readToken_symbol [OF h(1)] single_symbol_read [OF assms(3)] by simp
    show "same_token (mk_token (tk_type t) [c] (length input - length (c # CHR '' '' # rest))) t"
      using assms(1,2) by (simp add: same_token_def mk_token_def)
  qed
qed

lemma spellable_reads_back: "spellable t \<Longrightarrow> reads_back t"
proof -
  assume sp: "spellable t"
  have kw: "reads_back t" if k: "KEYWORDS (tk_type t) = Some (tk_value t)" and q: "\<not> tk_quoted t"
  proof (rule reads_back_word [OF q])
    show "tk_type t \<notin> {''STRING'', ''PLACEHOLDER''}"
      using k by (auto simp: KEYWORDS_Some NON_KEYWORD_TOKENS_def)
    have eq: "tk_type t = tk_value t" using keyword_types_plain [OF k] by simp
    show "KEYWORDS (toUpperCase (tk_value t)) = None \<and> tk_type t = ''IDENT''
      \<or> KEYWORDS (toUpperCase (tk_value t)) = Some (tk_type t) \<and> toUpperCase (tk_value t) = tk_value t"
      using keyword_types_plain [OF k] unfolding eq by simp
  qed (use keyword_types_plain [OF k] in blast)+
  show ?thesis
    using sp unfolding spellable_def
    by (auto split: if_splits intro: reads_back_quoted reads_back_string reads_back_placeholder
        reads_back_number reads_back_word kw reads_back_two reads_back_single)
qed

lemma tokenize_space: "tokenize input (CHR '' '' # rest) = tokenize input rest"
  by (subst (1 2) tokenize.simps) (simp add: skip_space del: skipWhitespaceAndComments.simps)

lemma tokenize_print:
  assumes "list_all spellable ts"
  shows "\<exists>us. tokenize input (print_tokens ts) = Inr (us @ [mk_token ''EOF'' [] (length input)])
    \<and> list_all2 same_token us ts"
  using assms
proof (induction ts)
  case Nil
  have "tokenize input (print_tokens []) = Inr [mk_token ''EOF'' [] (length input)]"
    by (subst tokenize.simps) (simp add: print_tokens_def)
  then show ?case by (intro exI [of _ "[]"]) simp
next
  case (Cons t ts)
  then obtain us where us: "tokenize input (print_tokens ts) = Inr (us @ [mk_token ''EOF'' [] (length input)])"
    "list_all2 same_token us ts" by auto
  have "reads_back t" using Cons.prems by (simp add: spellable_reads_back)
  then obtain ch cs u where r: "token_text t @ CHR '' '' # print_tokens ts = ch # cs"
      "skipWhitespaceAndComments input (ch # cs) = Inr (ch # cs)"
      "readToken input (ch # cs) = Inr (u, CHR '' '' # print_tokens ts)" "same_token u t"
    unfolding reads_back_def by blast
  have "print_tokens (t # ts) = ch # cs" using r(1) by (simp add: print_tokens_def)
  then have "tokenize input (print_tokens (t # ts)) = Inr (u # us @ [mk_token ''EOF'' [] (length input)])"
    using r(2,3) us(1)
    by (subst tokenize.simps) (simp add: tokenize_space del: skipWhitespaceAndComments.simps)
  then show ?case using us(2) r(4) by (intro exI [of _ "u # us"]) simp
qed

section \<open>Line and column\<close>

lemma line_fold:
  "n \<le> length input \<Longrightarrow>
     fold (line_step input) [0..<n] (1, 0)
       = (Suc (count_list (take n input) (CHR 0x0A)),
          n - length (takeWhile (\<lambda>c. c \<noteq> CHR 0x0A) (rev (take n input))))"
proof (induction n)
  case (Suc n)
  have "length (takeWhile (\<lambda>c. c \<noteq> CHR 0x0A) (rev (take n input))) \<le> n"
    using length_takeWhile_le [of "\<lambda>c. c \<noteq> CHR 0x0A" "rev (take n input)"] by simp
  then show ?case
    using Suc by (simp add: line_step_def take_Suc_conv_app_nth Suc_diff_le)
qed simp

lemma positionOf_spec:
  "positionOf input offset =
     (Suc (count_list (take offset input) (CHR 0x0A)),
      Suc (length (takeWhile (\<lambda>c. c \<noteq> CHR 0x0A) (rev (take offset input)))))"
proof -
  let ?n = "min offset (length input)"
  have t: "take ?n input = take offset input" by (simp add: min_def)
  have "length (takeWhile (\<lambda>c. c \<noteq> CHR 0x0A) (rev (take offset input))) \<le> ?n"
    using length_takeWhile_le [of "\<lambda>c. c \<noteq> CHR 0x0A" "rev (take offset input)"] by simp
  then show ?thesis
    using line_fold [of ?n input] unfolding t by (simp add: positionOf_def)
qed

end
