(* ===== verification/Ast.thy ===== *)
theory Ast
  imports Lexer JsValue
begin

text \<open>
  The syntax trees of \<open>src/parser/ast.ts\<close>. A node interface is a constructor with its fields in the
  order of the constructor function; \<open>T | null\<close> is an option. Nodes that hold other nodes without
  being expressions, queries or table references themselves are datatypes over those, so that
  the three recursive kinds (\<open>Expr\<close>, \<open>QueryStmt\<close>, \<open>FromItem\<close>) are one mutual datatype.
\<close>

section \<open>Nodes around expressions\<close>

datatype literal_value = LStr string | LNum jsnum | LBool bool | LNull

datatype type_name = TypeName (type_name_name: string) (type_name_params: "jsnum list")

datatype frame_mode = ROWS | RANGE | GROUPS

datatype frame_bound =
    UNBOUNDED_PRECEDING
  | PRECEDING nat
  | CURRENT_ROW
  | FOLLOWING nat
  | UNBOUNDED_FOLLOWING

datatype window_frame = WindowFrame (frame_mode: frame_mode) (frame_start: frame_bound) (frame_end: frame_bound)

datatype 'e order_key = OrderKey (key_expr: 'e) (key_direction: string) (key_nullOrder: "string option")

datatype 'e select_item = SelectItem (item_expr: 'e) (item_alias: "string option")

datatype 'e when_clause = WhenClause (when_condition: 'e) (when_result: 'e)

datatype 'e window_spec =
  WindowSpec (partitionBy: "'e list") (window_orderBy: "'e order_key list") (window_frame_of: "window_frame option")

datatype 'q cte = CTE (cte_name: string) (cte_query: 'q) (cte_columnAliases: "string list option")

text \<open>The right side of a comparison: \<open>Expr | QuantifiedSubqueryNode\<close>.\<close>

datatype ('e, 'q) operand = Plain 'e | QuantifiedSubquery string 'q

text \<open>The list of \<open>IN\<close>: \<open>Expr[] | SubqueryExprNode\<close>.\<close>

datatype ('e, 'q) in_list = InList "'e list" | InSubquery 'q

text \<open>\<open>QueryTail\<close>: ORDER BY, LIMIT and OFFSET.\<close>

datatype 'e query_tail =
  QueryTail (tail_orderBy: "'e order_key list option") (tail_limit: "'e option") (tail_offset: "'e option")

text \<open>How a join names its columns: \<open>natural\<close>, \<open>usingColumns\<close> and \<open>condition\<close>.\<close>

datatype 'e join_on = JoinOn (join_condition: "'e option") (join_natural: bool) (join_using: "string list option")

section \<open>Expressions, queries and table references\<close>

datatype expr =
    ColumnRef string "string option"
  | Literal literal_value "data_type option"
  | Parameter jsnum
  | BinaryExpr string expr "(expr, query_stmt) operand"
  | UnaryExpr string expr
  | BetweenExpr expr expr expr bool
  | InExpr expr "(expr, query_stmt) in_list" bool
  | LikeExpr expr expr bool
  | IsNullExpr expr bool
  | ExistsExpr query_stmt bool
  | SubqueryExpr query_stmt
  | FunctionCall string "expr list"
  | AggregateCall string "expr list" bool
  | CaseExpr "expr option" "expr when_clause list" "expr option"
  | CastExpr expr type_name
  | ExtractExpr string expr
  | SubstringExpr expr expr "expr option"
  | IntervalExpr string string
  | WindowCall string "expr list" "expr window_spec"
  | AllColumns "string option"
and query_stmt =
    SelectStmt "query_stmt cte list option" bool "expr select_item list" "from_item option"
      "expr option" "expr list option" "expr option" "expr query_tail"
  | SetOp string query_stmt query_stmt bool "expr query_tail"
and from_item =
    TableRef string string
  | JoinRef from_item from_item string "expr join_on"
  | SubqueryRef query_stmt "string option"

section \<open>Statements\<close>

datatype column_def = ColumnDef (def_name: string) (def_typeName: type_name)

datatype statement =
    QueryStmt query_stmt
  | ExplainStmt query_stmt
  | ExplainAnalyzeStmt query_stmt
  | CreateTableStmt string "column_def list option" bool "query_stmt option"
  | DropTableStmt string bool

end
