(* ===== verification/Parser.thy ===== *)
theory Parser
  imports Ast
begin

text \<open>
  The SQL parser (\<open>src/parser/parser.ts\<close>): recursive descent over the lexer's tokens. The parser's
  fields are a state record, a method is a function from the state to an error or a result with
  the new state, \<open>bindP\<close> is sequencing. Reading \<open>this.tokens[this.pos]\<close> past the end yields
  \<open>undefined\<close>, and the property access on it that follows throws: \<open>TypeErr\<close>.

  The methods are mutually recursive. A recursive call goes through the record \<open>parsers\<close>, which
  \<open>parsers_at n\<close> builds from \<open>n\<close> levels; \<open>ParserTotal\<close> shows that one level per token is enough.
\<close>

section \<open>The state\<close>

record parser =
  source :: string
  tokens :: "token list"
  pos :: nat

type_synonym 'a pm = "parser \<Rightarrow> sql_error + 'a \<times> parser"

definition retP :: "'a \<Rightarrow> 'a pm" where
  "retP x = (\<lambda>s. Inr (x, s))"

definition bindP :: "'a pm \<Rightarrow> ('a \<Rightarrow> 'b pm) \<Rightarrow> 'b pm" where
  "bindP m f = (\<lambda>s. case m s of Inl e \<Rightarrow> Inl e | Inr (x, s') \<Rightarrow> f x s')"

definition outOfFuel :: "'a pm" where
  "outOfFuel = (\<lambda>s. Inl OutOfFuel)"

definition peek :: "token pm" where
  "peek = (\<lambda>s. if pos s < length (tokens s) then Inr (tokens s ! pos s, s) else Inl TypeErr)"

definition aheadIs :: "nat \<Rightarrow> string \<Rightarrow> bool pm" where
  "aheadIs offset ty = (\<lambda>s.
     Inr (pos s + offset < length (tokens s) \<and> tk_type (tokens s ! (pos s + offset)) = ty, s))"

text \<open>Every call of \<open>advance\<close> follows a successful \<open>peek\<close> at the same position.\<close>

definition advance :: "token pm" where
  "advance = (\<lambda>s. if pos s < length (tokens s) then Inr (tokens s ! pos s, s\<lparr>pos := pos s + 1\<rparr>) else Inl TypeErr)"

definition isAt :: "string \<Rightarrow> bool pm" where
  "isAt ty = bindP peek (\<lambda>t. retP (tk_type t = ty))"

definition isAtAny :: "string list \<Rightarrow> bool pm" where
  "isAtAny tys = bindP peek (\<lambda>t. retP (tk_type t \<in> set tys))"

definition tryConsume :: "string \<Rightarrow> bool pm" where
  "tryConsume ty = bindP (isAt ty) (\<lambda>here. if here then bindP advance (\<lambda>_. retP True) else retP False)"

definition parse_error :: "string \<Rightarrow> 'a pm" where
  "parse_error message = bindP peek (\<lambda>t s. Inl (ParseError message (positionOf (source s) (tk_position t))))"

definition expect :: "string \<Rightarrow> token pm" where
  "expect ty = bindP peek (\<lambda>t.
     if tk_type t \<noteq> ty
     then parse_error (''Expected '' @ ty @ '', got '' @ tk_type t @ '' ('' @ tk_value t @ '')'')
     else advance)"

definition NON_RESERVED :: "string list" where
  "NON_RESERVED =
     [''YEAR'', ''MONTH'', ''DAY'', ''DATE'', ''FIRST'', ''LAST'', ''NULLS'', ''VIEW'', ''ROWS'', ''ONLY'', ''NEXT'',
      ''FETCH'', ''SOME'', ''ANY'', ''LEADING'', ''TRAILING'', ''BOTH'', ''SUM'', ''AVG'', ''COUNT'', ''MIN'', ''MAX'',
      ''SUBSTRING'', ''EXTRACT'', ''TRIM'', ''OFFSET'', ''FOR'', ''ASC'', ''DESC'', ''LEFT'', ''RIGHT'', ''FULL'',
      ''INNER'', ''OUTER'', ''CROSS'', ''JOIN'', ''CREATE'', ''INTERVAL'', ''UNION'', ''ALL'', ''TIMESTAMP'', ''HOUR'',
      ''MINUTE'', ''SECOND'', ''OVER'', ''PARTITION'', ''RANGE'', ''UNBOUNDED'', ''PRECEDING'', ''FOLLOWING'',
      ''CURRENT'', ''ROW'', ''GROUPS'', ''NATURAL'', ''USING'', ''TABLE'', ''DROP'', ''IF'', ''ANALYZE'']"

definition isNonReservedKeyword :: "string \<Rightarrow> bool" where
  "isNonReservedKeyword ty \<longleftrightarrow> ty \<in> set NON_RESERVED"

definition isAggregateKeyword :: "string \<Rightarrow> bool" where
  "isAggregateKeyword ty \<longleftrightarrow> ty \<in> set [''SUM'', ''AVG'', ''COUNT'', ''MIN'', ''MAX'']"

definition JOIN_KEYWORDS :: "string list" where
  "JOIN_KEYWORDS = [''JOIN'', ''INNER'', ''LEFT'', ''RIGHT'', ''FULL'', ''CROSS'', ''NATURAL'']"

definition CLAUSE_KEYWORDS :: "string list" where
  "CLAUSE_KEYWORDS = [''WHERE'', ''GROUP'', ''HAVING'', ''ORDER'', ''LIMIT'', ''UNION'', ''EXCEPT'', ''INTERSECT'',
     ''ON'', ''FETCH'']"

definition isJoinKeyword :: "bool pm" where
  "isJoinKeyword = isAtAny JOIN_KEYWORDS"

definition isClauseKeyword :: "bool pm" where
  "isClauseKeyword = isAtAny CLAUSE_KEYWORDS"

definition expectIdent :: "string pm" where
  "expectIdent = bindP peek (\<lambda>t.
     if tk_type t = ''IDENT'' then bindP advance (\<lambda>_. retP (tk_value t))
     else if isNonReservedKeyword (tk_type t) then bindP advance (\<lambda>_. retP (tk_value t))
     else parse_error (''Expected identifier, got '' @ tk_type t @ '' ('' @ tk_value t @ '')''))"

definition isAtKeyword :: "string \<Rightarrow> bool pm" where
  "isAtKeyword keyword = bindP peek (\<lambda>t.
     let upper = toUpperCase keyword in retP (tk_type t = upper \<or> tk_value t = upper))"

section \<open>Lookahead over parentheses\<close>

definition depth_after :: "token \<Rightarrow> int \<Rightarrow> int" where
  "depth_after t depth =
     (let d = (if tk_type t = ''LPAREN'' then depth + 1 else depth)
      in if tk_type t = ''RPAREN'' then d - 1 else d)"

fun subquery_scan :: "int \<Rightarrow> bool \<Rightarrow> token list \<Rightarrow> bool" where
  "subquery_scan depth first [] = False"
| "subquery_scan depth first (t # ts) =
     (let d = depth_after t depth
      in if d = 0 \<and> \<not> first then False
         else if d = 1 \<and> tk_type t \<in> {''SELECT'', ''WITH'', ''FROM''} then True
         else subquery_scan d False ts)"

definition isSubqueryStart :: "bool pm" where
  "isSubqueryStart = (\<lambda>s. Inr (subquery_scan 0 True (drop (pos s) (tokens s)), s))"

fun select_scan :: "int \<Rightarrow> token list \<Rightarrow> bool" where
  "select_scan depth [] = False"
| "select_scan depth (t # ts) =
     (let d = depth_after t depth
      in if tk_type t = ''RPAREN'' \<and> d = 0 then False
         else if d = 1 \<and> tk_type t = ''SELECT'' then True
         else select_scan d ts)"

definition isLookaheadSelect :: "bool pm" where
  "isLookaheadSelect = (\<lambda>s. Inr (select_scan 1 (drop (pos s + 1) (tokens s)), s))"

section \<open>Loops\<close>

definition remaining :: "parser \<Rightarrow> nat" where
  "remaining s = length (tokens s) - pos s"

text \<open>
  \<open>do list.push(p()) while (this.tryConsume(TokenType.COMMA))\<close>: each further round consumes a
  comma, so there are at most as many rounds as tokens remain.
\<close>

primrec comma_loop :: "nat \<Rightarrow> 'a pm \<Rightarrow> 'a list pm" where
  "comma_loop 0 p = outOfFuel"
| "comma_loop (Suc k) p = bindP p (\<lambda>x. bindP (tryConsume ''COMMA'') (\<lambda>more.
     if more then bindP (comma_loop k p) (\<lambda>xs. retP (x # xs)) else retP [x]))"

definition commaList :: "'a pm \<Rightarrow> 'a list pm" where
  "commaList p = (\<lambda>s. comma_loop (Suc (remaining s)) p s)"

text \<open>\<open>while\<close> the current token is one of \<open>tys\<close>, the body updates the variable and consumes tokens.\<close>

primrec while_loop :: "nat \<Rightarrow> string list \<Rightarrow> ('a \<Rightarrow> 'a pm) \<Rightarrow> 'a \<Rightarrow> 'a pm" where
  "while_loop 0 tys body x = outOfFuel"
| "while_loop (Suc k) tys body x = bindP (isAtAny tys) (\<lambda>here.
     if here then bindP (body x) (\<lambda>y. while_loop k tys body y) else retP x)"

definition whileAt :: "string list \<Rightarrow> ('a \<Rightarrow> 'a pm) \<Rightarrow> 'a \<Rightarrow> 'a pm" where
  "whileAt tys body x = (\<lambda>s. while_loop (Suc (remaining s)) tys body x s)"

section \<open>Numbers\<close>

definition digits_value :: "string \<Rightarrow> nat" where
  "digits_value ds = foldl (\<lambda>n d. 10 * n + (of_char d - 48)) 0 ds"

definition pow10 :: "int \<Rightarrow> rat" where
  "pow10 e = (if 0 \<le> e then 10 ^ nat e else 1 / 10 ^ nat (- e))"

text \<open>The exponent of a number text after its marker.\<close>

definition exponent_value :: "string \<Rightarrow> int" where
  "exponent_value cs =
     (if next_is (CHR ''-'') cs then - int (digits_value (tl cs))
      else if next_is (CHR ''+'') cs then int (digits_value (tl cs))
      else int (digits_value cs))"

text \<open>The value of a text of the form digits, optional fraction, optional exponent.\<close>

definition decimal_value :: "string \<Rightarrow> rat" where
  "decimal_value text =
     (let ip = takeWhile isDigit text; r = dropWhile isDigit text;
          frac = (if next_is (CHR ''.'') r then takeWhile isDigit (tl r) else []);
          r' = (if next_is (CHR ''.'') r then dropWhile isDigit (tl r) else r);
          e = (if next_is (CHR ''e'') r' \<or> next_is (CHR ''E'') r' then exponent_value (tl r') else 0)
      in of_nat (digits_value (ip @ frac)) * pow10 (e - int (length frac)))"

text \<open>\<open>parseFloat\<close> and \<open>Number\<close> on a number token, \<open>parseInt(text, 10)\<close> on its leading digits.\<close>

definition parseFloat :: "string \<Rightarrow> jsnum" where
  "parseFloat text = rnd (decimal_value text)"

definition parseInt :: "string \<Rightarrow> jsnum" where
  "parseInt text = rnd (of_nat (digits_value (takeWhile isDigit text)))"

definition isApproximateLiteral :: "string \<Rightarrow> bool" where
  "isApproximateLiteral text \<longleftrightarrow> CHR ''.'' \<in> set text \<or> CHR ''e'' \<in> set text \<or> CHR ''E'' \<in> set text"

section \<open>Leaf parsers\<close>

text \<open>The number parameters of a type: \<open>VARCHAR(10)\<close>.\<close>

definition parseTypeName :: "type_name pm" where
  "parseTypeName = bindP expectIdent (\<lambda>name.
     bindP (tryConsume ''LPAREN'') (\<lambda>parens.
     if parens
     then bindP (commaList (bindP (expect ''NUMBER'') (\<lambda>t. retP (parseInt (tk_value t))))) (\<lambda>params.
          bindP (expect ''RPAREN'') (\<lambda>_. retP (TypeName (toUpperCase name) params)))
     else retP (TypeName (toUpperCase name) [])))"

definition parseInterval :: "expr pm" where
  "parseInterval = bindP advance (\<lambda>_.
     bindP (expect ''STRING'') (\<lambda>valueToken.
     bindP expectIdent (\<lambda>u.
     retP (IntervalExpr (tk_value valueToken) (toUpperCase u)))))"

definition parseFrameBound :: "frame_bound pm" where
  "parseFrameBound =
     bindP (tryConsume ''UNBOUNDED'') (\<lambda>unbounded.
     if unbounded then
       bindP (tryConsume ''PRECEDING'') (\<lambda>preceding.
       if preceding then retP UNBOUNDED_PRECEDING
       else bindP (expect ''FOLLOWING'') (\<lambda>_. retP UNBOUNDED_FOLLOWING))
     else
       bindP (tryConsume ''CURRENT'') (\<lambda>current.
       if current then bindP (expect ''ROW'') (\<lambda>_. retP CURRENT_ROW)
       else
         bindP (expect ''NUMBER'') (\<lambda>t.
         case parseFloat (tk_value t) of
           Fin q \<Rightarrow>
             if of_int \<lfloor>q\<rfloor> \<noteq> q \<or> q < 0
             then parse_error ''Window frame offset must be a non-negative integer''
             else
               bindP (tryConsume ''PRECEDING'') (\<lambda>preceding.
               if preceding then retP (PRECEDING (nat \<lfloor>q\<rfloor>))
               else bindP (expect ''FOLLOWING'') (\<lambda>_. retP (FOLLOWING (nat \<lfloor>q\<rfloor>))))
         | _ \<Rightarrow> parse_error ''Window frame offset must be a non-negative integer'')))"

definition parseFrameMode :: "frame_mode option pm" where
  "parseFrameMode =
     bindP (tryConsume ''ROWS'') (\<lambda>rows. if rows then retP (Some ROWS) else
     bindP (tryConsume ''RANGE'') (\<lambda>range. if range then retP (Some RANGE) else
     bindP (tryConsume ''GROUPS'') (\<lambda>groups. if groups then retP (Some GROUPS) else retP None)))"

definition parseWindowFrame :: "window_frame option pm" where
  "parseWindowFrame = bindP parseFrameMode (\<lambda>mode.
     case mode of
       None \<Rightarrow> retP None
     | Some m \<Rightarrow>
         bindP (tryConsume ''BETWEEN'') (\<lambda>between.
         if between then
           bindP parseFrameBound (\<lambda>start.
           bindP (expect ''AND'') (\<lambda>_.
           bindP parseFrameBound (\<lambda>finish.
           retP (Some (WindowFrame m start finish)))))
         else bindP parseFrameBound (\<lambda>start. retP (Some (WindowFrame m start CURRENT_ROW)))))"

section \<open>The recursive methods\<close>

record parsers =
  p_expr :: "expr pm"
  p_not :: "expr pm"
  p_unary :: "expr pm"
  p_primary :: "expr pm"
  p_query :: "query_stmt pm"
  p_from :: "from_item pm"

definition parens :: "'a pm \<Rightarrow> 'a pm" where
  "parens p = bindP (expect ''LPAREN'') (\<lambda>_. bindP p (\<lambda>x. bindP (expect ''RPAREN'') (\<lambda>_. retP x)))"

definition parseExpressionList :: "parsers \<Rightarrow> expr list pm" where
  "parseExpressionList P = commaList (p_expr P)"

definition parseOrderKey :: "parsers \<Rightarrow> expr order_key pm" where
  "parseOrderKey P = bindP (p_expr P) (\<lambda>e.
     bindP (tryConsume ''ASC'') (\<lambda>asc.
     bindP (if asc then retP ''ASC'' else
              bindP (tryConsume ''DESC'') (\<lambda>desc. retP (if desc then ''DESC'' else ''ASC''))) (\<lambda>direction.
     bindP (tryConsume ''NULLS'') (\<lambda>nulls.
     if nulls then
       bindP (tryConsume ''FIRST'') (\<lambda>first.
       if first then retP (OrderKey e direction (Some ''FIRST''))
       else bindP (tryConsume ''LAST'') (\<lambda>lst.
         retP (OrderKey e direction (if lst then Some ''LAST'' else None))))
     else retP (OrderKey e direction None)))))"

definition parseOrderByList :: "parsers \<Rightarrow> expr order_key list pm" where
  "parseOrderByList P = commaList (parseOrderKey P)"

definition parseExists :: "parsers \<Rightarrow> expr pm" where
  "parseExists P = bindP advance (\<lambda>_. bindP (parens (p_query P)) (\<lambda>q. retP (ExistsExpr q False)))"

definition parseWindowCall :: "parsers \<Rightarrow> string \<Rightarrow> expr list \<Rightarrow> expr pm" where
  "parseWindowCall P name args =
     bindP (expect ''OVER'') (\<lambda>_.
     bindP (expect ''LPAREN'') (\<lambda>_.
     bindP (tryConsume ''PARTITION'') (\<lambda>part.
     bindP (if part then bindP (expect ''BY'') (\<lambda>_. parseExpressionList P) else retP []) (\<lambda>partition.
     bindP (isAt ''ORDER'') (\<lambda>order.
     bindP (if order
            then bindP advance (\<lambda>_. bindP (expect ''BY'') (\<lambda>_. parseOrderByList P))
            else retP []) (\<lambda>orderBy.
     bindP parseWindowFrame (\<lambda>frame.
     bindP (expect ''RPAREN'') (\<lambda>_.
     retP (WindowCall name args (WindowSpec partition orderBy frame))))))))))"

definition parseAggregateCall :: "parsers \<Rightarrow> expr pm" where
  "parseAggregateCall P = bindP advance (\<lambda>t.
     bindP (expect ''LPAREN'') (\<lambda>_.
     bindP (isAt ''STAR'') (\<lambda>star.
     if tk_value t = ''COUNT'' \<and> star then
       bindP advance (\<lambda>_.
       bindP (expect ''RPAREN'') (\<lambda>_.
       bindP (isAt ''OVER'') (\<lambda>over.
       if over then parseWindowCall P ''COUNT_STAR'' []
       else retP (AggregateCall ''COUNT_STAR'' [] False))))
     else
       bindP (tryConsume ''DISTINCT'') (\<lambda>dist.
       bindP (parseExpressionList P) (\<lambda>args.
       bindP (expect ''RPAREN'') (\<lambda>_.
       bindP (isAt ''OVER'') (\<lambda>over.
       if over then parseWindowCall P (tk_value t) args
       else retP (AggregateCall (tk_value t) args dist))))))))"

definition parseFunctionCallNamed :: "parsers \<Rightarrow> string \<Rightarrow> expr pm" where
  "parseFunctionCallNamed P name =
     bindP (expect ''LPAREN'') (\<lambda>_.
     bindP (isAt ''RPAREN'') (\<lambda>none.
     bindP (if none then retP [] else parseExpressionList P) (\<lambda>args.
     bindP (expect ''RPAREN'') (\<lambda>_.
     bindP (isAt ''OVER'') (\<lambda>over.
     if over then parseWindowCall P name args else retP (FunctionCall name args))))))"

definition parseWhenClause :: "parsers \<Rightarrow> expr when_clause pm" where
  "parseWhenClause P = bindP advance (\<lambda>_.
     bindP (p_expr P) (\<lambda>condition.
     bindP (expect ''THEN'') (\<lambda>_.
     bindP (p_expr P) (\<lambda>result.
     retP (WhenClause condition result)))))"

definition parseCaseExpr :: "parsers \<Rightarrow> expr pm" where
  "parseCaseExpr P = bindP advance (\<lambda>_.
     bindP (isAt ''WHEN'') (\<lambda>simple.
     bindP (if simple then retP None else bindP (p_expr P) (\<lambda>e. retP (Some e))) (\<lambda>operand.
     bindP (whileAt [''WHEN''] (\<lambda>ws. bindP (parseWhenClause P) (\<lambda>w. retP (ws @ [w]))) []) (\<lambda>whenClauses.
     bindP (tryConsume ''ELSE'') (\<lambda>els.
     bindP (if els then bindP (p_expr P) (\<lambda>e. retP (Some e)) else retP None) (\<lambda>elseExpr.
     bindP (expect ''END'') (\<lambda>_.
     retP (CaseExpr operand whenClauses elseExpr))))))))"

definition parseCast :: "parsers \<Rightarrow> expr pm" where
  "parseCast P = bindP advance (\<lambda>_.
     bindP (expect ''LPAREN'') (\<lambda>_.
     bindP (p_expr P) (\<lambda>e.
     bindP (expect ''AS'') (\<lambda>_.
     bindP parseTypeName (\<lambda>targetType.
     bindP (expect ''RPAREN'') (\<lambda>_.
     retP (CastExpr e targetType)))))))"

definition parseExtract :: "parsers \<Rightarrow> expr pm" where
  "parseExtract P = bindP advance (\<lambda>_.
     bindP (expect ''LPAREN'') (\<lambda>_.
     bindP peek (\<lambda>field.
     bindP advance (\<lambda>_.
     bindP (expect ''FROM'') (\<lambda>_.
     bindP (p_expr P) (\<lambda>src.
     bindP (expect ''RPAREN'') (\<lambda>_.
     retP (ExtractExpr (toUpperCase (tk_value field)) src))))))))"

definition parseSubstringFn :: "parsers \<Rightarrow> expr pm" where
  "parseSubstringFn P = bindP advance (\<lambda>_.
     bindP (expect ''LPAREN'') (\<lambda>_.
     bindP (p_expr P) (\<lambda>e.
     bindP (isAtKeyword ''FROM'') (\<lambda>from_kw.
     bindP (if from_kw then
              bindP advance (\<lambda>_.
              bindP (p_expr P) (\<lambda>from.
              bindP (isAtKeyword ''FOR'') (\<lambda>for_kw.
              if for_kw then bindP advance (\<lambda>_. bindP (p_expr P) (\<lambda>len. retP (SubstringExpr e from (Some len))))
              else retP (SubstringExpr e from None))))
            else
              bindP (expect ''COMMA'') (\<lambda>_.
              bindP (p_expr P) (\<lambda>from.
              bindP (tryConsume ''COMMA'') (\<lambda>more.
              if more then bindP (p_expr P) (\<lambda>len. retP (SubstringExpr e from (Some len)))
              else retP (SubstringExpr e from None))))) (\<lambda>result.
     bindP (expect ''RPAREN'') (\<lambda>_. retP result))))))"

definition parseTrim :: "parsers \<Rightarrow> expr pm" where
  "parseTrim P = bindP advance (\<lambda>_.
     bindP (expect ''LPAREN'') (\<lambda>_.
     bindP (isAtAny [''LEADING'', ''TRAILING'', ''BOTH'']) (\<lambda>spec.
     bindP (if spec then bindP advance (\<lambda>t. retP (Some (tk_value t))) else retP None) (\<lambda>trimSpec.
     bindP (isAt ''FROM'') (\<lambda>from_kw.
     bindP (if \<not> from_kw \<and> trimSpec \<noteq> None then bindP (p_expr P) (\<lambda>c. retP (Some c)) else retP None) (\<lambda>trimChar.
     bindP (if trimSpec \<noteq> None then tryConsume ''FROM'' else retP False) (\<lambda>_.
     bindP (p_expr P) (\<lambda>e.
     bindP (expect ''RPAREN'') (\<lambda>_.
     retP (FunctionCall ''TRIM''
       (case trimChar of
          Some c \<Rightarrow> [e, Literal (case trimSpec of Some v \<Rightarrow> LStr v | None \<Rightarrow> LNull) None, c]
        | None \<Rightarrow> [e])))))))))))"

definition literal :: "literal_value \<Rightarrow> data_type option \<Rightarrow> expr pm" where
  "literal v t = bindP advance (\<lambda>_. retP (Literal v t))"

definition parseNumber :: "string \<Rightarrow> expr pm" where
  "parseNumber text =
     (if isApproximateLiteral text then literal (LNum (parseFloat text)) (Some FLOAT64)
      else literal (LNum (parseInt text)) None)"

definition parseParenthesized :: "parsers \<Rightarrow> expr pm" where
  "parseParenthesized P = bindP isSubqueryStart (\<lambda>sub.
     if sub then bindP advance (\<lambda>_. bindP (p_query P) (\<lambda>q. bindP (expect ''RPAREN'') (\<lambda>_. retP (SubqueryExpr q))))
     else bindP advance (\<lambda>_. bindP (p_expr P) (\<lambda>e. bindP (expect ''RPAREN'') (\<lambda>_. retP e))))"

definition parsePrimaryNot :: "parsers \<Rightarrow> expr pm" where
  "parsePrimaryNot P = bindP advance (\<lambda>_.
     bindP (isAt ''EXISTS'') (\<lambda>exists.
     if exists then bindP advance (\<lambda>_. bindP (parens (p_query P)) (\<lambda>q. retP (ExistsExpr q True)))
     else bindP (p_primary P) (\<lambda>operand. retP (UnaryExpr ''NOT'' operand))))"

definition parseNamed :: "parsers \<Rightarrow> expr pm" where
  "parseNamed P = bindP advance (\<lambda>t.
     bindP (isAt ''LPAREN'') (\<lambda>call.
     if call then parseFunctionCallNamed P (tk_value t)
     else
       bindP (isAt ''DOT'') (\<lambda>dot.
       if dot then
         bindP advance (\<lambda>_.
         bindP (isAt ''STAR'') (\<lambda>star.
         if star then bindP advance (\<lambda>_. retP (AllColumns (Some (tk_value t))))
         else bindP expectIdent (\<lambda>colName. retP (ColumnRef colName (Some (tk_value t))))))
       else retP (ColumnRef (tk_value t) None))))"

definition parsePrimary :: "parsers \<Rightarrow> expr pm" where
  "parsePrimary P = bindP peek (\<lambda>token. bindP (aheadIs 1 ''STRING'') (\<lambda>string_next. bindP (aheadIs 1 ''LPAREN'') (\<lambda>paren_next.
     let ty = tk_type token; text = tk_value token
     in if ty = ''NUMBER'' then parseNumber text
        else if ty = ''STRING'' then literal (LStr text) (Some VARCHAR)
        else if ty = ''NULL'' then literal LNull None
        else if ty = ''TRUE'' then literal (LBool True) (Some BOOLEAN)
        else if ty = ''FALSE'' then literal (LBool False) (Some BOOLEAN)
        else if ty = ''DATE'' \<and> string_next then
          bindP advance (\<lambda>_. bindP (expect ''STRING'') (\<lambda>t. retP (Literal (LStr (tk_value t)) (Some DATE))))
        else if ty = ''TIMESTAMP'' \<and> string_next then
          bindP advance (\<lambda>_. bindP (expect ''STRING'') (\<lambda>t. retP (Literal (LStr (tk_value t)) (Some TIMESTAMP))))
        else if ty = ''INTERVAL'' \<and> string_next then parseInterval
        else if ty = ''CASE'' then parseCaseExpr P
        else if ty = ''CAST'' then parseCast P
        else if ty = ''EXTRACT'' \<and> paren_next then parseExtract P
        else if ty = ''SUBSTRING'' \<and> paren_next then parseSubstringFn P
        else if ty = ''TRIM'' \<and> paren_next then parseTrim P
        else if ty = ''EXISTS'' then parseExists P
        else if ty = ''NOT'' then parsePrimaryNot P
        else if ty = ''LPAREN'' then parseParenthesized P
        else if ty = ''STAR'' then bindP advance (\<lambda>_. retP (AllColumns None))
        else if isAggregateKeyword ty \<and> paren_next then parseAggregateCall P
        else if ty = ''PLACEHOLDER'' then bindP advance (\<lambda>_. retP (Parameter (parseFloat text)))
        else if ty = ''COLON'' then
          bindP advance (\<lambda>_. bindP (expect ''NUMBER'') (\<lambda>t. retP (Parameter (parseFloat (tk_value t)))))
        else if ty = ''IDENT'' \<or> isNonReservedKeyword ty then parseNamed P
        else parse_error (''Unexpected token '' @ ty @ '' ('' @ text @ '')''))))"

section \<open>Operators\<close>

definition parseUnary :: "parsers \<Rightarrow> expr pm" where
  "parseUnary P = bindP (isAt ''MINUS'') (\<lambda>minus.
     if minus then bindP advance (\<lambda>_. bindP (p_unary P) (\<lambda>operand. retP (UnaryExpr ''-'' operand)))
     else bindP (isAt ''PLUS'') (\<lambda>plus.
       if plus then bindP advance (\<lambda>_. p_unary P) else parsePrimary P))"

text \<open>A left-associative chain: \<open>while (isAt op) left = BinaryExpr(op, left, next())\<close>.\<close>

definition binary_chain :: "string list \<Rightarrow> (token \<Rightarrow> string) \<Rightarrow> expr pm \<Rightarrow> expr pm" where
  "binary_chain tys op_of next = bindP next (\<lambda>left.
     whileAt tys (\<lambda>left. bindP advance (\<lambda>t. bindP next (\<lambda>right.
       retP (BinaryExpr (op_of t) left (Plain right))))) left)"

definition parseMultiplication :: "parsers \<Rightarrow> expr pm" where
  "parseMultiplication P = binary_chain [''STAR'', ''SLASH'', ''PERCENT''] tk_value (parseUnary P)"

definition parseAddition :: "parsers \<Rightarrow> expr pm" where
  "parseAddition P = binary_chain [''PLUS'', ''MINUS'', ''CONCAT''] tk_value (parseMultiplication P)"

definition parseBetween :: "parsers \<Rightarrow> expr \<Rightarrow> bool \<Rightarrow> expr pm" where
  "parseBetween P left negated = bindP advance (\<lambda>_.
     bindP (parseAddition P) (\<lambda>low.
     bindP (expect ''AND'') (\<lambda>_.
     bindP (parseAddition P) (\<lambda>high.
     retP (BetweenExpr left low high negated)))))"

definition parseIn :: "parsers \<Rightarrow> expr \<Rightarrow> bool \<Rightarrow> expr pm" where
  "parseIn P left negated = bindP advance (\<lambda>_.
     bindP (expect ''LPAREN'') (\<lambda>_.
     bindP (isAtAny [''SELECT'', ''WITH'', ''FROM'']) (\<lambda>sub.
     if sub then bindP (p_query P) (\<lambda>q. bindP (expect ''RPAREN'') (\<lambda>_. retP (InExpr left (InSubquery q) negated)))
     else bindP (parseExpressionList P) (\<lambda>es. bindP (expect ''RPAREN'') (\<lambda>_. retP (InExpr left (InList es) negated))))))"

definition parseLike :: "parsers \<Rightarrow> expr \<Rightarrow> bool \<Rightarrow> expr pm" where
  "parseLike P left negated = bindP advance (\<lambda>_.
     bindP (parseAddition P) (\<lambda>pattern. retP (LikeExpr left pattern negated)))"

definition truthTest :: "expr \<Rightarrow> string \<Rightarrow> bool \<Rightarrow> expr" where
  "truthTest e name negated =
     (let test = FunctionCall name [e] in if negated then UnaryExpr ''NOT'' test else test)"

definition parseIs :: "expr \<Rightarrow> expr pm" where
  "parseIs left = bindP advance (\<lambda>_.
     bindP (tryConsume ''NOT'') (\<lambda>negated.
     bindP (tryConsume ''TRUE'') (\<lambda>true.
     if true then retP (truthTest left ''IS_TRUE'' negated)
     else bindP (tryConsume ''FALSE'') (\<lambda>false.
       if false then retP (truthTest left ''IS_FALSE'' negated)
       else bindP (expect ''NULL'') (\<lambda>_. retP (IsNullExpr left negated))))))"

definition opMap :: "(string \<times> string) list" where
  "opMap = [(''EQ'', ''=''), (''NEQ'', ''<>''), (''LT'', ''<''), (''GT'', ''>''), (''LTE'', ''<=''), (''GTE'', ''>='')]"

definition parseComparisonOp :: "parsers \<Rightarrow> expr \<Rightarrow> expr pm" where
  "parseComparisonOp P left = bindP peek (\<lambda>t.
     case map_of opMap (tk_type t) of
       None \<Rightarrow> retP left
     | Some op \<Rightarrow> bindP advance (\<lambda>_.
         bindP (isAtAny [''ALL'', ''SOME'', ''ANY'']) (\<lambda>quantified.
         if quantified then
           bindP advance (\<lambda>q.
           bindP (parens (p_query P)) (\<lambda>query.
           retP (BinaryExpr op left (QuantifiedSubquery (tk_type q) query))))
         else bindP (parseAddition P) (\<lambda>right. retP (BinaryExpr op left (Plain right))))))"

text \<open>The tests after the left side, when no \<open>NOT BETWEEN\<close>, \<open>NOT IN\<close> or \<open>NOT LIKE\<close> was found.\<close>

definition parseComparisonTail :: "parsers \<Rightarrow> expr \<Rightarrow> expr pm" where
  "parseComparisonTail P left =
     bindP (isAt ''BETWEEN'') (\<lambda>between. if between then parseBetween P left False else
     bindP (isAt ''IN'') (\<lambda>inside. if inside then parseIn P left False else
     bindP (isAt ''LIKE'') (\<lambda>like. if like then parseLike P left False else
     bindP (isAt ''IS'') (\<lambda>is_kw. if is_kw then parseIs left else parseComparisonOp P left))))"

text \<open>After \<open>NOT\<close>: the position is restored when none of the three tests follows.\<close>

definition parseNegatedTest :: "parsers \<Rightarrow> expr \<Rightarrow> expr pm" where
  "parseNegatedTest P left = (\<lambda>saved.
     bindP advance (\<lambda>_.
     bindP (isAt ''BETWEEN'') (\<lambda>between. if between then parseBetween P left True else
     bindP (isAt ''IN'') (\<lambda>inside. if inside then parseIn P left True else
     bindP (isAt ''LIKE'') (\<lambda>like. if like then parseLike P left True else
     (\<lambda>s. parseComparisonTail P left (s\<lparr>pos := pos saved\<rparr>)))))) saved)"

definition parseComparison :: "parsers \<Rightarrow> expr pm" where
  "parseComparison P = bindP (isAt ''EXISTS'') (\<lambda>exists.
     if exists then parseExists P
     else bindP (parseAddition P) (\<lambda>left.
       bindP (isAt ''NOT'') (\<lambda>negation. if negation then parseNegatedTest P left else parseComparisonTail P left)))"

definition parseNot :: "parsers \<Rightarrow> expr pm" where
  "parseNot P = bindP (isAt ''NOT'') (\<lambda>negation.
     if negation then bindP advance (\<lambda>_. bindP (p_not P) (\<lambda>operand. retP (UnaryExpr ''NOT'' operand)))
     else parseComparison P)"

definition parseAnd :: "parsers \<Rightarrow> expr pm" where
  "parseAnd P = binary_chain [''AND''] (\<lambda>_. ''AND'') (parseNot P)"

definition parseOr :: "parsers \<Rightarrow> expr pm" where
  "parseOr P = binary_chain [''OR''] (\<lambda>_. ''OR'') (parseAnd P)"

definition parseExpression :: "parsers \<Rightarrow> expr pm" where
  "parseExpression P = parseOr P"

section \<open>FROM\<close>

definition parseOptionalAlias :: "bool pm option \<Rightarrow> string option pm" where
  "parseOptionalAlias guard =
     bindP (tryConsume ''AS'') (\<lambda>as.
     if as then bindP expectIdent (\<lambda>name. retP (Some name))
     else
       bindP (isAt ''IDENT'') (\<lambda>ident.
       bindP (case guard of None \<Rightarrow> retP True | Some g \<Rightarrow> if ident then g else retP True) (\<lambda>allowed.
       if ident \<and> allowed then bindP expectIdent (\<lambda>name. retP (Some name)) else retP None)))"

definition tableRef :: "string \<Rightarrow> string \<Rightarrow> from_item" where
  "tableRef name alias = TableRef name (if alias = [] then name else alias)"

definition joinRef :: "from_item \<Rightarrow> from_item \<Rightarrow> string \<Rightarrow> expr option \<Rightarrow> from_item" where
  "joinRef left right joinType condition = JoinRef left right joinType (JoinOn condition False None)"

definition parseSubqueryRef :: "parsers \<Rightarrow> from_item pm" where
  "parseSubqueryRef P = bindP (parens (p_query P)) (\<lambda>query.
     bindP (parseOptionalAlias None) (\<lambda>alias. retP (SubqueryRef query alias)))"

definition aliasGuard :: "bool pm" where
  "aliasGuard = bindP isJoinKeyword (\<lambda>join. bindP isClauseKeyword (\<lambda>clause. retP (\<not> join \<and> \<not> clause)))"

definition parseTableRef :: "parsers \<Rightarrow> from_item pm" where
  "parseTableRef P = bindP (isAt ''LPAREN'') (\<lambda>paren.
     if paren then
       bindP isSubqueryStart (\<lambda>sub.
       if sub then parseSubqueryRef P
       else bindP advance (\<lambda>_. bindP (p_from P) (\<lambda>inner. bindP (expect ''RPAREN'') (\<lambda>_. retP inner))))
     else
       bindP expectIdent (\<lambda>first.
       bindP (whileAt [''DOT''] (\<lambda>_. bindP advance (\<lambda>_. expectIdent)) first) (\<lambda>name.
       bindP (parseOptionalAlias (Some aliasGuard)) (\<lambda>alias.
       retP (tableRef name (case alias of Some a \<Rightarrow> a | None \<Rightarrow> name))))))"

definition parseJoinType :: "string pm" where
  "parseJoinType =
     bindP (tryConsume ''LEFT'') (\<lambda>left.
     if left then bindP (tryConsume ''OUTER'') (\<lambda>_. retP ''LEFT'') else
     bindP (tryConsume ''RIGHT'') (\<lambda>right.
     if right then bindP (tryConsume ''OUTER'') (\<lambda>_. retP ''RIGHT'') else
     bindP (tryConsume ''FULL'') (\<lambda>full.
     if full then bindP (tryConsume ''OUTER'') (\<lambda>_. retP ''FULL'') else
     bindP (tryConsume ''CROSS'') (\<lambda>cross.
     if cross then retP ''CROSS'' else
     bindP (tryConsume ''INNER'') (\<lambda>_. retP ''INNER'')))))"

definition parseJoin :: "parsers \<Rightarrow> from_item \<Rightarrow> from_item pm" where
  "parseJoin P left =
     bindP (tryConsume ''NATURAL'') (\<lambda>isNatural.
     bindP parseJoinType (\<lambda>joinType.
     bindP (expect ''JOIN'') (\<lambda>_.
     bindP (parseTableRef P) (\<lambda>right.
     if isNatural then retP (JoinRef left right joinType (JoinOn None True None))
     else if joinType \<noteq> ''CROSS'' then
       bindP (tryConsume ''ON'') (\<lambda>on.
       if on then bindP (p_expr P) (\<lambda>condition. retP (joinRef left right joinType (Some condition)))
       else
         bindP (tryConsume ''USING'') (\<lambda>using.
         if using then bindP (parens (commaList expectIdent)) (\<lambda>cols.
           retP (JoinRef left right joinType (JoinOn None False (Some cols))))
         else retP (joinRef left right joinType None)))
     else retP (joinRef left right joinType None)))))"

definition parseFromClause :: "parsers \<Rightarrow> from_item pm" where
  "parseFromClause P =
     bindP (parseTableRef P) (\<lambda>first.
     bindP (whileAt JOIN_KEYWORDS (parseJoin P) first) (\<lambda>joined.
     whileAt [''COMMA''] (\<lambda>left. bindP advance (\<lambda>_. bindP (parseTableRef P) (\<lambda>right.
       retP (joinRef left right ''CROSS'' None)))) joined))"

section \<open>Queries\<close>

definition parseSelectItem :: "parsers \<Rightarrow> expr select_item pm" where
  "parseSelectItem P = bindP (isAt ''STAR'') (\<lambda>star.
     if star then bindP advance (\<lambda>_. retP (SelectItem (AllColumns None) None))
     else
       bindP (isAt ''IDENT'') (\<lambda>ident. bindP (aheadIs 1 ''DOT'') (\<lambda>dot. bindP (aheadIs 2 ''STAR'') (\<lambda>all.
       if ident \<and> dot \<and> all then
         bindP advance (\<lambda>t. bindP advance (\<lambda>_. bindP advance (\<lambda>_.
         retP (SelectItem (AllColumns (Some (tk_value t))) None))))
       else
         bindP (p_expr P) (\<lambda>e.
         bindP (parseOptionalAlias None) (\<lambda>alias. retP (SelectItem e alias)))))))"

definition parseSelectItems :: "parsers \<Rightarrow> expr select_item list pm" where
  "parseSelectItems P = commaList (parseSelectItem P)"

definition parseCTE :: "parsers \<Rightarrow> query_stmt cte pm" where
  "parseCTE P =
     bindP expectIdent (\<lambda>name.
     bindP (isAt ''LPAREN'') (\<lambda>paren.
     bindP isLookaheadSelect (\<lambda>sel.
     bindP (if paren \<and> \<not> sel
            then bindP advance (\<lambda>_. bindP (commaList expectIdent) (\<lambda>cols.
                 bindP (expect ''RPAREN'') (\<lambda>_. retP (Some cols))))
            else retP None) (\<lambda>columnAliases.
     bindP (expect ''AS'') (\<lambda>_.
     bindP (parens (p_query P)) (\<lambda>query.
     retP (CTE name query columnAliases)))))))"

definition parseWithClause :: "parsers \<Rightarrow> query_stmt cte list pm" where
  "parseWithClause P = bindP advance (\<lambda>_. commaList (parseCTE P))"

definition consumeSetQuantifier :: "bool pm" where
  "consumeSetQuantifier = bindP (tryConsume ''ALL'') (\<lambda>all.
     if all then retP True else bindP (tryConsume ''DISTINCT'') (\<lambda>_. retP False))"

text \<open>\<open>inner.withClause = withClause\<close> on a parenthesized query.\<close>

definition attachWith :: "query_stmt cte list option \<Rightarrow> query_stmt \<Rightarrow> query_stmt pm" where
  "attachWith withClause inner =
     (case withClause of
        None \<Rightarrow> retP inner
      | Some ctes \<Rightarrow>
          (case inner of
             SelectStmt (Some _) _ _ _ _ _ _ _ \<Rightarrow> parse_error ''Multiple WITH clauses are not allowed''
           | SelectStmt None d items from wh gb hv tail \<Rightarrow> retP (SelectStmt (Some ctes) d items from wh gb hv tail)
           | SetOp _ _ _ _ _ \<Rightarrow> parse_error ''WITH clause cannot precede a parenthesized set operation''))"

definition optionally :: "bool \<Rightarrow> 'a pm \<Rightarrow> 'a option pm" where
  "optionally b p = (if b then bindP p (\<lambda>x. retP (Some x)) else retP None)"

definition parseSelectHead :: "parsers \<Rightarrow> (bool \<times> expr select_item list) pm" where
  "parseSelectHead P = bindP (isAt ''FROM'') (\<lambda>from_first.
     if from_first then retP (False, [SelectItem (AllColumns None) None])
     else
       bindP (expect ''SELECT'') (\<lambda>_.
       bindP (tryConsume ''DISTINCT'') (\<lambda>dist.
       bindP (if dist then retP False else tryConsume ''ALL'') (\<lambda>_.
       bindP (parseSelectItems P) (\<lambda>items.
       retP (dist, items))))))"

definition parseSelectBody :: "parsers \<Rightarrow> query_stmt cte list option \<Rightarrow> query_stmt pm" where
  "parseSelectBody P withClause =
     bindP (parseSelectHead P) (\<lambda>(dist, items).
     bindP (bindP (tryConsume ''FROM'') (\<lambda>b. optionally b (parseFromClause P))) (\<lambda>from.
     bindP (bindP (tryConsume ''WHERE'') (\<lambda>b. optionally b (p_expr P))) (\<lambda>wh.
     bindP (bindP (tryConsume ''GROUP'') (\<lambda>b.
       optionally b (bindP (expect ''BY'') (\<lambda>_. parseExpressionList P)))) (\<lambda>groupBy.
     bindP (bindP (tryConsume ''HAVING'') (\<lambda>b. optionally b (p_expr P))) (\<lambda>having.
     retP (SelectStmt withClause dist items from wh groupBy having (QueryTail None None None)))))))"

definition parseSelectStmt :: "parsers \<Rightarrow> query_stmt pm" where
  "parseSelectStmt P =
     bindP (bindP (isAt ''WITH'') (\<lambda>b. optionally b (parseWithClause P))) (\<lambda>withClause.
     bindP (isAt ''LPAREN'') (\<lambda>paren.
     if paren then
       bindP advance (\<lambda>_.
       bindP (p_query P) (\<lambda>inner.
       bindP (expect ''RPAREN'') (\<lambda>_.
       attachWith withClause inner)))
     else parseSelectBody P withClause))"

definition parseQueryTail :: "parsers \<Rightarrow> expr query_tail pm" where
  "parseQueryTail P =
     bindP (isAt ''ORDER'') (\<lambda>order.
     bindP (optionally order (bindP advance (\<lambda>_. bindP (expect ''BY'') (\<lambda>_. parseOrderByList P)))) (\<lambda>orderBy.
     bindP (bindP (tryConsume ''LIMIT'') (\<lambda>b. optionally b
       (bindP (p_expr P) (\<lambda>limit.
        bindP (bindP (tryConsume ''OFFSET'') (\<lambda>b. optionally b (p_expr P))) (\<lambda>offset.
        retP (limit, offset)))))) (\<lambda>limits.
     bindP (tryConsume ''FETCH'') (\<lambda>fetch.
     if fetch then
       bindP (tryConsume ''FIRST'') (\<lambda>first.
       bindP (if first then retP True else tryConsume ''NEXT'') (\<lambda>_.
       bindP (p_expr P) (\<lambda>limit.
       bindP (tryConsume ''ROWS'') (\<lambda>_.
       bindP (expect ''ONLY'') (\<lambda>_.
       retP (QueryTail orderBy (Some limit) (Option.bind limits snd)))))))
     else retP (QueryTail orderBy (map_option fst limits) (Option.bind limits snd))))))"

fun query_tail_of :: "query_stmt \<Rightarrow> expr query_tail" where
  "query_tail_of (SelectStmt _ _ _ _ _ _ _ tail) = tail"
| "query_tail_of (SetOp _ _ _ _ tail) = tail"

fun with_tail :: "expr query_tail \<Rightarrow> query_stmt \<Rightarrow> query_stmt" where
  "with_tail tail (SelectStmt w d items from wh gb hv _) = SelectStmt w d items from wh gb hv tail"
| "with_tail tail (SetOp op l r all _) = SetOp op l r all tail"

definition empty_tail :: "expr query_tail \<Rightarrow> bool" where
  "empty_tail tail \<longleftrightarrow> tail_orderBy tail = None \<and> tail_limit tail = None \<and> tail_offset tail = None"

definition attachQueryTail :: "query_stmt \<Rightarrow> expr query_tail \<Rightarrow> query_stmt pm" where
  "attachQueryTail query tail =
     (if empty_tail tail then retP query
      else if \<not> empty_tail (query_tail_of query)
        then parse_error ''A query may not carry two ORDER BY / LIMIT clauses''
      else retP (with_tail tail query))"

definition parseQueryTerm :: "parsers \<Rightarrow> query_stmt pm" where
  "parseQueryTerm P = bindP (parseSelectStmt P) (\<lambda>left.
     whileAt [''INTERSECT''] (\<lambda>left. bindP advance (\<lambda>op. bindP consumeSetQuantifier (\<lambda>all.
       bindP (parseSelectStmt P) (\<lambda>right.
       retP (SetOp (tk_type op) left right all (QueryTail None None None)))))) left)"

definition parseQueryExpr :: "parsers \<Rightarrow> query_stmt pm" where
  "parseQueryExpr P = bindP (parseQueryTerm P) (\<lambda>left.
     bindP (whileAt [''UNION'', ''EXCEPT''] (\<lambda>left. bindP advance (\<lambda>op. bindP consumeSetQuantifier (\<lambda>all.
       bindP (parseQueryTerm P) (\<lambda>right.
       retP (SetOp (tk_type op) left right all (QueryTail None None None)))))) left) (\<lambda>query.
     bindP (parseQueryTail P) (\<lambda>tail.
     attachQueryTail query tail)))"

section \<open>Statements\<close>

primrec parsers_at :: "nat \<Rightarrow> parsers" where
  "parsers_at 0 = \<lparr>p_expr = outOfFuel, p_not = outOfFuel, p_unary = outOfFuel, p_primary = outOfFuel,
     p_query = outOfFuel, p_from = outOfFuel\<rparr>"
| "parsers_at (Suc n) = (let P = parsers_at n in
     \<lparr>p_expr = parseExpression P, p_not = parseNot P, p_unary = parseUnary P, p_primary = parsePrimary P,
      p_query = parseQueryExpr P, p_from = parseFromClause P\<rparr>)"

definition parseColumnDef :: "column_def pm" where
  "parseColumnDef = bindP expectIdent (\<lambda>colName. bindP parseTypeName (\<lambda>colType.
     retP (ColumnDef colName colType)))"

definition parseCreateTable :: "parsers \<Rightarrow> statement pm" where
  "parseCreateTable P =
     bindP advance (\<lambda>_.
     bindP (expect ''TABLE'') (\<lambda>_.
     bindP (isAt ''IF'') (\<lambda>ifNotExists.
     bindP (if ifNotExists
            then bindP advance (\<lambda>_. bindP (expect ''NOT'') (\<lambda>_. bindP (expect ''EXISTS'') (\<lambda>_. retP ())))
            else retP ()) (\<lambda>_.
     bindP expectIdent (\<lambda>name.
     bindP (tryConsume ''AS'') (\<lambda>as.
     if as then bindP (p_query P) (\<lambda>query. retP (CreateTableStmt name None ifNotExists (Some query)))
     else
       bindP (expect ''LPAREN'') (\<lambda>_.
       bindP (commaList parseColumnDef) (\<lambda>columns.
       bindP (expect ''RPAREN'') (\<lambda>_.
       retP (CreateTableStmt name (Some columns) ifNotExists None))))))))))"

definition parseDropTable :: "statement pm" where
  "parseDropTable =
     bindP advance (\<lambda>_.
     bindP (expect ''TABLE'') (\<lambda>_.
     bindP (isAt ''IF'') (\<lambda>ifExists.
     bindP (if ifExists then bindP advance (\<lambda>_. bindP (expect ''EXISTS'') (\<lambda>_. retP ())) else retP ()) (\<lambda>_.
     bindP expectIdent (\<lambda>name.
     retP (DropTableStmt name ifExists))))))"

definition parseStatement :: "parsers \<Rightarrow> statement pm" where
  "parseStatement P =
     bindP (isAt ''CREATE'') (\<lambda>create. if create then parseCreateTable P else
     bindP (isAt ''DROP'') (\<lambda>drop. if drop then parseDropTable else
     bindP (isAt ''EXPLAIN'') (\<lambda>isExplain.
     bindP (if isExplain
            then bindP advance (\<lambda>_. bindP (isAt ''ANALYZE'') (\<lambda>analyze.
                 if analyze then bindP advance (\<lambda>_. retP True) else retP False))
            else retP False) (\<lambda>isAnalyze.
     bindP (p_query P) (\<lambda>stmt.
     retP (if isAnalyze then ExplainAnalyzeStmt stmt
           else if isExplain then ExplainStmt stmt
           else QueryStmt stmt))))))"

text \<open>The check after the parsed text: the end of the input or a semicolon.\<close>

definition at_end :: "'a \<Rightarrow> 'a pm" where
  "at_end x = bindP (isAtAny [''EOF'', ''SEMICOLON'']) (\<lambda>done.
     if done then retP x else bindP peek (\<lambda>t. parse_error (''Unexpected token '' @ tk_type t)))"

definition run_parser :: "string \<Rightarrow> (parsers \<Rightarrow> 'a pm) \<Rightarrow> sql_error + 'a" where
  "run_parser sql p = bindE (lex sql) (\<lambda>ts.
     bindE (bindP (p (parsers_at (Suc (length ts)))) at_end \<lparr>source = sql, tokens = ts, pos = 0\<rparr>)
       (\<lambda>(x, _). Inr x))"

definition parse :: "string \<Rightarrow> sql_error + statement" where
  "parse sql = run_parser sql parseStatement"

definition parse_expression :: "string \<Rightarrow> sql_error + expr" where
  "parse_expression sql = run_parser sql p_expr"

end
