(* ===== verification/ParserTotal.thy ===== *)
theory ParserTotal
  imports Parser
begin

text \<open>
  The parser always returns. A method handles a state with fewer than \<open>n\<close> remaining tokens when it
  ends in a result or in an error of the program, and never moves the position back
  (\<open>progress n\<close>); it consumes when a result leaves fewer tokens (\<open>consumes n\<close>). Every recursive
  call comes after a consumed token, so one level of \<open>parsers_at\<close> per token is enough.
\<close>

section \<open>Progress\<close>

definition frame :: "parser \<Rightarrow> parser \<Rightarrow> bool" where
  "frame s s' \<longleftrightarrow> source s' = source s \<and> tokens s' = tokens s \<and> pos s \<le> pos s'"

fun keeps :: "parser \<Rightarrow> sql_error + 'a \<times> parser \<Rightarrow> bool" where
  "keeps s (Inl e) \<longleftrightarrow> e \<noteq> OutOfFuel"
| "keeps s (Inr (x, s')) \<longleftrightarrow> frame s s'"

fun eats :: "parser \<Rightarrow> sql_error + 'a \<times> parser \<Rightarrow> bool" where
  "eats s (Inl e) \<longleftrightarrow> e \<noteq> OutOfFuel"
| "eats s (Inr (x, s')) \<longleftrightarrow> frame s s' \<and> remaining s' < remaining s"

definition progress :: "nat \<Rightarrow> 'a pm \<Rightarrow> bool" where
  "progress n p \<longleftrightarrow> (\<forall>s. remaining s < n \<longrightarrow> keeps s (p s))"

definition consumes :: "nat \<Rightarrow> 'a pm \<Rightarrow> bool" where
  "consumes n p \<longleftrightarrow> (\<forall>s. remaining s < n \<longrightarrow> eats s (p s))"

lemma frame_refl [simp]: "frame s s"
  by (simp add: frame_def)

lemma frame_trans: "frame s t \<Longrightarrow> frame t u \<Longrightarrow> frame s u"
  by (simp add: frame_def)

lemma frame_remaining: "frame s s' \<Longrightarrow> remaining s' \<le> remaining s"
  by (auto simp: frame_def remaining_def)

lemma keeps_frame: "frame s t \<Longrightarrow> keeps t r \<Longrightarrow> keeps s r"
  by (cases "(t, r)" rule: keeps.cases) (auto dest: frame_trans)

lemma eats_frame: "frame s t \<Longrightarrow> eats t r \<Longrightarrow> eats s r"
  using frame_remaining [of s t] by (cases "(t, r)" rule: eats.cases) (auto dest: frame_trans)

lemma eats_lt: "frame s t \<Longrightarrow> remaining t < remaining s \<Longrightarrow> keeps t r \<Longrightarrow> eats s r"
  by (cases "(t, r)" rule: keeps.cases) (auto dest: frame_trans frame_remaining)

lemma eats_keeps: "eats s r \<Longrightarrow> keeps s r"
  by (cases "(s, r)" rule: eats.cases) auto

lemma consumes_progress: "consumes n p \<Longrightarrow> progress n p"
  by (auto simp: consumes_def progress_def intro: eats_keeps)

lemma progress_mono: "progress (Suc n) p \<Longrightarrow> progress n p"
  by (simp add: progress_def)

lemma progress_bind:
  assumes "progress n m" "\<And>x. progress n (f x)"
  shows "progress n (bindP m f)"
  unfolding progress_def
proof (intro allI impI)
  fix s assume "remaining s < n"
  then show "keeps s (bindP m f s)"
    using assms frame_remaining [of s]
    by (cases "m s") (fastforce simp: progress_def bindP_def intro: keeps_frame)+
qed

lemma consumes_bind:
  assumes "consumes (Suc n) m" "\<And>x. progress n (f x)"
  shows "consumes (Suc n) (bindP m f)"
  unfolding consumes_def
proof (intro allI impI)
  fix s assume s: "remaining s < Suc n"
  show "eats s (bindP m f s)"
  proof (cases "m s")
    case (Inl e)
    then show ?thesis using assms(1) s by (fastforce simp: consumes_def bindP_def)
  next
    case (Inr xs')
    obtain x s' where x: "xs' = (x, s')" by force
    then have "eats s (Inr (x, s'))" using assms(1) s Inr by (fastforce simp: consumes_def)
    then have "frame s s'" "remaining s' < remaining s" by simp_all
    then show ?thesis
      using assms(2) [of x] s Inr x by (auto simp: progress_def bindP_def intro: eats_lt)
  qed
qed

lemma consumes_bind_later:
  assumes "progress n m" "\<And>x. consumes n (f x)"
  shows "consumes n (bindP m f)"
  unfolding consumes_def
proof (intro allI impI)
  fix s assume s: "remaining s < n"
  show "eats s (bindP m f s)"
  proof (cases "m s")
    case (Inl e)
    then show ?thesis using assms(1) s by (fastforce simp: progress_def bindP_def)
  next
    case (Inr xs')
    obtain x s' where x: "xs' = (x, s')" by force
    then have "keeps s (Inr (x, s'))" using assms(1) s Inr by (fastforce simp: progress_def)
    then have f: "frame s s'" by simp
    moreover have "remaining s' < n" using frame_remaining [OF f] s by simp
    ultimately show ?thesis
      using assms(2) [of x] Inr x by (auto simp: consumes_def bindP_def intro: eats_frame)
  qed
qed

section \<open>Primitive methods\<close>

named_theorems plain

lemma progress_ret [plain]: "progress n (retP x)"
  by (simp add: progress_def retP_def)

lemma progress_peek [plain]: "progress n peek"
  by (simp add: progress_def peek_def)

lemma progress_aheadIs [plain]: "progress n (aheadIs k ty)"
  by (simp add: progress_def aheadIs_def)

lemma progress_sub [plain]: "progress n isSubqueryStart" "progress n isLookaheadSelect"
  by (simp_all add: progress_def isSubqueryStart_def isLookaheadSelect_def)

lemma consumes_advance: "consumes n advance"
  by (auto simp: consumes_def advance_def frame_def remaining_def)

lemma progress_if [plain]: "progress n p \<Longrightarrow> progress n q \<Longrightarrow> progress n (if b then p else q)"
  by simp

lemma progress_prod [plain]: "(\<And>x y. progress n (f x y)) \<Longrightarrow> progress n (case z of (x, y) \<Rightarrow> f x y)"
  by (cases z) simp

lemma progress_option [plain]:
  "progress n p \<Longrightarrow> (\<And>x. progress n (f x)) \<Longrightarrow> progress n (case z of None \<Rightarrow> p | Some x \<Rightarrow> f x)"
  by (cases z) simp_all

lemma progress_num [plain]:
  "progress n a \<Longrightarrow> progress n b \<Longrightarrow> (\<And>q. progress n (f q)) \<Longrightarrow> progress n c \<Longrightarrow>
     progress n (case z of NaN \<Rightarrow> a | NInf \<Rightarrow> b | Fin q \<Rightarrow> f q | PInf \<Rightarrow> c)"
  by (cases z) simp_all

lemma progress_let [plain]: "(\<And>x. progress n (f x)) \<Longrightarrow> progress n (let x = v in f x)"
  by simp

lemmas progress_advance [plain] = consumes_progress [OF consumes_advance]

declare progress_bind [plain]

lemma progress_isAt [plain]: "progress n (isAt ty)" "progress n (isAtAny tys)"
  unfolding isAt_def isAtAny_def by (intro plain)+

lemma progress_isAtKeyword [plain]: "progress n (isAtKeyword k)"
  unfolding isAtKeyword_def by (intro plain)

lemma progress_tryConsume [plain]: "progress n (tryConsume ty)"
  unfolding tryConsume_def by (intro plain)

lemma consumes_error: "consumes n (parse_error message)"
  by (auto simp: consumes_def parse_error_def bindP_def peek_def)

lemmas progress_error [plain] = consumes_progress [OF consumes_error]

lemma consumes_if: "consumes n p \<Longrightarrow> consumes n q \<Longrightarrow> consumes n (if b then p else q)"
  by simp

lemma consumes_advance_bind: "(\<And>x. progress n (f x)) \<Longrightarrow> consumes n (bindP advance f)"
proof (cases n)
  case (Suc m)
  assume "\<And>x. progress n (f x)"
  then have "\<And>x. progress m (f x)" unfolding Suc by (rule progress_mono)
  then show ?thesis unfolding Suc by (rule consumes_bind [OF consumes_advance])
qed (simp add: consumes_def)

lemma consumes_expect: "consumes n (expect ty)"
  unfolding expect_def by (intro consumes_bind_later plain consumes_if consumes_error consumes_advance)

lemma consumes_expectIdent: "consumes n expectIdent"
  unfolding expectIdent_def
  by (intro consumes_bind_later [OF progress_peek] consumes_if consumes_error consumes_advance_bind plain)

lemmas progress_expect [plain] =
  consumes_progress [OF consumes_expect] consumes_progress [OF consumes_expectIdent]

section \<open>Loops\<close>

lemma while_loop_keeps:
  assumes body: "\<And>x. consumes n (body x)"
  shows "remaining s < n \<Longrightarrow> remaining s < k \<Longrightarrow> keeps s (while_loop k tys body x s)"
proof (induction k arbitrary: s x)
  case (Suc k)
  show ?case
  proof (cases "isAtAny tys s")
    case (Inl e)
    then show ?thesis using progress_isAt(2) [of n tys] Suc.prems by (fastforce simp: progress_def bindP_def)
  next
    case (Inr r)
    then obtain here where here: "isAtAny tys s = Inr (here, s)"
      by (auto simp: isAtAny_def bindP_def peek_def retP_def split: if_splits)
    show ?thesis
    proof (cases here)
      case False
      then show ?thesis using here by (simp add: bindP_def retP_def)
    next
      case True
      have eat: "eats s (body x s)" using body [of x] Suc.prems(1) by (simp add: consumes_def)
      show ?thesis
      proof (cases "body x s")
        case (Inl e)
        then show ?thesis using here True eat by (simp add: bindP_def)
      next
        case (Inr ys)
        obtain y s' where y: "ys = (y, s')" by force
        then have s': "frame s s'" "remaining s' < remaining s" using eat Inr by simp_all
        then have "keeps s' (while_loop k tys body y s')" using Suc by simp
        then show ?thesis using here True Inr y s'(1) by (simp add: bindP_def keeps_frame)
      qed
    qed
  qed
qed simp

lemma progress_whileAt: "(\<And>x. consumes n (body x)) \<Longrightarrow> progress n (whileAt tys body x)"
  using while_loop_keeps [of n body] by (simp add: progress_def whileAt_def del: while_loop.simps)

lemma tryConsume_True:
  "tryConsume ty s = Inr (True, s') \<Longrightarrow> frame s s' \<and> remaining s' < remaining s"
  by (auto simp: tryConsume_def isAt_def bindP_def peek_def retP_def advance_def frame_def remaining_def
      split: if_splits)

lemma tryConsume_False: "tryConsume ty s = Inr (False, s') \<Longrightarrow> s' = s"
  by (auto simp: tryConsume_def isAt_def bindP_def peek_def retP_def advance_def split: if_splits)

lemma comma_loop_keeps:
  assumes p: "progress n p"
  shows "remaining s < n \<Longrightarrow> remaining s < k \<Longrightarrow> keeps s (comma_loop k p s)"
proof (induction k arbitrary: s)
  case (Suc k)
  have kp: "keeps s (p s)" using p Suc.prems(1) by (simp add: progress_def)
  show ?case
  proof (cases "p s")
    case (Inl e)
    then show ?thesis using kp by (simp add: bindP_def)
  next
    case (Inr xs)
    obtain x s1 where x: "xs = (x, s1)" by force
    then have f1: "frame s s1" using kp Inr by simp
    note r1 = frame_remaining [OF f1]
    have kt: "keeps s1 (tryConsume ''COMMA'' s1)"
      using progress_tryConsume [of n "''COMMA''"] r1 Suc.prems(1) by (simp add: progress_def)
    show ?thesis
    proof (cases "tryConsume ''COMMA'' s1")
      case (Inl e)
      then show ?thesis using kt Inr x \<open>p s = Inr xs\<close> by (simp add: bindP_def)
    next
      case (Inr ms)
      obtain more s2 where m: "ms = (more, s2)" by force
      show ?thesis
      proof (cases more)
        case False
        then show ?thesis
          using tryConsume_False [of "''COMMA''" s1 s2] Inr m \<open>p s = Inr xs\<close> x f1
          by (simp add: bindP_def retP_def)
      next
        case True
        then have s2: "frame s1 s2" "remaining s2 < remaining s1"
          using tryConsume_True [of "''COMMA''" s1 s2] Inr m by simp_all
        then have "keeps s2 (comma_loop k p s2)" using Suc r1 by simp
        moreover have "frame s s2" using f1 s2(1) by (rule frame_trans)
        ultimately show ?thesis
          using Inr m True \<open>p s = Inr xs\<close> x
          by (cases "comma_loop k p s2") (auto simp: bindP_def retP_def dest: frame_trans)
      qed
    qed
  qed
qed simp

lemma progress_commaList [plain]: "progress n p \<Longrightarrow> progress n (commaList p)"
  using comma_loop_keeps [of n p] by (simp add: progress_def commaList_def del: comma_loop.simps)

section \<open>The methods\<close>

definition hooks :: "nat \<Rightarrow> parsers \<Rightarrow> bool" where
  "hooks n P \<longleftrightarrow> progress n (p_expr P) \<and> progress n (p_not P) \<and> progress n (p_unary P)
     \<and> progress n (p_primary P) \<and> progress n (p_query P) \<and> progress n (p_from P)"

lemma hooks_progress [plain]:
  "hooks n P \<Longrightarrow> progress n (p_expr P)" "hooks n P \<Longrightarrow> progress n (p_not P)"
  "hooks n P \<Longrightarrow> progress n (p_unary P)" "hooks n P \<Longrightarrow> progress n (p_primary P)"
  "hooks n P \<Longrightarrow> progress n (p_query P)" "hooks n P \<Longrightarrow> progress n (p_from P)"
  by (simp_all add: hooks_def)

text \<open>The steps before the first consumed token, at one more token than the hooks handle.\<close>

lemmas first_token =
  consumes_progress [OF consumes_bind [OF consumes_advance]]
  consumes_progress [OF consumes_bind [OF consumes_expect]]
  consumes_progress [OF consumes_bind [OF consumes_expectIdent]]

lemma first_try:
  assumes "progress n (f True)" "progress (Suc n) (f False)"
  shows "progress (Suc n) (bindP (tryConsume ty) f)"
  unfolding progress_def
proof (intro allI impI)
  fix s assume s: "remaining s < Suc n"
  have k: "keeps s (tryConsume ty s)" using progress_tryConsume [of "Suc n" ty] s by (simp add: progress_def)
  show "keeps s (bindP (tryConsume ty) f s)"
  proof (cases "tryConsume ty s")
    case (Inl e)
    then show ?thesis using k by (simp add: bindP_def)
  next
    case (Inr bs)
    obtain b s' where bs: "bs = (b, s')" by force
    show ?thesis
    proof (cases b)
      case True
      then have "frame s s'" "remaining s' < remaining s" using tryConsume_True [of ty s s'] Inr bs by simp_all
      then show ?thesis using assms(1) Inr bs True s by (auto simp: bindP_def progress_def intro: keeps_frame)
    next
      case False
      then show ?thesis
        using tryConsume_False [of ty s s'] assms(2) Inr bs s by (simp add: bindP_def progress_def)
    qed
  qed
qed

lemma first_peek:
  "(\<And>x. progress (Suc n) (f x)) \<Longrightarrow> progress (Suc n) (bindP peek f)"
  "(\<And>x. progress (Suc n) (g x)) \<Longrightarrow> progress (Suc n) (bindP (isAt ty) g)"
  "(\<And>x. progress (Suc n) (h x)) \<Longrightarrow> progress (Suc n) (bindP isSubqueryStart h)"
  "(\<And>x. progress (Suc n) (k x)) \<Longrightarrow> progress (Suc n) (bindP (aheadIs i ty) k)"
  by (intro plain; assumption)+

lemma progress_parens [plain]: "progress n p \<Longrightarrow> progress n (parens p)"
  unfolding parens_def by (intro plain)

lemma consumes_parens: "progress n p \<Longrightarrow> consumes (Suc n) (parens p)"
  unfolding parens_def by (intro consumes_bind [OF consumes_expect] plain)

lemma plain_types [plain]: "progress n parseTypeName" "progress n parseInterval"
  "progress n parseFrameBound" "progress n parseFrameMode"
  unfolding parseTypeName_def parseInterval_def parseFrameBound_def parseFrameMode_def
  by (intro plain)+

lemma plain_parseWindowFrame [plain]: "progress n parseWindowFrame"
  unfolding parseWindowFrame_def by (intro plain)

lemma plain_parseExpressionList [plain]: "hooks n P \<Longrightarrow> progress n (parseExpressionList P)"
  unfolding parseExpressionList_def by (intro plain; assumption)

lemma plain_parseOrderKey [plain]: "hooks n P \<Longrightarrow> progress n (parseOrderKey P)"
  unfolding parseOrderKey_def by (intro plain; assumption)

lemma plain_parseOrderByList [plain]: "hooks n P \<Longrightarrow> progress n (parseOrderByList P)"
  unfolding parseOrderByList_def by (intro plain; assumption)

lemma plain_parseWindowCall [plain]: "hooks n P \<Longrightarrow> progress n (parseWindowCall P name args)"
  unfolding parseWindowCall_def by (intro plain; assumption)

lemma first_parseExists: "hooks n P \<Longrightarrow> progress (Suc n) (parseExists P)"
  unfolding parseExists_def by (rule first_token, intro plain; assumption)

lemma first_parseAggregateCall: "hooks n P \<Longrightarrow> progress (Suc n) (parseAggregateCall P)"
  unfolding parseAggregateCall_def by (rule first_token, intro plain; assumption)

lemma plain_parseFunctionCallNamed [plain]: "hooks n P \<Longrightarrow> progress n (parseFunctionCallNamed P name)"
  unfolding parseFunctionCallNamed_def by (intro plain; assumption)

lemma plain_parseWhenClause [plain]: "hooks n P \<Longrightarrow> progress n (parseWhenClause P)"
  unfolding parseWhenClause_def by (intro plain; assumption)

lemma consumes_parseWhenClause: "hooks n P \<Longrightarrow> consumes n (parseWhenClause P)"
  unfolding parseWhenClause_def by (intro consumes_advance_bind plain; assumption)

lemma consumes_step: "consumes n m \<Longrightarrow> consumes n (bindP m (\<lambda>x. retP (f x)))"
  by (cases n) (auto simp: consumes_def [of 0] intro!: consumes_bind progress_ret)

lemma first_parseCaseExpr: "hooks n P \<Longrightarrow> progress (Suc n) (parseCaseExpr P)"
  unfolding parseCaseExpr_def
  by (rule first_token,
      (intro plain progress_whileAt consumes_step consumes_parseWhenClause; assumption))

lemma first_parseCast: "hooks n P \<Longrightarrow> progress (Suc n) (parseCast P)"
  unfolding parseCast_def by (rule first_token, intro plain; assumption)

lemma first_parseExtract: "hooks n P \<Longrightarrow> progress (Suc n) (parseExtract P)"
  unfolding parseExtract_def by (rule first_token, intro plain; assumption)

lemma first_parseSubstringFn: "hooks n P \<Longrightarrow> progress (Suc n) (parseSubstringFn P)"
  unfolding parseSubstringFn_def by (rule first_token, intro plain; assumption)

lemma first_parseTrim: "hooks n P \<Longrightarrow> progress (Suc n) (parseTrim P)"
  unfolding parseTrim_def by (rule first_token, intro plain; assumption)

lemma plain_literal [plain]: "progress n (literal v t)"
  unfolding literal_def by (intro plain)

lemma plain_parseNumber [plain]: "progress n (parseNumber text)"
  unfolding parseNumber_def by (intro plain)

lemma first_parseParenthesized: "hooks n P \<Longrightarrow> progress (Suc n) (parseParenthesized P)"
  unfolding parseParenthesized_def by (intro first_peek progress_if first_token plain; assumption)

lemma first_parsePrimaryNot: "hooks n P \<Longrightarrow> progress (Suc n) (parsePrimaryNot P)"
  unfolding parsePrimaryNot_def by (rule first_token, intro plain; assumption)

lemma first_parseNamed: "hooks n P \<Longrightarrow> progress (Suc n) (parseNamed P)"
  unfolding parseNamed_def by (rule first_token, intro plain; assumption)

lemma first_parsePrimary: "hooks n P \<Longrightarrow> progress (Suc n) (parsePrimary P)"
  unfolding parsePrimary_def
  by (intro plain first_parseExists first_parseAggregateCall first_parseCaseExpr first_parseCast
      first_parseExtract first_parseSubstringFn first_parseTrim first_parseParenthesized
      first_parsePrimaryNot first_parseNamed; assumption)

lemma first_parseUnary: "hooks n P \<Longrightarrow> progress (Suc n) (parseUnary P)"
  unfolding parseUnary_def
  by (intro first_peek progress_if first_token first_parsePrimary; (intro plain)?; assumption)

lemma progress_binary_chain [plain]: "progress n next \<Longrightarrow> progress n (binary_chain tys op_of next)"
  unfolding binary_chain_def
  by (intro progress_bind progress_whileAt consumes_advance_bind progress_ret; assumption)

lemma first_parseAddition: "hooks n P \<Longrightarrow> progress (Suc n) (parseAddition P)"
  unfolding parseAddition_def parseMultiplication_def
  by (intro progress_binary_chain first_parseUnary)

lemma plain_parseAddition [plain]: "hooks n P \<Longrightarrow> progress n (parseAddition P)"
  by (rule progress_mono) (rule first_parseAddition)

lemma first_parseBetween: "hooks n P \<Longrightarrow> progress (Suc n) (parseBetween P left negated)"
  unfolding parseBetween_def by (rule first_token, intro plain; assumption)

lemma first_parseIn: "hooks n P \<Longrightarrow> progress (Suc n) (parseIn P left negated)"
  unfolding parseIn_def by (rule first_token, intro plain; assumption)

lemma first_parseLike: "hooks n P \<Longrightarrow> progress (Suc n) (parseLike P left negated)"
  unfolding parseLike_def by (rule first_token, intro plain; assumption)

lemma plain_parseIs [plain]: "progress n (parseIs left)"
  unfolding parseIs_def by (intro plain)

lemma first_parseComparisonOp: "hooks n P \<Longrightarrow> progress (Suc n) (parseComparisonOp P left)"
  unfolding parseComparisonOp_def
  by (intro first_peek progress_option first_token progress_ret; intro plain; assumption)

lemma first_parseComparisonTail: "hooks n P \<Longrightarrow> progress (Suc n) (parseComparisonTail P left)"
  unfolding parseComparisonTail_def
  by (intro first_peek progress_if first_parseBetween first_parseIn first_parseLike plain_parseIs
      first_parseComparisonOp)

text \<open>Continuing after a saved position, which a method may go back to.\<close>

definition keeps_from :: "parser \<Rightarrow> 'a pm \<Rightarrow> bool" where
  "keeps_from saved p \<longleftrightarrow> (\<forall>s. frame saved s \<longrightarrow> keeps saved (p s))"

lemma keeps_from_progress: "progress n p \<Longrightarrow> remaining saved < n \<Longrightarrow> keeps_from saved p"
proof -
  assume p: "progress n p" "remaining saved < n"
  show ?thesis unfolding keeps_from_def
  proof (intro allI impI)
    fix s assume f: "frame saved s"
    then have "keeps s (p s)" using p frame_remaining [OF f] by (simp add: progress_def)
    then show "keeps saved (p s)" using f by (rule keeps_frame [rotated])
  qed
qed

lemma keeps_from_bind:
  assumes "keeps_from saved m" "\<And>x. keeps_from saved (f x)"
  shows "keeps_from saved (bindP m f)"
  unfolding keeps_from_def
proof (intro allI impI)
  fix s assume "frame saved s"
  then have "keeps saved (m s)" using assms(1) by (simp add: keeps_from_def)
  then show "keeps saved (bindP m f s)"
    using assms(2) by (cases "m s") (auto simp: keeps_from_def bindP_def)
qed

lemma keeps_from_if: "keeps_from s p \<Longrightarrow> keeps_from s q \<Longrightarrow> keeps_from s (if b then p else q)"
  by simp

lemma keeps_from_restore:
  assumes "progress n p" "remaining saved < n"
  shows "keeps_from saved (\<lambda>s. p (s\<lparr>pos := pos saved\<rparr>))"
  unfolding keeps_from_def
proof (intro allI impI)
  fix s assume "frame saved s"
  then have "s\<lparr>pos := pos saved\<rparr> = saved" by (cases s, cases saved) (simp add: frame_def)
  then show "keeps saved (p (s\<lparr>pos := pos saved\<rparr>))" using assms by (simp add: progress_def)
qed

lemma first_parseNegatedTest:
  assumes "hooks n P"
  shows "progress (Suc n) (parseNegatedTest P left)"
  unfolding progress_def
proof (intro allI impI)
  fix s assume s: "remaining s < Suc n"
  note pr = keeps_from_progress [OF _ s]
  have "keeps_from s (bindP advance (\<lambda>_.
     bindP (isAt ''BETWEEN'') (\<lambda>between. if between then parseBetween P left True else
     bindP (isAt ''IN'') (\<lambda>inside. if inside then parseIn P left True else
     bindP (isAt ''LIKE'') (\<lambda>like. if like then parseLike P left True else
     (\<lambda>s'. parseComparisonTail P left (s'\<lparr>pos := pos s\<rparr>)))))))"
    by (intro keeps_from_bind pr [OF progress_advance] pr [OF progress_isAt(1)] keeps_from_if
        first_parseBetween [OF assms, THEN pr] first_parseIn [OF assms, THEN pr]
        first_parseLike [OF assms, THEN pr] keeps_from_restore [OF first_parseComparisonTail [OF assms] s])
  then show "keeps s (parseNegatedTest P left s)" by (simp add: parseNegatedTest_def keeps_from_def)
qed

lemma first_parseComparison: "hooks n P \<Longrightarrow> progress (Suc n) (parseComparison P)"
  unfolding parseComparison_def
  by (intro first_peek progress_if first_parseExists progress_bind [OF first_parseAddition]
      first_parseNegatedTest first_parseComparisonTail)

lemma first_parseNot: "hooks n P \<Longrightarrow> progress (Suc n) (parseNot P)"
  unfolding parseNot_def
  by (intro first_peek progress_if first_token first_parseComparison; (intro plain)?; assumption)

lemma first_parseExpression: "hooks n P \<Longrightarrow> progress (Suc n) (parseExpression P)"
  unfolding parseExpression_def parseOr_def parseAnd_def
  by (intro progress_binary_chain first_parseNot)

section \<open>FROM and queries\<close>

lemma plain_aliasGuard [plain]: "progress n aliasGuard"
  unfolding aliasGuard_def isJoinKeyword_def isClauseKeyword_def by (intro plain)

lemma plain_parseOptionalAlias [plain]:
  "progress n (parseOptionalAlias None)" "progress n (parseOptionalAlias (Some aliasGuard))"
  unfolding parseOptionalAlias_def option.case by (intro plain)+

lemma first_parseSubqueryRef: "hooks n P \<Longrightarrow> progress (Suc n) (parseSubqueryRef P)"
  unfolding parseSubqueryRef_def
  by (rule consumes_progress [OF consumes_bind [OF consumes_parens]]; (intro plain; assumption)?)

lemma progress_dotted: "progress n (whileAt tys (\<lambda>_. bindP advance (\<lambda>_. expectIdent)) x)"
  by (intro progress_whileAt consumes_advance_bind plain)

lemma first_parseTableRef: "hooks n P \<Longrightarrow> progress (Suc n) (parseTableRef P)"
  unfolding parseTableRef_def
  by (intro first_peek progress_if first_parseSubqueryRef first_token;
      (intro plain progress_dotted)?; assumption?)

lemma plain_parseTableRef [plain]: "hooks n P \<Longrightarrow> progress n (parseTableRef P)"
  by (rule progress_mono) (rule first_parseTableRef)

lemma plain_parseJoinType [plain]: "progress n parseJoinType"
  unfolding parseJoinType_def by (intro plain)

lemma consumes_parseJoin: "hooks n P \<Longrightarrow> consumes (Suc n) (parseJoin P left)"
  unfolding parseJoin_def
  by (rule consumes_bind_later [OF progress_tryConsume], rule consumes_bind_later [OF plain_parseJoinType],
      rule consumes_bind [OF consumes_expect], intro plain; assumption)

lemma first_parseFromClause: "hooks n P \<Longrightarrow> progress (Suc n) (parseFromClause P)"
  unfolding parseFromClause_def
  by (intro progress_bind [OF first_parseTableRef] progress_bind progress_whileAt consumes_parseJoin
      consumes_advance_bind first_parseTableRef progress_ret)

lemma plain_parseFromClause [plain]: "hooks n P \<Longrightarrow> progress n (parseFromClause P)"
  by (rule progress_mono) (rule first_parseFromClause)

lemma plain_parseSelectItems [plain]: "hooks n P \<Longrightarrow> progress n (parseSelectItems P)"
  unfolding parseSelectItems_def parseSelectItem_def by (intro plain; assumption)

lemma plain_parseCTE [plain]: "hooks n P \<Longrightarrow> progress n (parseCTE P)"
  unfolding parseCTE_def by (intro plain; assumption)

lemma first_parseWithClause: "hooks n P \<Longrightarrow> progress (Suc n) (parseWithClause P)"
  unfolding parseWithClause_def by (rule first_token, intro plain; assumption)

lemma plain_consumeSetQuantifier [plain]: "progress n consumeSetQuantifier"
  unfolding consumeSetQuantifier_def by (intro plain)

lemma plain_attachWith [plain]: "progress n (attachWith w q)"
  by (auto simp: attachWith_def intro!: plain split: option.splits query_stmt.splits)

lemma plain_optionally [plain]: "progress n p \<Longrightarrow> progress n (optionally b p)"
  unfolding optionally_def by (intro plain; assumption)

text \<open>An optional clause: its keyword, then the clause at one token less.\<close>

lemma first_clause:
  assumes "progress n p" "\<And>x. progress (Suc n) (f x)"
  shows "progress (Suc n) (bindP (bindP (tryConsume ty) (\<lambda>b. optionally b p)) f)"
proof (rule progress_bind)
  show "progress (Suc n) (bindP (tryConsume ty) (\<lambda>b. optionally b p))"
    unfolding optionally_def by (rule first_try) (auto intro: progress_bind assms(1) progress_ret)
qed (rule assms(2))

lemma first_parseSelectHead: "hooks n P \<Longrightarrow> progress (Suc n) (parseSelectHead P)"
  unfolding parseSelectHead_def
  by (intro first_peek progress_if first_token progress_ret; intro plain; assumption)

lemma first_parseSelectBody: "hooks n P \<Longrightarrow> progress (Suc n) (parseSelectBody P w)"
  unfolding parseSelectBody_def
  by (intro progress_bind [OF first_parseSelectHead] progress_prod first_clause progress_ret;
      (intro plain)?; assumption)

lemma first_parseSelectStmt:
  assumes "hooks n P"
  shows "progress (Suc n) (parseSelectStmt P)"
  unfolding parseSelectStmt_def
proof (rule progress_bind)
  show "progress (Suc n) (bindP (isAt ''WITH'') (\<lambda>b. optionally b (parseWithClause P)))"
    by (intro first_peek plain_optionally first_parseWithClause assms)
  show "progress (Suc n) (bindP (isAt ''LPAREN'') (\<lambda>paren.
     if paren then bindP advance (\<lambda>_. bindP (p_query P) (\<lambda>inner. bindP (expect ''RPAREN'') (\<lambda>_. attachWith w inner)))
     else parseSelectBody P w))" for w
    by (intro first_peek progress_if first_token first_parseSelectBody assms) (intro plain; rule assms)
qed

lemma first_parseQueryTail:
  assumes "hooks n P"
  shows "progress (Suc n) (parseQueryTail P)"
proof -
  have tail: "progress n (bindP (p_expr P) (\<lambda>limit. bindP (bindP (tryConsume ''OFFSET'') (\<lambda>b. optionally b (p_expr P)))
      (\<lambda>offset. retP (limit, offset))))"
    by (intro plain; rule assms)
  have order: "progress (Suc n) (optionally b (bindP advance (\<lambda>_. bindP (expect ''BY'') (\<lambda>_. parseOrderByList P))))" for b
    by (intro plain_optionally first_token; intro plain; rule assms)
  show ?thesis
    unfolding parseQueryTail_def
    by (rule first_peek(2), rule progress_bind [OF order], rule first_clause [OF tail], rule first_try;
        simp only: if_True if_False; intro plain; rule assms)
qed

lemma plain_attachQueryTail [plain]: "progress n (attachQueryTail q tail)"
  unfolding attachQueryTail_def by (intro plain)

lemma first_parseQueryTerm: "hooks n P \<Longrightarrow> progress (Suc n) (parseQueryTerm P)"
  unfolding parseQueryTerm_def
  by (intro progress_bind [OF first_parseSelectStmt] progress_whileAt consumes_advance_bind
      progress_bind [OF plain_consumeSetQuantifier] progress_ret)

lemma first_parseQueryExpr: "hooks n P \<Longrightarrow> progress (Suc n) (parseQueryExpr P)"
  unfolding parseQueryExpr_def
  by (intro progress_bind [OF first_parseQueryTerm] progress_bind [OF progress_whileAt]
      progress_bind [OF plain_consumeSetQuantifier] progress_bind [OF first_parseQueryTail]
      consumes_advance_bind progress_ret plain_attachQueryTail)

section \<open>Enough fuel\<close>

lemma parsers_at_hooks: "hooks n (parsers_at n)"
proof (induction n)
  case 0
  then show ?case by (simp add: hooks_def progress_def)
next
  case (Suc n)
  then show ?case
    by (simp add: hooks_def [of "Suc n"] Let_def first_parseExpression first_parseNot first_parseUnary
        first_parsePrimary first_parseQueryExpr first_parseFromClause)
qed

lemma plain_parseStatement: "hooks n P \<Longrightarrow> progress n (parseStatement P)"
  unfolding parseStatement_def parseCreateTable_def parseDropTable_def parseColumnDef_def
  by (intro plain; assumption)

lemma plain_at_end [plain]: "progress n (at_end x)"
  unfolding at_end_def by (intro plain)

lemma lex_not_fuel: "lex sql \<noteq> Inl OutOfFuel"
proof -
  have skip: "skipWhitespaceAndComments input rest \<noteq> Inl OutOfFuel" for input rest
    by (induction input rest rule: skipWhitespaceAndComments.induct)
      (auto simp: skipBlockComment_def lex_fail_def split: option.splits)
  have read: "readToken input rest \<noteq> Inl OutOfFuel" for input rest
    by (auto simp: readToken_def readString_def readQuotedIdent_def readPlaceholder_def readNumber_def
        readIdentOrKeyword_def readSymbol_def lex_fail_def Let_def split: option.splits)
  have "tokenize input rest \<noteq> Inl OutOfFuel" for input rest
  proof (induction input rest rule: tokenize.induct)
    case (1 input rest)
    show ?case
      using 1 skip [of input rest] read
      by (subst tokenize.simps) (fastforce split: sum.splits list.splits prod.splits)
  qed
  then show ?thesis by (simp add: lex_def)
qed

lemma run_parser_returns:
  assumes "\<And>n P. hooks n P \<Longrightarrow> progress n (p P)"
  shows "run_parser sql p \<noteq> Inl OutOfFuel"
proof (cases "lex sql")
  case (Inl e)
  then show ?thesis using lex_not_fuel [of sql] by (simp add: run_parser_def)
next
  case (Inr ts)
  let ?n = "Suc (length ts)"
  let ?s = "\<lparr>source = sql, tokens = ts, pos = 0\<rparr>"
  have "progress ?n (bindP (p (parsers_at ?n)) at_end)"
    by (intro progress_bind assms plain_at_end parsers_at_hooks)
  then have "keeps ?s (bindP (p (parsers_at ?n)) at_end ?s)" by (simp add: progress_def remaining_def)
  then show ?thesis
    using Inr by (cases "bindP (p (parsers_at ?n)) at_end ?s") (auto simp: run_parser_def)
qed

lemma parse_returns: "parse sql \<noteq> Inl OutOfFuel"
  unfolding parse_def by (rule run_parser_returns) (rule plain_parseStatement)

lemma parse_expression_returns: "parse_expression sql \<noteq> Inl OutOfFuel"
  unfolding parse_expression_def by (rule run_parser_returns) (rule hooks_progress)

end
