(* ===== verification/ParserGrammar.thy ===== *)
theory ParserGrammar
  imports ParserTotal
begin

text \<open>
  The expression grammar of the parser. \<open>spells k e ts\<close> says that the tokens \<open>ts\<close> spell the
  expression \<open>e\<close> at precedence level \<open>k\<close>: 0 is OR, 1 AND, 2 NOT, 3 the comparisons, 4 addition, 5
  multiplication, 6 the signs, 7 the primary expressions. The parser of level \<open>k\<close>, started on such tokens
  and followed by a token that does not continue the expression, returns \<open>e\<close> and stops after
  them (\<open>accepts\<close>).
\<close>

section \<open>The tokens ahead\<close>

type_synonym tok = "string \<times> string"

definition view :: "parser \<Rightarrow> tok list" where
  "view s = map (\<lambda>t. (tk_type t, tk_value t)) (drop (pos s) (tokens s))"

definition skip :: "nat \<Rightarrow> parser \<Rightarrow> parser" where
  "skip k s = s\<lparr>pos := pos s + k\<rparr>"

lemma length_view: "length (view s) = remaining s"
  by (simp add: view_def remaining_def)

lemma view_skip [simp]: "view (skip k s) = drop k (view s)"
  by (simp add: view_def skip_def drop_map add.commute)

lemma skip_zero [simp]: "skip 0 s = s"
  by (simp add: skip_def)

lemma skip_skip [simp]: "skip j (skip k s) = skip (k + j) s"
  by (simp add: skip_def add.assoc)

lemma skip_remaining [simp]: "remaining (skip k s) = remaining s - k"
  by (simp add: skip_def remaining_def)

lemma view_Cons:
  assumes "view s = x # r"
  obtains t where "tk_type t = fst x" "tk_value t = snd x" "peek s = Inr (t, s)" "advance s = Inr (t, skip 1 s)"
proof -
  have lt: "pos s < length (tokens s)" using assms by (rule_tac ccontr) (simp add: view_def)
  have "drop (pos s) (tokens s) = tokens s ! pos s # drop (Suc (pos s)) (tokens s)"
    using lt by (rule Cons_nth_drop_Suc [symmetric])
  then have x: "tk_type (tokens s ! pos s) = fst x" "tk_value (tokens s ! pos s) = snd x"
    using assms by (auto simp: view_def)
  show ?thesis by (rule that [OF x]) (simp_all add: peek_def advance_def skip_def lt)
qed

section \<open>Accepting a token sequence\<close>

definition stops :: "string set \<Rightarrow> tok list \<Rightarrow> bool" where
  "stops C r \<longleftrightarrow> r \<noteq> [] \<and> fst (hd r) \<notin> C"

text \<open>
  With fewer than \<open>n\<close> tokens ahead, \<open>p\<close> reads \<open>ts\<close> as \<open>x\<close> when a token of a type outside \<open>C\<close> follows.
\<close>

definition accepts :: "nat \<Rightarrow> 'a pm \<Rightarrow> tok list \<Rightarrow> 'a \<Rightarrow> string set \<Rightarrow> bool" where
  "accepts n p ts x C \<longleftrightarrow>
     (\<forall>s r. view s = ts @ r \<longrightarrow> stops C r \<longrightarrow> remaining s < n \<longrightarrow> p s = Inr (x, skip (length ts) s))"

lemma accepts_mono: "accepts (Suc n) p ts x C \<Longrightarrow> accepts n p ts x C"
  by (simp add: accepts_def)

lemma accepts_more: "accepts n p ts x C \<Longrightarrow> C \<subseteq> D \<Longrightarrow> accepts n p ts x D"
  by (auto simp: accepts_def stops_def)

lemma acc_ret: "accepts n (retP x) [] x C"
  by (simp add: accepts_def retP_def)

lemma acc_bind:
  assumes m: "accepts n m ts x C" and f: "accepts n (f x) us y D"
    and next_ok: "us = [] \<Longrightarrow> C \<subseteq> D" "us \<noteq> [] \<Longrightarrow> fst (hd us) \<notin> C"
  shows "accepts n (bindP m f) (ts @ us) y D"
  unfolding accepts_def
proof (intro allI impI)
  fix s r assume v: "view s = (ts @ us) @ r" and st: "stops D r" and n: "remaining s < n"
  have "stops C (us @ r)" using st next_ok by (cases us) (auto simp: stops_def)
  then have "m s = Inr (x, skip (length ts) s)" using m v n by (simp add: accepts_def)
  moreover have "f x (skip (length ts) s) = Inr (y, skip (length us) (skip (length ts) s))"
    using f v st n by (auto simp: accepts_def)
  ultimately show "bindP m f s = Inr (y, skip (length (ts @ us)) s)" by (simp add: bindP_def)
qed

text \<open>After a consumed token, one token less is ahead.\<close>

lemma acc_take:
  assumes m: "\<And>s r. view s = a # r \<Longrightarrow> \<exists>t :: token. tk_type t = fst a \<and> tk_value t = snd a \<and> m s = Inr (g t, skip 1 s)"
    and f: "\<And>t :: token. tk_type t = fst a \<Longrightarrow> tk_value t = snd a \<Longrightarrow> accepts n (f (g t)) us y D"
  shows "accepts (Suc n) (bindP m f) (a # us) y D"
  unfolding accepts_def
proof (intro allI impI)
  fix s r assume v: "view s = (a # us) @ r" and st: "stops D r" and n: "remaining s < Suc n"
  have lv: "length (view s) = remaining s" by (rule length_view)
  then have "remaining s \<noteq> 0" using v by auto
  then have n': "remaining (skip 1 s) < n" using n by simp
  obtain t where t: "tk_type t = fst a" "tk_value t = snd a" "m s = Inr (g t, skip 1 s)"
    using m [of s "us @ r"] v by auto
  have "f (g t) (skip 1 s) = Inr (y, skip (length us) (skip 1 s))"
    using f [OF t(1,2)] v st n' unfolding accepts_def by simp
  then show "bindP m f s = Inr (y, skip (length (a # us)) s)" using t(3) by (simp add: bindP_def)
qed

lemma acc_advance:
  assumes "\<And>t :: token. tk_type t = fst a \<Longrightarrow> tk_value t = snd a \<Longrightarrow> accepts n (f t) us y D"
  shows "accepts (Suc n) (bindP advance f) (a # us) y D"
proof (rule acc_take [where g = "\<lambda>t. t"])
  show "\<exists>t :: token. tk_type t = fst a \<and> tk_value t = snd a \<and> advance s = Inr (t, skip 1 s)" if "view s = a # r" for s r
    using view_Cons [OF that] by metis
qed (rule assms)

lemma acc_expect:
  assumes "fst a = ty" "\<And>t :: token. tk_type t = fst a \<Longrightarrow> tk_value t = snd a \<Longrightarrow> accepts n (f t) us y D"
  shows "accepts (Suc n) (bindP (expect ty) f) (a # us) y D"
proof (rule acc_take [where g = "\<lambda>t. t"])
  show "\<exists>t :: token. tk_type t = fst a \<and> tk_value t = snd a \<and> expect ty s = Inr (t, skip 1 s)" if v: "view s = a # r" for s r
  proof -
    obtain t where t: "tk_type t = fst a" "tk_value t = snd a" "peek s = Inr (t, s)" "advance s = Inr (t, skip 1 s)"
      by (rule view_Cons [OF v])
    show ?thesis by (rule exI [of _ t]) (use t assms(1) in \<open>simp add: expect_def bindP_def\<close>)
  qed
qed (rule assms)

lemma acc_ident:
  assumes "fst a = ''IDENT''" "accepts n (f (snd a)) us y D"
  shows "accepts (Suc n) (bindP expectIdent f) (a # us) y D"
proof (rule acc_take [where g = "\<lambda>t. snd a"])
  show "\<exists>t :: token. tk_type t = fst a \<and> tk_value t = snd a \<and> expectIdent s = Inr (snd a, skip 1 s)" if v: "view s = a # r" for s r
  proof -
    obtain t where t: "tk_type t = fst a" "tk_value t = snd a" "peek s = Inr (t, s)" "advance s = Inr (t, skip 1 s)"
      by (rule view_Cons [OF v])
    show ?thesis by (rule exI [of _ t]) (use t assms(1) in \<open>simp add: expectIdent_def bindP_def retP_def\<close>)
  qed
qed (rule assms)

text \<open>Tests of the next token: the first of \<open>us\<close>, or the one that follows when \<open>us\<close> is empty.\<close>

definition next_type :: "tok list \<Rightarrow> string set \<Rightarrow> string \<Rightarrow> bool" where
  "next_type us D ty \<longleftrightarrow> (case us of [] \<Rightarrow> ty \<notin> D | u # _ \<Rightarrow> ty = fst u)"

lemma next_type_view: "view s = us @ r \<Longrightarrow> stops D r \<Longrightarrow> \<exists>x q. view s = x # q \<and> next_type us D (fst x)"
  by (cases us; cases r) (auto simp: next_type_def stops_def)

lemma acc_test:
  assumes m: "\<And>s x r. view s = x # r \<Longrightarrow> \<exists>t :: token. tk_type t = fst x \<and> tk_value t = snd x \<and> m s = Inr (g t, s)"
    and f: "\<And>t :: token. next_type us D (tk_type t) \<Longrightarrow> (us \<noteq> [] \<Longrightarrow> tk_value t = snd (hd us)) \<Longrightarrow> accepts n (f (g t)) us y D"
  shows "accepts n (bindP m f) us y D"
  unfolding accepts_def
proof (intro allI impI)
  fix s r assume v: "view s = us @ r" and st: "stops D r" and n: "remaining s < n"
  obtain x q where x: "view s = x # q" "next_type us D (fst x)" using next_type_view [OF v st] by blast
  obtain t where t: "tk_type t = fst x" "tk_value t = snd x" "m s = Inr (g t, s)" using m [OF x(1)] by blast
  have "us \<noteq> [] \<Longrightarrow> tk_value t = snd (hd us)" using v x(1) t(2) by (cases us) auto
  then have "f (g t) s = Inr (y, skip (length us) s)"
    using f [of t] x(2) t(1) v st n by (auto simp: accepts_def)
  then show "bindP m f s = Inr (y, skip (length us) s)" using t(3) by (simp add: bindP_def)
qed

lemma acc_peek:
  assumes "\<And>t :: token. next_type us D (tk_type t) \<Longrightarrow> (us \<noteq> [] \<Longrightarrow> tk_value t = snd (hd us)) \<Longrightarrow> accepts n (f t) us y D"
  shows "accepts n (bindP peek f) us y D"
proof (rule acc_test [where g = "\<lambda>t. t"])
  show "\<exists>t :: token. tk_type t = fst x \<and> tk_value t = snd x \<and> peek s = Inr (t, s)" if "view s = x # r" for s x r
    using view_Cons [OF that] by metis
qed (rule assms)

lemma acc_isAtAny:
  assumes "\<And>ty. next_type us D ty \<Longrightarrow> accepts n (f (ty \<in> set tys)) us y D"
  shows "accepts n (bindP (isAtAny tys) f) us y D"
proof (rule acc_test [where g = "\<lambda>t. tk_type t \<in> set tys"])
  show "\<exists>t :: token. tk_type t = fst x \<and> tk_value t = snd x \<and> isAtAny tys s = Inr (tk_type t \<in> set tys, s)"
    if v: "view s = x # r" for s x r
  proof -
    obtain t where t: "tk_type t = fst x" "tk_value t = snd x" "peek s = Inr (t, s)" "advance s = Inr (t, skip 1 s)"
      by (rule view_Cons [OF v])
    show ?thesis by (rule exI [of _ t]) (use t in \<open>simp add: isAtAny_def bindP_def retP_def\<close>)
  qed
qed (rule assms)

lemma isAt_any: "isAt ty = isAtAny [ty]"
  by (simp add: isAt_def isAtAny_def)

lemma acc_isAt:
  assumes "\<And>ty'. next_type us D ty' \<Longrightarrow> accepts n (f (ty' = ty)) us y D"
  shows "accepts n (bindP (isAt ty) f) us y D"
  unfolding isAt_any by (rule acc_isAtAny) (use assms in simp)

text \<open>\<open>tryConsume\<close> when the next token has the type, and when it has another.\<close>

lemma acc_try_yes:
  assumes "fst a = ty" "accepts n (f True) us y D"
  shows "accepts (Suc n) (bindP (tryConsume ty) f) (a # us) y D"
proof (rule acc_take [where g = "\<lambda>_. True"])
  show "\<exists>t :: token. tk_type t = fst a \<and> tk_value t = snd a \<and> tryConsume ty s = Inr (True, skip 1 s)" if v: "view s = a # r" for s r
  proof -
    obtain t where t: "tk_type t = fst a" "tk_value t = snd a" "peek s = Inr (t, s)" "advance s = Inr (t, skip 1 s)"
      by (rule view_Cons [OF v])
    show ?thesis
      by (rule exI [of _ t]) (use t assms(1) in \<open>simp add: tryConsume_def isAt_def bindP_def retP_def\<close>)
  qed
qed (rule assms)

lemma acc_try_no:
  assumes "\<And>ty'. next_type us D ty' \<Longrightarrow> ty' \<noteq> ty" "accepts n (f False) us y D"
  shows "accepts n (bindP (tryConsume ty) f) us y D"
  unfolding accepts_def
proof (intro allI impI)
  fix s r assume v: "view s = us @ r" and st: "stops D r" and n: "remaining s < n"
  obtain x q where x: "view s = x # q" "next_type us D (fst x)" using next_type_view [OF v st] by blast
  obtain t where t: "tk_type t = fst x" "tk_value t = snd x" "peek s = Inr (t, s)" "advance s = Inr (t, skip 1 s)"
    by (rule view_Cons [OF x(1)])
  have "tryConsume ty s = Inr (False, s)"
    using t assms(1) [OF x(2)] by (simp add: tryConsume_def isAt_def bindP_def retP_def)
  then show "bindP (tryConsume ty) f s = Inr (y, skip (length us) s)"
    using assms(2) v st n by (simp add: bindP_def accepts_def)
qed

lemma acc_ahead:
  assumes "\<And>b. (\<And>u v us'. us = u # v # us' \<Longrightarrow> b = (fst v = ty)) \<Longrightarrow> (\<And>u. us = [u] \<Longrightarrow> ty \<in> D \<Longrightarrow> \<not> b) \<Longrightarrow>
      accepts n (f b) us y D"
  shows "accepts n (bindP (aheadIs 1 ty) f) us y D"
  unfolding accepts_def
proof (intro allI impI)
  fix s r assume v: "view s = us @ r" and st: "stops D r" and n: "remaining s < n"
  let ?b = "pos s + 1 < length (tokens s) \<and> tk_type (tokens s ! (pos s + 1)) = ty"
  have b: "?b \<longleftrightarrow> 1 < length (us @ r) \<and> fst ((us @ r) ! 1) = ty"
    unfolding v [symmetric] by (auto simp: view_def)
  have "accepts n (f ?b) us y D"
    by (rule assms; unfold b) (use st in \<open>cases r; auto simp: stops_def\<close>)+
  then show "bindP (aheadIs 1 ty) f s = Inr (y, skip (length us) s)"
    using v st n by (simp add: bindP_def aheadIs_def accepts_def)
qed

section \<open>The grammar\<close>

abbreviation kw :: "string \<Rightarrow> tok" where "kw k \<equiv> (k, k)"

abbreviation lparen :: tok where "lparen \<equiv> (''LPAREN'', ''('')"

abbreviation rparen :: tok where "rparen \<equiv> (''RPAREN'', '')'')"

abbreviation comma :: tok where "comma \<equiv> (''COMMA'', '','')"

abbreviation dot :: tok where "dot \<equiv> (''DOT'', ''.'')"

text \<open>The sign of a negated test: nothing or NOT.\<close>

definition negation :: "bool \<Rightarrow> tok list" where
  "negation b = (if b then [kw ''NOT''] else [])"

inductive spells :: "nat \<Rightarrow> expr \<Rightarrow> tok list \<Rightarrow> bool"
  and spells_list :: "expr list \<Rightarrow> tok list \<Rightarrow> bool"
  and spells_else :: "expr option \<Rightarrow> tok list \<Rightarrow> bool"
  and spells_whens :: "expr when_clause list \<Rightarrow> tok list \<Rightarrow> bool"
where
  number: "e = (if isApproximateLiteral v then Literal (LNum (parseFloat v)) (Some FLOAT64)
     else Literal (LNum (parseInt v)) None) \<Longrightarrow> spells 7 e [(''NUMBER'', v)]"
| text_literal: "spells 7 (Literal (LStr v) (Some VARCHAR)) [(''STRING'', v)]"
| null_literal: "spells 7 (Literal LNull None) [kw ''NULL'']"
| true_literal: "spells 7 (Literal (LBool True) (Some BOOLEAN)) [kw ''TRUE'']"
| false_literal: "spells 7 (Literal (LBool False) (Some BOOLEAN)) [kw ''FALSE'']"
| date_literal: "spells 7 (Literal (LStr v) (Some DATE)) [kw ''DATE'', (''STRING'', v)]"
| timestamp_literal: "spells 7 (Literal (LStr v) (Some TIMESTAMP)) [kw ''TIMESTAMP'', (''STRING'', v)]"
| interval: "spells 7 (IntervalExpr v (toUpperCase u)) [kw ''INTERVAL'', (''STRING'', v), (''IDENT'', u)]"
| placeholder: "spells 7 (Parameter (parseFloat v)) [(''PLACEHOLDER'', v)]"
| colon_parameter: "spells 7 (Parameter (parseFloat v)) [(''COLON'', '':''), (''NUMBER'', v)]"
| column: "spells 7 (ColumnRef c None) [(''IDENT'', c)]"
| qualified_column: "spells 7 (ColumnRef c (Some t)) [(''IDENT'', t), dot, (''IDENT'', c)]"
| call_none: "spells 7 (FunctionCall f []) [(''IDENT'', f), lparen, rparen]"
| call: "spells_list args ts \<Longrightarrow> spells 7 (FunctionCall f args) ((''IDENT'', f) # lparen # ts @ [rparen])"
| count_star: "spells 7 (AggregateCall ''COUNT_STAR'' [] False) [kw ''COUNT'', lparen, (''STAR'', ''*''), rparen]"
| aggregate: "isAggregateKeyword a \<Longrightarrow> spells_list args ts \<Longrightarrow>
    spells 7 (AggregateCall a args False) (kw a # lparen # ts @ [rparen])"
| aggregate_distinct: "isAggregateKeyword a \<Longrightarrow> spells_list args ts \<Longrightarrow>
    spells 7 (AggregateCall a args True) (kw a # lparen # kw ''DISTINCT'' # ts @ [rparen])"
| searched_case: "spells_whens ws us \<Longrightarrow> spells_else el vs \<Longrightarrow>
    spells 7 (CaseExpr None ws el) (kw ''CASE'' # us @ vs @ [kw ''END''])"
| simple_case: "spells 0 e ts \<Longrightarrow> spells_whens ws us \<Longrightarrow> spells_else el vs \<Longrightarrow>
    spells 7 (CaseExpr (Some e) ws el) (kw ''CASE'' # ts @ us @ vs @ [kw ''END''])"
| cast_to: "spells 0 e ts \<Longrightarrow>
    spells 7 (CastExpr e (TypeName (toUpperCase t) [])) (kw ''CAST'' # lparen # ts @ [kw ''AS'', (''IDENT'', t), rparen])"
| extract_field: "fst f \<notin> {''LPAREN'', ''RPAREN'', ''SELECT'', ''WITH'', ''FROM''} \<Longrightarrow> spells 0 e ts \<Longrightarrow>
    spells 7 (ExtractExpr (toUpperCase (snd f)) e) (kw ''EXTRACT'' # lparen # f # kw ''FROM'' # ts @ [rparen])"
| substring_from: "spells 0 e ts \<Longrightarrow> spells 0 a us \<Longrightarrow> spells 0 l vs \<Longrightarrow>
    spells 7 (SubstringExpr e a (Some l))
      (kw ''SUBSTRING'' # lparen # ts @ kw ''FROM'' # us @ kw ''FOR'' # vs @ [rparen])"
| substring_comma: "spells 0 e ts \<Longrightarrow> spells 0 a us \<Longrightarrow> spells 0 l vs \<Longrightarrow>
    spells 7 (SubstringExpr e a (Some l)) (kw ''SUBSTRING'' # lparen # ts @ comma # us @ comma # vs @ [rparen])"
| trim_both: "spells 0 e ts \<Longrightarrow> spells 7 (FunctionCall ''TRIM'' [e]) (kw ''TRIM'' # lparen # ts @ [rparen])"
| trim_spec: "sp \<in> {''LEADING'', ''TRAILING'', ''BOTH''} \<Longrightarrow> spells 0 c us \<Longrightarrow> spells 0 e ts \<Longrightarrow>
    spells 7 (FunctionCall ''TRIM'' [e, Literal (LStr sp) None, c])
      (kw ''TRIM'' # lparen # kw sp # us @ kw ''FROM'' # ts @ [rparen])"
| parenthesized: "spells 0 e ts \<Longrightarrow> spells 7 e (lparen # ts @ [rparen])"
| minus_sign: "spells 6 e ts \<Longrightarrow> spells 6 (UnaryExpr ''-'' e) ((''MINUS'', ''-'') # ts)"
| plus_sign: "spells 6 e ts \<Longrightarrow> spells 6 e ((''PLUS'', ''+'') # ts)"
| multiplication: "spells 5 l ts \<Longrightarrow> spells 6 r us \<Longrightarrow> ty \<in> {''STAR'', ''SLASH'', ''PERCENT''} \<Longrightarrow>
    spells 5 (BinaryExpr v l (Plain r)) (ts @ (ty, v) # us)"
| addition: "spells 4 l ts \<Longrightarrow> spells 5 r us \<Longrightarrow> ty \<in> {''PLUS'', ''MINUS'', ''CONCAT''} \<Longrightarrow>
    spells 4 (BinaryExpr v l (Plain r)) (ts @ (ty, v) # us)"
| comparison: "spells 4 l ts \<Longrightarrow> spells 4 r us \<Longrightarrow> map_of opMap ty = Some op \<Longrightarrow>
    spells 3 (BinaryExpr op l (Plain r)) (ts @ (ty, v) # us)"
| between: "spells 4 e ts \<Longrightarrow> spells 4 a us \<Longrightarrow> spells 4 b vs \<Longrightarrow>
    spells 3 (BetweenExpr e a b neg) (ts @ negation neg @ kw ''BETWEEN'' # us @ kw ''AND'' # vs)"
| in_values: "spells 4 e ts \<Longrightarrow> spells_list es us \<Longrightarrow>
    spells 3 (InExpr e (InList es) neg) (ts @ negation neg @ kw ''IN'' # lparen # us @ [rparen])"
| like_pattern: "spells 4 e ts \<Longrightarrow> spells 4 p us \<Longrightarrow>
    spells 3 (LikeExpr e p neg) (ts @ negation neg @ kw ''LIKE'' # us)"
| is_null: "spells 4 e ts \<Longrightarrow> spells 3 (IsNullExpr e neg) (ts @ kw ''IS'' # negation neg @ [kw ''NULL''])"
| is_true: "spells 4 e ts \<Longrightarrow> spells 3 (truthTest e ''IS_TRUE'' neg) (ts @ kw ''IS'' # negation neg @ [kw ''TRUE''])"
| is_false: "spells 4 e ts \<Longrightarrow> spells 3 (truthTest e ''IS_FALSE'' neg) (ts @ kw ''IS'' # negation neg @ [kw ''FALSE''])"
| not_expr: "spells 2 e ts \<Longrightarrow> spells 2 (UnaryExpr ''NOT'' e) (kw ''NOT'' # ts)"
| conjunction: "spells 1 l ts \<Longrightarrow> spells 2 r us \<Longrightarrow> spells 1 (BinaryExpr ''AND'' l (Plain r)) (ts @ kw ''AND'' # us)"
| disjunction: "spells 0 l ts \<Longrightarrow> spells 1 r us \<Longrightarrow> spells 0 (BinaryExpr ''OR'' l (Plain r)) (ts @ kw ''OR'' # us)"
| up: "spells (Suc k) e ts \<Longrightarrow> k < 7 \<Longrightarrow> spells k e ts"
| list_one: "spells 0 e ts \<Longrightarrow> spells_list [e] ts"
| list_more: "spells 0 e ts \<Longrightarrow> spells_list es us \<Longrightarrow> spells_list (e # es) (ts @ comma # us)"
| else_none: "spells_else None []"
| else_some: "spells 0 e ts \<Longrightarrow> spells_else (Some e) (kw ''ELSE'' # ts)"
| whens_one: "spells 0 c ts \<Longrightarrow> spells 0 e us \<Longrightarrow> spells_whens [WhenClause c e] (kw ''WHEN'' # ts @ kw ''THEN'' # us)"
| whens_more: "spells_whens ws vs \<Longrightarrow> spells 0 c ts \<Longrightarrow> spells 0 e us \<Longrightarrow>
    spells_whens (ws @ [WhenClause c e]) (vs @ kw ''WHEN'' # ts @ kw ''THEN'' # us)"

text \<open>The token types an expression can start with.\<close>

definition STARTS :: "string set" where
  "STARTS = {''NUMBER'', ''STRING'', ''NULL'', ''TRUE'', ''FALSE'', ''DATE'', ''TIMESTAMP'', ''INTERVAL'', ''IDENT'',
     ''PLACEHOLDER'', ''COLON'', ''SUM'', ''AVG'', ''COUNT'', ''MIN'', ''MAX'', ''CASE'', ''CAST'', ''EXTRACT'',
     ''SUBSTRING'', ''TRIM'', ''LPAREN''}"

definition starts :: "nat \<Rightarrow> tok list \<Rightarrow> bool" where
  "starts k ts \<longleftrightarrow> ts \<noteq> [] \<and>
     (fst (hd ts) \<in> STARTS \<or> k \<le> 6 \<and> fst (hd ts) \<in> {''MINUS'', ''PLUS''} \<or> k \<le> 2 \<and> fst (hd ts) = ''NOT'')"

lemma starts_append: "starts k ts \<Longrightarrow> starts k (ts @ us)"
  by (cases ts) (auto simp: starts_def)

lemma starts_mono: "starts (Suc k) ts \<Longrightarrow> starts k ts"
  by (auto simp: starts_def)

lemma starts_weaken: "starts k ts \<Longrightarrow> j \<le> k \<Longrightarrow> starts j ts"
  by (auto simp: starts_def)

lemma starts_head: "fst x \<in> STARTS \<Longrightarrow> starts k (x # ts)"
  by (simp add: starts_def)

lemma spells_starts:
  "spells k e ts \<Longrightarrow> starts k ts"
  "spells_list es ts \<Longrightarrow> starts 0 ts"
  "spells_else el ts \<Longrightarrow> ts = [] \<or> fst (hd ts) = ''ELSE''"
  "spells_whens ws ts \<Longrightarrow> ts \<noteq> [] \<and> fst (hd ts) = ''WHEN''"
proof (induction rule: spells_spells_list_spells_else_spells_whens.inducts)
  case (aggregate a args ts)
  then show ?case by (auto simp: starts_def isAggregateKeyword_def STARTS_def)
next
  case (aggregate_distinct a args ts)
  then show ?case by (auto simp: starts_def isAggregateKeyword_def STARTS_def)
next
  case (whens_more ws vs c ts e us)
  then show ?case by (cases vs) auto
qed (auto intro: starts_append starts_mono simp: starts_def STARTS_def)

section \<open>Parentheses\<close>

fun scan :: "int \<Rightarrow> bool \<Rightarrow> string list \<Rightarrow> bool" where
  "scan depth first [] = False"
| "scan depth first (ty # tys) =
     (let d = (if ty = ''LPAREN'' then depth + 1 else if ty = ''RPAREN'' then depth - 1 else depth)
      in if d = 0 \<and> \<not> first then False
         else if d = 1 \<and> ty \<in> {''SELECT'', ''WITH'', ''FROM''} then True
         else scan d False tys)"

lemma subquery_scan_types: "subquery_scan depth first ts = scan depth first (map tk_type ts)"
proof (induction depth first ts rule: subquery_scan.induct)
  case (2 depth first t ts)
  have d: "depth_after t depth
      = (if tk_type t = ''LPAREN'' then depth + 1 else if tk_type t = ''RPAREN'' then depth - 1 else depth)"
    by (auto simp: depth_after_def)
  note ih = 2 [OF refl]
  show ?case
    by (simp only: subquery_scan.simps list.map scan.simps d [symmetric] Let_def)
      (intro if_cong refl, rule ih)
qed simp

text \<open>Inside a parenthesis, the tokens of an expression are passed over.\<close>

definition quiet :: "tok list \<Rightarrow> bool" where
  "quiet ts \<longleftrightarrow> (\<forall>d\<ge>1. \<forall>r. scan d False (map fst ts @ r) = scan d False r)"

lemma quiet_Nil: "quiet []"
  by (simp add: quiet_def)

lemma quiet_append: "quiet ts \<Longrightarrow> quiet us \<Longrightarrow> quiet (ts @ us)"
  by (simp add: quiet_def)

lemma quiet_single:
  "fst t \<notin> {''LPAREN'', ''RPAREN'', ''SELECT'', ''WITH'', ''FROM''} \<Longrightarrow> quiet [t]"
  by (auto simp: quiet_def)

lemma quiet_Cons:
  "fst t \<notin> {''LPAREN'', ''RPAREN'', ''SELECT'', ''WITH'', ''FROM''} \<Longrightarrow> quiet ts \<Longrightarrow> quiet (t # ts)"
  using quiet_append [OF quiet_single [of t]] by simp

text \<open>One level deeper, FROM is passed over too.\<close>

definition deep :: "tok list \<Rightarrow> bool" where
  "deep ts \<longleftrightarrow> (\<forall>d\<ge>2. \<forall>r. scan d False (map fst ts @ r) = scan d False r)"

lemma deep_Nil: "deep []"
  by (simp add: deep_def)

lemma deep_append: "deep ts \<Longrightarrow> deep us \<Longrightarrow> deep (ts @ us)"
  by (simp add: deep_def)

lemma deep_single: "fst t \<notin> {''LPAREN'', ''RPAREN''} \<Longrightarrow> deep [t]"
  by (auto simp: deep_def)

lemma quiet_deep: "quiet ts \<Longrightarrow> deep ts"
  by (simp add: quiet_def deep_def)

lemma deep_Cons: "fst t \<notin> {''LPAREN'', ''RPAREN''} \<Longrightarrow> deep ts \<Longrightarrow> deep (t # ts)"
  using deep_append [OF deep_single [of t]] by simp

lemma quiet_parens: "deep ts \<Longrightarrow> quiet (lparen # ts @ [rparen])"
  by (auto simp: quiet_def deep_def)

lemma quiet_negation: "quiet (negation b)"
  by (simp add: negation_def quiet_Nil quiet_single)

lemmas quiet_intros = quiet_Nil quiet_append quiet_Cons quiet_parens quiet_negation
lemmas deep_intros = deep_Nil deep_Cons deep_append quiet_deep

lemma opMap_types: "map_of opMap ty = Some op \<Longrightarrow> ty \<in> {''EQ'', ''NEQ'', ''LT'', ''GT'', ''LTE'', ''GTE''}"
  by (auto simp: opMap_def split: if_splits)

lemma spells_quiet:
  "spells k e ts \<Longrightarrow> quiet ts"
  "spells_list es ts \<Longrightarrow> quiet ts"
  "spells_else el ts \<Longrightarrow> quiet ts"
  "spells_whens ws ts \<Longrightarrow> quiet ts"
proof (induction rule: spells_spells_list_spells_else_spells_whens.inducts)
  case (call args ts f)
  then show ?case by (intro quiet_Cons quiet_parens deep_intros) simp_all
next
  case (aggregate a args ts)
  then show ?case by (intro quiet_Cons quiet_parens deep_intros) (auto simp: isAggregateKeyword_def)
next
  case (aggregate_distinct a args ts)
  then have "quiet (lparen # (kw ''DISTINCT'' # ts) @ [rparen])" by (intro quiet_parens deep_intros) simp_all
  from quiet_Cons [OF _ this, of "kw a"] show ?case
    using aggregate_distinct(1) by (auto simp: isAggregateKeyword_def)
next
  case (call_none f)
  have "quiet (lparen # [] @ [rparen])" by (intro quiet_parens deep_intros)
  from quiet_Cons [OF _ this, of "(''IDENT'', f)"] show ?case by simp
next
  case count_star
  have "quiet (lparen # [(''STAR'', ''*'')] @ [rparen])" by (intro quiet_parens deep_intros) simp
  from quiet_Cons [OF _ this, of "kw ''COUNT''"] show ?case by simp
next
  case (cast_to e ts t)
  then have "quiet (lparen # (ts @ [kw ''AS'', (''IDENT'', t)]) @ [rparen])"
    by (intro quiet_parens deep_append quiet_deep [OF cast_to.IH] deep_Cons deep_Nil) simp_all
  from quiet_Cons [OF _ this, of "kw ''CAST''"] show ?case by simp
next
  case (extract_field f e ts)
  then have "quiet (lparen # (f # kw ''FROM'' # ts) @ [rparen])"
    by (intro quiet_parens deep_Cons quiet_deep) simp_all
  from quiet_Cons [OF _ this, of "kw ''EXTRACT''"] show ?case by simp
next
  case (substring_from e ts a us l vs)
  then have "quiet (lparen # (ts @ kw ''FROM'' # us @ kw ''FOR'' # vs) @ [rparen])"
    by (intro quiet_parens deep_append deep_Cons quiet_deep) simp_all
  from quiet_Cons [OF _ this, of "kw ''SUBSTRING''"] show ?case by simp
next
  case (substring_comma e ts a us l vs)
  then have "quiet (lparen # (ts @ comma # us @ comma # vs) @ [rparen])"
    by (intro quiet_parens deep_append deep_Cons quiet_deep) simp_all
  from quiet_Cons [OF _ this, of "kw ''SUBSTRING''"] show ?case by simp
next
  case (trim_both e ts)
  then have "quiet (lparen # ts @ [rparen])" by (intro quiet_parens quiet_deep)
  from quiet_Cons [OF _ this, of "kw ''TRIM''"] show ?case by simp
next
  case (trim_spec sp c us e ts)
  then have "quiet (lparen # (kw sp # us @ kw ''FROM'' # ts) @ [rparen])"
    by (intro quiet_parens deep_append deep_Cons quiet_deep) auto
  from quiet_Cons [OF _ this, of "kw ''TRIM''"] show ?case by simp
next
  case (parenthesized e ts)
  then show ?case by (intro quiet_parens quiet_deep)
next
  case (in_values e ts es us neg)
  then show ?case by (intro quiet_append quiet_negation quiet_Cons quiet_parens quiet_deep) simp_all
next
  case (comparison l ts r us ty op v)
  then show ?case using opMap_types [of ty op] by (intro quiet_append quiet_Cons) auto
qed (auto intro!: quiet_append quiet_Cons quiet_negation quiet_Nil)

section \<open>Loops\<close>

lemma bindP_cong:
  "(\<And>x s'. m s = Inr (x, s') \<Longrightarrow> f x s' = g x s') \<Longrightarrow> bindP m f s = bindP m g s"
  by (simp add: bindP_def split: sum.split)

lemma isAtAny_state: "isAtAny tys s = Inr (b, s') \<Longrightarrow> s' = s"
  by (auto simp: isAtAny_def bindP_def peek_def retP_def split: if_splits)

lemma acc_bind_end:
  "accepts n m ts x C \<Longrightarrow> accepts n (f x) [] y D \<Longrightarrow> C \<subseteq> D \<Longrightarrow> accepts n (bindP m f) ts y D"
  using acc_bind [of n m ts x C f "[]" y D] by simp

lemma acc_bind_next:
  "accepts n m ts x C \<Longrightarrow> accepts n (f x) (u # us) y D \<Longrightarrow> fst u \<notin> C \<Longrightarrow> accepts n (bindP m f) (ts @ u # us) y D"
  using acc_bind [of n m ts x C f "u # us" y D] by simp

lemma while_loop_fuel:
  assumes body: "\<And>x. consumes n (body x)"
  shows "remaining s < n \<Longrightarrow> remaining s < k \<Longrightarrow> remaining s < k' \<Longrightarrow>
    while_loop k tys body x s = while_loop k' tys body x s"
proof (induction k arbitrary: k' s x)
  case (Suc k)
  then obtain j where k': "k' = Suc j" by (cases k') auto
  have eq: "while_loop k tys body y s' = while_loop j tys body y s'" if "body x s = Inr (y, s')" for y s'
  proof -
    have "eats s (body x s)" using body [of x] Suc.prems(1) by (simp add: consumes_def)
    then have "remaining s' < remaining s" using that by simp
    then show ?thesis using Suc.IH [of s' j y] Suc.prems k' by simp
  qed
  show ?case
    unfolding k' while_loop.simps
  proof (rule bindP_cong)
    fix here s' assume "isAtAny tys s = Inr (here, s')"
    then have "s' = s" by (rule isAtAny_state)
    moreover have "bindP (body x) (while_loop k tys body) s = bindP (body x) (while_loop j tys body) s"
      by (rule bindP_cong) (rule eq)
    ultimately show "(if here then bindP (body x) (while_loop k tys body) else retP x) s'
      = (if here then bindP (body x) (while_loop j tys body) else retP x) s'"
      by (cases here) simp_all
  qed
qed simp

lemma whileAt_unfold:
  assumes "\<And>x. consumes n (body x)" "remaining s < n"
  shows "whileAt tys body x s
    = bindP (isAtAny tys) (\<lambda>here. if here then bindP (body x) (whileAt tys body) else retP x) s"
proof -
  have eq: "while_loop (remaining s) tys body y s' = whileAt tys body y s'" if "body x s = Inr (y, s')" for y s'
  proof -
    have "eats s (body x s)" using assms by (simp add: consumes_def)
    then have "remaining s' < remaining s" using that by simp
    then show ?thesis
      unfolding whileAt_def using assms(2) by (intro while_loop_fuel [OF assms(1)]) simp_all
  qed
  show ?thesis
    unfolding whileAt_def [of tys body x] while_loop.simps
  proof (rule bindP_cong)
    fix here s' assume "isAtAny tys s = Inr (here, s')"
    then have "s' = s" by (rule isAtAny_state)
    moreover have "bindP (body x) (while_loop (remaining s) tys body) s = bindP (body x) (whileAt tys body) s"
      by (rule bindP_cong) (rule eq)
    ultimately show "(if here then bindP (body x) (while_loop (remaining s) tys body) else retP x) s'
      = (if here then bindP (body x) (whileAt tys body) else retP x) s'"
      by (cases here) simp_all
  qed
qed

lemma comma_loop_fuel:
  assumes p: "progress n p"
  shows "remaining s < n \<Longrightarrow> remaining s < k \<Longrightarrow> remaining s < k' \<Longrightarrow> comma_loop k p s = comma_loop k' p s"
proof (induction k arbitrary: k' s)
  case (Suc k)
  then obtain j where k': "k' = Suc j" by (cases k') auto
  have eq: "comma_loop k p s2 = comma_loop j p s2"
    if "p s = Inr (x, s1)" "tryConsume ''COMMA'' s1 = Inr (True, s2)" for x s1 s2
  proof -
    have "keeps s (p s)" using p Suc.prems(1) by (simp add: progress_def)
    then have "frame s s1" using that(1) by simp
    then have "remaining s2 < remaining s" using tryConsume_True [OF that(2)] frame_remaining [of s s1] by simp
    then show ?thesis using Suc.IH [of s2 j] Suc.prems k' by simp
  qed
  show ?case
    unfolding k' comma_loop.simps
  proof (rule bindP_cong, rule bindP_cong)
    fix x s1 more s2 assume r: "p s = Inr (x, s1)" "tryConsume ''COMMA'' s1 = Inr (more, s2)"
    show "(if more then bindP (comma_loop k p) (\<lambda>xs. retP (x # xs)) else retP [x]) s2
      = (if more then bindP (comma_loop j p) (\<lambda>xs. retP (x # xs)) else retP [x]) s2"
      using eq [OF r(1), of s2] r(2) by (cases more) (simp_all add: bindP_def)
  qed
qed simp

lemma commaList_unfold:
  assumes p: "progress n p" and s: "remaining s < n"
  shows "commaList p s = bindP p (\<lambda>x. bindP (tryConsume ''COMMA'') (\<lambda>more.
     if more then bindP (commaList p) (\<lambda>xs. retP (x # xs)) else retP [x])) s"
proof -
  have eq: "comma_loop (remaining s) p s2 = commaList p s2"
    if "p s = Inr (x, s1)" "tryConsume ''COMMA'' s1 = Inr (True, s2)" for x s1 s2
  proof -
    have "keeps s (p s)" using p s by (simp add: progress_def)
    then have "frame s s1" using that(1) by simp
    then have "remaining s2 < remaining s" using tryConsume_True [OF that(2)] frame_remaining [of s s1] by simp
    then show ?thesis
      unfolding commaList_def using s by (intro comma_loop_fuel [OF p]) simp_all
  qed
  have "commaList p s = comma_loop (Suc (remaining s)) p s" by (simp only: commaList_def)
  also have "\<dots> = bindP p (\<lambda>x. bindP (tryConsume ''COMMA'') (\<lambda>more.
     if more then bindP (commaList p) (\<lambda>xs. retP (x # xs)) else retP [x])) s"
    unfolding comma_loop.simps
  proof (rule bindP_cong, rule bindP_cong)
    fix x s1 more s2 assume r: "p s = Inr (x, s1)" "tryConsume ''COMMA'' s1 = Inr (more, s2)"
    show "(if more then bindP (comma_loop (remaining s) p) (\<lambda>xs. retP (x # xs)) else retP [x]) s2
      = (if more then bindP (commaList p) (\<lambda>xs. retP (x # xs)) else retP [x]) s2"
      using eq [OF r(1), of s2] r(2) by (cases more) (simp_all add: bindP_def)
  qed
  finally show ?thesis .
qed

lemma acc_commaList:
  assumes "progress n p"
    and "accepts n (bindP p (\<lambda>x. bindP (tryConsume ''COMMA'') (\<lambda>more.
      if more then bindP (commaList p) (\<lambda>xs. retP (x # xs)) else retP [x]))) ts y D"
  shows "accepts n (commaList p) ts y D"
  using assms(2) commaList_unfold [OF assms(1)] by (simp add: accepts_def)

lemma acc_list_one:
  assumes "progress n p" "accepts n p ts x C" "C \<subseteq> D" "''COMMA'' \<in> D"
  shows "accepts n (commaList p) ts [x] D"
proof (rule acc_commaList [OF assms(1)])
  have "accepts n (bindP (tryConsume ''COMMA'') (\<lambda>more.
      if more then bindP (commaList p) (\<lambda>xs. retP (x # xs)) else retP [x])) [] [x] D"
    by (rule acc_try_no) (use assms(4) in \<open>auto simp: next_type_def acc_ret\<close>)
  then show "accepts n (bindP p (\<lambda>x. bindP (tryConsume ''COMMA'') (\<lambda>more.
      if more then bindP (commaList p) (\<lambda>xs. retP (x # xs)) else retP [x]))) ts [x] D"
    by (rule acc_bind_end [OF assms(2) _ assms(3)])
qed

lemma acc_list_more:
  assumes "progress n p" "accepts n p ts x C" "''COMMA'' \<notin> C" "accepts n (commaList p) us xs D"
  shows "accepts n (commaList p) (ts @ comma # us) (x # xs) D"
proof (rule acc_commaList [OF assms(1)])
  have "accepts n (bindP (commaList p) (\<lambda>xs. retP (x # xs))) us (x # xs) D"
    by (rule acc_bind_end [OF assms(4)]) (simp_all add: acc_ret)
  then have "accepts (Suc n) (bindP (tryConsume ''COMMA'') (\<lambda>more.
      if more then bindP (commaList p) (\<lambda>xs. retP (x # xs)) else retP [x])) (comma # us) (x # xs) D"
    by (intro acc_try_yes) simp_all
  from accepts_mono [OF this]
  show "accepts n (bindP p (\<lambda>x. bindP (tryConsume ''COMMA'') (\<lambda>more.
      if more then bindP (commaList p) (\<lambda>xs. retP (x # xs)) else retP [x]))) (ts @ comma # us) (x # xs) D"
    by (rule acc_bind_next [OF assms(2)]) (simp add: assms(3))
qed

section \<open>Left-associative chains\<close>

abbreviation chain_body :: "(token \<Rightarrow> string) \<Rightarrow> expr pm \<Rightarrow> expr \<Rightarrow> expr pm" where
  "chain_body op_of next \<equiv> \<lambda>left. bindP advance (\<lambda>t. bindP next (\<lambda>right. retP (BinaryExpr (op_of t) left (Plain right))))"

text \<open>The chain has read \<open>ts\<close> as \<open>e\<close> and is about to test for a further operator.\<close>

definition chains :: "nat \<Rightarrow> string list \<Rightarrow> (token \<Rightarrow> string) \<Rightarrow> expr pm \<Rightarrow> expr \<Rightarrow> tok list \<Rightarrow> string set \<Rightarrow> bool" where
  "chains n tys op_of next e ts C \<longleftrightarrow>
     (\<forall>s r. view s = ts @ r \<longrightarrow> stops C r \<longrightarrow> remaining s < n \<longrightarrow>
        binary_chain tys op_of next s = whileAt tys (chain_body op_of next) e (skip (length ts) s))"

lemma chain_start: "accepts n next ts e C \<Longrightarrow> chains n tys op_of next e ts C"
  by (simp add: accepts_def chains_def binary_chain_def bindP_def)

lemma isAtAny_view: "view s = x # r \<Longrightarrow> isAtAny tys s = Inr (fst x \<in> set tys, s)"
proof -
  assume v: "view s = x # r"
  obtain t where "tk_type t = fst x" "tk_value t = snd x" "peek s = Inr (t, s)" "advance s = Inr (t, skip 1 s)"
    by (rule view_Cons [OF v])
  then show ?thesis by (simp add: isAtAny_def bindP_def retP_def)
qed

lemma chain_step:
  assumes l: "chains n tys op_of next l ts C" and o: "fst o' \<in> set tys" "fst o' \<notin> C"
    and op: "\<And>t. tk_type t = fst o' \<Longrightarrow> tk_value t = snd o' \<Longrightarrow> op_of t = op"
    and r: "accepts n next us r C" and pr: "progress n next"
  shows "chains n tys op_of next (BinaryExpr op l (Plain r)) (ts @ o' # us) C"
  unfolding chains_def
proof (intro allI impI)
  fix s q assume v: "view s = (ts @ o' # us) @ q" and st: "stops C q" and n: "remaining s < n"
  let ?body = "chain_body op_of next"
  let ?s = "skip (length ts) s"
  have body: "consumes n (?body x)" for x
    by (intro consumes_advance_bind progress_bind [OF pr] progress_ret)
  have "stops C (o' # us @ q)" using o(2) by (simp add: stops_def)
  then have "binary_chain tys op_of next s = whileAt tys ?body l ?s"
    using l v n by (simp add: chains_def)
  also have vs: "view ?s = o' # us @ q" using v by simp
  obtain t where t: "tk_type t = fst o'" "tk_value t = snd o'" "peek ?s = Inr (t, ?s)" "advance ?s = Inr (t, skip 1 ?s)"
    by (rule view_Cons [OF vs])
  have "?body l ?s = Inr (BinaryExpr op l (Plain r), skip (length us) (skip 1 ?s))"
  proof -
    have "next (skip 1 ?s) = Inr (r, skip (length us) (skip 1 ?s))"
      using r [unfolded accepts_def, rule_format, of "skip 1 ?s" q] vs st n
      by (simp add: drop_Suc drop_tl)
    then show ?thesis using t op [OF t(1,2)] by (simp add: bindP_def retP_def)
  qed
  then have "whileAt tys ?body l ?s
      = whileAt tys ?body (BinaryExpr op l (Plain r)) (skip (length us) (skip 1 ?s))"
    using whileAt_unfold [of n ?body ?s tys l, OF body] n isAtAny_view [OF vs, of tys] o(1)
    by (simp add: bindP_def [of "isAtAny tys"] bindP_def [of "?body l"])
  finally show "binary_chain tys op_of next s
      = whileAt tys ?body (BinaryExpr op l (Plain r)) (skip (length (ts @ o' # us)) s)" by simp
qed

lemma chain_end:
  assumes "chains n tys op_of next e ts C" and pr: "progress n next"
  shows "accepts n (binary_chain tys op_of next) ts e (C \<union> set tys)"
  unfolding accepts_def
proof (intro allI impI)
  fix s q assume v: "view s = ts @ q" and st: "stops (C \<union> set tys) q" and n: "remaining s < n"
  let ?body = "chain_body op_of next"
  let ?s = "skip (length ts) s"
  have body: "consumes n (?body x)" for x
    by (intro consumes_advance_bind progress_bind [OF pr] progress_ret)
  have "stops C q" using st by (auto simp: stops_def)
  then have "binary_chain tys op_of next s = whileAt tys ?body e ?s"
    using assms(1) v n by (simp add: chains_def)
  moreover obtain x q' where q: "q = x # q'" "fst x \<notin> set tys" using st by (cases q) (auto simp: stops_def)
  then have "isAtAny tys ?s = Inr (False, ?s)" using isAtAny_view [of ?s x q' tys] v by simp
  then have "whileAt tys ?body e ?s = Inr (e, ?s)"
    using whileAt_unfold [of n ?body ?s tys e, OF body] n by (simp add: bindP_def retP_def)
  ultimately show "binary_chain tys op_of next s = Inr (e, ?s)" by simp
qed

section \<open>Primary expressions\<close>

text \<open>The token types that continue an expression of level \<open>k\<close>.\<close>

definition cont :: "nat \<Rightarrow> string set" where
  "cont k = {''LPAREN'', ''DOT'', ''OVER''}
     \<union> (if k \<le> 5 then {''STAR'', ''SLASH'', ''PERCENT''} else {})
     \<union> (if k \<le> 4 then {''PLUS'', ''MINUS'', ''CONCAT''} else {})
     \<union> (if k \<le> 3 then {''EQ'', ''NEQ'', ''LT'', ''GT'', ''LTE'', ''GTE'', ''NOT'', ''BETWEEN'', ''IN'', ''LIKE'', ''IS''} else {})
     \<union> (if k \<le> 1 then {''AND''} else {})
     \<union> (if k = 0 then {''OR''} else {})"

lemmas acc_advance_n = accepts_mono [OF acc_advance]
lemmas acc_expect_n = accepts_mono [OF acc_expect]
lemmas acc_ident_n = accepts_mono [OF acc_ident]
lemmas acc_try_yes_n = accepts_mono [OF acc_try_yes]

text \<open>What is assumed of an argument expression, and of an argument list.\<close>

definition arg :: "nat \<Rightarrow> parsers \<Rightarrow> expr \<Rightarrow> tok list \<Rightarrow> bool" where
  "arg n P e ts \<longleftrightarrow> accepts n (p_expr P) ts e (cont 0) \<and> starts 0 ts"

definition args :: "nat \<Rightarrow> parsers \<Rightarrow> expr list \<Rightarrow> tok list \<Rightarrow> bool" where
  "args n P es ts \<longleftrightarrow> accepts n (parseExpressionList P) ts es (insert ''COMMA'' (cont 0)) \<and> starts 0 ts"

lemma arg_next:
  "arg n P e ts \<Longrightarrow> accepts n (f e) (u # us) y D \<Longrightarrow> fst u \<notin> cont 0 \<Longrightarrow>
     accepts n (bindP (p_expr P) f) (ts @ u # us) y D"
  by (rule acc_bind_next) (simp_all add: arg_def)

lemma args_next:
  "args n P es ts \<Longrightarrow> accepts n (f es) (u # us) y D \<Longrightarrow> fst u \<notin> insert ''COMMA'' (cont 0) \<Longrightarrow>
     accepts n (bindP (parseExpressionList P) f) (ts @ u # us) y D"
  unfolding args_def by (elim conjE, rule acc_bind_next)

lemma next_type_Cons [simp]: "next_type (u # us) D ty \<longleftrightarrow> ty = fst u"
  by (simp add: next_type_def)

lemma next_type_Nil [simp]: "next_type [] D ty \<longleftrightarrow> ty \<notin> D"
  by (simp add: next_type_def)

lemma next_type_starts:
  "starts k ts \<Longrightarrow> next_type (ts @ us) D ty \<Longrightarrow>
     ty \<in> STARTS \<or> k \<le> 6 \<and> ty \<in> {''MINUS'', ''PLUS''} \<or> k \<le> 2 \<and> ty = ''NOT''"
  by (cases ts) (auto simp: starts_def next_type_def)

lemma acc_isAt_next:
  "accepts n (f (fst u = ty)) (u # us) y D \<Longrightarrow> accepts n (bindP (isAt ty) f) (u # us) y D"
  by (rule acc_isAt) simp

lemma acc_isAt_end:
  "accepts n (f False) [] y D \<Longrightarrow> ty \<in> D \<Longrightarrow> accepts n (bindP (isAt ty) f) [] y D"
proof (rule acc_isAt)
  fix ty' assume "accepts n (f False) [] y D" "ty \<in> D" "next_type [] D ty'"
  moreover from this have "(ty' = ty) = False" by auto
  ultimately show "accepts n (f (ty' = ty)) [] y D" by simp
qed

lemma acc_isAt_starts:
  assumes "starts k ts" "ty \<notin> STARTS \<union> {''MINUS'', ''PLUS'', ''NOT''}" "accepts n (f False) (ts @ us) y D"
  shows "accepts n (bindP (isAt ty) f) (ts @ us) y D"
proof (rule acc_isAt)
  fix ty' assume "next_type (ts @ us) D ty'"
  then have "(ty' = ty) = False" using next_type_starts [OF assms(1)] assms(2) by blast
  then show "accepts n (f (ty' = ty)) (ts @ us) y D" using assms(3) by simp
qed

lemma acc_isAtAny_starts:
  assumes "starts k ts" "set tys \<inter> (STARTS \<union> {''MINUS'', ''PLUS'', ''NOT''}) = {}"
    and "accepts n (f False) (ts @ us) y D"
  shows "accepts n (bindP (isAtAny tys) f) (ts @ us) y D"
proof (rule acc_isAtAny)
  fix ty' assume "next_type (ts @ us) D ty'"
  then have "(ty' \<in> set tys) = False" using next_type_starts [OF assms(1)] assms(2) by blast
  then show "accepts n (f (ty' \<in> set tys)) (ts @ us) y D" using assms(3) by simp
qed

lemma acc_try_starts:
  assumes "starts k ts" "ty \<notin> STARTS \<union> {''MINUS'', ''PLUS'', ''NOT''}" "accepts n (f False) (ts @ us) y D"
  shows "accepts n (bindP (tryConsume ty) f) (ts @ us) y D"
proof (rule acc_try_no)
  show "ty' \<noteq> ty" if "next_type (ts @ us) D ty'" for ty'
    using next_type_starts [OF assms(1) that] assms(2) by blast
qed (rule assms(3))

lemma acc_try_next_no:
  "fst u \<noteq> ty \<Longrightarrow> accepts n (f False) (u # us) y D \<Longrightarrow> accepts n (bindP (tryConsume ty) f) (u # us) y D"
  by (rule acc_try_no) simp_all

lemmas side = STARTS_def cont_def

lemma acc_interval:
  "accepts (Suc n) parseInterval [kw ''INTERVAL'', (''STRING'', v), (''IDENT'', u)] (IntervalExpr v (toUpperCase u)) D"
  unfolding parseInterval_def
  by (rule acc_advance, rule acc_expect_n, simp, rule acc_ident_n, simp, simp add: acc_ret)

lemma acc_cast:
  assumes "arg n P e ts"
  shows "accepts (Suc n) (parseCast P) (kw ''CAST'' # lparen # ts @ [kw ''AS'', (''IDENT'', t), rparen])
    (CastExpr e (TypeName (toUpperCase t) [])) D"
proof -
  have ty: "accepts n parseTypeName [(''IDENT'', t)] (TypeName (toUpperCase t) []) {''LPAREN''}"
    unfolding parseTypeName_def
    by (rule acc_ident_n, simp, rule acc_try_no) (auto simp: acc_ret)
  have tail: "accepts n (bindP parseTypeName (\<lambda>targetType. bindP (expect ''RPAREN'') (\<lambda>_. retP (CastExpr e targetType))))
      ([(''IDENT'', t)] @ [rparen]) (CastExpr e (TypeName (toUpperCase t) [])) D"
    by (rule acc_bind_next [OF ty], rule acc_expect_n) (simp_all add: acc_ret)
  show ?thesis
    unfolding parseCast_def
    by (rule acc_advance, rule acc_expect_n, simp, rule arg_next [OF assms], rule acc_expect_n, simp)
      (use tail in \<open>simp_all add: side\<close>)
qed

lemma acc_extract:
  assumes "arg n P e ts"
  shows "accepts (Suc n) (parseExtract P) (kw ''EXTRACT'' # lparen # f # kw ''FROM'' # ts @ [rparen])
    (ExtractExpr (toUpperCase (snd f)) e) D"
  unfolding parseExtract_def
  by (rule acc_advance, rule acc_expect_n, simp, rule acc_peek, rule acc_advance_n, rule acc_expect_n, simp,
      rule arg_next [OF assms], rule acc_expect_n) (simp_all add: acc_ret side)

lemma acc_isAtKeyword:
  "accepts n (f (fst u = toUpperCase k \<or> snd u = toUpperCase k)) (u # us) y D \<Longrightarrow>
     accepts n (bindP (isAtKeyword k) f) (u # us) y D"
proof (rule acc_test [where g = "\<lambda>t. tk_type t = toUpperCase k \<or> tk_value t = toUpperCase k"])
  show "\<exists>t :: token. tk_type t = fst x \<and> tk_value t = snd x
      \<and> isAtKeyword k s = Inr (tk_type t = toUpperCase k \<or> tk_value t = toUpperCase k, s)"
    if v: "view s = x # r" for s x r
  proof -
    obtain t where t: "tk_type t = fst x" "tk_value t = snd x" "peek s = Inr (t, s)" "advance s = Inr (t, skip 1 s)"
      by (rule view_Cons [OF v])
    show ?thesis
      by (rule exI [of _ t]) (use t in \<open>simp add: isAtKeyword_def bindP_def retP_def Let_def\<close>)
  qed
qed simp

lemma acc_notKeyword:
  "fst u \<noteq> toUpperCase k \<Longrightarrow> snd u \<noteq> toUpperCase k \<Longrightarrow> accepts n (f False) (u # us) y D \<Longrightarrow>
     accepts n (bindP (isAtKeyword k) f) (u # us) y D"
  by (rule acc_isAtKeyword) simp

lemma acc_ret_bind: "accepts n (f x) us y D \<Longrightarrow> accepts n (bindP (retP x) f) us y D"
  by (simp add: accepts_def bindP_def retP_def)

lemma upper_from: "toUpperCase ''FROM'' = ''FROM''" "toUpperCase ''FOR'' = ''FOR''"
  by code_simp+

lemma acc_substring_from:
  assumes "arg n P e ts" "arg n P a us" "arg n P l vs"
  shows "accepts (Suc n) (parseSubstringFn P)
    (kw ''SUBSTRING'' # lparen # ts @ kw ''FROM'' # us @ kw ''FOR'' # vs @ [rparen]) (SubstringExpr e a (Some l)) D"
proof -
  have tail: "accepts n (bindP (p_expr P) (\<lambda>from. bindP (isAtKeyword ''FOR'') (\<lambda>for_kw.
      if for_kw then bindP advance (\<lambda>_. bindP (p_expr P) (\<lambda>len. retP (SubstringExpr e from (Some len))))
      else retP (SubstringExpr e from None)))) (us @ kw ''FOR'' # vs) (SubstringExpr e a (Some l)) (cont 0)"
    by (rule arg_next [OF assms(2)], rule acc_isAtKeyword, simp add: upper_from, rule acc_advance_n,
        rule acc_bind_end [of n _ _ l "cont 0"])
      (use assms(3) in \<open>simp_all add: arg_def acc_ret side\<close>)
  show ?thesis
    unfolding parseSubstringFn_def
    apply (rule acc_advance, rule acc_expect_n, simp, rule arg_next [OF assms(1)], rule acc_isAtKeyword)
     apply (simp only: upper_from fst_conv snd_conv refl simp_thms if_True)
     apply (rule acc_bind [where ts = "kw ''FROM'' # us @ kw ''FOR'' # vs" and us = "[rparen]" and C = "cont 0",
          unfolded append.simps append_assoc])
        apply (rule acc_advance_n, rule tail)
       apply (rule acc_expect_n)
        apply (simp_all add: acc_ret side)
    done
qed

lemma acc_substring_comma:
  assumes "arg n P e ts" "arg n P a us" "arg n P l vs"
  shows "accepts (Suc n) (parseSubstringFn P)
    (kw ''SUBSTRING'' # lparen # ts @ comma # us @ comma # vs @ [rparen]) (SubstringExpr e a (Some l)) D"
proof -
  have tail: "accepts n (bindP (p_expr P) (\<lambda>from. bindP (tryConsume ''COMMA'') (\<lambda>more.
      if more then bindP (p_expr P) (\<lambda>len. retP (SubstringExpr e from (Some len)))
      else retP (SubstringExpr e from None)))) (us @ comma # vs) (SubstringExpr e a (Some l)) (cont 0)"
    by (rule arg_next [OF assms(2)], rule acc_try_yes_n, simp, simp only: if_True,
        rule acc_bind_end [of n _ _ l "cont 0"])
      (use assms(3) in \<open>simp_all add: arg_def acc_ret side\<close>)
  show ?thesis
    unfolding parseSubstringFn_def
    apply (rule acc_advance, rule acc_expect_n, simp, rule arg_next [OF assms(1)], rule acc_notKeyword)
       apply (simp_all only: upper_from if_False)
       apply simp_all [2]
     apply (rule acc_bind [where ts = "comma # us @ comma # vs" and us = "[rparen]" and C = "cont 0",
          unfolded append.simps append_assoc])
        apply (rule acc_expect_n, simp, rule tail)
       apply (rule acc_expect_n)
        apply (simp_all add: acc_ret side)
    done
qed

lemma acc_trim:
  assumes "arg n P e ts"
  shows "accepts (Suc n) (parseTrim P) (kw ''TRIM'' # lparen # ts @ [rparen]) (FunctionCall ''TRIM'' [e]) D"
proof -
  have st: "starts 0 ts" using assms by (simp add: arg_def)
  show ?thesis
    unfolding parseTrim_def
    by (rule acc_advance, rule acc_expect_n, simp, rule acc_isAtAny_starts [OF st], simp add: side,
        simp only: if_False, rule acc_ret_bind, rule acc_isAt_starts [OF st], simp add: side,
        simp only: simp_thms if_False, rule acc_ret_bind, rule acc_ret_bind, rule arg_next [OF assms],
        rule acc_expect_n)
      (simp_all add: acc_ret side)
qed

lemma acc_trim_spec:
  assumes "arg n P c us" "arg n P e ts" "sp \<in> {''LEADING'', ''TRAILING'', ''BOTH''}"
  shows "accepts (Suc n) (parseTrim P) (kw ''TRIM'' # lparen # kw sp # us @ kw ''FROM'' # ts @ [rparen])
    (FunctionCall ''TRIM'' [e, Literal (LStr sp) None, c]) D"
proof -
  have st: "starts 0 us" using assms by (simp add: arg_def)
  define rest where "rest = (\<lambda>trimSpec trimChar. bindP (if trimSpec \<noteq> None then tryConsume ''FROM'' else retP False) (\<lambda>_.
     bindP (p_expr P) (\<lambda>e. bindP (expect ''RPAREN'') (\<lambda>_. retP (FunctionCall ''TRIM''
       (case trimChar of Some c \<Rightarrow> [e, Literal (case trimSpec of Some v \<Rightarrow> LStr v | None \<Rightarrow> LNull) None, c]
        | None \<Rightarrow> [e]))))))"
  have 1: "accepts n (rest (Some sp) (Some c)) (kw ''FROM'' # ts @ [rparen])
      (FunctionCall ''TRIM'' [e, Literal (LStr sp) None, c]) D"
    unfolding rest_def
    by (simp, rule acc_try_yes_n, simp, rule arg_next [OF assms(2)], rule acc_expect_n) (simp_all add: acc_ret side)
  have 2: "accepts n (bindP (bindP (p_expr P) (\<lambda>c. retP (Some c))) (rest (Some sp))) (us @ kw ''FROM'' # ts @ [rparen])
      (FunctionCall ''TRIM'' [e, Literal (LStr sp) None, c]) D"
    by (rule acc_bind_next [where x = "Some c" and C = "cont 0"])
      (use assms(1) 1 in \<open>auto intro!: acc_bind_end [where x = c and C = "cont 0"] simp: arg_def acc_ret side\<close>)
  have 3: "accepts n (bindP (isAt ''FROM'') (\<lambda>from_kw.
      bindP (if \<not> from_kw \<and> Some sp \<noteq> None then bindP (p_expr P) (\<lambda>c. retP (Some c)) else retP None) (rest (Some sp))))
      (us @ kw ''FROM'' # ts @ [rparen]) (FunctionCall ''TRIM'' [e, Literal (LStr sp) None, c]) D"
    by (rule acc_isAt_starts [OF st]) (use 2 in \<open>simp_all add: side\<close>)
  have 4: "accepts n (bindP (bindP advance (\<lambda>t. retP (Some (tk_value t)))) (\<lambda>trimSpec. bindP (isAt ''FROM'') (\<lambda>from_kw.
      bindP (if \<not> from_kw \<and> trimSpec \<noteq> None then bindP (p_expr P) (\<lambda>c. retP (Some c)) else retP None) (rest trimSpec))))
      ([kw sp] @ us @ kw ''FROM'' # ts @ [rparen]) (FunctionCall ''TRIM'' [e, Literal (LStr sp) None, c]) D"
    by (rule acc_bind [where x = "Some sp" and C = "{}"], rule acc_advance_n)
      (use 3 in \<open>simp_all add: acc_ret\<close>)
  show ?thesis
    unfolding parseTrim_def
    by (rule acc_advance, rule acc_expect_n, simp, rule acc_isAtAny)
      (use 4 assms(3) in \<open>auto simp: rest_def\<close>)
qed

lemma acc_call_args:
  assumes "args n P es ts" "''OVER'' \<in> D"
  shows "accepts n (parseFunctionCallNamed P f) (lparen # ts @ [rparen]) (FunctionCall f es) D"
proof -
  have st: "starts 0 ts" using assms by (simp add: args_def)
  show ?thesis
    unfolding parseFunctionCallNamed_def
    by (rule acc_expect_n, simp, rule acc_isAt_starts [OF st], simp add: side, simp only: if_False,
        rule args_next [OF assms(1)], rule acc_expect_n, simp, rule acc_isAt_end)
      (use assms(2) in \<open>simp_all add: acc_ret side\<close>)
qed

lemma acc_call_none:
  assumes "''OVER'' \<in> D"
  shows "accepts n (parseFunctionCallNamed P f) [lparen, rparen] (FunctionCall f []) D"
proof -
  show ?thesis
    unfolding parseFunctionCallNamed_def
    by (rule acc_expect_n, simp, rule acc_isAt_next, simp, rule acc_ret_bind, rule acc_expect_n, simp, rule acc_isAt_end)
      (use assms in \<open>simp_all add: acc_ret\<close>)
qed

lemma acc_aggregate:
  assumes "args n P es ts" "''OVER'' \<in> D"
  shows "accepts (Suc n) (parseAggregateCall P) (kw a # lparen # ts @ [rparen]) (AggregateCall a es False) D"
proof -
  have st: "starts 0 ts" using assms by (simp add: args_def)
  show ?thesis
    unfolding parseAggregateCall_def
    by (rule acc_advance, rule acc_expect_n, simp, rule acc_isAt_starts [OF st], simp add: side,
        simp only: simp_thms if_False, rule acc_try_starts [OF st], simp add: side,
        rule args_next [OF assms(1)], rule acc_expect_n, simp, rule acc_isAt_end)
      (use assms(2) in \<open>simp_all add: acc_ret side\<close>)
qed

lemma acc_aggregate_distinct:
  assumes "args n P es ts" "''OVER'' \<in> D"
  shows "accepts (Suc n) (parseAggregateCall P) (kw a # lparen # kw ''DISTINCT'' # ts @ [rparen])
    (AggregateCall a es True) D"
  unfolding parseAggregateCall_def
  by (rule acc_advance, rule acc_expect_n, simp, rule acc_isAt_next, simp, rule acc_try_yes_n, simp,
      rule args_next [OF assms(1)], rule acc_expect_n, simp, rule acc_isAt_end)
    (use assms(2) in \<open>simp_all add: acc_ret side\<close>)

lemma acc_count_star:
  assumes "''OVER'' \<in> D"
  shows "accepts (Suc n) (parseAggregateCall P) [kw ''COUNT'', lparen, (''STAR'', ''*''), rparen]
    (AggregateCall ''COUNT_STAR'' [] False) D"
  unfolding parseAggregateCall_def
  by (rule acc_advance, rule acc_expect_n, simp, rule acc_isAt_next, simp, rule acc_advance_n, rule acc_expect_n,
      simp, rule acc_isAt_end)
    (use assms in \<open>simp_all add: acc_ret\<close>)

lemma whileAt_step:
  assumes "\<And>x. consumes n (body x)" "remaining s < n" "view s = u # r" "fst u \<in> set tys" "body a s = Inr (b, s')"
  shows "whileAt tys body a s = whileAt tys body b s'"
  using whileAt_unfold [of n body s tys a] assms isAtAny_view [OF assms(3), of tys] by (simp add: bindP_def)

lemma whileAt_stop:
  assumes "\<And>x. consumes n (body x)" "remaining s < n" "view s = u # r" "fst u \<notin> set tys"
  shows "whileAt tys body a s = Inr (a, s)"
  using whileAt_unfold [of n body s tys a] assms isAtAny_view [OF assms(3), of tys]
  by (simp add: bindP_def retP_def)

definition when_body :: "parsers \<Rightarrow> expr when_clause list \<Rightarrow> expr when_clause list pm" where
  "when_body P = (\<lambda>ws. bindP (parseWhenClause P) (\<lambda>w. retP (ws @ [w])))"

lemma consumes_when_body: "hooks n P \<Longrightarrow> consumes n (when_body P ws)"
  unfolding when_body_def by (intro consumes_step consumes_parseWhenClause)

definition whens :: "nat \<Rightarrow> parsers \<Rightarrow> expr when_clause list \<Rightarrow> tok list \<Rightarrow> bool" where
  "whens n P ws ts \<longleftrightarrow> (\<forall>s r. view s = ts @ r \<longrightarrow> stops (cont 0) r \<longrightarrow> remaining s < n \<longrightarrow>
     whileAt [''WHEN''] (when_body P) [] s = whileAt [''WHEN''] (when_body P) ws (skip (length ts) s))"

lemma acc_when:
  assumes "arg n P c ts" "arg n P e us"
  shows "accepts n (when_body P ws) (kw ''WHEN'' # ts @ kw ''THEN'' # us) (ws @ [WhenClause c e]) (cont 0)"
proof -
  have "accepts n (parseWhenClause P) (kw ''WHEN'' # ts @ kw ''THEN'' # us) (WhenClause c e) (cont 0)"
    unfolding parseWhenClause_def
    by (rule acc_advance_n, rule arg_next [OF assms(1)], rule acc_expect_n, simp,
        rule acc_bind_end [of n _ _ e "cont 0"])
      (use assms(2) in \<open>simp_all add: arg_def acc_ret side\<close>)
  then show ?thesis unfolding when_body_def by (rule acc_bind_end) (simp_all add: acc_ret)
qed

lemma whens_step:
  assumes P: "hooks n P" and c: "arg n P c ts" "arg n P e us"
    and s: "view s = (kw ''WHEN'' # ts @ kw ''THEN'' # us) @ r" "stops (cont 0) r" "remaining s < n"
  shows "whileAt [''WHEN''] (when_body P) ws s
    = whileAt [''WHEN''] (when_body P) (ws @ [WhenClause c e]) (skip (length (kw ''WHEN'' # ts @ kw ''THEN'' # us)) s)"
proof (rule whileAt_step [OF consumes_when_body [OF P] s(3)])
  show "view s = kw ''WHEN'' # ts @ kw ''THEN'' # us @ r" using s(1) by simp
  show "when_body P ws s = Inr (ws @ [WhenClause c e], skip (length (kw ''WHEN'' # ts @ kw ''THEN'' # us)) s)"
    using acc_when [OF c, of ws] s unfolding accepts_def by blast
qed simp

lemma whens_one: "hooks n P \<Longrightarrow> arg n P c ts \<Longrightarrow> arg n P e us \<Longrightarrow>
    whens n P [WhenClause c e] (kw ''WHEN'' # ts @ kw ''THEN'' # us)"
  unfolding whens_def using whens_step [of n P c ts e us _ _ "[]"] by simp

lemma whens_more:
  assumes "hooks n P" "whens n P ws vs" "arg n P c ts" "arg n P e us"
  shows "whens n P (ws @ [WhenClause c e]) (vs @ kw ''WHEN'' # ts @ kw ''THEN'' # us)"
  unfolding whens_def
proof (intro allI impI)
  fix s r assume v: "view s = (vs @ kw ''WHEN'' # ts @ kw ''THEN'' # us) @ r" and st: "stops (cont 0) r"
    and n: "remaining s < n"
  have "whileAt [''WHEN''] (when_body P) [] s = whileAt [''WHEN''] (when_body P) ws (skip (length vs) s)"
    using assms(2) v n by (simp add: whens_def stops_def side)
  also have "\<dots> = whileAt [''WHEN''] (when_body P) (ws @ [WhenClause c e])
      (skip (length (kw ''WHEN'' # ts @ kw ''THEN'' # us)) (skip (length vs) s))"
    by (rule whens_step [OF assms(1,3,4) _ st]) (use v n in simp_all)
  finally show "whileAt [''WHEN''] (when_body P) [] s = whileAt [''WHEN''] (when_body P) (ws @ [WhenClause c e])
      (skip (length (vs @ kw ''WHEN'' # ts @ kw ''THEN'' # us)) s)" by simp
qed

lemma acc_whens:
  assumes "hooks n P" "whens n P ws ts"
  shows "accepts n (whileAt [''WHEN''] (when_body P) []) ts ws (insert ''WHEN'' (cont 0))"
  unfolding accepts_def
proof (intro allI impI)
  fix s r assume v: "view s = ts @ r" and st: "stops (insert ''WHEN'' (cont 0)) r" and n: "remaining s < n"
  obtain u q where r: "r = u # q" "fst u \<noteq> ''WHEN''" "stops (cont 0) r" using st by (cases r) (auto simp: stops_def)
  then have "whileAt [''WHEN''] (when_body P) [] s = whileAt [''WHEN''] (when_body P) ws (skip (length ts) s)"
    using assms(2) v n by (simp add: whens_def)
  also have "\<dots> = Inr (ws, skip (length ts) s)"
    by (rule whileAt_stop [OF consumes_when_body [OF assms(1)]]) (use v n r in simp_all)
  finally show "whileAt [''WHEN''] (when_body P) [] s = Inr (ws, skip (length ts) s)" .
qed

text \<open>The ELSE branch and the END.\<close>

definition case_end :: "parsers \<Rightarrow> (expr option \<Rightarrow> expr) \<Rightarrow> expr pm" where
  "case_end P f = bindP (tryConsume ''ELSE'') (\<lambda>els.
     bindP (if els then bindP (p_expr P) (\<lambda>e. retP (Some e)) else retP None) (\<lambda>elseExpr.
     bindP (expect ''END'') (\<lambda>_. retP (f elseExpr))))"

definition ends :: "nat \<Rightarrow> parsers \<Rightarrow> expr option \<Rightarrow> tok list \<Rightarrow> bool" where
  "ends n P el ts \<longleftrightarrow> (\<forall>f D. accepts n (case_end P f) (ts @ [kw ''END'']) (f el) D)
     \<and> (ts = [] \<or> fst (hd ts) = ''ELSE'')"

lemma ends_none: "ends n P None []"
  unfolding ends_def case_end_def
proof (intro conjI allI)
  fix f :: "expr option \<Rightarrow> expr" and D
  show "accepts n (bindP (tryConsume ''ELSE'') (\<lambda>els.
     bindP (if els then bindP (p_expr P) (\<lambda>e. retP (Some e)) else retP None) (\<lambda>elseExpr.
     bindP (expect ''END'') (\<lambda>_. retP (f elseExpr))))) ([] @ [kw ''END'']) (f None) D"
    by (simp, rule acc_try_next_no, simp, simp, rule acc_ret_bind, rule acc_expect_n) (simp_all add: acc_ret)
qed simp

lemma ends_some:
  assumes "arg n P e ts"
  shows "ends n P (Some e) (kw ''ELSE'' # ts)"
  unfolding ends_def case_end_def
proof (intro conjI allI)
  fix f :: "expr option \<Rightarrow> expr" and D
  have "accepts n (bindP (bindP (p_expr P) (\<lambda>e. retP (Some e))) (\<lambda>elseExpr. bindP (expect ''END'') (\<lambda>_. retP (f elseExpr))))
      (ts @ [kw ''END'']) (f (Some e)) D"
    by (rule acc_bind_next [where x = "Some e" and C = "cont 0"],
        rule acc_bind_end [where x = e and C = "cont 0"])
      (use assms in \<open>auto intro!: acc_expect_n simp: arg_def acc_ret side\<close>)
  then show "accepts n (bindP (tryConsume ''ELSE'') (\<lambda>els.
     bindP (if els then bindP (p_expr P) (\<lambda>e. retP (Some e)) else retP None) (\<lambda>elseExpr.
     bindP (expect ''END'') (\<lambda>_. retP (f elseExpr))))) ((kw ''ELSE'' # ts) @ [kw ''END'']) (f (Some e)) D"
    by (simp, intro acc_try_yes_n) simp_all
qed simp

lemma acc_case_rest:
  assumes "hooks n P" "whens n P ws us" "ends n P el vs"
  shows "accepts n (bindP (whileAt [''WHEN''] (when_body P) []) (\<lambda>ws. case_end P (CaseExpr op ws)))
    (us @ vs @ [kw ''END'']) (CaseExpr op ws el) D"
  by (rule acc_bind [OF acc_whens [OF assms(1,2)]])
    (use assms(3) in \<open>auto simp: ends_def side hd_append\<close>)

lemma parseCaseExpr_alt:
  "parseCaseExpr P = bindP advance (\<lambda>_. bindP (isAt ''WHEN'') (\<lambda>simple.
     bindP (if simple then retP None else bindP (p_expr P) (\<lambda>e. retP (Some e))) (\<lambda>operand.
     bindP (whileAt [''WHEN''] (when_body P) []) (\<lambda>ws. case_end P (CaseExpr operand ws)))))"
  by (simp add: parseCaseExpr_def when_body_def case_end_def)

lemma acc_searched_case:
  assumes "hooks n P" "whens n P ws us" "ends n P el vs" "us \<noteq> []" "fst (hd us) = ''WHEN''"
  shows "accepts (Suc n) (parseCaseExpr P) (kw ''CASE'' # us @ vs @ [kw ''END'']) (CaseExpr None ws el) D"
proof -
  obtain u us' where us: "us = u # us'" "fst u = ''WHEN''" using assms(4,5) by (cases us) auto
  have "accepts n (bindP (whileAt [''WHEN''] (when_body P) []) (\<lambda>ws. case_end P (CaseExpr None ws)))
      (us @ vs @ [kw ''END'']) (CaseExpr None ws el) D"
    by (rule acc_case_rest [OF assms(1-3)])
  then show ?thesis
    unfolding parseCaseExpr_alt us(1) append_Cons
    by (intro acc_advance acc_isAt_next) (simp add: us(2), rule acc_ret_bind)
qed

lemma acc_simple_case:
  assumes "hooks n P" "arg n P e ts" "whens n P ws us" "ends n P el vs" "us \<noteq> []" "fst (hd us) = ''WHEN''"
  shows "accepts (Suc n) (parseCaseExpr P) (kw ''CASE'' # ts @ us @ vs @ [kw ''END'']) (CaseExpr (Some e) ws el) D"
proof -
  have st: "starts 0 ts" and e: "accepts n (p_expr P) ts e (cont 0)" using assms(2) by (simp_all add: arg_def)
  have "accepts n (bindP (p_expr P) (\<lambda>e. retP (Some e))) ts (Some e) (cont 0)"
    by (rule acc_bind_end [OF e]) (simp_all add: acc_ret)
  then have "accepts n (bindP (bindP (p_expr P) (\<lambda>e. retP (Some e))) (\<lambda>operand.
      bindP (whileAt [''WHEN''] (when_body P) []) (\<lambda>ws. case_end P (CaseExpr operand ws))))
      (ts @ us @ vs @ [kw ''END'']) (CaseExpr (Some e) ws el) D"
    by (rule acc_bind) (use acc_case_rest [OF assms(1,3,4)] assms(5,6) in \<open>auto simp: side\<close>)
  then show ?thesis
    unfolding parseCaseExpr_alt
    by (intro acc_advance acc_isAt_starts [OF st]) (simp_all add: side)
qed

end
