(* ===== verification/ParserComplete.thy ===== *)
theory ParserComplete
  imports ParserGrammar
begin

text \<open>
  The parser accepts the expression grammar: by rule induction over \<open>spells\<close>, the parser of each
  precedence level reads every spelling as the expression it spells. A printed token list is
  lexed back to its tokens, so the result holds for program texts, and no token list spells two
  expressions.
\<close>

section \<open>Primary expressions\<close>

definition primary_of :: "parsers \<Rightarrow> string \<Rightarrow> string \<Rightarrow> bool \<Rightarrow> bool \<Rightarrow> expr pm" where
  "primary_of P ty text string_next paren_next =
     (if ty = ''NUMBER'' then parseNumber text
      else if ty = ''STRING'' then literal (LStr text) (Some VARCHAR)
      else if ty = ''NULL'' then literal LNull None
      else if ty = ''TRUE'' then literal (LBool True) (Some BOOLEAN)
      else if ty = ''FALSE'' then literal (LBool False) (Some BOOLEAN)
      else if ty = ''DATE'' \<and> string_next then
        bindP advance (\<lambda>_. bindP (expect ''STRING'') (\<lambda>t. retP (Literal (LStr (tk_value t)) (Some DATE))))
      else if ty = ''TIMESTAMP'' \<and> string_next then
        bindP advance (\<lambda>_. bindP (expect ''STRING'') (\<lambda>t. retP (Literal (LStr (tk_value t)) (Some TIMESTAMP))))
      else if ty = ''INTERVAL'' \<and> string_next then parseInterval
      else if ty = ''CASE'' then parseCaseExpr P
      else if ty = ''CAST'' then parseCast P
      else if ty = ''EXTRACT'' \<and> paren_next then parseExtract P
      else if ty = ''SUBSTRING'' \<and> paren_next then parseSubstringFn P
      else if ty = ''TRIM'' \<and> paren_next then parseTrim P
      else if ty = ''EXISTS'' then parseExists P
      else if ty = ''NOT'' then parsePrimaryNot P
      else if ty = ''LPAREN'' then parseParenthesized P
      else if ty = ''STAR'' then bindP advance (\<lambda>_. retP (AllColumns None))
      else if isAggregateKeyword ty \<and> paren_next then parseAggregateCall P
      else if ty = ''PLACEHOLDER'' then bindP advance (\<lambda>_. retP (Parameter (parseFloat text)))
      else if ty = ''COLON'' then
        bindP advance (\<lambda>_. bindP (expect ''NUMBER'') (\<lambda>t. retP (Parameter (parseFloat (tk_value t)))))
      else if ty = ''IDENT'' \<or> isNonReservedKeyword ty then parseNamed P
      else parse_error (''Unexpected token '' @ ty @ '' ('' @ text @ '')''))"

lemma parsePrimary_alt:
  "parsePrimary P = bindP peek (\<lambda>token. bindP (aheadIs 1 ''STRING'') (\<lambda>sn. bindP (aheadIs 1 ''LPAREN'') (\<lambda>pn.
     primary_of P (tk_type token) (tk_value token) sn pn)))"
  unfolding parsePrimary_def primary_of_def Let_def ..

lemma acc_primary_more:
  assumes "accepts n (primary_of P (fst u) (snd u) (fst v = ''STRING'') (fst v = ''LPAREN'')) (u # v # us) y D"
  shows "accepts n (parsePrimary P) (u # v # us) y D"
  unfolding parsePrimary_alt
proof (rule acc_peek, rule acc_ahead, rule acc_ahead)
  fix t :: token and sn pn
  assume "next_type (u # v # us) D (tk_type t)" "u # v # us \<noteq> [] \<Longrightarrow> tk_value t = snd (hd (u # v # us))"
    and "\<And>a b c. u # v # us = a # b # c \<Longrightarrow> sn = (fst b = ''STRING'')"
    and "\<And>a b c. u # v # us = a # b # c \<Longrightarrow> pn = (fst b = ''LPAREN'')"
  then have "tk_type t = fst u" "tk_value t = snd u" "sn = (fst v = ''STRING'')" "pn = (fst v = ''LPAREN'')" by simp_all
  then show "accepts n (primary_of P (tk_type t) (tk_value t) sn pn) (u # v # us) y D" using assms by simp
qed

lemma acc_primary_one:
  assumes "\<And>sn. accepts n (primary_of P (fst u) (snd u) sn False) [u] y D" "''LPAREN'' \<in> D"
  shows "accepts n (parsePrimary P) [u] y D"
  unfolding parsePrimary_alt
proof (rule acc_peek, rule acc_ahead, rule acc_ahead)
  fix t :: token and sn pn
  assume "next_type [u] D (tk_type t)" "[u] \<noteq> [] \<Longrightarrow> tk_value t = snd (hd [u])"
    and "\<And>a. [u] = [a] \<Longrightarrow> ''LPAREN'' \<in> D \<Longrightarrow> \<not> pn"
  then have "tk_type t = fst u" "tk_value t = snd u" "pn = False" using assms(2) by simp_all
  then show "accepts n (primary_of P (tk_type t) (tk_value t) sn pn) [u] y D" using assms(1) by simp
qed

lemma acc_literal: "accepts (Suc n) (literal v t) [u] (Literal v t) D"
  unfolding literal_def by (intro acc_advance acc_ret)

lemma cont7: "''LPAREN'' \<in> cont 7" "''DOT'' \<in> cont 7" "''OVER'' \<in> cont 7"
  by (simp_all add: cont_def)

lemma acc_atoms:
  "accepts (Suc n) (parsePrimary P) [(''NUMBER'', v)]
     (if isApproximateLiteral v then Literal (LNum (parseFloat v)) (Some FLOAT64)
      else Literal (LNum (parseInt v)) None) (cont 7)"
  "accepts (Suc n) (parsePrimary P) [(''STRING'', v)] (Literal (LStr v) (Some VARCHAR)) (cont 7)"
  "accepts (Suc n) (parsePrimary P) [kw ''NULL''] (Literal LNull None) (cont 7)"
  "accepts (Suc n) (parsePrimary P) [kw ''TRUE''] (Literal (LBool True) (Some BOOLEAN)) (cont 7)"
  "accepts (Suc n) (parsePrimary P) [kw ''FALSE''] (Literal (LBool False) (Some BOOLEAN)) (cont 7)"
  by (rule acc_primary_one; simp add: primary_of_def parseNumber_def acc_literal cont7)+

lemma acc_prefixed:
  "accepts (Suc n) (parsePrimary P) [kw ''DATE'', (''STRING'', v)] (Literal (LStr v) (Some DATE)) D"
  "accepts (Suc n) (parsePrimary P) [kw ''TIMESTAMP'', (''STRING'', v)] (Literal (LStr v) (Some TIMESTAMP)) D"
  "accepts (Suc n) (parsePrimary P) [(''COLON'', c), (''NUMBER'', v)] (Parameter (parseFloat v)) D"
  by (rule acc_primary_more; simp add: primary_of_def isAggregateKeyword_def;
      rule acc_advance; rule acc_expect_n; simp add: acc_ret)+

lemma acc_primary_interval:
  "accepts (Suc n) (parsePrimary P) [kw ''INTERVAL'', (''STRING'', v), (''IDENT'', u)] (IntervalExpr v (toUpperCase u)) D"
  by (rule acc_primary_more) (simp add: primary_of_def acc_interval)

lemma acc_placeholder:
  "accepts (Suc n) (parsePrimary P) [(''PLACEHOLDER'', v)] (Parameter (parseFloat v)) (cont 7)"
proof (rule acc_primary_one [OF _ cont7(1)])
  have "accepts (Suc n) (bindP advance (\<lambda>_. retP (Parameter (parseFloat v)))) [(''PLACEHOLDER'', v)]
      (Parameter (parseFloat v)) (cont 7)"
    by (intro acc_advance acc_ret)
  then show "accepts (Suc n) (primary_of P (fst (''PLACEHOLDER'', v)) (snd (''PLACEHOLDER'', v)) sn False)
      [(''PLACEHOLDER'', v)] (Parameter (parseFloat v)) (cont 7)" for sn
    by (simp add: primary_of_def isAggregateKeyword_def)
qed

lemma acc_column:
  "accepts (Suc n) (parsePrimary P) [(''IDENT'', c)] (ColumnRef c None) (cont 7)"
proof (rule acc_primary_one [OF _ cont7(1)])
  have "accepts (Suc n) (parseNamed P) [(''IDENT'', c)] (ColumnRef c None) (cont 7)"
    unfolding parseNamed_def
    by (rule acc_advance, rule acc_isAt_end [OF _ cont7(1)], simp only: if_False,
        rule acc_isAt_end [OF _ cont7(2)]) (simp add: acc_ret)
  then show "accepts (Suc n) (primary_of P (fst (''IDENT'', c)) (snd (''IDENT'', c)) sn False) [(''IDENT'', c)]
      (ColumnRef c None) (cont 7)" for sn by (simp add: primary_of_def isAggregateKeyword_def)
qed

lemma acc_qualified:
  "accepts (Suc n) (parsePrimary P) [(''IDENT'', t), dot, (''IDENT'', c)] (ColumnRef c (Some t)) D"
proof (rule acc_primary_more)
  have "accepts (Suc n) (parseNamed P) [(''IDENT'', t), dot, (''IDENT'', c)] (ColumnRef c (Some t)) D"
    unfolding parseNamed_def
    by (rule acc_advance, rule acc_isAt_next, simp, rule acc_isAt_next, simp, rule acc_advance_n,
        rule acc_isAt_next, simp, rule acc_ident_n) (simp_all add: acc_ret)
  then show "accepts (Suc n) (primary_of P (fst (''IDENT'', t)) (snd (''IDENT'', t)) (fst dot = ''STRING'') (fst dot = ''LPAREN''))
      [(''IDENT'', t), dot, (''IDENT'', c)] (ColumnRef c (Some t)) D"
    by (simp add: primary_of_def isAggregateKeyword_def)
qed

lemma acc_named_call:
  assumes "accepts n (parseFunctionCallNamed P f) (lparen # us) e D"
  shows "accepts (Suc n) (parsePrimary P) ((''IDENT'', f) # lparen # us) e D"
proof (rule acc_primary_more)
  have "accepts (Suc n) (parseNamed P) ((''IDENT'', f) # lparen # us) e D"
    unfolding parseNamed_def
    by (rule acc_advance, rule acc_isAt_next) (use assms in simp)
  then show "accepts (Suc n) (primary_of P (fst (''IDENT'', f)) (snd (''IDENT'', f)) (fst lparen = ''STRING'') (fst lparen = ''LPAREN''))
      ((''IDENT'', f) # lparen # us) e D"
    by (simp add: primary_of_def isAggregateKeyword_def)
qed

lemma acc_primary_aggregate:
  assumes "isAggregateKeyword a" "accepts n (parseAggregateCall P) (kw a # lparen # us) e D"
  shows "accepts n (parsePrimary P) (kw a # lparen # us) e D"
proof (rule acc_primary_more)
  have "primary_of P a a False True = parseAggregateCall P"
    using assms(1)
    by (simp add: isAggregateKeyword_def, elim disjE; simp add: primary_of_def isAggregateKeyword_def)
  then show "accepts n (primary_of P (fst (kw a)) (snd (kw a)) (fst lparen = ''STRING'') (fst lparen = ''LPAREN''))
      (kw a # lparen # us) e D" using assms(2) by simp
qed

lemma acc_primary_keyword:
  "accepts n (parseCast P) (kw ''CAST'' # lparen # us) e D \<Longrightarrow>
     accepts n (parsePrimary P) (kw ''CAST'' # lparen # us) e D"
  "accepts n (parseExtract P) (kw ''EXTRACT'' # lparen # us) e D \<Longrightarrow>
     accepts n (parsePrimary P) (kw ''EXTRACT'' # lparen # us) e D"
  "accepts n (parseSubstringFn P) (kw ''SUBSTRING'' # lparen # us) e D \<Longrightarrow>
     accepts n (parsePrimary P) (kw ''SUBSTRING'' # lparen # us) e D"
  "accepts n (parseTrim P) (kw ''TRIM'' # lparen # us) e D \<Longrightarrow>
     accepts n (parsePrimary P) (kw ''TRIM'' # lparen # us) e D"
  "accepts n (parseCaseExpr P) (kw ''CASE'' # v # us) e D \<Longrightarrow>
     accepts n (parsePrimary P) (kw ''CASE'' # v # us) e D"
  by (rule acc_primary_more; simp add: primary_of_def)+

lemma acc_parenthesized:
  assumes e: "arg n P e ts" and q: "quiet ts"
  shows "accepts (Suc n) (parsePrimary P) (lparen # ts @ [rparen]) e D"
proof -
  obtain v us where ts: "ts @ [rparen] = v # us" by (cases "ts @ [rparen]") auto
  have inner: "accepts (Suc n) (bindP advance (\<lambda>_. bindP (p_expr P) (\<lambda>e. bindP (expect ''RPAREN'') (\<lambda>_. retP e))))
      (lparen # ts @ [rparen]) e D"
    by (rule acc_advance, rule arg_next [OF e], rule acc_expect_n) (simp_all add: acc_ret side)
  have "accepts (Suc n) (parseParenthesized P) (lparen # ts @ [rparen]) e D"
    unfolding accepts_def
  proof (intro allI impI)
    fix s r assume v: "view s = (lparen # ts @ [rparen]) @ r" and st: "stops D r" and n: "remaining s < Suc n"
    have "map tk_type (drop (pos s) (tokens s)) = map fst (view s)" by (simp add: view_def)
    then have "subquery_scan 0 True (drop (pos s) (tokens s)) = scan 0 True (map fst (view s))"
      by (simp add: subquery_scan_types)
    also have "\<dots> = scan 1 False (map fst ts @ ''RPAREN'' # map fst r)" using v by simp
    also have "\<dots> = scan 1 False (''RPAREN'' # map fst r)"
      using q by (simp only: quiet_def order_refl)
    also have "\<not> \<dots>" by simp
    finally have "isSubqueryStart s = Inr (False, s)" by (simp add: isSubqueryStart_def)
    then show "parseParenthesized P s = Inr (e, skip (length (lparen # ts @ [rparen])) s)"
      using inner v st n unfolding parseParenthesized_def accepts_def bindP_def [of isSubqueryStart] by simp
  qed
  then show ?thesis
    unfolding ts by (intro acc_primary_more) (simp add: primary_of_def)
qed

section \<open>Comparisons\<close>

lemma acc_isAt_not:
  "fst u \<noteq> ty \<Longrightarrow> accepts n (f False) (u # us) y D \<Longrightarrow> accepts n (bindP (isAt ty) f) (u # us) y D"
  by (rule acc_isAt_next) simp

definition comparison_rest :: "parsers \<Rightarrow> expr \<Rightarrow> expr pm" where
  "comparison_rest P left = bindP (isAt ''NOT'') (\<lambda>negation.
     if negation then parseNegatedTest P left else parseComparisonTail P left)"

lemma acc_comparison:
  assumes "starts 4 ts" "accepts n (parseAddition P) ts e (cont 4)"
    and "accepts n (comparison_rest P e) us y D"
    and "us = [] \<Longrightarrow> cont 4 \<subseteq> D" "us \<noteq> [] \<Longrightarrow> fst (hd us) \<notin> cont 4"
  shows "accepts n (parseComparison P) (ts @ us) y D"
  unfolding parseComparison_def
  by (rule acc_isAt_starts [OF assms(1)], simp add: side, simp only: if_False,
      rule acc_bind [OF assms(2)], fold comparison_rest_def, rule assms(3))
    (use assms(4,5) in auto)

lemma acc_rest_tail:
  assumes "accepts n (parseComparisonTail P e) (u # us) y D" "fst u \<noteq> ''NOT''"
  shows "accepts n (comparison_rest P e) (u # us) y D"
  unfolding comparison_rest_def by (rule acc_isAt_next) (use assms in simp)

lemma acc_rest_negated:
  assumes "fst u = ''BETWEEN'' \<Longrightarrow> accepts n (parseBetween P e True) (u # us) y D"
    and "fst u = ''IN'' \<Longrightarrow> accepts n (parseIn P e True) (u # us) y D"
    and "fst u = ''LIKE'' \<Longrightarrow> accepts n (parseLike P e True) (u # us) y D"
    and "fst u \<in> {''BETWEEN'', ''IN'', ''LIKE''}"
  shows "accepts (Suc n) (comparison_rest P e) (kw ''NOT'' # u # us) y D"
proof -
  have "accepts (Suc n) (bindP advance (\<lambda>_.
     bindP (isAt ''BETWEEN'') (\<lambda>between. if between then parseBetween P e True else
     bindP (isAt ''IN'') (\<lambda>inside. if inside then parseIn P e True else
     bindP (isAt ''LIKE'') (\<lambda>like. if like then parseLike P e True else
     (\<lambda>s. parseComparisonTail P e (s\<lparr>pos := pos saved\<rparr>))))))) (kw ''NOT'' # u # us) y D" for saved
    by (rule acc_advance, rule acc_isAt_next, cases "fst u = ''BETWEEN''", simp add: assms(1),
        simp, rule acc_isAt_next, cases "fst u = ''IN''", simp add: assms(2), simp, rule acc_isAt_next)
      (use assms(3,4) in auto)
  then have "accepts (Suc n) (parseNegatedTest P e) (kw ''NOT'' # u # us) y D"
    unfolding accepts_def parseNegatedTest_def by blast
  then show ?thesis unfolding comparison_rest_def by (intro acc_isAt_next) simp
qed

lemma acc_between:
  assumes "accepts n (parseAddition P) us a (cont 4)" "accepts n (parseAddition P) vs b (cont 4)"
  shows "accepts (Suc n) (parseBetween P e neg) (kw ''BETWEEN'' # us @ kw ''AND'' # vs) (BetweenExpr e a b neg) (cont 3)"
  unfolding parseBetween_def
  by (rule acc_advance, rule acc_bind_next [OF assms(1)], rule acc_expect_n, simp, rule acc_bind_end [OF assms(2)])
    (simp_all add: acc_ret cont_def)

lemma acc_in:
  assumes "args n P es us"
  shows "accepts (Suc n) (parseIn P e neg) (kw ''IN'' # lparen # us @ [rparen]) (InExpr e (InList es) neg) D"
proof -
  have st: "starts 0 us" using assms by (simp add: args_def)
  show ?thesis
    unfolding parseIn_def
    by (rule acc_advance, rule acc_expect_n, simp, rule acc_isAtAny_starts [OF st], simp add: side,
        simp only: if_False, rule args_next [OF assms], rule acc_expect_n)
      (simp_all add: acc_ret side)
qed

lemma acc_like:
  assumes "accepts n (parseAddition P) us p (cont 4)"
  shows "accepts (Suc n) (parseLike P e neg) (kw ''LIKE'' # us) (LikeExpr e p neg) (cont 3)"
  unfolding parseLike_def
  by (rule acc_advance, rule acc_bind_end [OF assms]) (auto simp: acc_ret cont_def)

lemma acc_tail_between:
  "accepts n (parseBetween P e False) (kw ''BETWEEN'' # us) y D \<Longrightarrow>
     accepts n (parseComparisonTail P e) (kw ''BETWEEN'' # us) y D"
  "accepts n (parseIn P e False) (kw ''IN'' # us) y D \<Longrightarrow>
     accepts n (parseComparisonTail P e) (kw ''IN'' # us) y D"
  "accepts n (parseLike P e False) (kw ''LIKE'' # us) y D \<Longrightarrow>
     accepts n (parseComparisonTail P e) (kw ''LIKE'' # us) y D"
  "accepts n (parseIs e) (kw ''IS'' # us) y D \<Longrightarrow> accepts n (parseComparisonTail P e) (kw ''IS'' # us) y D"
  unfolding parseComparisonTail_def by (intro acc_isAt_next; simp; (intro acc_isAt_next; simp)?; (intro acc_isAt_next; simp)?; (intro acc_isAt_next; simp)?)+

lemma acc_tail_op:
  assumes "map_of opMap ty = Some op" "accepts n (parseAddition P) us r (cont 4)" "starts 4 us"
  shows "accepts (Suc n) (parseComparisonTail P e) ((ty, v) # us) (BinaryExpr op e (Plain r)) (cont 3)"
proof -
  have ty: "ty \<in> {''EQ'', ''NEQ'', ''LT'', ''GT'', ''LTE'', ''GTE''}" by (rule opMap_types [OF assms(1)])
  have right: "accepts n (bindP (parseAddition P) (\<lambda>right. retP (BinaryExpr op e (Plain right)))) (us @ [])
      (BinaryExpr op e (Plain r)) (cont 3)"
    by (simp, rule acc_bind_end [OF assms(2)]) (auto simp: acc_ret cont_def)
  have "accepts (Suc n) (parseComparisonOp P e) ((ty, v) # us) (BinaryExpr op e (Plain r)) (cont 3)"
    unfolding parseComparisonOp_def
  proof (rule acc_peek)
    fix t :: token assume "next_type ((ty, v) # us) (cont 3) (tk_type t)"
    then have t: "tk_type t = ty" by simp
    have "accepts n (bindP (isAtAny [''ALL'', ''SOME'', ''ANY'']) (\<lambda>quantified. if quantified then bindP advance (\<lambda>q.
           bindP (parens (p_query P)) (\<lambda>query. retP (BinaryExpr op e (QuantifiedSubquery (tk_type q) query))))
         else bindP (parseAddition P) (\<lambda>right. retP (BinaryExpr op e (Plain right))))) (us @ []) (BinaryExpr op e (Plain r)) (cont 3)"
      by (rule acc_isAtAny_starts [OF assms(3)], simp add: side, simp only: if_False, rule right)
    then show "accepts (Suc n) (case map_of opMap (tk_type t) of None \<Rightarrow> retP e
        | Some op \<Rightarrow> bindP advance (\<lambda>_. bindP (isAtAny [''ALL'', ''SOME'', ''ANY'']) (\<lambda>quantified.
         if quantified then bindP advance (\<lambda>q.
           bindP (parens (p_query P)) (\<lambda>query. retP (BinaryExpr op e (QuantifiedSubquery (tk_type q) query))))
         else bindP (parseAddition P) (\<lambda>right. retP (BinaryExpr op e (Plain right))))))
        ((ty, v) # us) (BinaryExpr op e (Plain r)) (cont 3)"
      unfolding t assms(1) option.case by (intro acc_advance) simp
  qed
  note op = this
  have other: "fst (ty, v) \<noteq> ''BETWEEN''" "fst (ty, v) \<noteq> ''IN''" "fst (ty, v) \<noteq> ''LIKE''" "fst (ty, v) \<noteq> ''IS''"
    using ty by auto
  show ?thesis
    unfolding parseComparisonTail_def
    by (rule acc_isAt_not [OF other(1)], simp only: if_False, rule acc_isAt_not [OF other(2)], simp only: if_False,
        rule acc_isAt_not [OF other(3)], simp only: if_False, rule acc_isAt_not [OF other(4)], simp only: if_False,
        rule op)
qed

lemma acc_rest_end: "accepts n (comparison_rest P e) [] e (cont 3)"
proof -
  have "accepts n (parseComparisonOp P e) [] e (cont 3)"
    unfolding parseComparisonOp_def
  proof (rule acc_peek)
    fix t :: token assume "next_type [] (cont 3) (tk_type t)"
    then have "map_of opMap (tk_type t) = None" by (auto simp: opMap_def cont_def)
    then show "accepts n (case map_of opMap (tk_type t) of None \<Rightarrow> retP e
        | Some op \<Rightarrow> bindP advance (\<lambda>_. bindP (isAtAny [''ALL'', ''SOME'', ''ANY'']) (\<lambda>quantified.
         if quantified then bindP advance (\<lambda>q.
           bindP (parens (p_query P)) (\<lambda>query. retP (BinaryExpr op e (QuantifiedSubquery (tk_type q) query))))
         else bindP (parseAddition P) (\<lambda>right. retP (BinaryExpr op e (Plain right)))))) [] e (cont 3)"
      by (simp add: acc_ret)
  qed
  note op = this
  show ?thesis
    unfolding comparison_rest_def parseComparisonTail_def
    by (rule acc_isAt_end, simp only: if_False, rule acc_isAt_end, simp only: if_False, rule acc_isAt_end,
        simp only: if_False, rule acc_isAt_end, simp only: if_False, rule acc_isAt_end, simp only: if_False,
        rule op)
      (simp_all add: cont_def)
qed

lemma acc_is:
  "accepts (Suc n) (parseIs e) (kw ''IS'' # negation neg @ [kw ''NULL'']) (IsNullExpr e neg) D"
  "accepts (Suc n) (parseIs e) (kw ''IS'' # negation neg @ [kw ''TRUE'']) (truthTest e ''IS_TRUE'' neg) D"
  "accepts (Suc n) (parseIs e) (kw ''IS'' # negation neg @ [kw ''FALSE'']) (truthTest e ''IS_FALSE'' neg) D"
proof -
  define rest where "rest = (\<lambda>negated. bindP (tryConsume ''TRUE'') (\<lambda>true.
     if true then retP (truthTest e ''IS_TRUE'' negated)
     else bindP (tryConsume ''FALSE'') (\<lambda>false. if false then retP (truthTest e ''IS_FALSE'' negated)
       else bindP (expect ''NULL'') (\<lambda>_. retP (IsNullExpr e negated)))))"
  have is_rest: "accepts (Suc n) (parseIs e) (kw ''IS'' # negation neg @ [u]) y D"
    if "accepts n (rest neg) [u] y D" "fst u \<noteq> ''NOT''" for u y
    unfolding parseIs_def rest_def [symmetric]
    by (rule acc_advance, cases neg) (use that in \<open>auto simp: negation_def intro: acc_try_yes_n acc_try_next_no\<close>)
  have "accepts n (rest neg) [kw ''NULL''] (IsNullExpr e neg) D"
    unfolding rest_def
    by (rule acc_try_next_no, simp, simp, rule acc_try_next_no, simp, simp, rule acc_expect_n) (simp_all add: acc_ret)
  moreover have "accepts n (rest neg) [kw ''TRUE''] (truthTest e ''IS_TRUE'' neg) D"
    unfolding rest_def by (rule acc_try_yes_n) (simp_all add: acc_ret)
  moreover have "accepts n (rest neg) [kw ''FALSE''] (truthTest e ''IS_FALSE'' neg) D"
    unfolding rest_def by (rule acc_try_next_no, simp, simp, rule acc_try_yes_n) (simp_all add: acc_ret)
  ultimately show
    "accepts (Suc n) (parseIs e) (kw ''IS'' # negation neg @ [kw ''NULL'']) (IsNullExpr e neg) D"
    "accepts (Suc n) (parseIs e) (kw ''IS'' # negation neg @ [kw ''TRUE'']) (truthTest e ''IS_TRUE'' neg) D"
    "accepts (Suc n) (parseIs e) (kw ''IS'' # negation neg @ [kw ''FALSE'']) (truthTest e ''IS_FALSE'' neg) D"
    by (auto intro: is_rest)
qed

section \<open>All levels\<close>

definition level :: "parsers \<Rightarrow> nat \<Rightarrow> expr pm" where
  "level P k = [parseOr P, parseAnd P, parseNot P, parseComparison P, parseAddition P, parseMultiplication P,
     parseUnary P, parsePrimary P] ! k"

lemma level_simps:
  "level P 0 = parseOr P" "level P (Suc 0) = parseAnd P" "level P 2 = parseNot P" "level P 3 = parseComparison P"
  "level P 4 = parseAddition P" "level P 5 = parseMultiplication P" "level P 6 = parseUnary P"
  "level P 7 = parsePrimary P"
  by (simp_all add: level_def)

definition chain_types :: "nat \<Rightarrow> string list" where
  "chain_types k = (if k = 0 then [''OR''] else if k = 1 then [''AND'']
     else if k = 4 then [''PLUS'', ''MINUS'', ''CONCAT''] else [''STAR'', ''SLASH'', ''PERCENT''])"

definition chain_op :: "nat \<Rightarrow> token \<Rightarrow> string" where
  "chain_op k = (if k = 0 then (\<lambda>_. ''OR'') else if k = 1 then (\<lambda>_. ''AND'') else tk_value)"

definition chained :: "nat \<Rightarrow> bool" where
  "chained k \<longleftrightarrow> k \<in> {0, 1, 4, 5}"

lemma level_chain: "chained k \<Longrightarrow> level P k = binary_chain (chain_types k) (chain_op k) (level P (Suc k))"
  by (auto simp: chained_def level_def chain_types_def chain_op_def parseOr_def parseAnd_def parseAddition_def
      parseMultiplication_def eval_nat_numeral)

lemma level_progress: "hooks n P \<Longrightarrow> k \<le> 7 \<Longrightarrow> progress (Suc n) (level P k)"
proof -
  assume P: "hooks n P" and "k \<le> 7"
  then have "k \<in> {0, 1, 2, 3, 4, 5, 6, 7}" by auto
  moreover have "progress (Suc n) (parseMultiplication P)" "progress (Suc n) (parseAnd P)" "progress (Suc n) (parseOr P)"
    unfolding parseMultiplication_def parseAnd_def parseOr_def
    by (intro progress_binary_chain first_parseUnary first_parseNot P)+
  ultimately show ?thesis
    using first_parseNot [OF P] first_parseComparison [OF P] first_parseAddition [OF P] first_parseUnary [OF P]
      first_parsePrimary [OF P]
    by (auto simp: level_def eval_nat_numeral)
qed

text \<open>What rule induction shows of a spelling at level \<open>k\<close>.\<close>

definition reads :: "nat \<Rightarrow> expr \<Rightarrow> tok list \<Rightarrow> bool" where
  "reads k e ts \<longleftrightarrow> (\<forall>n.
     if chained k
     then chains (Suc n) (chain_types k) (chain_op k) (level (parsers_at n) (Suc k)) e ts (cont (Suc k))
     else accepts (Suc n) (level (parsers_at n) k) ts e (cont k))"

lemma cont_chain: "chained k \<Longrightarrow> cont (Suc k) \<union> set (chain_types k) \<subseteq> cont k"
  by (auto simp: chained_def cont_def chain_types_def)

lemma reads_accepts:
  assumes "reads k e ts" "k \<le> 7"
  shows "accepts (Suc n) (level (parsers_at n) k) ts e (cont k)"
proof (cases "chained k")
  case True
  then have "Suc k \<le> 7" by (auto simp: chained_def)
  then have "progress (Suc n) (level (parsers_at n) (Suc k))" by (intro level_progress parsers_at_hooks)
  moreover have "chains (Suc n) (chain_types k) (chain_op k) (level (parsers_at n) (Suc k)) e ts (cont (Suc k))"
    using assms(1) True by (simp add: reads_def)
  ultimately have "accepts (Suc n) (level (parsers_at n) k) ts e (cont (Suc k) \<union> set (chain_types k))"
    unfolding level_chain [OF True] by (intro chain_end)
  then show ?thesis using cont_chain [OF True] by (rule accepts_more)
next
  case False
  then show ?thesis using assms(1) by (simp add: reads_def)
qed

lemma reads_not_chained:
  "\<not> chained k \<Longrightarrow> (\<And>n. accepts (Suc n) (level (parsers_at n) k) ts e (cont k)) \<Longrightarrow> reads k e ts"
  by (simp add: reads_def)

lemma accepts_0: "accepts 0 p ts e C"
  by (simp add: accepts_def)

lemma reads_hooks:
  "reads 0 e ts \<Longrightarrow> accepts n (p_expr (parsers_at n)) ts e (cont 0)"
  "reads 2 e ts \<Longrightarrow> accepts n (p_not (parsers_at n)) ts e (cont 2)"
  "reads 6 e ts \<Longrightarrow> accepts n (p_unary (parsers_at n)) ts e (cont 6)"
  by (cases n; use reads_accepts [of 0 e ts] reads_accepts [of 2 e ts] reads_accepts [of 6 e ts]
      in \<open>simp add: accepts_0 Let_def level_simps parseExpression_def\<close>)+

lemma reads_addition:
  assumes "reads 4 e ts"
  shows "accepts (Suc n) (parseAddition (parsers_at n)) ts e (cont 4)"
    "accepts n (parseAddition (parsers_at n)) ts e (cont 4)"
  using reads_accepts [OF assms, of n] by (simp_all add: level_simps accepts_mono)

lemma not_chained: "\<not> chained 2" "\<not> chained 3" "\<not> chained 6" "\<not> chained 7"
  by (simp_all add: chained_def)

lemma reads_primary:
  "(\<And>n. accepts (Suc n) (parsePrimary (parsers_at n)) ts e (cont 7)) \<Longrightarrow> reads 7 e ts"
  by (rule reads_not_chained [OF not_chained(4)]) (simp add: level_simps)

lemma reads_chain_start:
  assumes "chained k" "reads (Suc k) e ts" "k < 7"
  shows "reads k e ts"
  using assms reads_accepts [OF assms(2)] by (simp add: reads_def chain_start)

lemma reads_chain_step:
  assumes "chained k" "reads k l ts" "reads (Suc k) r us" "ty \<in> set (chain_types k)"
    and "\<And>t :: token. tk_type t = ty \<Longrightarrow> tk_value t = v \<Longrightarrow> chain_op k t = op"
  shows "reads k (BinaryExpr op l (Plain r)) (ts @ (ty, v) # us)"
proof -
  have k: "Suc k \<le> 7" using assms(1) by (auto simp: chained_def)
  have ty: "ty \<notin> cont (Suc k)" using assms(1,4) by (auto simp: chained_def chain_types_def cont_def)
  have "chains (Suc n) (chain_types k) (chain_op k) (level (parsers_at n) (Suc k)) (BinaryExpr op l (Plain r))
      (ts @ (ty, v) # us) (cont (Suc k))" for n
    by (rule chain_step)
      (use assms ty reads_accepts [OF assms(3) k] level_progress [OF parsers_at_hooks k] in \<open>auto simp: reads_def\<close>)
  then show ?thesis using assms(1) by (simp add: reads_def)
qed

lemma acc_isAt_first:
  assumes "starts k ts" "ty \<notin> STARTS" "k \<le> 6 \<Longrightarrow> ty \<notin> {''MINUS'', ''PLUS''}" "k \<le> 2 \<Longrightarrow> ty \<noteq> ''NOT''"
    and "accepts n (f False) ts y D"
  shows "accepts n (bindP (isAt ty) f) ts y D"
proof (rule acc_isAt)
  fix ty' assume n: "next_type ts D ty'"
  then have "(ty' = ty) = False"
    using next_type_starts [OF assms(1), of "[]" D ty'] assms(2-4) by auto
  then show "accepts n (f (ty' = ty)) ts y D" using assms(5) by simp
qed

lemma reads_args:
  assumes "\<forall>n. accepts n (parseExpressionList (parsers_at n)) ts es (insert ''COMMA'' (cont 0))" "spells_list es ts"
  shows "args n (parsers_at n) es ts"
  using assms spells_starts(2) by (auto simp: args_def)

lemma reads_arg: "reads 0 e ts \<Longrightarrow> spells 0 e ts \<Longrightarrow> arg n (parsers_at n) e ts"
  using reads_hooks(1) spells_starts(1) by (auto simp: arg_def)

lemma reads_comparison:
  assumes "reads 4 e ts" "spells 4 e ts" "us \<noteq> []" "fst (hd us) \<notin> cont 4"
    and "\<And>n. accepts (Suc n) (comparison_rest (parsers_at n) e) us y (cont 3)"
  shows "reads 3 y (ts @ us)"
proof (rule reads_not_chained [OF not_chained(2)])
  fix n
  show "accepts (Suc n) (level (parsers_at n) 3) (ts @ us) y (cont 3)"
    unfolding level_simps
    by (rule acc_comparison [OF spells_starts(1) [OF assms(2)] reads_addition(1) [OF assms(1)] assms(5)])
      (use assms in auto)
qed

text \<open>A test that can be negated: BETWEEN, IN and LIKE.\<close>

lemma acc_test_rest:
  assumes "ty \<in> {''BETWEEN'', ''IN'', ''LIKE''}"
    and "ty = ''BETWEEN'' \<Longrightarrow> accepts (Suc n) (parseBetween P e neg) (kw ty # us) y (cont 3)"
    and "ty = ''IN'' \<Longrightarrow> accepts (Suc n) (parseIn P e neg) (kw ty # us) y (cont 3)"
    and "ty = ''LIKE'' \<Longrightarrow> accepts (Suc n) (parseLike P e neg) (kw ty # us) y (cont 3)"
  shows "accepts (Suc n) (comparison_rest P e) (negation neg @ kw ty # us) y (cont 3)"
proof (cases neg)
  case True
  have "accepts (Suc (Suc n)) (comparison_rest P e) (kw ''NOT'' # kw ty # us) y (cont 3)"
    by (rule acc_rest_negated) (use assms True in auto)
  then show ?thesis using True by (simp add: negation_def accepts_mono)
next
  case False
  have "accepts (Suc n) (parseComparisonTail P e) (kw ty # us) y (cont 3)"
    using assms False acc_tail_between by auto
  then show ?thesis using False assms(1) by (auto simp: negation_def intro: acc_rest_tail)
qed

lemma spells_reads:
  "spells k e ts \<Longrightarrow> reads k e ts"
  "spells_list es ts \<Longrightarrow> \<forall>n. accepts n (parseExpressionList (parsers_at n)) ts es (insert ''COMMA'' (cont 0))"
  "spells_else el ts \<Longrightarrow> \<forall>n. ends n (parsers_at n) el ts"
  "spells_whens ws ts \<Longrightarrow> \<forall>n. whens n (parsers_at n) ws ts"
proof (induction rule: spells_spells_list_spells_else_spells_whens.inducts)
  case (number e v)
  show ?case unfolding number by (rule reads_primary) (rule acc_atoms(1))
next
  case (text_literal v)
  show ?case by (rule reads_primary) (rule acc_atoms(2))
next
  case null_literal
  show ?case by (rule reads_primary) (rule acc_atoms(3))
next
  case true_literal
  show ?case by (rule reads_primary) (rule acc_atoms(4))
next
  case false_literal
  show ?case by (rule reads_primary) (rule acc_atoms(5))
next
  case (date_literal v)
  show ?case by (rule reads_primary) (rule acc_prefixed(1))
next
  case (timestamp_literal v)
  show ?case by (rule reads_primary) (rule acc_prefixed(2))
next
  case (interval v u)
  show ?case by (rule reads_primary) (rule acc_primary_interval)
next
  case (placeholder v)
  show ?case by (rule reads_primary) (rule acc_placeholder)
next
  case (colon_parameter v)
  show ?case by (rule reads_primary) (rule acc_prefixed(3))
next
  case (column c)
  show ?case by (rule reads_primary) (rule acc_column)
next
  case (qualified_column c t)
  show ?case by (rule reads_primary) (rule acc_qualified)
next
  case (call_none f)
  show ?case by (rule reads_primary, intro acc_named_call acc_call_none cont7)
next
  case (call args ts f)
  then show ?case by (intro reads_primary acc_named_call acc_call_args reads_args cont7)
next
  case count_star
  then show ?case
    by (rule reads_primary, intro acc_primary_aggregate acc_count_star cont7) (simp add: isAggregateKeyword_def)
next
  case (aggregate a args ts)
  then show ?case by (intro reads_primary acc_primary_aggregate acc_aggregate reads_args cont7)
next
  case (aggregate_distinct a args ts)
  then show ?case by (intro reads_primary acc_primary_aggregate acc_aggregate_distinct reads_args cont7)
next
  case (searched_case ws us el vs)
  have us: "us \<noteq> []" "fst (hd us) = ''WHEN''" using spells_starts(4) [OF searched_case(1)] by auto
  then obtain u us' where "us = u # us'" by (cases us) auto
  then show ?case
    using searched_case us acc_searched_case [OF parsers_at_hooks, of _ ws us el vs]
    by (intro reads_primary) (simp add: acc_primary_keyword(5))
next
  case (simple_case e ts ws us el vs)
  have us: "us \<noteq> []" "fst (hd us) = ''WHEN''" using spells_starts(4) [OF simple_case(2)] by auto
  obtain t ts' where "ts = t # ts'" using spells_starts(1) [OF simple_case(1)] by (cases ts) (auto simp: starts_def)
  then show ?case
    using simple_case us acc_simple_case [OF parsers_at_hooks reads_arg, of e ts _ ws us el vs]
    by (intro reads_primary) (simp add: acc_primary_keyword(5))
next
  case (cast_to e ts t)
  then show ?case by (intro reads_primary acc_primary_keyword acc_cast reads_arg)
next
  case (extract_field f e ts)
  then show ?case by (intro reads_primary acc_primary_keyword acc_extract reads_arg)
next
  case (substring_from e ts a us l vs)
  then show ?case by (intro reads_primary acc_primary_keyword acc_substring_from reads_arg)
next
  case (substring_comma e ts a us l vs)
  then show ?case by (intro reads_primary acc_primary_keyword acc_substring_comma reads_arg)
next
  case (trim_both e ts)
  then show ?case by (intro reads_primary acc_primary_keyword acc_trim reads_arg)
next
  case (trim_spec sp c us e ts)
  then show ?case by (intro reads_primary acc_primary_keyword acc_trim_spec reads_arg)
next
  case (parenthesized e ts)
  then show ?case using spells_quiet(1) by (intro reads_primary acc_parenthesized reads_arg)
next
  case (minus_sign e ts)
  have "accepts (Suc n) (parseUnary (parsers_at n)) ((''MINUS'', ''-'') # ts) (UnaryExpr ''-'' e) (cont 6)" for n
    unfolding parseUnary_def
    by (rule acc_isAt_next, simp, rule acc_advance, rule acc_bind_end [OF reads_hooks(3) [OF minus_sign.IH]])
      (simp_all add: acc_ret)
  then show ?case by (intro reads_not_chained not_chained) (simp add: level_simps)
next
  case (plus_sign e ts)
  have "accepts (Suc n) (parseUnary (parsers_at n)) ((''PLUS'', ''+'') # ts) e (cont 6)" for n
    unfolding parseUnary_def
    by (rule acc_isAt_next, simp, rule acc_isAt_next, simp, rule acc_advance, rule reads_hooks(3) [OF plus_sign.IH])
  then show ?case by (intro reads_not_chained not_chained) (simp add: level_simps)
next
  case (multiplication l ts r us ty v)
  then show ?case
    by (intro reads_chain_step) (auto simp: chained_def chain_types_def chain_op_def eval_nat_numeral)
next
  case (addition l ts r us ty v)
  then show ?case
    by (intro reads_chain_step) (auto simp: chained_def chain_types_def chain_op_def eval_nat_numeral)
next
  case (comparison l ts r us ty op v)
  have ty: "ty \<in> {''EQ'', ''NEQ'', ''LT'', ''GT'', ''LTE'', ''GTE''}" by (rule opMap_types) (rule comparison)
  have "accepts (Suc n) (comparison_rest (parsers_at n) l) ((ty, v) # us) (BinaryExpr op l (Plain r)) (cont 3)" for n
    by (rule acc_rest_tail, rule acc_tail_op [OF comparison(3) reads_addition(2) [OF comparison.IH(2)]
          spells_starts(1) [OF comparison(2)]]) (use ty in auto)
  then show ?case
    by (intro reads_comparison [OF comparison.IH(1) comparison(1)]) (use ty in \<open>auto simp: cont_def\<close>)
next
  case (between e ts a us b vs neg)
  have "accepts (Suc n) (parseBetween (parsers_at n) e neg) (kw ''BETWEEN'' # us @ kw ''AND'' # vs)
      (BetweenExpr e a b neg) (cont 3)" for n
    by (intro acc_between reads_addition(2) between.IH)
  then have "accepts (Suc n) (comparison_rest (parsers_at n) e) (negation neg @ kw ''BETWEEN'' # us @ kw ''AND'' # vs)
      (BetweenExpr e a b neg) (cont 3)" for n
    by (intro acc_test_rest) auto
  then show ?case
    by (intro reads_comparison [OF between.IH(1) between(1)]) (auto simp: cont_def negation_def)
next
  case (in_values e ts es us neg)
  have "accepts (Suc n) (parseIn (parsers_at n) e neg) (kw ''IN'' # lparen # us @ [rparen])
      (InExpr e (InList es) neg) (cont 3)" for n
    using in_values by (intro acc_in reads_args)
  then have "accepts (Suc n) (comparison_rest (parsers_at n) e) (negation neg @ kw ''IN'' # lparen # us @ [rparen])
      (InExpr e (InList es) neg) (cont 3)" for n
    by (intro acc_test_rest) auto
  then show ?case
    by (intro reads_comparison [OF in_values.IH(1) in_values(1)]) (auto simp: cont_def negation_def)
next
  case (like_pattern e ts p us neg)
  have "accepts (Suc n) (parseLike (parsers_at n) e neg) (kw ''LIKE'' # us) (LikeExpr e p neg) (cont 3)" for n
    by (intro acc_like reads_addition(2) like_pattern.IH)
  then have "accepts (Suc n) (comparison_rest (parsers_at n) e) (negation neg @ kw ''LIKE'' # us)
      (LikeExpr e p neg) (cont 3)" for n
    by (intro acc_test_rest) auto
  then show ?case
    by (intro reads_comparison [OF like_pattern.IH(1) like_pattern(1)]) (auto simp: cont_def negation_def)
next
  case (is_null e ts neg)
  have "accepts (Suc n) (comparison_rest (parsers_at n) e) (kw ''IS'' # negation neg @ [kw ''NULL'']) (IsNullExpr e neg) (cont 3)" for n
    by (rule acc_rest_tail, rule acc_tail_between(4), rule acc_is(1)) simp
  then show ?case
    by (intro reads_comparison [OF is_null.IH is_null(1)]) (auto simp: cont_def)
next
  case (is_true e ts neg)
  have "accepts (Suc n) (comparison_rest (parsers_at n) e) (kw ''IS'' # negation neg @ [kw ''TRUE'']) (truthTest e ''IS_TRUE'' neg) (cont 3)" for n
    by (rule acc_rest_tail, rule acc_tail_between(4), rule acc_is(2)) simp
  then show ?case
    by (intro reads_comparison [OF is_true.IH is_true(1)]) (auto simp: cont_def)
next
  case (is_false e ts neg)
  have "accepts (Suc n) (comparison_rest (parsers_at n) e) (kw ''IS'' # negation neg @ [kw ''FALSE'']) (truthTest e ''IS_FALSE'' neg) (cont 3)" for n
    by (rule acc_rest_tail, rule acc_tail_between(4), rule acc_is(3)) simp
  then show ?case
    by (intro reads_comparison [OF is_false.IH is_false(1)]) (auto simp: cont_def)
next
  case (not_expr e ts)
  have "accepts (Suc n) (parseNot (parsers_at n)) (kw ''NOT'' # ts) (UnaryExpr ''NOT'' e) (cont 2)" for n
    unfolding parseNot_def
    by (rule acc_isAt_next, simp, rule acc_advance, rule acc_bind_end [OF reads_hooks(2) [OF not_expr.IH]])
      (simp_all add: acc_ret)
  then show ?case by (intro reads_not_chained not_chained) (simp add: level_simps)
next
  case (conjunction l ts r us)
  then show ?case
    by (intro reads_chain_step) (auto simp: chained_def chain_types_def chain_op_def eval_nat_numeral)
next
  case (disjunction l ts r us)
  then show ?case
    by (intro reads_chain_step) (auto simp: chained_def chain_types_def chain_op_def eval_nat_numeral)
next
  case (up k e ts)
  show ?case
  proof (cases "chained k")
    case True
    then show ?thesis using up.IH up(2) by (rule reads_chain_start)
  next
    case False
    then consider "k = 2" | "k = 3" | "k = 6" using up(2) by (force simp: chained_def)
    then show ?thesis
    proof cases
      case 1
      have st: "starts 3 ts" using spells_starts(1) [OF up(1)] 1 by simp
      have "reads 3 e ts" using up.IH 1 by simp
      from reads_accepts [OF this] have c: "accepts (Suc n) (parseComparison (parsers_at n)) ts e (cont 3)" for n
        by (simp add: level_simps)
      have "accepts (Suc n) (parseNot (parsers_at n)) ts e (cont 2)" for n
        unfolding parseNot_def
        by (rule acc_isAt_first [OF st], simp_all add: STARTS_def, rule accepts_more [OF c])
          (auto simp: cont_def)
      then show ?thesis unfolding 1 by (intro reads_not_chained not_chained) (simp add: level_simps)
    next
      case 2
      have "accepts (Suc n) (parseComparison (parsers_at n)) (ts @ []) e (cont 3)" for n
        by (rule acc_comparison [OF _ reads_addition(1) acc_rest_end])
          (use spells_starts(1) [OF up(1)] up.IH 2 in \<open>auto simp: cont_def eval_nat_numeral\<close>)
      then show ?thesis unfolding 2 by (intro reads_not_chained not_chained) (simp add: level_simps)
    next
      case 3
      have st: "starts 7 ts" using spells_starts(1) [OF up(1)] 3 by simp
      have "reads 7 e ts" using up.IH 3 by simp
      from reads_accepts [OF this] have p: "accepts (Suc n) (parsePrimary (parsers_at n)) ts e (cont 7)" for n
        by (simp add: level_simps)
      have "accepts (Suc n) (parseUnary (parsers_at n)) ts e (cont 6)" for n
        unfolding parseUnary_def
        by (rule acc_isAt_first [OF st], simp_all add: STARTS_def, rule acc_isAt_first [OF st],
            simp_all add: STARTS_def, rule accepts_more [OF p])
          (auto simp: cont_def)
      then show ?thesis unfolding 3 by (intro reads_not_chained not_chained) (simp add: level_simps)
    qed
  qed
next
  case (list_one e ts)
  show ?case unfolding parseExpressionList_def
    by (intro allI acc_list_one [OF _ reads_hooks(1)] hooks_progress parsers_at_hooks list_one.IH) auto
next
  case (list_more e ts es us)
  show ?case unfolding parseExpressionList_def
    by (intro allI acc_list_more [OF _ reads_hooks(1)] hooks_progress parsers_at_hooks list_more.IH(1))
      (use list_more.IH(2) in \<open>auto simp: parseExpressionList_def cont_def\<close>)
next
  case else_none
  then show ?case by (simp add: ends_none)
next
  case (else_some e ts)
  then show ?case by (intro allI ends_some reads_arg)
next
  case (whens_one c ts e us)
  then show ?case by (intro allI ParserGrammar.whens_one parsers_at_hooks reads_arg)
next
  case (whens_more ws vs c ts e us)
  then show ?case by (intro allI ParserGrammar.whens_more parsers_at_hooks reads_arg) auto
qed

section \<open>Program texts\<close>

definition tok_of :: "token \<Rightarrow> tok" where
  "tok_of t = (tk_type t, tk_value t)"

lemma same_tokens_view: "list_all2 same_token us ts \<Longrightarrow> map tok_of us = map tok_of ts"
  by (induction rule: list_all2_induct) (simp_all add: same_token_def tok_of_def)

lemma accepted_at_end:
  assumes "accepts n p ts x C" "''EOF'' \<notin> C" "view s = ts @ [(''EOF'', v)]" "remaining s < n"
  shows "bindP p at_end s = Inr (x, skip (length ts) s)"
proof -
  have "p s = Inr (x, skip (length ts) s)"
    using assms by (simp add: accepts_def stops_def)
  moreover have "isAtAny [''EOF'', ''SEMICOLON''] (skip (length ts) s) = Inr (True, skip (length ts) s)"
    using isAtAny_view [of "skip (length ts) s" "(''EOF'', v)" "[]"] assms(3) by simp
  ultimately show ?thesis by (simp add: bindP_def at_end_def retP_def)
qed

lemma printed_expression:
  assumes "spells 0 e (map tok_of ts)" "list_all spellable ts"
  shows "parse_expression (print_tokens ts) = Inr e"
proof -
  let ?sql = "print_tokens ts"
  obtain us where us: "lex ?sql = Inr (us @ [mk_token ''EOF'' [] (length ?sql)])" "list_all2 same_token us ts"
    using tokenize_print [OF assms(2), of ?sql] unfolding lex_def by blast
  let ?ts = "us @ [mk_token ''EOF'' [] (length ?sql)]"
  let ?s = "\<lparr>source = ?sql, tokens = ?ts, pos = 0\<rparr>"
  have "map (\<lambda>t. (tk_type t, tk_value t)) us = map tok_of ts"
    using same_tokens_view [OF us(2)] by (simp add: tok_of_def [abs_def])
  then have v: "view ?s = map tok_of ts @ [(''EOF'', [])]"
    by (simp add: view_def mk_token_def)
  have "accepts (Suc (length ?ts)) (p_expr (parsers_at (Suc (length ?ts)))) (map tok_of ts) e (cont 0)"
    by (rule reads_hooks(1)) (rule spells_reads(1) [OF assms(1)])
  from accepted_at_end [OF this _ v]
  have "bindP (p_expr (parsers_at (Suc (length ?ts)))) at_end ?s = Inr (e, skip (length ts) ?s)"
    by (simp add: remaining_def cont_def del: parsers_at.simps)
  then show ?thesis
    by (simp add: parse_expression_def run_parser_def us(1) del: parsers_at.simps)
qed

lemma unambiguous:
  assumes "spells 0 e ts" "spells 0 e' ts"
  shows "e = e'"
proof -
  let ?toks = "map (\<lambda>(ty, v). mk_token ty v 0) (ts @ [(''EOF'', [])])"
  let ?s = "\<lparr>source = [], tokens = ?toks, pos = 0\<rparr>"
  have "view ?s = ts @ [(''EOF'', [])]"
    by (simp add: view_def mk_token_def comp_def case_prod_beta)
  moreover have "remaining ?s < Suc (length ?toks)" by (simp add: remaining_def)
  ultimately have "parseOr (parsers_at (length ?toks)) ?s = Inr (x, skip (length ts) ?s)" if "spells 0 x ts" for x
    using reads_accepts [OF spells_reads(1) [OF that], of "length ?toks"]
    by (simp add: accepts_def stops_def level_simps cont_def)
  from this [OF assms(1)] this [OF assms(2)] show ?thesis by simp
qed

end
