(* ===== verification/ParserRuns.thy ===== *)
theory ParserRuns
  imports ParserComplete
begin

text \<open>
  Runs of the parser on given program texts, by rewriting: the fields of \<open>parsers_at\<close> are unfolded
  one level at a time, and \<open>runs\<close> are the definitions a run goes through.
\<close>

lemma parsers_at_fields:
  "p_expr (parsers_at (Suc n)) = parseExpression (parsers_at n)"
  "p_not (parsers_at (Suc n)) = parseNot (parsers_at n)"
  "p_unary (parsers_at (Suc n)) = parseUnary (parsers_at n)"
  "p_primary (parsers_at (Suc n)) = parsePrimary (parsers_at n)"
  "p_query (parsers_at (Suc n)) = parseQueryExpr (parsers_at n)"
  "p_from (parsers_at (Suc n)) = parseFromClause (parsers_at n)"
  by (simp_all add: Let_def)

declare parsers_at.simps [simp del]

lemma parsers_at_numeral:
  "p_expr (parsers_at (numeral k)) = parseExpression (parsers_at (pred_numeral k))"
  "p_not (parsers_at (numeral k)) = parseNot (parsers_at (pred_numeral k))"
  "p_unary (parsers_at (numeral k)) = parseUnary (parsers_at (pred_numeral k))"
  "p_primary (parsers_at (numeral k)) = parsePrimary (parsers_at (pred_numeral k))"
  "p_query (parsers_at (numeral k)) = parseQueryExpr (parsers_at (pred_numeral k))"
  "p_from (parsers_at (numeral k)) = parseFromClause (parsers_at (pred_numeral k))"
  by (simp_all only: numeral_eq_Suc parsers_at_fields)

lemmas runs = parsers_at_fields parsers_at_numeral bindP_def retP_def peek_def aheadIs_def advance_def
  isAt_def isAtAny_def tryConsume_def parse_error_def expect_def expectIdent_def
  isNonReservedKeyword_def NON_RESERVED_def isJoinKeyword_def isClauseKeyword_def JOIN_KEYWORDS_def
  CLAUSE_KEYWORDS_def commaList_def whileAt_def remaining_def mk_token_def optionally_def at_end_def
  parseStatement_def parseQueryExpr_def parseQueryTerm_def parseSelectStmt_def parseSelectBody_def
  parseSelectHead_def parseSelectItems_def parseSelectItem_def parseQueryTail_def attachQueryTail_def
  empty_tail_def parseFromClause_def parseTableRef_def parseOptionalAlias_def aliasGuard_def
  tableRef_def joinRef_def parseExpression_def parseOr_def parseAnd_def parseNot_def
  parseComparison_def parseComparisonTail_def parseComparisonOp_def opMap_def parseAddition_def
  parseMultiplication_def parseUnary_def binary_chain_def parsePrimary_def parseNamed_def
  isAggregateKeyword_def parseExtract_def parseTrim_def Let_def

definition comma_join_sql :: string where
  "comma_join_sql = ''SELECT a FROM a, b JOIN c ON a = c''"

lemma comma_join_tokens:
  "lex comma_join_sql = Inr [mk_token ''SELECT'' ''SELECT'' 0, mk_token ''IDENT'' ''a'' 7,
     mk_token ''FROM'' ''FROM'' 9, mk_token ''IDENT'' ''a'' 14, mk_token ''COMMA'' '','' 15,
     mk_token ''IDENT'' ''b'' 17, mk_token ''JOIN'' ''JOIN'' 19, mk_token ''IDENT'' ''c'' 24,
     mk_token ''ON'' ''ON'' 26, mk_token ''IDENT'' ''a'' 29, mk_token ''EQ'' ''='' 31,
     mk_token ''IDENT'' ''c'' 33, mk_token ''EOF'' [] 34]"
  by code_simp

lemma comma_join_position: "positionOf comma_join_sql 19 = (1, 20)"
  by code_simp

lemma comma_join_run:
  "parse comma_join_sql = Inl (ParseError ''Unexpected token JOIN'' (1, 20))"
  unfolding parse_def run_parser_def comma_join_tokens bindE.simps
  by (simp add: runs comma_join_position)

lemma extract_tokens:
  "lex ''EXTRACT('' = Inr [mk_token ''EXTRACT'' ''EXTRACT'' 0, mk_token ''LPAREN'' ''('' 7, mk_token ''EOF'' [] 8]"
  by code_simp

lemma extract_run: "parse_expression ''EXTRACT('' = Inl TypeErr"
  unfolding parse_expression_def run_parser_def extract_tokens bindE.simps
  by (simp add: runs)

lemma trim_tokens:
  "lex ''TRIM(LEADING FROM x)'' = Inr [mk_token ''TRIM'' ''TRIM'' 0, mk_token ''LPAREN'' ''('' 4,
     mk_token ''LEADING'' ''LEADING'' 5, mk_token ''FROM'' ''FROM'' 13, mk_token ''IDENT'' ''x'' 18,
     mk_token ''RPAREN'' '')'' 19, mk_token ''EOF'' [] 20]"
  "lex ''TRIM(x)'' = Inr [mk_token ''TRIM'' ''TRIM'' 0, mk_token ''LPAREN'' ''('' 4,
     mk_token ''IDENT'' ''x'' 5, mk_token ''RPAREN'' '')'' 6, mk_token ''EOF'' [] 7]"
  by code_simp+

lemma trim_runs:
  "parse_expression ''TRIM(LEADING FROM x)'' = Inr (FunctionCall ''TRIM'' [ColumnRef ''x'' None])"
  "parse_expression ''TRIM(x)'' = Inr (FunctionCall ''TRIM'' [ColumnRef ''x'' None])"
  unfolding parse_expression_def run_parser_def trim_tokens bindE.simps
  by (simp_all add: runs)

end
