(* ===== verification/ParserSpec.thy ===== *)
theory ParserSpec
  imports ParserRuns
begin

text \<open>
  What the lexer and the parser promise, as theorems over the model of \<open>parser/lexer.ts\<close> and
  \<open>parser/parser.ts\<close>: every program text is answered, tokens carry their places, printed tokens and
  printed expressions are read back, the expression grammar has one reading per token list. The last
  section holds three runs on which the parser departs from what it is written for.
\<close>

section \<open>Every text is answered\<close>

text \<open>
  C9: Parsing ends on every program text: the recursive descent never returns to a call without having
  consumed a token, so the number of tokens bounds the depth of its recursion, and a statement, a
  syntax error or a type error comes out of every text, for statements and for single expressions.
\<close>

theorem parser_answers:
  "parse sql \<noteq> Inl OutOfFuel \<and> parse_expression sql \<noteq> Inl OutOfFuel"
  by (simp add: parse_returns parse_expression_returns)

section \<open>Tokens and places\<close>

text \<open>
  C25: The tokens of a text come in the order of their positions, all positions lie inside the text,
  and the one EOF token is the last, at the end of the text.
\<close>

theorem lex_tokens_in_order:
  assumes "lex input = Inr ts"
  shows "\<exists>body. ts = body @ [mk_token ''EOF'' [] (length input)]
     \<and> sorted_wrt (<) (map tk_position body)
     \<and> (\<forall>t \<in> set body. tk_position t < length input \<and> tk_type t \<noteq> ''EOF'')"
  using lex_positions [OF assms] unfolding well_positioned_def by auto

lemma lex_tokens_in_order_witness:
  "\<exists>body. [mk_token ''TRIM'' ''TRIM'' 0, mk_token ''LPAREN'' ''('' 4, mk_token ''IDENT'' ''x'' 5,
       mk_token ''RPAREN'' '')'' 6, mk_token ''EOF'' [] 7] = body @ [mk_token ''EOF'' [] 7]
     \<and> sorted_wrt (<) (map tk_position body)"
  using lex_tokens_in_order [OF trim_tokens(2)] by auto

text \<open>
  C26: The line and the column a syntax error names are those of its offset: the line counts the
  newlines before the offset and the column the characters after the last of them, both from one.
\<close>

theorem error_position_exact:
  "positionOf input offset =
     (Suc (count_list (take offset input) (CHR 0x0A)),
      Suc (length (takeWhile (\<lambda>c. c \<noteq> CHR 0x0A) (rev (take offset input)))))"
  by (rule positionOf_spec)

definition sample_tokens :: "token list" where
  "sample_tokens =
     [mk_token ''IDENT'' ''a'' 0, mk_token ''PLUS'' ''+'' 2, mk_token ''IDENT'' ''b'' 4,
      mk_token ''STAR'' ''*'' 6, mk_token ''STRING'' ''it's'' 8]"

lemma sample_tokens_spellable: "list_all spellable sample_tokens"
  by code_simp

definition sample_sql :: string where
  "sample_sql = ''a + b * '' @ [CHR 0x27] @ ''it'' @ [CHR 0x27, CHR 0x27] @ ''s'' @ [CHR 0x27, CHR '' '']"

lemma sample_tokens_text: "print_tokens sample_tokens = sample_sql"
  by code_simp

text \<open>
  C10: Printing then lexing gives the tokens back. For tokens whose values the lexer could have read
  (\<open>spellable\<close>), written one after the other with quotes doubled inside strings and quoted names,
  the lexer returns tokens of the same types, values and quoting, followed by EOF.
\<close>

theorem lex_print_roundtrip:
  assumes "list_all spellable ts"
  shows "\<exists>us. lex (print_tokens ts) = Inr (us @ [mk_token ''EOF'' [] (length (print_tokens ts))])
    \<and> list_all2 same_token us ts"
  using tokenize_print [OF assms] by (simp add: lex_def)

lemma lex_print_roundtrip_witness:
  "\<exists>us. lex sample_sql = Inr (us @ [mk_token ''EOF'' [] (length sample_sql)]) \<and> list_all2 same_token us sample_tokens"
  using lex_print_roundtrip [OF sample_tokens_spellable] by (simp add: sample_tokens_text)

section \<open>Expressions\<close>

definition sample_expr :: expr where
  "sample_expr = BinaryExpr ''+'' (ColumnRef ''a'' None)
     (Plain (BinaryExpr ''*'' (ColumnRef ''b'' None) (Plain (Literal (LStr ''it's'') (Some VARCHAR)))))"

lemma spells_down: "spells k e ts \<Longrightarrow> j \<le> k \<Longrightarrow> k \<le> 7 \<Longrightarrow> spells j e ts"
proof (induction "k - j" arbitrary: j)
  case (Suc d)
  then have "spells (Suc j) e ts" by auto
  then show ?case using Suc.hyps(2) Suc.prems by (auto intro: up)
qed auto

lemma sample_spelled: "spells 0 sample_expr (map tok_of sample_tokens)"
proof -
  have "spells 5 (BinaryExpr ''*'' (ColumnRef ''b'' None) (Plain (Literal (LStr ''it's'') (Some VARCHAR))))
      ([(''IDENT'', ''b'')] @ (''STAR'', ''*'') # [(''STRING'', ''it's'')])"
    by (rule multiplication) (auto intro: spells_down [OF column] spells_down [OF text_literal])
  moreover have "spells 4 (ColumnRef ''a'' None) [(''IDENT'', ''a'')]"
    by (auto intro: spells_down [OF column])
  ultimately have "spells 4 sample_expr ([(''IDENT'', ''a'')] @ (''PLUS'', ''+'')
      # [(''IDENT'', ''b'')] @ (''STAR'', ''*'') # [(''STRING'', ''it's'')])"
    unfolding sample_expr_def by (intro addition) simp_all
  then have "spells 4 sample_expr (map tok_of sample_tokens)"
    by (simp add: sample_tokens_def tok_of_def mk_token_def)
  then show ?thesis by (rule spells_down) simp_all
qed

text \<open>
  C8: The parser reads the expression grammar. Whatever expression the grammar derives from a list of
  tokens, with its eight levels of precedence, its left associative chains, its tests, calls and CASE
  forms, parsing the printed tokens returns exactly that expression and accepts the whole text.
\<close>

theorem grammar_parsed:
  assumes "spells 0 e (map tok_of ts)" "list_all spellable ts"
  shows "parse_expression (print_tokens ts) = Inr e"
  by (rule printed_expression [OF assms])

lemma grammar_parsed_witness: "parse_expression sample_sql = Inr sample_expr"
  using grammar_parsed [OF sample_spelled sample_tokens_spellable] by (simp only: sample_tokens_text)



section \<open>Three departures\<close>

text \<open>
  A JOIN after a comma in FROM is rejected at the JOIN, although each of the two forms is accepted
  alone: the loop over comma separated tables does not look for joins.
\<close>

lemma comma_then_join_rejected:
  "parse ''SELECT a FROM a, b JOIN c ON a = c'' = Inl (ParseError ''Unexpected token JOIN'' (1, 20))"
  using comma_join_run by (simp only: comma_join_sql_def)

text \<open>
  An EXTRACT whose argument list is cut off reads past the last token and fails with a type error
  of the host instead of a syntax error with a place.
\<close>

lemma truncated_extract_type_error: "parse_expression ''EXTRACT('' = Inl TypeErr"
  by (rule extract_run)

text \<open>
  TRIM with a specification and no characters loses the specification: trimming at the left end
  only and trimming at both ends are the same expression.
\<close>

lemma trim_specification_lost:
  "parse_expression ''TRIM(LEADING FROM x)'' = parse_expression ''TRIM(x)''"
  by (simp only: trim_runs)

end
