(* ===== verification/JsText.thy ===== *)
theory JsText
  imports JsValue
begin

text \<open>
  Conversions between JavaScript numbers, integers and strings, as the engine uses them through
  \<open>Number(...)\<close>, \<open>String(...)\<close>, \<open>BigInt\<close> comparison and \<open>trim\<close>: decimal digits, the shortest decimal
  text that reads back as the same double, and the numeric grammar of a string. The first section
  ends in the round trip \<open>Number(String(x)) = x\<close>.
\<close>

section \<open>Decimal digits\<close>

definition digit_unit :: "nat \<Rightarrow> 16 word" where
  "digit_unit d = of_nat (48 + d)"

definition is_digit :: "16 word \<Rightarrow> bool" where
  "is_digit u \<longleftrightarrow> 48 \<le> unat u \<and> unat u \<le> 57"

fun decimal :: "nat \<Rightarrow> ustr" where
  "decimal n = (if n < 10 then [digit_unit n] else decimal (n div 10) @ [digit_unit (n mod 10)])"

declare decimal.simps [simp del]

definition digits_value :: "ustr \<Rightarrow> nat" where
  "digits_value us = foldl (\<lambda>n u. 10 * n + (unat u - 48)) 0 us"

lemma unat_digit_unit: "d < 10 \<Longrightarrow> unat (digit_unit d) = 48 + d"
  unfolding digit_unit_def by (rule unat_of_nat_small) simp

lemma is_digit_unit [simp]: "d < 10 \<Longrightarrow> is_digit (digit_unit d)"
  by (simp add: is_digit_def unat_digit_unit)

lemma decimal_digits: "list_all is_digit (decimal n) \<and> decimal n \<noteq> []"
proof (induction n rule: decimal.induct)
  case (1 n)
  then show ?case by (subst (1 2) decimal.simps) simp
qed

lemma foldl_digits: "foldl (\<lambda>n u. 10 * n + (unat u - 48)) a us = a * 10 ^ length us + digits_value us"
proof (induction us arbitrary: a)
  case (Cons u us)
  have "digits_value (u # us) = foldl (\<lambda>n u. 10 * n + (unat u - 48)) (unat u - 48) us"
    by (simp add: digits_value_def)
  also have "\<dots> = (unat u - 48) * 10 ^ length us + digits_value us" by (rule Cons)
  finally have d: "digits_value (u # us) = (unat u - 48) * 10 ^ length us + digits_value us" .
  show ?case
    unfolding d foldl.simps(2) Cons [of "10 * a + (unat u - 48)"] by (simp add: algebra_simps)
qed (simp add: digits_value_def)

lemma digits_value_append: "digits_value (us @ vs) = digits_value us * 10 ^ length vs + digits_value vs"
  unfolding digits_value_def [of "us @ vs"] foldl_append foldl_digits [of _ vs] digits_value_def [of us] ..

lemma digits_value_decimal: "digits_value (decimal n) = n"
proof (induction n rule: decimal.induct)
  case (1 n)
  have one: "digits_value [digit_unit d] = d" if "d < 10" for d
    using that by (simp add: digits_value_def unat_digit_unit)
  show ?case
    using 1 by (subst decimal.simps) (simp add: digits_value_append one)
qed

lemma digits_value_zeros: "digits_value (replicate k (digit_unit 0)) = 0"
  by (induction k) (simp_all add: digits_value_def unat_digit_unit)

text \<open>\<open>String(bigint)\<close>.\<close>

definition stringOfInt :: "int \<Rightarrow> ustr" where
  "stringOfInt i = (if i < 0 then 45 # decimal (nat (- i)) else decimal (nat i))"

section \<open>Powers of ten\<close>

definition pow10 :: "int \<Rightarrow> rat" where
  "pow10 e = (if 0 \<le> e then 10 ^ nat e else 1 / 10 ^ nat (- e))"

lemma pow10_powi: "pow10 e = 10 powi e"
  by (simp add: pow10_def power_int_def field_simps)

lemma pow10_add: "pow10 (a + b) = pow10 a * pow10 b"
  by (simp add: pow10_powi power_int_add)

lemma pow10_nat: "pow10 (int k) = 10 ^ k"
  by (simp add: pow10_def)

lemma pow10_pos [simp]: "0 < pow10 e"
  by (simp add: pow10_def)

section \<open>The text of a number\<close>

text \<open>
  \<open>Number::toString\<close>: the fewest digits \<open>s\<close> whose value \<open>s * 10 ^ e\<close> is read as the double, at most
  seventeen of them, the nearest such digits when several would do.
\<close>

definition decimal_exponent :: "rat \<Rightarrow> int" where
  "decimal_exponent q =
     (let (a, b) = quotient_of q; e = int (length (decimal (nat a))) - int (length (decimal (nat b)))
      in if pow10 e \<le> q then e + 1 else e)"

definition decimal_candidate :: "rat \<Rightarrow> nat \<Rightarrow> nat \<times> int" where
  "decimal_candidate q k =
     (let n = decimal_exponent q; s = nat (rhe (q * pow10 (int k - n)))
      in if s = 10 ^ k then (1, n) else (s, n - int k))"

definition decimal_value :: "nat \<times> int \<Rightarrow> rat" where
  "decimal_value = (\<lambda>(s, e). of_nat s * pow10 e)"

definition shortest :: "rat \<Rightarrow> (nat \<times> int) option" where
  "shortest q = map_option (decimal_candidate q) (find (\<lambda>k. rnd (decimal_value (decimal_candidate q k)) = Fin q) [1..<18])"

definition exponent_text :: "int \<Rightarrow> ustr" where
  "exponent_text e = 101 # (if e < 0 then 45 else 43) # decimal (nat \<bar>e\<bar>)"

definition format_decimal :: "nat \<times> int \<Rightarrow> ustr" where
  "format_decimal = (\<lambda>(s, e).
     let ds = decimal s; k = int (length ds); n = k + e
     in if 0 \<le> e \<and> n \<le> 21 then ds @ replicate (nat e) (digit_unit 0)
        else if 0 < n \<and> n \<le> 21 then take (nat n) ds @ 46 # drop (nat n) ds
        else if - 6 < n \<and> n \<le> 0 then digit_unit 0 # 46 # replicate (nat (- n)) (digit_unit 0) @ ds
        else if k = 1 then ds @ exponent_text (n - 1)
        else hd ds # 46 # tl ds @ exponent_text (n - 1))"

text \<open>Every double has such digits; the model answers no digits where the search would fail.\<close>

definition positive_text :: "rat \<Rightarrow> ustr" where
  "positive_text q = (case shortest q of Some d \<Rightarrow> format_decimal d | None \<Rightarrow> [])"

definition stringOfNum :: "jsnum \<Rightarrow> ustr" where
  "stringOfNum x = (case x of
       NaN \<Rightarrow> ustr_of ''NaN''
     | PInf \<Rightarrow> ustr_of ''Infinity''
     | NInf \<Rightarrow> ustr_of ''-Infinity''
     | Fin q \<Rightarrow> if q = 0 then [digit_unit 0] else if q < 0 then 45 # positive_text (- q) else positive_text q)"

section \<open>The number in a text\<close>

text \<open>The white space and line terminators that \<open>trim\<close> and \<open>Number\<close> strip.\<close>

definition is_white :: "16 word \<Rightarrow> bool" where
  "is_white u \<longleftrightarrow> u \<in> {9, 10, 11, 12, 13, 32, 0xA0, 0x1680, 0x2028, 0x2029, 0x202F, 0x205F, 0x3000, 0xFEFF}
     \<or> 0x2000 \<le> u \<and> u \<le> 0x200A"

definition js_trim :: "ustr \<Rightarrow> ustr" where
  "js_trim s = rev (dropWhile is_white (rev (dropWhile is_white s)))"

definition signed_digits :: "ustr \<Rightarrow> int option" where
  "signed_digits s =
     (let (neg, ds) = (case s of u # us \<Rightarrow> if u = 45 then (True, us) else if u = 43 then (False, us) else (False, s)
                       | [] \<Rightarrow> (False, []))
      in if ds \<noteq> [] \<and> list_all is_digit ds
         then Some (if neg then - int (digits_value ds) else int (digits_value ds)) else None)"

definition mantissa :: "ustr \<Rightarrow> (ustr \<times> ustr) \<times> ustr" where
  "mantissa s =
     (let ip = takeWhile is_digit s; rest = dropWhile is_digit s
      in case rest of
           u # us \<Rightarrow> if u = 46 then ((ip, takeWhile is_digit us), dropWhile is_digit us) else ((ip, []), rest)
         | [] \<Rightarrow> ((ip, []), []))"

definition unsigned_decimal :: "ustr \<Rightarrow> rat option" where
  "unsigned_decimal s =
     (let ((ip, fp), rest) = mantissa s; m = digits_value (ip @ fp); sh = - int (length fp)
      in if ip = [] \<and> fp = [] then None
         else case rest of
           [] \<Rightarrow> Some (of_nat m * pow10 sh)
         | u # us \<Rightarrow> if u = 101 \<or> u = 69 then map_option (\<lambda>e. of_nat m * pow10 (e + sh)) (signed_digits us) else None)"

definition unsigned_number :: "ustr \<Rightarrow> jsnum" where
  "unsigned_number s =
     (if s = ustr_of ''Infinity'' then PInf
      else case unsigned_decimal s of Some q \<Rightarrow> rnd q | None \<Rightarrow> NaN)"

text \<open>\<open>0x\<close>, \<open>0o\<close> and \<open>0b\<close> literals.\<close>

definition radix_digit :: "16 word \<Rightarrow> nat" where
  "radix_digit u = (if is_digit u then unat u - 48
     else if 97 \<le> unat u \<and> unat u \<le> 102 then unat u - 87
     else if 65 \<le> unat u \<and> unat u \<le> 70 then unat u - 55 else 16)"

definition radix_of :: "16 word \<Rightarrow> nat option" where
  "radix_of u = (if u = 120 \<or> u = 88 then Some 16 else if u = 111 \<or> u = 79 then Some 8
     else if u = 98 \<or> u = 66 then Some 2 else None)"

definition radix_literal :: "ustr \<Rightarrow> nat option" where
  "radix_literal s = (case s of
       z # u # us \<Rightarrow> if z \<noteq> 48 then None
         else (case radix_of u of None \<Rightarrow> None
           | Some r \<Rightarrow> if us \<noteq> [] \<and> list_all (\<lambda>d. radix_digit d < r) us
               then Some (foldl (\<lambda>n d. r * n + radix_digit d) 0 us) else None)
     | _ \<Rightarrow> None)"

text \<open>\<open>Number(string)\<close>.\<close>

definition numberOfString :: "ustr \<Rightarrow> jsnum" where
  "numberOfString text =
     (let s = js_trim text
      in case radix_literal s of Some n \<Rightarrow> rnd (of_nat n)
         | None \<Rightarrow> (case s of
               [] \<Rightarrow> Fin 0
             | u # us \<Rightarrow> if u = 45 then js_neg (unsigned_number us)
                 else if u = 43 then unsigned_number us else unsigned_number s))"

text \<open>The integer a string stands for when it is compared with a \<open>bigint\<close>.\<close>

definition bigOfString :: "ustr \<Rightarrow> int option" where
  "bigOfString text =
     (let s = js_trim text
      in case radix_literal s of Some n \<Rightarrow> Some (int n)
         | None \<Rightarrow> if s = [] then Some 0 else signed_digits s)"

section \<open>Reading a printed number\<close>

lemma stringOfInt_read: "signed_digits (stringOfInt i) = Some i"
proof -
  obtain u us where d: "decimal (nat \<bar>i\<bar>) = u # us" "is_digit u" "list_all is_digit us"
    using decimal_digits [of "nat \<bar>i\<bar>"] by (cases "decimal (nat \<bar>i\<bar>)") auto
  have "u \<noteq> 45" "u \<noteq> 43" using d(2) by (auto simp: is_digit_def)
  moreover have "digits_value (u # us) = nat \<bar>i\<bar>" using digits_value_decimal [of "nat \<bar>i\<bar>"] d(1) by simp
  ultimately show ?thesis using d by (auto simp: stringOfInt_def signed_digits_def)
qed

lemma exponent_read: "exponent_text e = 101 # t \<Longrightarrow> signed_digits t = Some e"
  using decimal_digits [of "nat \<bar>e\<bar>"] digits_value_decimal [of "nat \<bar>e\<bar>"]
  by (cases "e < 0") (auto simp: exponent_text_def signed_digits_def)

lemma span_digits:
  assumes "list_all is_digit ds" "rest = [] \<or> \<not> is_digit (hd rest)"
  shows "takeWhile is_digit (ds @ rest) = ds" "dropWhile is_digit (ds @ rest) = rest"
  using assms by (induction ds) (cases rest; auto)+

lemma mantissa_whole:
  "list_all is_digit ds \<Longrightarrow> rest = [] \<or> \<not> is_digit (hd rest) \<and> hd rest \<noteq> 46 \<Longrightarrow> mantissa (ds @ rest) = ((ds, []), rest)"
  using span_digits [of ds rest]
  by (cases rest) (simp_all only: mantissa_def append_Nil2 Let_def list.case list.sel simp_thms if_False list.simps)

lemma mantissa_point:
  assumes "list_all is_digit ds" "list_all is_digit fs" "rest = [] \<or> \<not> is_digit (hd rest)"
  shows "mantissa (ds @ 46 # fs @ rest) = ((ds, fs), rest)"
proof -
  have "\<not> is_digit 46" by (simp add: is_digit_def)
  then show ?thesis
    using span_digits [OF assms(1), of "46 # fs @ rest"] span_digits [OF assms(2,3)] by (simp add: mantissa_def)
qed

definition number_unit :: "16 word \<Rightarrow> bool" where
  "number_unit u \<longleftrightarrow> is_digit u \<or> u \<in> {46, 101, 43, 45}"

lemma number_unit_plain: "number_unit u \<Longrightarrow> \<not> is_white u \<and> radix_of u = None"
  by (auto simp: number_unit_def is_digit_def is_white_def radix_of_def word_le_nat_alt)

lemma trim_plain: "list_all (\<lambda>u. \<not> is_white u) s \<Longrightarrow> js_trim s = s"
proof -
  have id: "dropWhile is_white t = t" if "list_all (\<lambda>u. \<not> is_white u) t" for t
    using that by (cases t) simp_all
  assume "list_all (\<lambda>u. \<not> is_white u) s"
  then show ?thesis by (simp add: js_trim_def id)
qed

lemma radix_plain: "list_all number_unit s \<Longrightarrow> radix_literal s = None"
  by (auto simp: radix_literal_def number_unit_plain split: list.splits)

lemma digits_are_units: "list_all is_digit ds \<Longrightarrow> list_all number_unit ds"
  by (simp add: list_all_iff number_unit_def)

lemma format_units:
  "list_all number_unit (format_decimal (s, e)) \<and> format_decimal (s, e) \<noteq> [] \<and> is_digit (hd (format_decimal (s, e)))"
proof -
  obtain u us where d: "decimal s = u # us" "is_digit u" "list_all is_digit us"
    using decimal_digits [of s] by (cases "decimal s") auto
  have ex: "list_all number_unit (exponent_text i)" for i
    using decimal_digits [of "nat \<bar>i\<bar>"] by (simp add: exponent_text_def number_unit_def digits_are_units)
  have zeros: "list_all number_unit (replicate k (digit_unit 0))" for k
    by (simp add: list_all_iff number_unit_def)
  have parts: "list_all number_unit (take k us)" "list_all number_unit (drop k us)" for k
    using digits_are_units [OF d(3)] append_take_drop_id [of k us] by (metis list_all_append)+
  have "number_unit u" "number_unit 46" using d(2) by (simp_all add: number_unit_def)
  then show ?thesis
    using d zeros ex parts digits_are_units [OF d(3)]
    by (auto simp: format_decimal_def Let_def take_Cons drop_Cons number_unit_def split: nat.splits)
qed

lemma not_digit_exponent: "exponent_text i \<noteq> []" "\<not> is_digit (hd (exponent_text i))" "hd (exponent_text i) \<noteq> 46"
  by (simp_all add: exponent_text_def is_digit_def)

lemma exponent_read_text:
  "(case exponent_text i of [] \<Rightarrow> Some (of_nat m * pow10 sh)
      | u # us \<Rightarrow> if u = 101 \<or> u = 69 then map_option (\<lambda>e. of_nat m * pow10 (e + sh)) (signed_digits us) else None)
    = Some (of_nat m * pow10 (i + sh))"
proof -
  obtain t where t: "exponent_text i = 101 # t" by (simp add: exponent_text_def)
  then show ?thesis using exponent_read [OF t] by simp
qed

lemma format_read: "unsigned_decimal (format_decimal (s, e)) = Some (decimal_value (s, e))"
proof -
  let ?ds = "decimal s"
  define k where "k = length ?ds"
  define n where "n = int k + e"
  have dig: "list_all is_digit ?ds" "?ds \<noteq> []" "0 < k" using decimal_digits [of s] by (auto simp: k_def)
  have val: "digits_value ?ds = s" by (rule digits_value_decimal)
  have zeros: "list_all is_digit (replicate j (digit_unit 0))" for j by (simp add: list_all_iff)
  have dz: "is_digit (digit_unit 0)" by simp
  consider (whole) "0 \<le> e" "n \<le> 21"
    | (point) "e < 0" "0 < n" "n \<le> 21"
    | (small) "e < 0" "- 6 < n" "n \<le> 0"
    | (sci) "\<not> (0 \<le> e \<and> n \<le> 21)" "\<not> (0 < n \<and> n \<le> 21)" "\<not> (- 6 < n \<and> n \<le> 0)"
    using dig(3) by (fastforce simp: n_def)
  then show ?thesis
  proof cases
    case whole
    let ?z = "replicate (nat e) (digit_unit 0)"
    have f: "format_decimal (s, e) = ?ds @ ?z" using whole by (simp add: format_decimal_def k_def n_def)
    have "mantissa (?ds @ ?z) = ((?ds @ ?z, []), [])"
      using mantissa_whole [of "?ds @ ?z" "[]"] dig zeros by simp
    then show ?thesis
      using dig val whole
      by (simp add: f unsigned_decimal_def decimal_value_def digits_value_append digits_value_zeros pow10_def
          digits_value_def [of "[]"])
  next
    case point
    let ?i = "nat n"
    have n: "?i \<le> k" "int ?i = n" using point by (simp_all add: n_def)
    have f: "format_decimal (s, e) = take ?i ?ds @ 46 # drop ?i ?ds"
      using point by (simp add: format_decimal_def Let_def k_def n_def)
    have ls: "list_all is_digit (take ?i ?ds)" "list_all is_digit (drop ?i ?ds)"
      using dig(1) append_take_drop_id [of ?i ?ds] by (metis list_all_append)+
    have "mantissa (format_decimal (s, e)) = ((take ?i ?ds, drop ?i ?ds), [])"
      using mantissa_point [OF ls, of "[]"] by (simp add: f)
    moreover have "- int (length (drop ?i ?ds)) = e" using n by (simp add: k_def n_def of_nat_diff)
    moreover have "take ?i ?ds \<noteq> []" using dig(2) point(2) by simp
    ultimately show ?thesis using val by (simp add: unsigned_decimal_def decimal_value_def)
  next
    case small
    let ?z = "replicate (nat (- n)) (digit_unit 0)"
    have f: "format_decimal (s, e) = [digit_unit 0] @ 46 # (?z @ ?ds)"
      using small by (simp add: format_decimal_def Let_def k_def n_def)
    have "mantissa (format_decimal (s, e)) = (([digit_unit 0], ?z @ ?ds), [])"
      using mantissa_point [of "[digit_unit 0]" "?z @ ?ds" "[]"] dig(1) zeros by (simp add: f)
    moreover have "- int (length (?z @ ?ds)) = e" using small by (simp add: k_def n_def)
    moreover have "digits_value ([digit_unit 0] @ ?z @ ?ds) = s"
      using digits_value_zeros [of 1] by (simp only: digits_value_append digits_value_zeros) (simp add: val digits_value_zeros [of 1, simplified])
    ultimately show ?thesis by (simp add: unsigned_decimal_def decimal_value_def)
  next
    case sci
    show ?thesis
    proof (cases "k = 1")
      case True
      then have f: "format_decimal (s, e) = ?ds @ exponent_text (n - 1)"
        using sci unfolding format_decimal_def Let_def prod.case k_def [symmetric] n_def [symmetric] by auto
      have "mantissa (format_decimal (s, e)) = ((?ds, []), exponent_text (n - 1))"
        using mantissa_whole [OF dig(1), of "exponent_text (n - 1)"] not_digit_exponent by (simp add: f)
      then show ?thesis
        using dig val True by (simp add: unsigned_decimal_def exponent_read_text decimal_value_def n_def)
    next
      case False
      obtain u us where d: "?ds = u # us" using dig(2) by (cases ?ds) auto
      have "format_decimal (s, e) = hd ?ds # 46 # tl ?ds @ exponent_text (n - 1)"
        using sci False unfolding format_decimal_def Let_def prod.case k_def [symmetric] n_def [symmetric]
        by (simp only: if_not_P if_False)
      then have f: "format_decimal (s, e) = [u] @ 46 # us @ exponent_text (n - 1)" by (simp add: d)
      have "mantissa (format_decimal (s, e)) = (([u], us), exponent_text (n - 1))"
        using mantissa_point [of "[u]" us "exponent_text (n - 1)"] dig(1) d not_digit_exponent by (simp add: f)
      moreover have "n - 1 + - int (length us) = e" using d by (simp add: k_def n_def)
      ultimately show ?thesis
        using val d by (simp add: unsigned_decimal_def exponent_read_text decimal_value_def)
    qed
  qed
qed

text \<open>The search for digits succeeds (as it does for every double).\<close>

definition printable :: "jsnum \<Rightarrow> bool" where
  "printable x \<longleftrightarrow> (case x of Fin q \<Rightarrow> q = 0 \<or> shortest \<bar>q\<bar> \<noteq> None | _ \<Rightarrow> True)"

lemma positive_text_read:
  assumes "shortest q \<noteq> None"
  shows "unsigned_number (positive_text q) = Fin q" "list_all number_unit (positive_text q)"
    "positive_text q \<noteq> []" "is_digit (hd (positive_text q))"
proof -
  obtain k where k: "shortest q = Some (decimal_candidate q k)" "rnd (decimal_value (decimal_candidate q k)) = Fin q"
  proof -
    obtain k where f: "find (\<lambda>k. rnd (decimal_value (decimal_candidate q k)) = Fin q) [1..<18] = Some k"
      using assms by (auto simp: shortest_def)
    then have "rnd (decimal_value (decimal_candidate q k)) = Fin q" unfolding find_Some_iff by metis
    moreover have "shortest q = Some (decimal_candidate q k)" unfolding shortest_def f by simp
    ultimately show ?thesis by (rule that [rotated])
  qed
  obtain s e where c: "decimal_candidate q k = (s, e)" by force
  have "positive_text q = format_decimal (s, e)" using k(1) c by (simp add: positive_text_def)
  then show units: "list_all number_unit (positive_text q)" "positive_text q \<noteq> []" "is_digit (hd (positive_text q))"
    and "unsigned_number (positive_text q) = Fin q"
    using format_units [of s e] format_read [of s e] k(2) c
    by (auto simp: unsigned_number_def ustr_of_def is_digit_def)
qed

text \<open>A number is read back from its text.\<close>

lemma zero_text_read: "numberOfString [digit_unit 0] = Fin 0"
proof -
  have "[48 :: 16 word] \<noteq> ustr_of ''Infinity''" by (simp add: ustr_of_def)
  then show ?thesis
    by (simp add: numberOfString_def js_trim_def is_white_def digit_unit_def radix_literal_def unsigned_number_def
        unsigned_decimal_def mantissa_def is_digit_def digits_value_def Let_def)
qed

lemma number_text_roundtrip:
  assumes "printable x"
  shows "numberOfString (stringOfNum x) = x"
proof (cases x)
  case (Fin q)
  have pos: "numberOfString (positive_text r) = Fin r" "numberOfString (45 # positive_text r) = js_neg (Fin r)"
    if r: "shortest r \<noteq> None" for r
  proof -
    note p = positive_text_read [OF r]
    obtain u us where c: "positive_text r = u # us" "is_digit u" using p(3,4) by (cases "positive_text r") auto
    have u: "u \<noteq> 45" "u \<noteq> 43" using c(2) by (auto simp: is_digit_def)
    have units: "list_all number_unit (45 # positive_text r)" using p(2) by (simp add: number_unit_def)
    have plain: "list_all (\<lambda>u. \<not> is_white u) (45 # positive_text r)"
      using units number_unit_plain by (auto simp: list_all_iff)
    show "numberOfString (positive_text r) = Fin r"
      using p(1) plain c(1) u trim_plain [of "positive_text r"] radix_plain [OF p(2)]
      by (simp add: numberOfString_def)
    show "numberOfString (45 # positive_text r) = js_neg (Fin r)"
      using p(1) trim_plain [OF plain] radix_plain [OF units] by (simp add: numberOfString_def)
  qed
  have "numberOfString [digit_unit 0] = Fin 0" by (rule zero_text_read)
  then show ?thesis
    using assms Fin pos [of q] pos [of "- q"] by (auto simp: stringOfNum_def printable_def)
next
  case NaN
  have "numberOfString (stringOfNum NaN) = NaN" by code_simp
  then show ?thesis using NaN by simp
next
  case PInf
  have "numberOfString (stringOfNum PInf) = PInf" by code_simp
  then show ?thesis using PInf by simp
next
  case NInf
  have "numberOfString (stringOfNum NInf) = NInf" by code_simp
  then show ?thesis using NInf by simp
qed

end
