(* ===== verification/Calendar.thy ===== *)
theory Calendar
  imports JsNumber
begin

text \<open>
  Dates and timestamps: \<open>dateToEpochDays\<close>, \<open>epochDaysToDate\<close> and the timestamp functions of
  \<open>storage/data-type.ts\<close> over the UTC calendar of JavaScript's \<open>Date\<close> (day numbers from 1970-01-01, the
  Gregorian calendar without end, years 0 to 99 read as 1900 to 1999, times beyond 8.64e15 ms are NaN).
\<close>

section \<open>The calendar\<close>

definition leap_year :: "int \<Rightarrow> bool" where
  "leap_year y \<longleftrightarrow> y mod 4 = 0 \<and> y mod 100 \<noteq> 0 \<or> y mod 400 = 0"

definition days_before_year :: "int \<Rightarrow> int" where
  "days_before_year y = 365 * (y - 1970) + (y - 1969) div 4 - (y - 1901) div 100 + (y - 1601) div 400"

definition month_starts :: "bool \<Rightarrow> int list" where
  "month_starts leap = (if leap then [0, 31, 60, 91, 121, 152, 182, 213, 244, 274, 305, 335, 366]
     else [0, 31, 59, 90, 120, 151, 181, 212, 243, 273, 304, 334, 365])"

definition month_length :: "bool \<Rightarrow> nat \<Rightarrow> int" where
  "month_length leap m = month_starts leap ! (m + 1) - month_starts leap ! m"

text \<open>The day number of day \<open>d\<close> of month \<open>m\<close> (from 0, carried into the year) of year \<open>y\<close>.\<close>

definition make_day :: "int \<Rightarrow> int \<Rightarrow> int \<Rightarrow> int" where
  "make_day y m d =
     (let ym = y + m div 12 in days_before_year ym + month_starts (leap_year ym) ! nat (m mod 12) + d - 1)"

definition year_of_day :: "int \<Rightarrow> int" where
  "year_of_day n =
     (let y = 1970 + (n * 400) div 146097
      in if days_before_year (y + 1) \<le> n then y + 1 else if days_before_year y \<le> n then y else y - 1)"

definition month_of :: "bool \<Rightarrow> int \<Rightarrow> nat" where
  "month_of leap n = length (filter (\<lambda>s. s \<le> n) (take 11 (tl (month_starts leap))))"

definition civil :: "int \<Rightarrow> int \<times> int \<times> int" where
  "civil n =
     (let y = year_of_day n; doy = n - days_before_year y; m = month_of (leap_year y) doy
      in (y, int m + 1, doy - month_starts (leap_year y) ! m + 1))"

lemma div_next:
  assumes "0 < (n::int)"
  shows "(a + 1) div n = a div n + (if (a + 1) mod n = 0 then 1 else 0)"
proof (cases "(a + 1) mod n = 0")
  case True
  then have "a = n * ((a + 1) div n - 1) + (n - 1)"
    using div_mult_mod_eq [of "a + 1" n] by (simp add: algebra_simps)
  then have "a div n = (a + 1) div n - 1"
    using assms by (intro int_div_pos_eq [of _ _ _ "n - 1"]) simp_all
  then show ?thesis using True by simp
next
  case False
  then have "a = n * ((a + 1) div n) + ((a + 1) mod n - 1)" "0 \<le> (a + 1) mod n - 1"
    using div_mult_mod_eq [of "a + 1" n] pos_mod_sign [OF assms, of "a + 1"] by (simp_all add: algebra_simps)
  then have "a div n = (a + 1) div n"
    using pos_mod_bound [OF assms, of "a + 1"] by (intro int_div_pos_eq [of _ _ _ "(a + 1) mod n - 1"]) simp_all
  then show ?thesis using False by simp
qed

lemma mod_shift: "n dvd c \<Longrightarrow> (y - c) mod n = 0 \<longleftrightarrow> y mod n = (0::int)"
  by (simp add: mod_eq_0_iff_dvd dvd_diff_left_iff)

lemma year_length: "days_before_year (y + 1) = days_before_year y + (if leap_year y then 366 else 365)"
proof -
  define a b c where abc: "a = (y - 1969) div 4" "b = (y - 1901) div 100" "c = (y - 1601) div 400"
  have "(y - 1969 + 1) mod 4 = 0 \<longleftrightarrow> y mod 4 = 0" "(y - 1901 + 1) mod 100 = 0 \<longleftrightarrow> y mod 100 = 0"
    "(y - 1601 + 1) mod 400 = 0 \<longleftrightarrow> y mod 400 = 0"
    using mod_shift [of 4 1968 y] mod_shift [of 100 1900 y] mod_shift [of 400 1600 y] by simp_all
  then have "(y - 1969 + 1) div 4 = a + (if y mod 4 = 0 then 1 else 0)"
    "(y - 1901 + 1) div 100 = b + (if y mod 100 = 0 then 1 else 0)"
    "(y - 1601 + 1) div 400 = c + (if y mod 400 = 0 then 1 else 0)"
    by (simp_all only: div_next zero_less_numeral abc)
  then have next_year: "days_before_year (y + 1) = 365 * (y + 1 - 1970) + (a + (if y mod 4 = 0 then 1 else 0))
      - (b + (if y mod 100 = 0 then 1 else 0)) + (c + (if y mod 400 = 0 then 1 else 0))"
    by (simp only: days_before_year_def diff_add_eq)
  have this_year: "days_before_year y = 365 * (y - 1970) + a - b + c"
    by (simp only: days_before_year_def abc)
  have "y mod 100 = 0 \<Longrightarrow> y mod 4 = 0" "y mod 400 = 0 \<Longrightarrow> y mod 100 = 0"
    using dvd_trans [of 4 100 y] dvd_trans [of 100 400 y] by (simp_all add: mod_eq_0_iff_dvd)
  then show ?thesis unfolding next_year this_year leap_year_def by auto
qed

lemma days_before_bounds:
  "146097 * (y - 1970) - 506 \<le> 400 * days_before_year y" "400 * days_before_year y \<le> 146097 * (y - 1970) + 589"
proof -
  define a b c where abc: "a = (y - 1969) div 4" "b = (y - 1901) div 100" "c = (y - 1601) div 400"
  have near: "n * (x div n) \<le> x \<and> x \<le> n * (x div n) + n - 1" if "0 < n" for x n :: int
    using mult_div_mod_eq [of n x] pos_mod_sign [OF that, of x] pos_mod_bound [OF that, of x] by linarith
  have a: "4 * a \<le> y - 1969" "y - 1969 \<le> 4 * a + 3" and b: "100 * b \<le> y - 1901" "y - 1901 \<le> 100 * b + 99"
    and c: "400 * c \<le> y - 1601" "y - 1601 \<le> 400 * c + 399"
    using near [of 4 "y - 1969"] near [of 100 "y - 1901"] near [of 400 "y - 1601"] by (simp_all add: abc)
  have d: "400 * days_before_year y = 146000 * (y - 1970) + 400 * a - 400 * b + 400 * c"
    by (simp add: days_before_year_def abc)
  have "100 * (y - 1969) - 300 \<le> 400 * a" "400 * b \<le> 4 * (y - 1901)" using a b by simp_all
  then show "146097 * (y - 1970) - 506 \<le> 400 * days_before_year y" using c d by simp
  show "400 * days_before_year y \<le> 146097 * (y - 1970) + 589" using a(1) b(2) c(1) d by simp
qed

lemma year_of_day_bounds: "days_before_year (year_of_day n) \<le> n \<and> n < days_before_year (year_of_day n + 1)"
proof -
  define y where "y = 1970 + (n * 400) div 146097"
  have "n * 400 = 146097 * ((n * 400) div 146097) + (n * 400) mod 146097"
    "0 \<le> (n * 400) mod 146097" "(n * 400) mod 146097 < 146097"
    by simp_all
  then have "146097 * (y - 1970) \<le> n * 400" "n * 400 < 146097 * (y - 1969)"
    by (simp_all add: y_def)
  then have "400 * days_before_year (y - 1) \<le> 400 * n" "400 * n < 400 * days_before_year (y + 2)"
    using days_before_bounds(2) [of "y - 1"] days_before_bounds(1) [of "y + 2"] by (simp_all add: algebra_simps)
  then have "days_before_year (y - 1) \<le> n" "n < days_before_year (y + 2)" by simp_all
  then show ?thesis
    unfolding year_of_day_def y_def [symmetric] Let_def by (auto simp: algebra_simps)
qed

lemma days_before_mono: "y < z \<Longrightarrow> days_before_year y < days_before_year z"
proof (induction "nat (z - y)" arbitrary: z)
  case (Suc k)
  show ?case
  proof (cases "z = y + 1")
    case True
    then show ?thesis by (simp add: year_length)
  next
    case False
    then have "days_before_year y < days_before_year (z - 1)" using Suc by auto
    then show ?thesis using year_length [of "z - 1"] by (auto split: if_splits)
  qed
qed simp

lemma year_of_day_unique:
  "days_before_year y \<le> n \<Longrightarrow> n < days_before_year (y + 1) \<Longrightarrow> year_of_day n = y"
  using year_of_day_bounds [of n] days_before_mono [of "year_of_day n + 1" y] days_before_mono [of "y + 1" "year_of_day n"]
  by (smt (verit))

lemma month_of_bounds:
  assumes "0 \<le> n" "n < (if leap then 366 else 365)"
  shows "month_of leap n \<le> 11 \<and> month_starts leap ! month_of leap n \<le> n
    \<and> n < month_starts leap ! (month_of leap n + 1)"
  using assms by (cases leap) (auto simp: month_of_def month_starts_def)

lemma month_of_start:
  assumes "m \<le> 11" "0 \<le> d" "d < month_length leap m"
  shows "month_of leap (month_starts leap ! m + d) = m"
proof -
  have "m \<in> {0, 1, 2, 3, 4, 5, 6, 7, 8, 9, 10, 11}" using assms(1) unfolding insert_iff empty_iff by presburger
  then show ?thesis
    using assms(2,3) by (cases leap; simp, elim disjE; simp add: month_of_def month_starts_def month_length_def)
qed

lemma month_start_range: "m \<le> 11 \<Longrightarrow> 0 \<le> month_starts leap ! m
  \<and> month_starts leap ! m + month_length leap m \<le> (if leap then 366 else 365)"
proof -
  assume "m \<le> 11"
  then have "m \<in> {0, 1, 2, 3, 4, 5, 6, 7, 8, 9, 10, 11}" unfolding insert_iff empty_iff by presburger
  then show ?thesis by (cases leap) (auto simp: month_starts_def month_length_def)
qed

text \<open>A calendar date: its month and day exist.\<close>

definition valid_date :: "int \<Rightarrow> int \<Rightarrow> int \<Rightarrow> bool" where
  "valid_date y m d \<longleftrightarrow> 1 \<le> m \<and> m \<le> 12 \<and> 1 \<le> d \<and> d \<le> month_length (leap_year y) (nat (m - 1))"

lemma civil_make_day: "valid_date y m d \<Longrightarrow> civil (make_day y (m - 1) d) = (y, m, d)"
proof -
  assume v: "valid_date y m d"
  define k where "k = nat (m - 1)"
  define l where "l = leap_year y"
  have k: "k \<le> 11" "int k = m - 1" using v by (auto simp: k_def valid_date_def)
  have d: "0 \<le> d - 1" "d - 1 < month_length l k" using v by (auto simp: k_def l_def valid_date_def)
  have "(m - 1) div 12 = 0" "(m - 1) mod 12 = m - 1" using v by (auto simp: valid_date_def)
  then have n: "make_day y (m - 1) d = days_before_year y + (month_starts l ! k + (d - 1))"
    by (simp add: make_day_def k_def l_def)
  have "year_of_day (make_day y (m - 1) d) = y"
    unfolding n by (rule year_of_day_unique)
      (use month_start_range [OF k(1), of l] d year_length [of y] in \<open>auto simp: l_def\<close>)
  then show ?thesis
    using month_of_start [OF k(1) d] k by (simp add: civil_def n l_def)
qed

lemma make_day_civil: "civil n = (y, m, d) \<Longrightarrow> make_day y (m - 1) d = n \<and> valid_date y m d"
proof -
  assume c: "civil n = (y, m, d)"
  define k where "k = month_of (leap_year y) (n - days_before_year y)"
  have y: "y = year_of_day n" and m: "m = int k + 1" and d: "d = n - days_before_year y - month_starts (leap_year y) ! k + 1"
    using c by (auto simp: civil_def Let_def k_def)
  have "0 \<le> n - days_before_year y" "n - days_before_year y < (if leap_year y then 366 else 365)"
    using year_of_day_bounds [of n] year_length [of y] unfolding y by auto
  note b = month_of_bounds [OF this, folded k_def]
  have "int k div 12 = 0" "int k mod 12 = int k" using b by auto
  then show ?thesis
    using b by (auto simp: make_day_def m d valid_date_def month_length_def)
qed

section \<open>Dates of the engine\<close>

definition js_floor :: "jsnum \<Rightarrow> jsnum" where
  "js_floor x = (case x of Fin q \<Rightarrow> Fin (of_int \<lfloor>q\<rfloor>) | _ \<Rightarrow> x)"

text \<open>\<open>ToIntegerOrInfinity\<close> of an argument of \<open>Date\<close>, \<open>None\<close> when the date is not finite.\<close>

definition date_arg :: "jsnum \<Rightarrow> int option" where
  "date_arg x = (case x of Fin q \<Rightarrow> Some (js_trunc (Fin q)) | _ \<Rightarrow> None)"

definition full_year :: "int \<Rightarrow> int" where
  "full_year y = (if 0 \<le> y \<and> y \<le> 99 then 1900 + y else y)"

definition MAX_TIME :: int where
  "MAX_TIME = 8640000000000000"

definition time_clip :: "int \<Rightarrow> jsnum" where
  "time_clip t = (if \<bar>t\<bar> \<le> MAX_TIME then Fin (of_int t) else NaN)"

text \<open>\<open>Date.UTC\<close> with seven arguments; the sums are exact, as they are in doubles below \<open>2^53\<close>.\<close>

definition date_utc :: "jsnum list \<Rightarrow> jsnum" where
  "date_utc args = (case map date_arg args of
       [Some y, Some m, Some d, Some h, Some mi, Some s, Some ms] \<Rightarrow>
         time_clip (make_day (full_year y) m d * 86400000 + h * 3600000 + mi * 60000 + s * 1000 + ms)
     | _ \<Rightarrow> NaN)"

text \<open>The time value of \<open>new Date(ms)\<close>.\<close>

definition date_of_ms :: "jsnum \<Rightarrow> int option" where
  "date_of_ms x = (case x of
       Fin q \<Rightarrow> let t = js_trunc (Fin q) in if \<bar>q\<bar> \<le> of_int MAX_TIME then Some t else None
     | _ \<Rightarrow> None)"

definition dateToEpochDays :: "jsnum \<Rightarrow> jsnum \<Rightarrow> jsnum \<Rightarrow> jsnum" where
  "dateToEpochDays year month day =
     (let ms = date_utc [year, js_sub month (Fin 1), day, Fin 0, Fin 0, Fin 0, Fin 0]
      in js_floor (js_div ms (Fin 86400000)))"

record date_parts =
  dp_year :: jsnum
  dp_month :: jsnum
  dp_day :: jsnum

record timestamp_parts = date_parts +
  tp_hour :: jsnum
  tp_minute :: jsnum
  tp_second :: jsnum
  tp_ms :: jsnum

definition epochDaysToDate :: "jsnum \<Rightarrow> date_parts" where
  "epochDaysToDate days = (case date_of_ms (js_mul days (Fin 86400000)) of
       None \<Rightarrow> \<lparr>dp_year = NaN, dp_month = NaN, dp_day = NaN\<rparr>
     | Some t \<Rightarrow> let (y, m, d) = civil (t div 86400000)
         in \<lparr>dp_year = Fin (of_int y), dp_month = Fin (of_int m), dp_day = Fin (of_int d)\<rparr>)"

definition timestampToEpochMs :: "jsnum \<Rightarrow> jsnum \<Rightarrow> jsnum \<Rightarrow> jsnum \<Rightarrow> jsnum \<Rightarrow> jsnum \<Rightarrow> jsnum \<Rightarrow> jsnum" where
  "timestampToEpochMs year month day hour minute second ms =
     date_utc [year, js_sub month (Fin 1), day, hour, minute, second, ms]"

definition epochMsToTimestamp :: "jsnum \<Rightarrow> timestamp_parts" where
  "epochMsToTimestamp epochMs = (case date_of_ms epochMs of
       None \<Rightarrow> \<lparr>dp_year = NaN, dp_month = NaN, dp_day = NaN, tp_hour = NaN, tp_minute = NaN, tp_second = NaN, tp_ms = NaN\<rparr>
     | Some t \<Rightarrow> let (y, m, d) = civil (t div 86400000); r = t mod 86400000
         in \<lparr>dp_year = Fin (of_int y), dp_month = Fin (of_int m), dp_day = Fin (of_int d),
             tp_hour = Fin (of_int (r div 3600000)), tp_minute = Fin (of_int (r div 60000 mod 60)),
             tp_second = Fin (of_int (r div 1000 mod 60)), tp_ms = Fin (of_int (r mod 1000))\<rparr>)"

definition epochDaysToEpochMs :: "jsnum \<Rightarrow> jsnum" where
  "epochDaysToEpochMs days = js_mul days (Fin 86400000)"

definition epochMsToEpochDays :: "jsnum \<Rightarrow> jsnum" where
  "epochMsToEpochDays ms = js_floor (js_div ms (Fin 86400000))"

section \<open>Round trips\<close>

lemma int_ops:
  "\<bar>a + b\<bar> \<le> 2 ^ 53 \<Longrightarrow> js_add (Fin (of_int a)) (Fin (of_int b)) = Fin (of_int (a + b))"
  "\<bar>a - b\<bar> \<le> 2 ^ 53 \<Longrightarrow> js_sub (Fin (of_int a)) (Fin (of_int b)) = Fin (of_int (a - b))"
  "\<bar>a * b\<bar> \<le> 2 ^ 53 \<Longrightarrow> js_mul (Fin (of_int a)) (Fin (of_int b)) = Fin (of_int (a * b))"
  using rnd_int [of "a + b"] rnd_int [of "a - b"] rnd_int [of "a * b"] by (simp_all add: js_sub_def)

lemma fin_numeral: "Fin 1 = Fin (of_int 1)" "Fin (numeral k) = Fin (of_int (numeral k))"
  by simp_all

lemma date_utc_days:
  assumes "\<bar>make_day (full_year y) (m - 1) d\<bar> \<le> 10 ^ 8" "\<bar>m - 1\<bar> \<le> 2 ^ 53"
  shows "dateToEpochDays (Fin (of_int y)) (Fin (of_int m)) (Fin (of_int d))
    = Fin (of_int (make_day (full_year y) (m - 1) d))"
proof -
  let ?n = "make_day (full_year y) (m - 1) d"
  have sub: "js_sub (Fin (of_int m)) (Fin 1) = Fin (of_int (m - 1))"
    unfolding fin_numeral by (rule int_ops(2) [OF assms(2)])
  have zero: "date_arg (Fin 0) = Some 0" by (simp add: date_arg_def js_trunc_def)
  have arg: "date_arg (Fin (of_int i)) = Some i" for i by (simp add: date_arg_def)
  have "\<bar>?n * 86400000\<bar> \<le> MAX_TIME" using assms(1) by (simp add: MAX_TIME_def abs_mult)
  then have "date_utc [Fin (of_int y), Fin (of_int (m - 1)), Fin (of_int d), Fin 0, Fin 0, Fin 0, Fin 0]
      = Fin (of_int (?n * 86400000))"
    by (simp only: date_utc_def list.map zero arg list.case option.case) (simp add: time_clip_def)
  moreover have "rnd (of_int ?n) = Fin (of_int ?n)" using assms(1) by (intro rnd_int) simp
  ultimately show ?thesis
    unfolding dateToEpochDays_def sub Let_def by (simp add: js_floor_def)
qed

lemma epochDaysToDate_int:
  assumes "\<bar>n\<bar> \<le> 10 ^ 8" "civil n = (y, m, d)"
  shows "epochDaysToDate (Fin (of_int n))
    = \<lparr>dp_year = Fin (of_int y), dp_month = Fin (of_int m), dp_day = Fin (of_int d)\<rparr>"
proof -
  have b: "\<bar>n * 86400000\<bar> \<le> MAX_TIME" using assms(1) by (simp add: MAX_TIME_def abs_mult)
  then have "js_mul (Fin (of_int n)) (Fin 86400000) = Fin (of_int (n * 86400000))"
    unfolding fin_numeral by (intro int_ops(3)) (simp add: MAX_TIME_def)
  moreover have "\<bar>of_int (n * 86400000) :: rat\<bar> \<le> of_int MAX_TIME"
    using b by (metis of_int_abs of_int_le_iff)
  ultimately have "date_of_ms (js_mul (Fin (of_int n)) (Fin 86400000)) = Some (n * 86400000)"
    by (simp only: date_of_ms_def jsnum.case js_trunc_int Let_def if_True)
  then show ?thesis by (simp add: epochDaysToDate_def assms(2))
qed

lemma days_roundtrip:
  assumes "\<bar>n\<bar> \<le> 10 ^ 8" "civil n = (y, m, d)" "y < 0 \<or> 99 < y"
  shows "dateToEpochDays (Fin (of_int y)) (Fin (of_int m)) (Fin (of_int d)) = Fin (of_int n)"
proof -
  have y: "full_year y = y" using assms(3) by (auto simp: full_year_def)
  have c: "make_day y (m - 1) d = n" "valid_date y m d" using make_day_civil [OF assms(2)] by simp_all
  then show ?thesis using date_utc_days [of y m d] assms(1) by (simp add: y valid_date_def)
qed

lemma day_split:
  fixes r :: int
  shows "r div 3600000 * 3600000 + (r div 60000 mod 60 * 60000 + (r div 1000 mod 60 * 1000 + r mod 1000)) = r"
proof -
  have linear: "s * 1000 + a = r \<Longrightarrow> q * 60 + b = s \<Longrightarrow> h * 60 + c = q
      \<Longrightarrow> h * 3600000 + (c * 60000 + (b * 1000 + a)) = r" for s q h a b c :: int
    by (auto simp: algebra_simps)
  define s q h where sqh: "s = r div 1000" "q = s div 60" "h = q div 60"
  have q: "r div 60000 = q" unfolding sqh by (subst zdiv_zmult2_eq [symmetric]) simp_all
  have h: "r div 3600000 = h" unfolding sqh by (subst (1 2) zdiv_zmult2_eq [symmetric]) simp_all
  have "s * 1000 + r mod 1000 = r" "q * 60 + s mod 60 = s" "h * 60 + q mod 60 = q"
    by (simp_all only: sqh div_mult_mod_eq)
  then have "h * 3600000 + (q mod 60 * 60000 + (s mod 60 * 1000 + r mod 1000)) = r"
    by (rule linear)
  then show ?thesis unfolding q h sqh(1) [symmetric] .
qed

lemma timestamp_roundtrip:
  assumes "\<bar>t\<bar> \<le> MAX_TIME" "civil (t div 86400000) = (y, m, d)" "y < 0 \<or> 99 < y"
    and p: "p = epochMsToTimestamp (Fin (of_int t))"
  shows "timestampToEpochMs (dp_year p) (dp_month p) (dp_day p) (tp_hour p) (tp_minute p) (tp_second p) (tp_ms p)
    = Fin (of_int t)"
proof -
  let ?r = "t mod 86400000"
  have "\<bar>of_int t :: rat\<bar> \<le> of_int MAX_TIME" using assms(1) by (metis of_int_abs of_int_le_iff)
  then have "date_of_ms (Fin (of_int t)) = Some t"
    by (simp only: date_of_ms_def jsnum.case js_trunc_int Let_def if_True)
  then have p: "p = \<lparr>dp_year = Fin (of_int y), dp_month = Fin (of_int m), dp_day = Fin (of_int d),
      tp_hour = Fin (of_int (?r div 3600000)), tp_minute = Fin (of_int (?r div 60000 mod 60)),
      tp_second = Fin (of_int (?r div 1000 mod 60)), tp_ms = Fin (of_int (?r mod 1000))\<rparr>"
    by (simp only: p epochMsToTimestamp_def option.case assms(2) prod.case Let_def)
  have c: "make_day y (m - 1) d = t div 86400000" "valid_date y m d" using make_day_civil [OF assms(2)] by simp_all
  have sub: "js_sub (Fin (of_int m)) (Fin 1) = Fin (of_int (m - 1))"
    unfolding fin_numeral using c(2) by (intro int_ops(2)) (simp add: valid_date_def)
  have arg: "date_arg (Fin (of_int i)) = Some i" for i by (simp add: date_arg_def)
  have y: "full_year y = y" using assms(3) by (auto simp: full_year_def)
  note parts = day_split [of ?r] div_mult_mod_eq [of t 86400000]
  have "t div 86400000 * 86400000 + ?r div 3600000 * 3600000 + ?r div 60000 mod 60 * 60000
      + ?r div 1000 mod 60 * 1000 + ?r mod 1000 = t"
    using parts by (simp only: add.assoc)
  then show ?thesis
    using assms(1)
    by (simp only: p timestampToEpochMs_def sub date_utc_def list.map arg list.case option.case y c(1)
        timestamp_parts.simps date_parts.simps timestamp_parts.select_convs date_parts.select_convs)
      (simp add: time_clip_def)
qed

end
