(* ===== verification/JsOps.thy ===== *)
theory JsOps
  imports JsText Calendar Lexer
begin

text \<open>
  JavaScript's operators on the values an expression can take (\<open>EvalValue\<close> of
  \<open>execution/execution-types.ts\<close>) and the casts of \<open>storage/data-type.ts\<close>. Host functions whose result
  the language leaves to the implementation (\<open>Date.parse\<close>, Unicode case mapping, \<open>Math.pow\<close>,
  \<open>Math.sqrt\<close>) are the fields of \<open>js_host\<close>.
\<close>

record js_host =
  h_parseDate :: "ustr \<Rightarrow> jsnum"
  h_upper :: "ustr \<Rightarrow> ustr"
  h_lower :: "ustr \<Rightarrow> ustr"
  h_pow :: "jsnum \<Rightarrow> jsnum \<Rightarrow> jsnum"
  h_sqrt :: "jsnum \<Rightarrow> jsnum"

text \<open>What can go wrong in an evaluation: a reference that does not resolve, an exception of the host, a loop.\<close>

datatype eval_error = UnresolvedReference | AmbiguousReference | JsTypeError | NoReturn

section \<open>Conversions\<close>

definition object_text :: ustr where
  "object_text = ustr_of ''[object Object]''"

text \<open>\<open>Number(value)\<close>.\<close>

fun js_number :: "eval_value \<Rightarrow> jsnum" where
  "js_number Undef = NaN"
| "js_number (Interval _ _) = NaN"
| "js_number (Val VNull) = Fin 0"
| "js_number (Val (VNum x)) = x"
| "js_number (Val (VBig i)) = num_of_big i"
| "js_number (Val (VStr s)) = numberOfString s"
| "js_number (Val (VBool b)) = (if b then Fin 1 else Fin 0)"

text \<open>\<open>String(value)\<close>.\<close>

fun js_text :: "eval_value \<Rightarrow> ustr" where
  "js_text Undef = ustr_of ''undefined''"
| "js_text (Interval _ _) = object_text"
| "js_text (Val VNull) = ustr_of ''null''"
| "js_text (Val (VNum x)) = stringOfNum x"
| "js_text (Val (VBig i)) = stringOfInt i"
| "js_text (Val (VStr s)) = s"
| "js_text (Val (VBool b)) = (if b then ustr_of ''true'' else ustr_of ''false'')"

text \<open>\<open>!!value\<close>.\<close>

fun js_truthy :: "eval_value \<Rightarrow> bool" where
  "js_truthy Undef = False"
| "js_truthy (Interval _ _) = True"
| "js_truthy (Val VNull) = False"
| "js_truthy (Val (VNum x)) = (x \<noteq> NaN \<and> x \<noteq> Fin 0)"
| "js_truthy (Val (VBig i)) = (i \<noteq> 0)"
| "js_truthy (Val (VStr s)) = (s \<noteq> [])"
| "js_truthy (Val (VBool b)) = b"

definition is_nullish :: "eval_value \<Rightarrow> bool" where
  "is_nullish v \<longleftrightarrow> v = Undef \<or> v = Val VNull"

abbreviation null_value :: eval_value where
  "null_value \<equiv> Val VNull"

abbreviation bool_value :: "bool \<Rightarrow> eval_value" where
  "bool_value b \<equiv> Val (VBool b)"

abbreviation num_value :: "jsnum \<Rightarrow> eval_value" where
  "num_value x \<equiv> Val (VNum x)"

abbreviation text_value :: "ustr \<Rightarrow> eval_value" where
  "text_value s \<equiv> Val (VStr s)"

section \<open>Comparison\<close>

datatype js_order = Less | Equal | Greater

definition order_num :: "jsnum \<Rightarrow> jsnum \<Rightarrow> js_order option" where
  "order_num a b = (if js_lt a b then Some Less else if js_lt b a then Some Greater
     else if js_eq a b then Some Equal else None)"

definition order_text :: "ustr \<Rightarrow> ustr \<Rightarrow> js_order option" where
  "order_text s t = Some (if ustr_lt s t then Less else if s = t then Equal else Greater)"

text \<open>The mathematical value of an operand: a \<open>bigint\<close> is not rounded.\<close>

definition exact_number :: "eval_value \<Rightarrow> jsnum" where
  "exact_number v = (case v of Val (VBig i) \<Rightarrow> Fin (of_int i) | _ \<Rightarrow> js_number v)"

definition order_big_text :: "int \<Rightarrow> ustr \<Rightarrow> js_order option" where
  "order_big_text i s = (case bigOfString s of None \<Rightarrow> None | Some j \<Rightarrow> order_num (Fin (of_int i)) (Fin (of_int j)))"

definition flip_order :: "js_order \<Rightarrow> js_order" where
  "flip_order r = (case r of Less \<Rightarrow> Greater | Equal \<Rightarrow> Equal | Greater \<Rightarrow> Less)"

definition to_primitive :: "eval_value \<Rightarrow> eval_value" where
  "to_primitive v = (case v of Interval _ _ \<Rightarrow> text_value object_text | _ \<Rightarrow> v)"

text \<open>The outcome of \<open><\<close>, \<open><=\<close>, \<open>>\<close>, \<open>>=\<close> on two values; \<open>None\<close> makes each of them false.\<close>

definition js_compare :: "eval_value \<Rightarrow> eval_value \<Rightarrow> js_order option" where
  "js_compare a b = (case (to_primitive a, to_primitive b) of
       (Val (VStr s), Val (VStr t)) \<Rightarrow> order_text s t
     | (Val (VBig i), Val (VStr t)) \<Rightarrow> order_big_text i t
     | (Val (VStr s), Val (VBig j)) \<Rightarrow> map_option flip_order (order_big_text j s)
     | (x, y) \<Rightarrow> order_num (exact_number x) (exact_number y))"

definition js_less :: "eval_value \<Rightarrow> eval_value \<Rightarrow> bool" where
  "js_less a b \<longleftrightarrow> js_compare a b = Some Less"

definition js_at_most :: "eval_value \<Rightarrow> eval_value \<Rightarrow> bool" where
  "js_at_most a b \<longleftrightarrow> js_compare a b \<in> {Some Less, Some Equal}"

definition js_greater :: "eval_value \<Rightarrow> eval_value \<Rightarrow> bool" where
  "js_greater a b \<longleftrightarrow> js_compare a b = Some Greater"

definition js_at_least :: "eval_value \<Rightarrow> eval_value \<Rightarrow> bool" where
  "js_at_least a b \<longleftrightarrow> js_compare a b \<in> {Some Greater, Some Equal}"

text \<open>\<open>===\<close>; two interval objects are never the same object.\<close>

fun js_same :: "eval_value \<Rightarrow> eval_value \<Rightarrow> bool" where
  "js_same (Val (VNum x)) (Val (VNum y)) = js_eq x y"
| "js_same (Interval _ _) _ = False"
| "js_same a b = (a = b)"

text \<open>\<open>==\<close>.\<close>

definition js_loose_eq :: "eval_value \<Rightarrow> eval_value \<Rightarrow> bool" where
  "js_loose_eq a b =
     (if is_nullish a \<or> is_nullish b then is_nullish a \<and> is_nullish b
      else case (a, b) of
          (Interval _ _, Interval _ _) \<Rightarrow> False
        | _ \<Rightarrow> js_compare a b = Some Equal)"

section \<open>Arithmetic\<close>

definition is_textual :: "eval_value \<Rightarrow> bool" where
  "is_textual v \<longleftrightarrow> (case v of Val (VStr _) \<Rightarrow> True | Interval _ _ \<Rightarrow> True | _ \<Rightarrow> False)"

definition is_big :: "eval_value \<Rightarrow> bool" where
  "is_big v \<longleftrightarrow> (case v of Val (VBig _) \<Rightarrow> True | _ \<Rightarrow> False)"

text \<open>\<open>a + b\<close>, \<open>a - b\<close> and the like; mixing a \<open>bigint\<close> with another number throws.\<close>

definition js_plus :: "eval_value \<Rightarrow> eval_value \<Rightarrow> eval_error + eval_value" where
  "js_plus a b =
     (if is_textual a \<or> is_textual b then Inr (text_value (js_text a @ js_text b))
      else case (a, b) of
          (Val (VBig i), Val (VBig j)) \<Rightarrow> Inr (Val (VBig (i + j)))
        | _ \<Rightarrow> if is_big a \<or> is_big b then Inl JsTypeError else Inr (num_value (js_add (js_number a) (js_number b))))"

definition js_arith :: "(jsnum \<Rightarrow> jsnum \<Rightarrow> jsnum) \<Rightarrow> (int \<Rightarrow> int \<Rightarrow> eval_error + int) \<Rightarrow> eval_value \<Rightarrow> eval_value
    \<Rightarrow> eval_error + eval_value" where
  "js_arith f g a b = (case (a, b) of
       (Val (VBig i), Val (VBig j)) \<Rightarrow> bindE (g i j) (\<lambda>k. Inr (Val (VBig k)))
     | _ \<Rightarrow> if is_big a \<or> is_big b then Inl JsTypeError else Inr (num_value (f (js_number a) (js_number b))))"

definition js_minus :: "eval_value \<Rightarrow> eval_value \<Rightarrow> eval_error + eval_value" where
  "js_minus = js_arith js_sub (\<lambda>i j. Inr (i - j))"

section \<open>Casts\<close>

definition toNumericValue :: "eval_value \<Rightarrow> jsnum option" where
  "toNumericValue v = (case v of
       Val (VBig i) \<Rightarrow> Some (num_of_big i)
     | Val (VNum x) \<Rightarrow> Some x
     | _ \<Rightarrow> None)"

definition is_finite :: "jsnum \<Rightarrow> bool" where
  "is_finite x \<longleftrightarrow> (case x of Fin _ \<Rightarrow> True | _ \<Rightarrow> False)"

definition castToNumber :: "eval_value \<Rightarrow> jsnum option" where
  "castToNumber v =
     (if is_nullish v then None
      else case v of
          Val (VBool b) \<Rightarrow> Some (if b then Fin 1 else Fin 0)
        | _ \<Rightarrow> if (case v of Val (VStr s) \<Rightarrow> js_trim s = [] | _ \<Rightarrow> False) then None
               else let numeric = js_number v in if is_finite numeric then Some numeric else None)"

definition num_trunc :: "jsnum \<Rightarrow> jsnum" where
  "num_trunc x = (case x of Fin _ \<Rightarrow> Fin (of_int (js_trunc x)) | _ \<Rightarrow> x)"

text \<open>\<open>String.prototype.split\<close> at one code unit.\<close>

fun split_at :: "16 word \<Rightarrow> ustr \<Rightarrow> ustr list" where
  "split_at c [] = [[]]"
| "split_at c (u # us) = (if u = c then [] # split_at c us
     else case split_at c us of [] \<Rightarrow> [[u]] | w # ws \<Rightarrow> (u # w) # ws)"

definition part_number :: "ustr list \<Rightarrow> nat \<Rightarrow> jsnum" where
  "part_number ws i = (if i < length ws then numberOfString (ws ! i) else NaN)"

definition castToType :: "js_host \<Rightarrow> eval_value \<Rightarrow> data_type \<Rightarrow> eval_value" where
  "castToType H v target =
     (if is_nullish v then null_value
      else case target of
          INT32 \<Rightarrow> (case castToNumber v of None \<Rightarrow> null_value | Some n \<Rightarrow> num_value (num_trunc n))
        | INT64 \<Rightarrow> (case castToNumber v of None \<Rightarrow> null_value | Some n \<Rightarrow> Val (VBig (js_trunc n)))
        | FLOAT64 \<Rightarrow> (case castToNumber v of None \<Rightarrow> null_value | Some n \<Rightarrow> num_value n)
        | DECIMAL \<Rightarrow> (case castToNumber v of None \<Rightarrow> null_value | Some n \<Rightarrow> num_value n)
        | VARCHAR \<Rightarrow> text_value (case v of Val (VBig i) \<Rightarrow> stringOfNum (num_of_big i) | _ \<Rightarrow> js_text v)
        | BOOLEAN \<Rightarrow> bool_value (js_truthy v)
        | TIMESTAMP \<Rightarrow> num_value (case v of Val (VStr s) \<Rightarrow> h_parseDate H s | _ \<Rightarrow> js_number v)
        | DATE \<Rightarrow> (case v of
              Val (VStr s) \<Rightarrow> let ws = split_at 45 s
                 in num_value (dateToEpochDays (part_number ws 0) (part_number ws 1) (part_number ws 2))
            | _ \<Rightarrow> v))"

definition DATA_TYPE_NAMES :: "(string \<times> data_type) list" where
  "DATA_TYPE_NAMES = [(''BOOLEAN'', BOOLEAN), (''INT32'', INT32), (''INT64'', INT64), (''FLOAT64'', FLOAT64),
     (''DECIMAL'', DECIMAL), (''VARCHAR'', VARCHAR), (''DATE'', DATE), (''TIMESTAMP'', TIMESTAMP)]"

definition TYPE_NAME_ALIASES :: "(string \<times> data_type) list" where
  "TYPE_NAME_ALIASES = [(''INTEGER'', INT32), (''INT'', INT32), (''BIGINT'', INT64), (''LONG'', INT64),
     (''FLOAT'', FLOAT64), (''DOUBLE'', FLOAT64), (''REAL'', FLOAT64), (''NUMERIC'', DECIMAL), (''TEXT'', VARCHAR),
     (''CHAR'', VARCHAR), (''STRING'', VARCHAR), (''DATETIME'', TIMESTAMP), (''BOOL'', BOOLEAN)]"

definition normalizeTypeName :: "string \<Rightarrow> data_type" where
  "normalizeTypeName name =
     (let upper = toUpperCase name
      in case map_of DATA_TYPE_NAMES upper of Some t \<Rightarrow> t
         | None \<Rightarrow> (case map_of TYPE_NAME_ALIASES upper of Some t \<Rightarrow> t | None \<Rightarrow> VARCHAR))"

end
