(* ===== verification/ValueOps.thy ===== *)
theory ValueOps
  imports JsOps
begin

text \<open>
  \<open>execution/value-ops.ts\<close>: the operators of SQL expressions on evaluated values, with NULL, interval
  arithmetic on dates and timestamps, and the loops that carry months into years. A loop that would
  not end is \<open>None\<close>, and an operation that meets it fails with \<open>NoReturn\<close>.
\<close>

type_synonym value_result = "eval_error + eval_value"
type_synonym binary_op = "eval_value \<Rightarrow> eval_value \<Rightarrow> value_result"
type_synonym unary_op = "eval_value \<Rightarrow> value_result"

definition toNum :: "eval_value \<Rightarrow> eval_value" where
  "toNum v = (case v of Val (VBig i) \<Rightarrow> num_value (num_of_big i) | _ \<Rightarrow> v)"

definition normalizeComparable :: "eval_value \<Rightarrow> eval_value" where
  "normalizeComparable v = (case v of Val (VBig i) \<Rightarrow> num_value (num_of_big i) | _ \<Rightarrow> v)"

definition numOp :: "eval_value \<Rightarrow> eval_value \<Rightarrow> (eval_value \<Rightarrow> eval_value \<Rightarrow> 'a) \<Rightarrow> 'a" where
  "numOp left right fn = fn (toNum left) (toNum right)"

section \<open>Months\<close>

text \<open>\<open>new Date(year, month, 0).getDate()\<close>: the last day of the month numbered from 1.\<close>

definition daysInMonth :: "jsnum \<Rightarrow> jsnum \<Rightarrow> jsnum" where
  "daysInMonth year month = (case (date_arg year, date_arg month) of
       (Some y, Some m) \<Rightarrow> Fin (of_int (snd (snd (civil (make_day (full_year y) m 0)))))
     | _ \<Rightarrow> NaN)"

definition MS_PER_UNIT :: "(string \<times> jsnum) list" where
  "MS_PER_UNIT = [(''DAY'', Fin 86400000), (''HOUR'', Fin 3600000), (''MINUTE'', Fin 60000), (''SECOND'', Fin 1000)]"

text \<open>The two loops of \<open>shiftMonths\<close>.\<close>

partial_function (option) months_down :: "jsnum \<Rightarrow> jsnum \<Rightarrow> (jsnum \<times> jsnum) option" where
  "months_down shifted year =
     (if js_lt (Fin 12) shifted then months_down (js_sub shifted (Fin 12)) (js_add year (Fin 1))
      else Some (shifted, year))"

partial_function (option) months_up :: "jsnum \<Rightarrow> jsnum \<Rightarrow> (jsnum \<times> jsnum) option" where
  "months_up shifted year =
     (if js_lt shifted (Fin 1) then months_up (js_add shifted (Fin 12)) (js_sub year (Fin 1))
      else Some (shifted, year))"

definition js_min :: "jsnum \<Rightarrow> jsnum \<Rightarrow> jsnum" where
  "js_min a b = (if a = NaN \<or> b = NaN then NaN else if js_lt a b then a else b)"

definition shiftMonths :: "jsnum \<Rightarrow> jsnum \<Rightarrow> jsnum \<Rightarrow> jsnum \<Rightarrow> date_parts option" where
  "shiftMonths year month day months =
     (case months_down (js_add month months) year of
        None \<Rightarrow> None
      | Some (s1, y1) \<Rightarrow> (case months_up s1 y1 of
          None \<Rightarrow> None
        | Some (s2, y2) \<Rightarrow>
            Some \<lparr>dp_year = y2, dp_month = s2, dp_day = js_min day (daysInMonth y2 s2)\<rparr>))"

definition months_of :: "jsnum \<Rightarrow> string \<Rightarrow> jsnum" where
  "months_of amount unit = (if unit = ''YEAR'' then js_mul amount (Fin 12) else amount)"

text \<open>The first argument has been through \<open>toNum\<close>; a text there is concatenated, as \<open>+\<close> does.\<close>

definition addInterval :: "eval_value \<Rightarrow> jsnum \<Rightarrow> string \<Rightarrow> value_result" where
  "addInterval epochDays amount unit =
     (if unit \<noteq> ''YEAR'' \<and> unit \<noteq> ''MONTH'' then js_plus epochDays (num_value amount)
      else let date = epochDaysToDate (js_number epochDays)
           in case shiftMonths (dp_year date) (dp_month date) (dp_day date) (months_of amount unit) of
                None \<Rightarrow> Inl NoReturn
              | Some shifted \<Rightarrow> Inr (num_value (dateToEpochDays (dp_year shifted) (dp_month shifted) (dp_day shifted))))"

definition addIntervalMs :: "eval_value \<Rightarrow> jsnum \<Rightarrow> string \<Rightarrow> value_result" where
  "addIntervalMs epochMs amount unit = (case map_of MS_PER_UNIT unit of
       Some msPerUnit \<Rightarrow> js_plus epochMs (num_value (js_mul amount msPerUnit))
     | None \<Rightarrow>
         if unit \<noteq> ''YEAR'' \<and> unit \<noteq> ''MONTH'' then js_plus epochMs (num_value amount)
         else let parts = epochMsToTimestamp (js_number epochMs)
              in case shiftMonths (dp_year parts) (dp_month parts) (dp_day parts) (months_of amount unit) of
                   None \<Rightarrow> Inl NoReturn
                 | Some shifted \<Rightarrow> Inr (num_value (timestampToEpochMs (dp_year shifted) (dp_month shifted) (dp_day shifted)
                     (tp_hour parts) (tp_minute parts) (tp_second parts) (tp_ms parts))))"

section \<open>The operators\<close>

definition comparison_op :: "(eval_value \<Rightarrow> eval_value \<Rightarrow> bool) \<Rightarrow> binary_op" where
  "comparison_op compare left right =
     Inr (if is_nullish left \<or> is_nullish right then null_value else bool_value (compare (toNum left) (toNum right)))"

definition arithmetic_op :: "(jsnum \<Rightarrow> jsnum \<Rightarrow> jsnum) \<Rightarrow> binary_op" where
  "arithmetic_op fn left right =
     Inr (if is_nullish left \<or> is_nullish right then null_value
          else num_value (numOp left right (\<lambda>a b. fn (js_number a) (js_number b))))"

definition and_op :: binary_op where
  "and_op left right = Inr (
     if left = bool_value False \<or> right = bool_value False then bool_value False
     else if is_nullish left \<or> is_nullish right then null_value
     else bool_value True)"

definition or_op :: binary_op where
  "or_op left right = Inr (
     if left = bool_value True \<or> right = bool_value True then bool_value True
     else if is_nullish left \<or> is_nullish right then null_value
     else bool_value False)"

text \<open>\<open>+\<close> and \<open>-\<close>, with the interval addition of dates or of timestamps.\<close>

definition plus_op :: "(eval_value \<Rightarrow> jsnum \<Rightarrow> string \<Rightarrow> value_result) \<Rightarrow> binary_op" where
  "plus_op add left right =
     (if is_nullish left \<or> is_nullish right then Inr null_value
      else case right of
          Interval n u \<Rightarrow> add (toNum left) n u
        | _ \<Rightarrow> (case left of
              Interval n u \<Rightarrow> add (toNum right) n u
            | _ \<Rightarrow> numOp left right js_plus))"

definition minus_op :: "(eval_value \<Rightarrow> jsnum \<Rightarrow> string \<Rightarrow> value_result) \<Rightarrow> binary_op" where
  "minus_op add left right =
     (if is_nullish left \<or> is_nullish right then Inr null_value
      else case right of
          Interval n u \<Rightarrow> add (toNum left) (js_neg n) u
        | _ \<Rightarrow> numOp left right js_minus)"

definition divide_op :: binary_op where
  "divide_op left right =
     Inr (if is_nullish left \<or> is_nullish right then null_value
          else if js_same (toNum right) (num_value (Fin 0)) then null_value
          else num_value (numOp left right (\<lambda>a b. js_div (js_number a) (js_number b))))"

definition concat_op :: binary_op where
  "concat_op left right =
     Inr (if is_nullish left \<or> is_nullish right then null_value else text_value (js_text left @ js_text right))"

definition BINARY_VALUE_OPS :: "(string \<times> binary_op) list" where
  "BINARY_VALUE_OPS =
     [(''='', comparison_op js_same),
      (''<>'', comparison_op (\<lambda>a b. \<not> js_same a b)),
      (''<'', comparison_op js_less),
      (''>'', comparison_op js_greater),
      (''<='', comparison_op js_at_most),
      (''>='', comparison_op js_at_least),
      (''AND'', and_op),
      (''OR'', or_op),
      (''+'', plus_op addInterval),
      (''-'', minus_op addInterval),
      (''+ts'', plus_op addIntervalMs),
      (''-ts'', minus_op addIntervalMs),
      (''*'', arithmetic_op js_mul),
      (''%'', arithmetic_op js_mod),
      (''/'', divide_op),
      (''||'', concat_op)]"

definition negate_op :: unary_op where
  "negate_op v =
     Inr (if is_nullish v then null_value
          else case v of Val (VBig i) \<Rightarrow> Val (VBig (- i)) | _ \<Rightarrow> num_value (js_neg (js_number v)))"

definition not_op :: unary_op where
  "not_op v = Inr (if is_nullish v then null_value else bool_value (\<not> js_truthy v))"

definition UNARY_VALUE_OPS :: "(string \<times> unary_op) list" where
  "UNARY_VALUE_OPS = [(''-'', negate_op), (''NOT'', not_op)]"

definition binaryValueOp :: "string \<Rightarrow> bool \<Rightarrow> binary_op option" where
  "binaryValueOp op timestampOperand =
     (if timestampOperand \<and> (op = ''+'' \<or> op = ''-'') then map_of BINARY_VALUE_OPS (op @ ''ts'')
      else map_of BINARY_VALUE_OPS op)"

definition unaryValueOp :: "string \<Rightarrow> unary_op option" where
  "unaryValueOp op = map_of UNARY_VALUE_OPS op"

lemma binaryValueOp_simps [simp]:
  "binaryValueOp ''='' ts = Some (comparison_op js_same)"
  "binaryValueOp ''<>'' ts = Some (comparison_op (\<lambda>a b. \<not> js_same a b))"
  "binaryValueOp ''<'' ts = Some (comparison_op js_less)"
  "binaryValueOp ''>'' ts = Some (comparison_op js_greater)"
  "binaryValueOp ''<='' ts = Some (comparison_op js_at_most)"
  "binaryValueOp ''>='' ts = Some (comparison_op js_at_least)"
  "binaryValueOp ''AND'' ts = Some and_op"
  "binaryValueOp ''OR'' ts = Some or_op"
  "binaryValueOp ''*'' ts = Some (arithmetic_op js_mul)"
  "binaryValueOp ''%'' ts = Some (arithmetic_op js_mod)"
  "binaryValueOp ''/'' ts = Some divide_op"
  "binaryValueOp ''||'' ts = Some concat_op"
  "binaryValueOp ''+'' False = Some (plus_op addInterval)"
  "binaryValueOp ''-'' False = Some (minus_op addInterval)"
  "binaryValueOp ''+'' True = Some (plus_op addIntervalMs)"
  "binaryValueOp ''-'' True = Some (minus_op addIntervalMs)"
  by (simp_all add: binaryValueOp_def BINARY_VALUE_OPS_def)

lemma unaryValueOp_simps [simp]:
  "unaryValueOp ''-'' = Some negate_op" "unaryValueOp ''NOT'' = Some not_op"
  by (simp_all add: unaryValueOp_def UNARY_VALUE_OPS_def)

section \<open>The month loops\<close>

definition loop_range :: "int \<Rightarrow> int \<Rightarrow> bool" where
  "loop_range s y \<longleftrightarrow> \<bar>s\<bar> + \<bar>y\<bar> \<le> 2 ^ 52"

lemma loop_range_steps:
  "loop_range s y \<Longrightarrow> 12 < s \<Longrightarrow> loop_range (s - 12) (y + 1)"
  "loop_range s y \<Longrightarrow> s < 1 \<Longrightarrow> loop_range (s + 12) (y - 1) \<or> - 12 < s"
  by (auto simp: loop_range_def)

lemma month_step:
  assumes "\<bar>s\<bar> + \<bar>y\<bar> \<le> 2 ^ 52"
  shows "js_sub (Fin (of_int s)) (Fin 12) = Fin (of_int (s - 12))" "js_add (Fin (of_int s)) (Fin 12) = Fin (of_int (s + 12))"
    "js_add (Fin (of_int y)) (Fin 1) = Fin (of_int (y + 1))" "js_sub (Fin (of_int y)) (Fin 1) = Fin (of_int (y - 1))"
  unfolding fin_numeral using assms by (intro int_ops; simp)+

lemma months_down_int:
  "loop_range s y \<Longrightarrow> \<exists>j\<ge>0. months_down (Fin (of_int s)) (Fin (of_int y)) = Some (Fin (of_int (s - 12 * j)), Fin (of_int (y + j)))
     \<and> s - 12 * j \<le> 12 \<and> (j = 0 \<or> 1 \<le> s - 12 * j)"
proof (induction "nat s" arbitrary: s y rule: less_induct)
  case less
  show ?case
  proof (cases "s \<le> 12")
    case True
    then have "\<not> js_lt (Fin 12) (Fin (of_int s))" by simp
    then have "months_down (Fin (of_int s)) (Fin (of_int y)) = Some (Fin (of_int s), Fin (of_int y))"
      by (subst months_down.simps) simp
    then show ?thesis using True by (intro exI [of _ 0]) simp
  next
    case False
    then have "loop_range (s - 12) (y + 1)" "nat (s - 12) < nat s" using less.prems by (simp_all add: loop_range_steps)
    then obtain j where j: "0 \<le> j" "months_down (Fin (of_int (s - 12))) (Fin (of_int (y + 1)))
          = Some (Fin (of_int (s - 12 - 12 * j)), Fin (of_int (y + 1 + j)))"
      "s - 12 - 12 * j \<le> 12" "j = 0 \<or> 1 \<le> s - 12 - 12 * j"
      using less.hyps [of "s - 12" "y + 1"] by blast
    have "months_down (Fin (of_int s)) (Fin (of_int y)) = months_down (Fin (of_int (s - 12))) (Fin (of_int (y + 1)))"
      using False month_step [OF less.prems [unfolded loop_range_def]]
      by (subst months_down.simps) (simp del: of_int_diff of_int_add)
    moreover have "s - 12 - 12 * j = s - 12 * (j + 1)" "y + 1 + j = y + (j + 1)" by simp_all
    ultimately have "months_down (Fin (of_int s)) (Fin (of_int y))
        = Some (Fin (of_int (s - 12 * (j + 1))), Fin (of_int (y + (j + 1))))"
      using j(2) by (simp only:)
    then show ?thesis
      using j(1,3,4) False by (intro exI [of _ "j + 1"]) (auto simp del: of_int_diff of_int_add)
  qed
qed

lemma months_up_int:
  "loop_range s y \<Longrightarrow> s \<le> 12 \<Longrightarrow>
   \<exists>j\<ge>0. months_up (Fin (of_int s)) (Fin (of_int y)) = Some (Fin (of_int (s + 12 * j)), Fin (of_int (y - j)))
     \<and> 1 \<le> s + 12 * j \<and> s + 12 * j \<le> 12 \<and> (j = 0 \<or> s < 1)"
proof (induction "nat (1 - s)" arbitrary: s y rule: less_induct)
  case less
  show ?case
  proof (cases "1 \<le> s")
    case True
    then have "\<not> js_lt (Fin (of_int s)) (Fin 1)" by simp
    then have "months_up (Fin (of_int s)) (Fin (of_int y)) = Some (Fin (of_int s), Fin (of_int y))"
      by (subst months_up.simps) simp
    then show ?thesis using True less.prems by (intro exI [of _ 0]) simp
  next
    case False
    have step: "months_up (Fin (of_int s)) (Fin (of_int y)) = months_up (Fin (of_int (s + 12))) (Fin (of_int (y - 1)))"
      using False month_step [OF less.prems(1) [unfolded loop_range_def]]
      by (subst months_up.simps) (simp del: of_int_diff of_int_add)
    show ?thesis
    proof (cases "- 12 < s")
      case True
      have "months_up (Fin (of_int (s + 12))) (Fin (of_int (y - 1))) = Some (Fin (of_int (s + 12)), Fin (of_int (y - 1)))"
        using True by (subst months_up.simps) (simp flip: of_int_less_iff)
      then show ?thesis
        unfolding step using True False by (intro exI [of _ 1]) (simp del: of_int_diff of_int_add)
    next
      case far: False
      then have "loop_range (s + 12) (y - 1)" "nat (1 - (s + 12)) < nat (1 - s)" "s + 12 \<le> 12"
        using loop_range_steps(2) [OF less.prems(1)] False by auto
      then obtain j where j: "0 \<le> j" "months_up (Fin (of_int (s + 12))) (Fin (of_int (y - 1)))
            = Some (Fin (of_int (s + 12 + 12 * j)), Fin (of_int (y - 1 - j)))"
        "1 \<le> s + 12 + 12 * j" "s + 12 + 12 * j \<le> 12"
        using less.hyps [of "s + 12" "y - 1"] by blast
      moreover have "s + 12 + 12 * j = s + 12 * (j + 1)" "y - 1 - j = y - (j + 1)" by simp_all
      ultimately have "months_up (Fin (of_int s)) (Fin (of_int y))
          = Some (Fin (of_int (s + 12 * (j + 1))), Fin (of_int (y - (j + 1))))"
        unfolding step by (simp only:)
      then show ?thesis
        using j False by (intro exI [of _ "j + 1"]) (auto simp del: of_int_diff of_int_add)
    qed
  qed
qed

lemma make_day_zero:
  assumes "1 \<le> m" "m \<le> 12"
  shows "make_day y m 0 = make_day y (m - 1) (month_length (leap_year y) (nat (m - 1)))"
proof (cases "m = 12")
  case True
  then show ?thesis
    using year_length [of y] by (simp add: make_day_def month_length_def month_starts_def)
next
  case False
  define k where "k = nat (m - 1)"
  have m: "m = int k + 1" "k \<le> 10" using assms False by (auto simp: k_def)
  have "int k div 12 = 0" "int k mod 12 = int k" "(int k + 1) div 12 = 0" "(int k + 1) mod 12 = int (Suc k)"
    using m(2) by simp_all
  then show ?thesis by (simp add: m(1) make_day_def month_length_def nat_add_distrib)
qed

lemma daysInMonth_int:
  assumes "1 \<le> m" "m \<le> 12"
  shows "daysInMonth (Fin (of_int y)) (Fin (of_int m))
    = Fin (of_int (month_length (leap_year (full_year y)) (nat (m - 1))))"
proof -
  let ?y = "full_year y"
  let ?d = "month_length (leap_year ?y) (nat (m - 1))"
  have "m \<in> {1, 2, 3, 4, 5, 6, 7, 8, 9, 10, 11, 12}" using assms unfolding insert_iff empty_iff by presburger
  then have "1 \<le> ?d" by (auto simp: month_length_def month_starts_def)
  then have "valid_date ?y m ?d" using assms by (simp add: valid_date_def)
  then show ?thesis
    using civil_make_day [of ?y m ?d] make_day_zero [OF assms, of ?y] by (simp add: daysInMonth_def date_arg_def)
qed

text \<open>The month reached from month \<open>m\<close> of year \<open>y\<close> by a number of months.\<close>

definition shifted_year :: "int \<Rightarrow> int \<Rightarrow> int \<Rightarrow> int" where
  "shifted_year y m months = (12 * y + (m - 1) + months) div 12"

definition shifted_month :: "int \<Rightarrow> int \<Rightarrow> int \<Rightarrow> int" where
  "shifted_month y m months = (12 * y + (m - 1) + months) mod 12 + 1"

lemma shiftMonths_int:
  assumes "1 \<le> m" "m \<le> 12" "\<bar>y\<bar> \<le> 2 ^ 50" "\<bar>k\<bar> \<le> 2 ^ 50"
  defines "y' \<equiv> shifted_year y m k" and "m' \<equiv> shifted_month y m k"
  shows "shiftMonths (Fin (of_int y)) (Fin (of_int m)) (Fin (of_int d)) (Fin (of_int k))
    = Some \<lparr>dp_year = Fin (of_int y'), dp_month = Fin (of_int m'),
        dp_day = Fin (of_int (min d (month_length (leap_year (full_year y')) (nat (m' - 1)))))\<rparr>"
proof -
  have add: "js_add (Fin (of_int m)) (Fin (of_int k)) = Fin (of_int (m + k))"
    using assms(1-4) by (intro int_ops(1)) simp
  have range: "loop_range (m + k) y" using assms(1-4) by (simp add: loop_range_def)
  obtain i where i: "0 \<le> i" "months_down (Fin (of_int (m + k))) (Fin (of_int y))
      = Some (Fin (of_int (m + k - 12 * i)), Fin (of_int (y + i)))"
    "m + k - 12 * i \<le> 12" "i = 0 \<or> 1 \<le> m + k - 12 * i"
    using months_down_int [OF range] by blast
  have "loop_range (m + k - 12 * i) (y + i)" using range i assms(1-4) by (auto simp: loop_range_def)
  then obtain j where j: "0 \<le> j" "months_up (Fin (of_int (m + k - 12 * i))) (Fin (of_int (y + i)))
      = Some (Fin (of_int (m + k - 12 * i + 12 * j)), Fin (of_int (y + i - j)))"
    "1 \<le> m + k - 12 * i + 12 * j" "m + k - 12 * i + 12 * j \<le> 12"
    using months_up_int [of "m + k - 12 * i" "y + i"] i(3) by blast
  define m2 y2 where "m2 = m + k - 12 * i + 12 * j" and "y2 = y + i - j"
  have e: "12 * y + (m - 1) + k = 12 * y2 + (m2 - 1)" by (simp add: m2_def y2_def)
  have "(12 * y2 + (m2 - 1)) div 12 = y2" "(12 * y2 + (m2 - 1)) mod 12 = m2 - 1"
    using j(3,4) unfolding m2_def [symmetric] by presburger+
  then have "y' = y2" "m' = m2" unfolding y'_def m'_def shifted_year_def shifted_month_def e by simp_all
  moreover have "js_min (Fin (of_int a)) (Fin (of_int b)) = Fin (of_int (min a b))" for a b
    by (simp add: js_min_def min_def)
  ultimately show ?thesis
    using daysInMonth_int [of m2 y2] j(3,4) unfolding shiftMonths_def add i(2)
    by (simp add: j(2) flip: m2_def y2_def del: of_int_add of_int_diff)
qed

text \<open>Rounding a number that is near the grid.\<close>

lemma rnd_near:
  assumes "pow2 e \<le> q" "q < pow2 (e + 1)" "- 1022 \<le> e" "e < 1023" "\<bar>q / pow2 (e - 52) - of_int k\<bar> < 1 / 2"
  shows "rnd q = Fin (of_int k * pow2 (e - 52))"
proof -
  have "0 < q" using assms(1) pow2_pos [of e] by linarith
  moreover have "ilog2 q = e" using assms(1,2) by (rule ilog2_unique)
  ultimately have u: "ulp_exp q = e - 52" using assms(3) by (simp add: ulp_exp_def)
  have "rhe (q / pow2 (e - 52)) = k" using assms(5) by (intro rhe_unique) linarith+
  then have g: "grid q = of_int k * pow2 (e - 52)" using \<open>0 < q\<close> u by (simp add: grid_def)
  have "q / pow2 (e - 52) < pow2 53"
    using assms(2) pow2_add [of 53 "e - 52"] by (simp add: divide_less_eq add.commute)
  moreover have "0 < q / pow2 (e - 52)" using \<open>0 < q\<close> by simp
  moreover have "pow2 53 + 1 \<le> pow2 54" by (simp add: pow2_def)
  ultimately have k: "of_int k < pow2 54" "- 1 < (of_int k :: rat)" using assms(5) by linarith+
  have "of_int k * pow2 (e - 52) < pow2 54 * pow2 (e - 52)" using k(1) by (simp add: mult_strict_right_mono)
  also have "\<dots> \<le> pow2 1024" using assms(4) pow2_add [of 54 "e - 52"] pow2_le_iff [of "e + 2" 1024] by (simp add: add.commute del: pow2_le_iff)
  finally have "of_int k * pow2 (e - 52) < pow2 1024" .
  moreover have "0 \<le> (of_int k :: rat)" using k(2) by (metis of_int_0_le_iff of_int_less_iff of_int_minus of_int_1 zless_imp_add1_zle add.left_inverse)
  then have "- pow2 1024 < of_int k * pow2 (e - 52)" using pow2_pos [of 1024] by (meson mult_nonneg_nonneg neg_less_0_iff_less order_less_le_trans pow2_nonneg)
  ultimately show ?thesis unfolding rnd_def g Let_def by simp
qed

text \<open>A huge number of months does not change when twelve are taken away.\<close>

lemma months_down_stuck: "months_down (Fin (2 ^ 80)) y = None"
proof -
  have stuck: "js_sub (Fin (2 ^ 80)) (Fin 12) = Fin (2 ^ 80)"
    using rnd_near [of 79 "2 ^ 80 - 12" "2 ^ 53"] by (simp add: js_sub_def pow2_def)
  have "js_lt (Fin 12) (Fin (2 ^ 80))" by simp
  then have step: "months_down (Fin (2 ^ 80)) y = months_down (Fin (2 ^ 80)) (js_add y (Fin 1))" for y
    by (subst months_down.simps) (simp only: stuck if_True)
  have "s \<noteq> Fin (2 ^ 80)" if "months_down s y = Some r" for s y r
    by (rule months_down.raw_induct [of "\<lambda>s y r. s \<noteq> Fin (2 ^ 80)", OF _ that])
      (use stuck in \<open>auto split: if_splits\<close>)
  then show ?thesis by (cases "months_down (Fin (2 ^ 80)) y") auto
qed

section \<open>Adding months to a date\<close>

text \<open>The day a number of months after the day \<open>n\<close>: the same day of the month, or its last day.\<close>

definition months_later :: "int \<Rightarrow> int \<Rightarrow> int \<times> int \<times> int" where
  "months_later n k =
     (let (y, m, d) = civil n; y' = shifted_year y m k; m' = shifted_month y m k
      in (y', m', min d (month_length (leap_year y') (nat (m' - 1)))))"

lemma addInterval_months_later:
  assumes n: "\<bar>n\<bar> \<le> 10 ^ 8" and k: "\<bar>k\<bar> \<le> 2 ^ 50"
    and later: "months_later n k = (y', m', d')" and year: "y' < 0 \<or> 99 < y'"
    and result: "\<bar>make_day y' (m' - 1) d'\<bar> \<le> 10 ^ 8"
  shows "addInterval (num_value (Fin (of_int n))) (Fin (of_int k)) ''MONTH''
    = Inr (num_value (Fin (of_int (make_day y' (m' - 1) d'))))" "civil (make_day y' (m' - 1) d') = (y', m', d')"
proof -
  obtain y m d where c: "civil n = (y, m, d)" by (metis prod_cases3)
  then have v: "valid_date y m d" "make_day y (m - 1) d = n" using make_day_civil by blast+
  have y: "\<bar>y\<bar> \<le> 2 ^ 50"
  proof -
    have "y = year_of_day n" using c by (auto simp: civil_def Let_def)
    then have "days_before_year y \<le> n" "n < days_before_year (y + 1)" using year_of_day_bounds [of n] by simp_all
    then show ?thesis using days_before_bounds(1) [of y] days_before_bounds(2) [of "y + 1"] n by simp
  qed
  have e: "y' = shifted_year y m k" "m' = shifted_month y m k"
    "d' = min d (month_length (leap_year y') (nat (m' - 1)))"
    using later c by (auto simp: months_later_def Let_def)
  have m': "1 \<le> m'" "m' \<le> 12" unfolding e(2) shifted_month_def by simp_all
  have "m' \<in> {1, 2, 3, 4, 5, 6, 7, 8, 9, 10, 11, 12}" using m' unfolding insert_iff empty_iff by presburger
  then have "1 \<le> month_length (leap_year y') (nat (m' - 1))" by (auto simp: month_length_def month_starts_def)
  then have valid: "valid_date y' m' d'" using v(1) m' by (simp add: valid_date_def e(3))
  show "civil (make_day y' (m' - 1) d') = (y', m', d')" by (rule civil_make_day [OF valid])
  have full: "full_year y' = y'" using year by (auto simp: full_year_def)
  have "shiftMonths (Fin (of_int y)) (Fin (of_int m)) (Fin (of_int d)) (Fin (of_int k))
      = Some \<lparr>dp_year = Fin (of_int y'), dp_month = Fin (of_int m'), dp_day = Fin (of_int d')\<rparr>"
    using shiftMonths_int [of m y k d] v(1) y k by (simp add: valid_date_def full e(3) flip: e(1,2))
  then show "addInterval (num_value (Fin (of_int n))) (Fin (of_int k)) ''MONTH''
    = Inr (num_value (Fin (of_int (make_day y' (m' - 1) d'))))"
    using date_utc_days [of y' m' d'] epochDaysToDate_int [OF n c] result m'
    by (simp add: addInterval_def months_of_def full)
qed

lemma addInterval_stuck:
  assumes "epochDaysToDate (Fin q) = \<lparr>dp_year = y, dp_month = Fin 1, dp_day = d\<rparr>"
  shows "addInterval (num_value (Fin q)) (Fin (2 ^ 80)) ''MONTH'' = Inl NoReturn"
proof -
  have "js_add (Fin 1) (Fin (2 ^ 80)) = Fin (2 ^ 80)"
    using rnd_near [of 80 "1 + 2 ^ 80" "2 ^ 52"] by (simp add: pow2_def)
  then show ?thesis
    using months_down_stuck [of y] by (simp add: addInterval_def months_of_def assms shiftMonths_def)
qed

end
