(* ===== verification/ValueSpec.thy ===== *)
theory ValueSpec
  imports ValueOps
begin

text \<open>
  What the conversions of values, dates and intervals promise: the model of the scalar part of
  \<open>storage/data-type.ts\<close> and \<open>execution/value-ops.ts\<close>.
\<close>





text \<open>
  C30: An interval of too many months makes the evaluation hang. At \<open>2 ^ 80\<close> months the loop that takes
  twelve away leaves the number unchanged, so adding such an interval to a date never returns.
\<close>

theorem huge_interval_hangs:
  "plus_op addInterval (num_value (Fin 0)) (Interval (Fin (2 ^ 80)) ''MONTH'') = Inl NoReturn"
proof -
  have "civil 0 = (1970, 1, 1)" by code_simp
  then have "epochDaysToDate (Fin 0) = \<lparr>dp_year = Fin 1970, dp_month = Fin 1, dp_day = Fin 1\<rparr>"
    using epochDaysToDate_int [of 0 1970 1 1] by simp
  then have "addInterval (num_value (Fin 0)) (Fin (2 ^ 80)) ''MONTH'' = Inl NoReturn" by (rule addInterval_stuck)
  then show ?thesis by (simp only: plus_op_def is_nullish_def toNum_def) simp
qed

text \<open>
  C31: A date in the first century of the calendar is stored as one of the twentieth, because \<open>Date.UTC\<close>
  reads the years 0 to 99 as 1900 to 1999: the day number of such a date is that of the year 1900 later.
\<close>

theorem early_year_misread:
  assumes "0 \<le> y" "y \<le> 99"
  shows "dateToEpochDays (Fin (of_int y)) month day = dateToEpochDays (Fin (of_int (1900 + y))) month day"
proof -
  have "full_year y = full_year (1900 + y)" using assms by (simp add: full_year_def)
  moreover have "date_arg (Fin (of_int i)) = Some i" for i by (simp add: date_arg_def)
  ultimately show ?thesis by (simp only: dateToEpochDays_def date_utc_def list.map list.case option.case)
qed

lemma early_year_misread_witness: "dateToEpochDays (Fin 50) (Fin 1) (Fin 1) = dateToEpochDays (Fin 1950) (Fin 1) (Fin 1)"
  using early_year_misread [of 50] by simp






end
