(* ===== verification/BoundExpr.thy ===== *)
theory BoundExpr
  imports JsOps Ast
begin

text \<open>
  Bound expressions: the node types of \<open>binder/expression-binder.ts\<close>, their traversal and rebuilding, the
  conjuncts of \<open>binder/conjuncts.ts\<close>, and the queries of \<open>optimizer/expr-walk.ts\<close>. The result type of a
  predicate node (BETWEEN, IN, LIKE, IS NULL, EXISTS, quantified) is always BOOLEAN and that of EXTRACT and
  INTERVAL always INT32, so those fields are left out. The plan of a subquery is a reference: no function
  here looks inside it.
\<close>

section \<open>Nodes\<close>

type_synonym bound_query = nat

record bound_column =
  tableAlias :: string
  columnName :: string
  columnIndex :: int
  column_dataType :: "data_type option"
  depth :: nat
  isCorrelated :: bool

datatype frame_bound_type = UnboundedPreceding | Preceding | CurrentRow | Following | UnboundedFollowing

record bound_frame_bound =
  bound_type :: frame_bound_type
  bound_offset :: "jsnum option"

record bound_window_frame =
  bf_mode :: frame_mode
  bf_start :: bound_frame_bound
  bf_end :: bound_frame_bound

datatype quantifier = AnyOf | AllOf

datatype 'e bound_when = BoundWhen (bw_condition: 'e) (bw_result: 'e)

datatype 'e bound_order_key = BoundKey (bk_expr: 'e) (bk_direction: "string option") (bk_nullOrder: "string option")

text \<open>\<open>BoundExpr | BoundExpr[]\<close>.\<close>

datatype 'e bound_list = OneExpr 'e | ExprList "'e list"

datatype bexpr =
    BoundColumnRef bound_column
  | BoundLiteral column_value "data_type option"
  | BoundBinary string bexpr bexpr data_type
  | BoundUnary string bexpr "data_type option"
  | BoundFunction string "bexpr list" "data_type option"
  | BoundAggregate string "bexpr list" bool data_type
  | BoundCase "bexpr bound_when list" "bexpr option" data_type
  | BoundCast bexpr data_type
  | BoundBetween bexpr bexpr bexpr bool
  | BoundInList bexpr "bexpr bound_list" bool
  | BoundLike bexpr bexpr bool
  | BoundIsNull bexpr bool
  | BoundSubquery bound_query string
  | BoundExists bound_query bool
  | BoundExtract string bexpr
  | BoundInterval jsnum string
  | BoundWindow string "bexpr list" "bexpr list" "bexpr bound_order_key list" "bound_window_frame option" "data_type option"
  | BoundQuantified string quantifier bexpr bound_query

definition mk_column :: "string \<Rightarrow> string \<Rightarrow> int \<Rightarrow> data_type option \<Rightarrow> nat \<Rightarrow> bexpr" where
  "mk_column alias name index t d =
     BoundColumnRef \<lparr>tableAlias = alias, columnName = name, columnIndex = index, column_dataType = t,
       depth = d, isCorrelated = 0 < d\<rparr>"

fun getExprType :: "bexpr \<Rightarrow> data_type option" where
  "getExprType (BoundColumnRef c) = column_dataType c"
| "getExprType (BoundLiteral v t) = t"
| "getExprType (BoundBinary op l r t) = Some t"
| "getExprType (BoundUnary op e t) = t"
| "getExprType (BoundFunction f es t) = t"
| "getExprType (BoundAggregate f es d t) = Some t"
| "getExprType (BoundCase ws el t) = Some t"
| "getExprType (BoundCast e t) = Some t"
| "getExprType (BoundBetween e lo hi n) = Some BOOLEAN"
| "getExprType (BoundInList e es n) = Some BOOLEAN"
| "getExprType (BoundLike e p n) = Some BOOLEAN"
| "getExprType (BoundIsNull e n) = Some BOOLEAN"
| "getExprType (BoundSubquery q s) = None"
| "getExprType (BoundExists q n) = Some BOOLEAN"
| "getExprType (BoundExtract f e) = Some INT32"
| "getExprType (BoundInterval v u) = Some INT32"
| "getExprType (BoundWindow f es ps os fr t) = t"
| "getExprType (BoundQuantified op k e q) = Some BOOLEAN"

text \<open>Each message is an exception of the source.\<close>

definition validateWindowFrame :: "bound_window_frame option \<Rightarrow> nat \<Rightarrow> string + unit" where
  "validateWindowFrame frame orderByCount = (case frame of
       None \<Rightarrow> Inr ()
     | Some f \<Rightarrow>
         if bound_type (bf_start f) = UnboundedFollowing
           then Inl ''Window frame start bound cannot be UNBOUNDED FOLLOWING''
         else if bound_type (bf_end f) = UnboundedPreceding
           then Inl ''Window frame end bound cannot be UNBOUNDED PRECEDING''
         else if bf_mode f = GROUPS \<and> orderByCount = 0
           then Inl ''GROUPS window frames require an ORDER BY clause''
         else let hasOffset = bound_offset (bf_start f) \<noteq> None \<or> bound_offset (bf_end f) \<noteq> None
           in if \<not> hasOffset \<or> bf_mode f = ROWS then Inr ()
              else if orderByCount = 0
                then Inl ((if bf_mode f = RANGE then ''RANGE'' else ''GROUPS'')
                  @ '' window frames with offsets require an ORDER BY clause'')
              else if bf_mode f = RANGE \<and> orderByCount \<noteq> 1
                then Inl ''RANGE window frames with offsets require exactly one ORDER BY column''
              else Inr ())"

section \<open>Traversal\<close>

text \<open>The parts \<open>walkExpr\<close> descends into, in its order.\<close>

fun list_items :: "'e bound_list \<Rightarrow> 'e list" where
  "list_items (OneExpr e) = []"
| "list_items (ExprList es) = es"

fun walk_parts :: "bexpr \<Rightarrow> bexpr list" where
  "walk_parts (BoundBinary op l r t) = [l, r]"
| "walk_parts (BoundUnary op e t) = [e]"
| "walk_parts (BoundFunction f es t) = es"
| "walk_parts (BoundAggregate f es d t) = es"
| "walk_parts (BoundCase ws el t) =
     concat (map (\<lambda>w. [bw_condition w, bw_result w]) ws) @ (case el of None \<Rightarrow> [] | Some e \<Rightarrow> [e])"
| "walk_parts (BoundCast e t) = [e]"
| "walk_parts (BoundBetween e lo hi n) = [e, lo, hi]"
| "walk_parts (BoundInList e es n) = e # list_items es"
| "walk_parts (BoundLike e p n) = [e, p]"
| "walk_parts (BoundIsNull e n) = [e]"
| "walk_parts (BoundExtract f e) = [e]"
| "walk_parts (BoundWindow f es ps os fr t) = es @ ps @ map bk_expr os"
| "walk_parts (BoundQuantified op k e q) = [e]"
| "walk_parts _ = []"

lemma size_in_list: "x \<in> set xs \<Longrightarrow> f x \<le> size_list f xs"
  by (induction xs) auto

lemma size_whens [termination_simp]:
  "w \<in> set ws \<Longrightarrow> f (bw_condition w) < Suc (size_list (size_bound_when f) ws + n)"
  "w \<in> set ws \<Longrightarrow> f (bw_result w) < Suc (size_list (size_bound_when f) ws + n)"
  using size_in_list [of w ws "size_bound_when f"] by (cases w; simp)+

lemma size_keys [termination_simp]:
  "k \<in> set ks \<Longrightarrow> f (bk_expr k) < Suc (n + size_list (size_bound_order_key f) ks)"
  using size_in_list [of k ks "size_bound_order_key f"] by (cases k) simp

lemma walk_parts_size [termination_simp]: "e' \<in> set (walk_parts e) \<Longrightarrow> size e' < size e"
proof (induction e rule: walk_parts.induct)
  case (3 f es t)
  then show ?case using size_in_list [of e' es size] by simp
next
  case (4 f es d t)
  then show ?case using size_in_list [of e' es size] by simp
next
  case (5 ws el t)
  then show ?case
    using size_whens [of _ ws size "size_option size el"] by (auto split: option.splits simp: less_SucI less_Suc_eq_le trans_le_add1)
next
  case (8 e es n)
  then show ?case using size_in_list [of e' "list_items es" size] by (cases es) auto
next
  case (12 f es ps os fr t)
  then show ?case
    using size_in_list [of e' es size] size_in_list [of e' ps size] size_keys [of _ os size "size_list size es + size_list size ps"]
    by fastforce
qed auto

text \<open>The visitor carries a state and says whether to descend.\<close>

fun walkExpr :: "(bexpr \<Rightarrow> 's \<Rightarrow> bool \<times> 's) \<Rightarrow> bexpr \<Rightarrow> 's \<Rightarrow> 's" where
  "walkExpr visit e s =
     (case visit e s of (descend, s') \<Rightarrow> if descend then fold (walkExpr visit) (walk_parts e) s' else s')"

declare walkExpr.simps [simp del]

definition collectCorrelatedColumns :: "bexpr \<Rightarrow> bound_column list" where
  "collectCorrelatedColumns expr = walkExpr (\<lambda>node refs. (True,
     case node of BoundColumnRef c \<Rightarrow> if isCorrelated c then refs @ [c] else refs | _ \<Rightarrow> refs)) expr []"

definition is_aggregate :: "bexpr \<Rightarrow> bool" where
  "is_aggregate e = (case e of BoundAggregate _ _ _ _ \<Rightarrow> True | _ \<Rightarrow> False)"

definition containsAggregate :: "bexpr option \<Rightarrow> bool" where
  "containsAggregate expr = (case expr of None \<Rightarrow> False
     | Some e \<Rightarrow> walkExpr (\<lambda>node found. (True, if is_aggregate node then True else found)) e False)"

definition collectTableRefs :: "bexpr option \<Rightarrow> string set" where
  "collectTableRefs expr = (case expr of None \<Rightarrow> {}
     | Some e \<Rightarrow> walkExpr (\<lambda>node refs. (True, case node of
          BoundColumnRef c \<Rightarrow> if tableAlias c \<noteq> [] then insert (toUpperCase (tableAlias c)) refs else refs
        | _ \<Rightarrow> refs)) e {})"

text \<open>All the nodes of an expression, in the order of the walk.\<close>

fun nodes :: "bexpr \<Rightarrow> bexpr list" where
  "nodes e = e # concat (map nodes (walk_parts e))"

declare nodes.simps [simp del]

section \<open>Rebuilding\<close>

fun map_list :: "('e \<Rightarrow> 'e) \<Rightarrow> 'e bound_list \<Rightarrow> 'e bound_list" where
  "map_list f (OneExpr e) = OneExpr (f e)"
| "map_list f (ExprList es) = ExprList (map f es)"

lemma map_list_cong [fundef_cong]:
  "es = fs \<Longrightarrow> (\<And>e. e \<in> set_bound_list fs \<Longrightarrow> f e = g e) \<Longrightarrow> map_list f es = map_list g fs"
  by (cases fs) auto

lemma size_bound_list_item [termination_simp]:
  "e \<in> set_bound_list es \<Longrightarrow> f e < Suc (n + size_bound_list f es)"
  "e \<in> set_bound_list es \<Longrightarrow> f e < Suc (size_bound_list f es + n)"
  using size_in_list [of e "list_items es" f] by (cases es; auto)+

text \<open>
  \<open>mapExpr\<close> asks the mapper first and otherwise rebuilds the node from its mapped parts; handing back the
  same object when nothing changed is not visible in the value.
\<close>

fun mapExpr :: "(bexpr \<Rightarrow> bexpr option) \<Rightarrow> bexpr \<Rightarrow> bexpr" and rebuild :: "(bexpr \<Rightarrow> bexpr option) \<Rightarrow> bexpr \<Rightarrow> bexpr"
where
  "mapExpr f e = (case f e of Some e' \<Rightarrow> e' | None \<Rightarrow> rebuild f e)"
| "rebuild f (BoundBinary op l r t) = BoundBinary op (mapExpr f l) (mapExpr f r) t"
| "rebuild f (BoundUnary op e t) = BoundUnary op (mapExpr f e) t"
| "rebuild f (BoundFunction g es t) = BoundFunction g (map (mapExpr f) es) t"
| "rebuild f (BoundAggregate g es d t) = BoundAggregate g (map (mapExpr f) es) d t"
| "rebuild f (BoundCase ws el t) =
     BoundCase (map (\<lambda>w. BoundWhen (mapExpr f (bw_condition w)) (mapExpr f (bw_result w))) ws)
       (case el of None \<Rightarrow> None | Some e \<Rightarrow> Some (mapExpr f e)) t"
| "rebuild f (BoundCast e t) = BoundCast (mapExpr f e) t"
| "rebuild f (BoundBetween e lo hi n) = BoundBetween (mapExpr f e) (mapExpr f lo) (mapExpr f hi) n"
| "rebuild f (BoundInList e es n) = BoundInList (mapExpr f e) (map_list (mapExpr f) es) n"
| "rebuild f (BoundLike e p n) = BoundLike (mapExpr f e) (mapExpr f p) n"
| "rebuild f (BoundIsNull e n) = BoundIsNull (mapExpr f e) n"
| "rebuild f (BoundExtract fd e) = BoundExtract fd (mapExpr f e)"
| "rebuild f (BoundWindow g es ps os fr t) =
     BoundWindow g (map (mapExpr f) es) (map (mapExpr f) ps)
       (map (\<lambda>k. BoundKey (mapExpr f (bk_expr k)) (bk_direction k) (bk_nullOrder k)) os) fr t"
| "rebuild f (BoundQuantified op k e q) = BoundQuantified op k (mapExpr f e) q"
| "rebuild f e = e"

declare mapExpr.simps(1) [simp del]

section \<open>Conjuncts\<close>

definition isConjunction :: "bexpr \<Rightarrow> bool" where
  "isConjunction e = (case e of BoundBinary op l r t \<Rightarrow> toUpperCase op = ''AND'' | _ \<Rightarrow> False)"

text \<open>The stack of \<open>splitConjuncts\<close>, its top first: the right side is pushed before the left.\<close>

function (sequential) split_pending :: "bexpr list \<Rightarrow> bexpr list" where
  "split_pending [] = []"
| "split_pending (BoundBinary op l r t # pending) =
     (if toUpperCase op = ''AND'' then split_pending (l # r # pending)
      else BoundBinary op l r t # split_pending pending)"
| "split_pending (e # pending) = e # split_pending pending"
  by pat_completeness auto
termination
  by (relation "measure (\<lambda>es. sum_list (map (\<lambda>e. 2 * size e + 1) es))") simp_all

definition splitConjuncts :: "bexpr option \<Rightarrow> bexpr list" where
  "splitConjuncts expr = (case expr of None \<Rightarrow> [] | Some e \<Rightarrow> split_pending [e])"

definition combineConjuncts :: "bexpr list \<Rightarrow> bexpr option" where
  "combineConjuncts preds = (case preds of
       [] \<Rightarrow> None
     | p # ps \<Rightarrow> Some (foldl (\<lambda>acc pred. BoundBinary ''AND'' acc pred BOOLEAN) p ps))"

lemma toUpperCase_AND [simp]: "toUpperCase ''AND'' = ''AND''"
  by code_simp

section \<open>What traversal and conjuncts do\<close>

lemma walk_all: "walkExpr (\<lambda>n s. (True, f n s)) e s = fold f (nodes e) s"
proof (induction "\<lambda>n s. (True, f n s)" e s rule: walkExpr.induct)
  case (1 e s)
  have "fold (walkExpr (\<lambda>n s. (True, f n s))) es s' = fold f (concat (map nodes es)) s'"
    if "set es \<subseteq> set (walk_parts e)" for es s'
    using that by (induction es arbitrary: s') (simp_all add: 1)
  then show ?case by (subst walkExpr.simps) (simp add: nodes.simps [of e])
qed

lemma fold_flag: "fold (\<lambda>x found. if P x then True else found) xs b = (b \<or> (\<exists>x \<in> set xs. P x))"
  by (induction xs arbitrary: b) auto

lemma containsAggregate_nodes: "containsAggregate (Some e) \<longleftrightarrow> (\<exists>n \<in> set (nodes e). is_aggregate n)"
  by (simp add: containsAggregate_def walk_all fold_flag)

lemma map_list_id: "(\<And>e. e \<in> set_bound_list es \<Longrightarrow> f e = e) \<Longrightarrow> map_list f es = es"
  by (cases es) (auto simp: map_idI)

lemma mapExpr_none: "mapExpr (\<lambda>_. None) e = e" "rebuild (\<lambda>_. None) e = e"
proof (induction "\<lambda>_::bexpr. None :: bexpr option" e and "\<lambda>_::bexpr. None :: bexpr option" e rule: mapExpr_rebuild.induct)
qed (auto simp: mapExpr.simps(1) intro!: map_idI map_list_id split: option.splits)

lemma split_pending_append: "split_pending (es @ fs) = split_pending es @ split_pending fs"
  by (induction es rule: split_pending.induct) auto

lemma split_pending_concat: "split_pending es = concat (map (\<lambda>e. split_pending [e]) es)"
proof (induction es)
  case (Cons e es)
  then show ?case using split_pending_append [of "[e]" es] by simp
qed simp

lemma split_combined:
  "splitConjuncts (combineConjuncts ps) = concat (map (\<lambda>p. splitConjuncts (Some p)) ps)"
proof (cases ps)
  case (Cons p qs)
  have "split_pending [foldl (\<lambda>acc pred. BoundBinary ''AND'' acc pred BOOLEAN) p qs] = split_pending (p # qs)" for p
  proof (induction qs arbitrary: p)
    case (Cons q qs)
    have "split_pending [BoundBinary ''AND'' p q BOOLEAN] = split_pending [p, q]"
      by simp
    then show ?case
      using Cons.IH [of "BoundBinary ''AND'' p q BOOLEAN"] split_pending_append [of "[_]" qs]
        split_pending_append [of "[p, q]" qs] by simp
  qed simp
  then show ?thesis
    using Cons split_pending_concat [of "p # qs"] by (simp add: combineConjuncts_def splitConjuncts_def)
qed (simp add: combineConjuncts_def splitConjuncts_def)

lemma split_no_conjunction: "p \<in> set (split_pending es) \<Longrightarrow> \<not> isConjunction p"
  by (induction es rule: split_pending.induct) (auto simp: isConjunction_def split: if_splits)

end
