(* ===== verification/ExprKey.thy ===== *)
theory ExprKey
  imports BoundExpr
begin

text \<open>
  \<open>binder/expr-key.ts\<close>: the text that identifies an expression, and \<open>execution/column-resolve.ts\<close>: how a
  column reference or a computed expression finds its column in a mapping from keys to positions.
  The numbers that \<open>queryKey\<close> hands out to subquery objects are the argument \<open>ids\<close>.
\<close>

section \<open>Keys\<close>

definition joinComma :: "ustr list \<Rightarrow> ustr" where
  "joinComma ks = (case ks of [] \<Rightarrow> [] | k # ks' \<Rightarrow> k @ concat (map (\<lambda>k. 44 # k) ks'))"

definition bool_text :: "bool \<Rightarrow> ustr" where
  "bool_text b = (if b then ustr_of ''true'' else ustr_of ''false'')"

fun data_type_name :: "data_type \<Rightarrow> string" where
  "data_type_name BOOLEAN = ''BOOLEAN''"
| "data_type_name INT32 = ''INT32''"
| "data_type_name INT64 = ''INT64''"
| "data_type_name FLOAT64 = ''FLOAT64''"
| "data_type_name DECIMAL = ''DECIMAL''"
| "data_type_name VARCHAR = ''VARCHAR''"
| "data_type_name DATE = ''DATE''"
| "data_type_name TIMESTAMP = ''TIMESTAMP''"

fun type_of_value :: "column_value \<Rightarrow> string" where
  "type_of_value VNull = ''object''"
| "type_of_value (VNum x) = ''number''"
| "type_of_value (VBig i) = ''bigint''"
| "type_of_value (VStr s) = ''string''"
| "type_of_value (VBool b) = ''boolean''"

fun bound_type_name :: "frame_bound_type \<Rightarrow> string" where
  "bound_type_name UnboundedPreceding = ''UNBOUNDED_PRECEDING''"
| "bound_type_name Preceding = ''PRECEDING''"
| "bound_type_name CurrentRow = ''CURRENT_ROW''"
| "bound_type_name Following = ''FOLLOWING''"
| "bound_type_name UnboundedFollowing = ''UNBOUNDED_FOLLOWING''"

definition mode_name :: "frame_mode \<Rightarrow> string" where
  "mode_name m = (case m of ROWS \<Rightarrow> ''ROWS'' | RANGE \<Rightarrow> ''RANGE'' | GROUPS \<Rightarrow> ''GROUPS'')"

definition offset_text :: "jsnum option \<Rightarrow> ustr" where
  "offset_text x = (case x of None \<Rightarrow> [] | Some n \<Rightarrow> stringOfNum n)"

definition frameKey :: "bound_window_frame option \<Rightarrow> ustr" where
  "frameKey frame = (case frame of None \<Rightarrow> []
     | Some f \<Rightarrow> ustr_of (mode_name (bf_mode f) @ '':'' @ bound_type_name (bound_type (bf_start f)) @ '':'')
         @ offset_text (bound_offset (bf_start f))
         @ ustr_of ('':'' @ bound_type_name (bound_type (bf_end f)) @ '':'')
         @ offset_text (bound_offset (bf_end f)))"

definition queryKey :: "(bound_query \<Rightarrow> nat) \<Rightarrow> bound_query \<Rightarrow> ustr" where
  "queryKey ids q = 35 # decimal (ids q)"

definition quantifier_name :: "quantifier \<Rightarrow> string" where
  "quantifier_name q = (case q of AnyOf \<Rightarrow> ''ANY'' | AllOf \<Rightarrow> ''ALL'')"

definition direction_text :: "string option \<Rightarrow> string \<Rightarrow> ustr" where
  "direction_text s fallback = ustr_of (case s of None \<Rightarrow> fallback | Some t \<Rightarrow> if t = [] then fallback else t)"

definition aggregateKey :: "string \<Rightarrow> bool \<Rightarrow> ustr list \<Rightarrow> ustr" where
  "aggregateKey name unique arg_keys =
     ustr_of (''agg('' @ toUpperCase name @ (if unique then '':distinct'' else '''') @ '','') @ joinComma arg_keys @ [41]"

fun exprKey :: "(bound_query \<Rightarrow> nat) \<Rightarrow> bexpr \<Rightarrow> ustr" where
  "exprKey ids (BoundColumnRef c) =
     ustr_of (''col('' @ toUpperCase (tableAlias c) @ ''.'' @ toUpperCase (columnName c) @ '')'')"
| "exprKey ids (BoundLiteral v t) = ustr_of (''lit('' @ type_of_value v @ '':'') @ js_text (Val v) @ [41]"
| "exprKey ids (BoundBinary op l r t) =
     ustr_of (''bin('' @ op @ '','') @ exprKey ids l @ 44 # exprKey ids r @ [41]"
| "exprKey ids (BoundUnary op e t) = ustr_of (''un('' @ op @ '','') @ exprKey ids e @ [41]"
| "exprKey ids (BoundFunction f es t) =
     ustr_of (''fn('' @ toUpperCase f @ '','') @ joinComma (map (exprKey ids) es) @ [41]"
| "exprKey ids (BoundAggregate f es d t) = aggregateKey f d (map (exprKey ids) es)"
| "exprKey ids (BoundCase ws el t) =
     ustr_of ''case('' @ joinComma (map (\<lambda>w. exprKey ids (bw_condition w) @ ustr_of ''=>'' @ exprKey ids (bw_result w)) ws)
       @ 44 # (case el of None \<Rightarrow> [] | Some e \<Rightarrow> exprKey ids e) @ [41]"
| "exprKey ids (BoundCast e t) = ustr_of (''cast('' @ data_type_name t @ '','') @ exprKey ids e @ [41]"
| "exprKey ids (BoundBetween e lo hi n) =
     ustr_of ''between('' @ bool_text n @ 44 # exprKey ids e @ 44 # exprKey ids lo @ 44 # exprKey ids hi @ [41]"
| "exprKey ids (BoundInList e (ExprList es) n) =
     ustr_of ''in('' @ bool_text n @ 44 # exprKey ids e @ ustr_of '',['' @ joinComma (map (exprKey ids) es) @ ustr_of '']'' @ [41]"
| "exprKey ids (BoundInList e (OneExpr e') n) =
     ustr_of ''in('' @ bool_text n @ 44 # exprKey ids e @ ustr_of '',['' @ exprKey ids e' @ ustr_of '']'' @ [41]"
| "exprKey ids (BoundLike e p n) =
     ustr_of ''like('' @ bool_text n @ 44 # exprKey ids e @ 44 # exprKey ids p @ [41]"
| "exprKey ids (BoundIsNull e n) = ustr_of ''isnull('' @ bool_text n @ 44 # exprKey ids e @ [41]"
| "exprKey ids (BoundSubquery q s) = ustr_of (''subquery('' @ s @ '','') @ queryKey ids q @ [41]"
| "exprKey ids (BoundExists q n) = ustr_of ''exists('' @ bool_text n @ 44 # queryKey ids q @ [41]"
| "exprKey ids (BoundQuantified op k e q) =
     ustr_of (''quantified('' @ op @ '','' @ quantifier_name k @ '','') @ exprKey ids e @ 44 # queryKey ids q @ [41]"
| "exprKey ids (BoundExtract f e) = ustr_of (''extract('' @ f @ '','') @ exprKey ids e @ [41]"
| "exprKey ids (BoundInterval v u) = ustr_of ''interval('' @ stringOfNum v @ 44 # ustr_of u @ [41]"
| "exprKey ids (BoundWindow f es ps os fr t) =
     ustr_of (''window('' @ toUpperCase f @ '','') @ joinComma (map (exprKey ids) es)
       @ ustr_of '',['' @ joinComma (map (exprKey ids) ps) @ ustr_of ''],[''
       @ joinComma (map (\<lambda>k. exprKey ids (bk_expr k) @ 58 # direction_text (bk_direction k) ''ASC''
            @ 58 # direction_text (bk_nullOrder k) '''') os)
       @ ustr_of ''],'' @ frameKey fr @ [41]"

section \<open>Resolving columns\<close>

type_synonym column_mapping = "(ustr \<times> int) list"

definition UNRESOLVED_COLUMN :: int where "UNRESOLVED_COLUMN = - 1"

definition AMBIGUOUS_COLUMN :: int where "AMBIGUOUS_COLUMN = - 2"

definition lookupColumnIndex :: "bound_column \<Rightarrow> column_mapping option \<Rightarrow> int option" where
  "lookupColumnIndex c mapping = (case mapping of
       None \<Rightarrow> if 0 \<le> columnIndex c then Some (columnIndex c) else None
     | Some m \<Rightarrow> (case map_of m (ustr_of (toUpperCase (tableAlias c @ ''.'' @ columnName c))) of
           Some i \<Rightarrow> Some i
         | None \<Rightarrow> map_of m (ustr_of (toUpperCase (columnName c)))))"

definition resolveColumnIndex :: "bound_column \<Rightarrow> column_mapping option \<Rightarrow> eval_error + int" where
  "resolveColumnIndex c mapping = (case lookupColumnIndex c mapping of
       None \<Rightarrow> Inl UnresolvedReference
     | Some i \<Rightarrow> if i = AMBIGUOUS_COLUMN then Inl AmbiguousReference else Inr i)"

definition optionalColumnIndex :: "bound_column \<Rightarrow> column_mapping option \<Rightarrow> int" where
  "optionalColumnIndex c mapping = (case lookupColumnIndex c mapping of
       None \<Rightarrow> UNRESOLVED_COLUMN
     | Some i \<Rightarrow> if i = AMBIGUOUS_COLUMN then UNRESOLVED_COLUMN else i)"

definition resolveMaterializedIndex ::
  "(bound_query \<Rightarrow> nat) \<Rightarrow> bexpr \<Rightarrow> column_mapping option \<Rightarrow> eval_error + int" where
  "resolveMaterializedIndex ids e mapping = (case mapping of
       None \<Rightarrow> Inl UnresolvedReference
     | Some m \<Rightarrow> (case map_of m (exprKey ids e) of None \<Rightarrow> Inl UnresolvedReference | Some i \<Rightarrow> Inr i))"

end
