(* ===== verification/ExpressionEval.thy ===== *)
theory ExpressionEval
  imports ExprKey ValueOps
begin

text \<open>
  \<open>execution/expression-eval.ts\<close>: an expression is compiled to a function of a row. Compiling can fail (a
  reference that does not resolve), and so can running (a host exception). A row is the list of the
  values of the chunk's columns at the row's index. The cache of LIKE patterns is not modelled: it only
  keeps what \<open>likeToRegex\<close> returns.
\<close>

type_synonym row = "column_value list"
type_synonym compiled = "row \<Rightarrow> value_result"

record exec_env =
  env_host :: js_host
  env_ids :: "bound_query \<Rightarrow> nat"
  env_mapping :: "column_mapping option"

text \<open>\<open>chunk.columns[i]?.get(row) ?? null\<close>.\<close>

definition column_at :: "row \<Rightarrow> int \<Rightarrow> column_value" where
  "column_at row i = (if 0 \<le> i \<and> nat i < length row then row ! nat i else VNull)"

section \<open>LIKE\<close>

datatype like_token = AnySequence | AnyUnit | Unit "16 word"

definition likeToRegex :: "ustr \<Rightarrow> like_token list" where
  "likeToRegex pattern = map (\<lambda>u. if u = 37 then AnySequence else if u = 95 then AnyUnit else Unit u) pattern"

text \<open>The dot of a regular expression without the \<open>s\<close> flag.\<close>

definition dot_matches :: "16 word \<Rightarrow> bool" where
  "dot_matches u \<longleftrightarrow> u \<notin> {10, 13, 0x2028, 0x2029}"

fun regex_test :: "like_token list \<Rightarrow> ustr \<Rightarrow> bool" where
  "regex_test [] s = (s = [])"
| "regex_test (Unit c # p) s = (case s of [] \<Rightarrow> False | u # us \<Rightarrow> u = c \<and> regex_test p us)"
| "regex_test (AnyUnit # p) s = (case s of [] \<Rightarrow> False | u # us \<Rightarrow> dot_matches u \<and> regex_test p us)"
| "regex_test (AnySequence # p) [] = regex_test p []"
| "regex_test (AnySequence # p) (u # us) =
     (regex_test p (u # us) \<or> dot_matches u \<and> regex_test (AnySequence # p) us)"

section \<open>Functions\<close>

definition arg_at :: "compiled list \<Rightarrow> nat \<Rightarrow> row \<Rightarrow> value_result" where
  "arg_at args i row = (if i < length args then (args ! i) row else Inl JsTypeError)"

text \<open>\<open>String.prototype.substring\<close> with both ends clamped, and swapped when out of order.\<close>

definition clamp_index :: "nat \<Rightarrow> jsnum \<Rightarrow> nat" where
  "clamp_index n x = (case x of NaN \<Rightarrow> 0 | NInf \<Rightarrow> 0 | PInf \<Rightarrow> n | Fin q \<Rightarrow> min n (nat (js_trunc (Fin q))))"

definition substring :: "ustr \<Rightarrow> jsnum \<Rightarrow> jsnum \<Rightarrow> ustr" where
  "substring s a b =
     (let i = clamp_index (length s) a; j = clamp_index (length s) b
      in take (max i j - min i j) (drop (min i j) s))"

definition js_round :: "jsnum \<Rightarrow> jsnum" where
  "js_round x = (case x of Fin q \<Rightarrow> Fin (of_int \<lfloor>q + 1 / 2\<rfloor>) | _ \<Rightarrow> x)"

definition js_abs :: "jsnum \<Rightarrow> jsnum" where
  "js_abs x = (case x of Fin q \<Rightarrow> Fin \<bar>q\<bar> | NInf \<Rightarrow> PInf | _ \<Rightarrow> x)"

text \<open>\<open>text.split(sep).join(by)\<close> for a separator that is not empty.\<close>

fun replace_all :: "ustr \<Rightarrow> ustr \<Rightarrow> ustr \<Rightarrow> ustr" where
  "replace_all sep by_text [] = []"
| "replace_all sep by_text (u # us) =
     (if sep \<noteq> [] \<and> take (length sep) (u # us) = sep
      then by_text @ replace_all sep by_text (drop (length sep) (u # us))
      else u # replace_all sep by_text us)"

text \<open>Functions of one argument that pass null through.\<close>

definition on_value :: "compiled list \<Rightarrow> (eval_value \<Rightarrow> value_result) \<Rightarrow> compiled" where
  "on_value args f row = bindE (arg_at args 0 row) (\<lambda>v. if v = null_value then Inr null_value else f v)"

text \<open>A host function of numbers throws on a \<open>bigint\<close>.\<close>

definition on_number :: "(jsnum \<Rightarrow> jsnum) \<Rightarrow> eval_value \<Rightarrow> value_result" where
  "on_number f v = (if is_big v then Inl JsTypeError else Inr (num_value (f (js_number v))))"

definition fn_substring :: "compiled list \<Rightarrow> compiled" where
  "fn_substring args row = bindE (arg_at args 0 row) (\<lambda>s.
     if s = null_value then Inr null_value
     else bindE (arg_at args 1 row) (\<lambda>from. bindE (js_minus from (num_value (Fin 1))) (\<lambda>start.
       if 2 < length args
       then bindE (arg_at args 2 row) (\<lambda>len. bindE (js_plus start len) (\<lambda>stop.
              Inr (text_value (substring (js_text s) (js_number start) (js_number stop)))))
       else Inr (text_value (substring (js_text s) (js_number start) (Fin (of_nat (length (js_text s)))))))))"

definition fn_round :: "js_host \<Rightarrow> compiled list \<Rightarrow> compiled" where
  "fn_round H args row = bindE (arg_at args 0 row) (\<lambda>v.
     bindE (if 1 < length args then arg_at args 1 row else Inr (num_value (Fin 0))) (\<lambda>d.
       if v = null_value then Inr null_value
       else if is_big d then Inl JsTypeError
       else let factor = h_pow H (Fin 10) (js_number d)
            in if is_big v then Inl JsTypeError
               else Inr (num_value (js_div (js_round (js_mul (js_number v) factor)) factor))))"

fun fn_coalesce :: "compiled list \<Rightarrow> compiled" where
  "fn_coalesce [] row = Inr null_value"
| "fn_coalesce (a # args) row = bindE (a row) (\<lambda>v. if is_nullish v then fn_coalesce args row else Inr v)"

definition fn_nullif :: "compiled list \<Rightarrow> compiled" where
  "fn_nullif args row = bindE (arg_at args 0 row) (\<lambda>v1. bindE (arg_at args 1 row) (\<lambda>v2.
     Inr (if js_loose_eq v1 v2 then null_value else v1)))"

definition fn_replace :: "compiled list \<Rightarrow> compiled" where
  "fn_replace args row = bindE (arg_at args 0 row) (\<lambda>s. bindE (arg_at args 1 row) (\<lambda>from.
     bindE (arg_at args 2 row) (\<lambda>to.
       if s = null_value \<or> from = null_value \<or> to = null_value then Inr null_value
       else if from = text_value [] then Inr (text_value (js_text s))
       else Inr (text_value (replace_all (js_text from) (js_text to) (js_text s))))))"

definition compileFunction :: "js_host \<Rightarrow> string \<Rightarrow> compiled list \<Rightarrow> compiled" where
  "compileFunction H name args =
     (let f = toUpperCase name in
      if f = ''SUBSTRING'' then fn_substring args
      else if f = ''TRIM'' then on_value args (\<lambda>v. Inr (text_value (js_trim (js_text v))))
      else if f = ''UPPER'' then on_value args (\<lambda>v. Inr (text_value (h_upper H (js_text v))))
      else if f = ''LOWER'' then on_value args (\<lambda>v. Inr (text_value (h_lower H (js_text v))))
      else if f = ''ABS'' then on_value args (on_number js_abs)
      else if f = ''ROUND'' then fn_round H args
      else if f = ''COALESCE'' then fn_coalesce args
      else if f = ''NULLIF'' then fn_nullif args
      else if f = ''IS_TRUE'' then (\<lambda>row. bindE (arg_at args 0 row) (\<lambda>v. Inr (bool_value (v = bool_value True))))
      else if f = ''IS_FALSE'' then (\<lambda>row. bindE (arg_at args 0 row) (\<lambda>v. Inr (bool_value (v = bool_value False))))
      else if f = ''SQRT'' then on_value args (on_number (h_sqrt H))
      else if f = ''LENGTH'' then on_value args (\<lambda>v. Inr (num_value (Fin (of_nat (length (js_text v))))))
      else if f = ''REPLACE'' then fn_replace args
      else (\<lambda>row. Inr null_value))"

section \<open>Predicates\<close>

definition truth_value :: "bool option \<Rightarrow> eval_value" where
  "truth_value t = (case t of None \<Rightarrow> null_value | Some b \<Rightarrow> bool_value b)"

definition negated_truth :: "bool \<Rightarrow> bool option \<Rightarrow> bool option" where
  "negated_truth negated t = (if negated then map_option Not t else t)"

definition between_truth :: "bool option \<Rightarrow> bool option \<Rightarrow> bool option" where
  "between_truth ge le = (if ge = Some False \<or> le = Some False then Some False
     else if ge = None \<or> le = None then None else Some True)"

definition eval_between :: "compiled \<Rightarrow> compiled \<Rightarrow> compiled \<Rightarrow> bool \<Rightarrow> compiled" where
  "eval_between e lo hi negated row = bindE (e row) (\<lambda>v.
     if is_nullish v then Inr null_value
     else bindE (lo row) (\<lambda>loV. bindE (hi row) (\<lambda>hiV.
       let ge = (if is_nullish loV then None else Some (js_at_least v loV));
           le = (if is_nullish hiV then None else Some (js_at_most v hiV))
       in Inr (truth_value (negated_truth negated (between_truth ge le))))))"

definition is_literal :: "bexpr \<Rightarrow> bool" where
  "is_literal e = (case e of BoundLiteral v t \<Rightarrow> True | _ \<Rightarrow> False)"

definition literal_of :: "bexpr \<Rightarrow> column_value" where
  "literal_of e = (case e of BoundLiteral v t \<Rightarrow> v | _ \<Rightarrow> VNull)"

text \<open>A list of literals is a set of normalised values; \<open>Set.has\<close> finds NaN.\<close>

definition eval_in_literals :: "compiled \<Rightarrow> column_value list \<Rightarrow> bool \<Rightarrow> compiled" where
  "eval_in_literals e vs negated row = bindE (e row) (\<lambda>v.
     if is_nullish v then Inr null_value
     else let found = (if normalizeComparable v \<in> set (map (normalizeComparable \<circ> Val) (filter (\<lambda>c. c \<noteq> VNull) vs))
                       then Some True else if VNull \<in> set vs then None else Some False)
          in Inr (truth_value (negated_truth negated found)))"

fun find_item :: "compiled list \<Rightarrow> eval_value \<Rightarrow> bool \<Rightarrow> row \<Rightarrow> eval_error + bool option" where
  "find_item [] v anyNull row = Inr (if anyNull then None else Some False)"
| "find_item (i # items) v anyNull row = bindE (i row) (\<lambda>iv.
     if is_nullish iv then find_item items v True row
     else if js_loose_eq iv v then Inr (Some True) else find_item items v anyNull row)"

definition eval_in_items :: "compiled \<Rightarrow> compiled list \<Rightarrow> bool \<Rightarrow> compiled" where
  "eval_in_items e items negated row = bindE (e row) (\<lambda>v.
     if is_nullish v then Inr null_value
     else bindE (find_item items v False row) (\<lambda>found. Inr (truth_value (negated_truth negated found))))"

definition eval_like :: "compiled \<Rightarrow> compiled \<Rightarrow> bool \<Rightarrow> compiled" where
  "eval_like e p negated row = bindE (e row) (\<lambda>val. bindE (p row) (\<lambda>pat.
     if is_nullish val \<or> is_nullish pat then Inr null_value
     else let matched = regex_test (likeToRegex (js_text pat)) (js_text val)
          in Inr (bool_value (if negated then \<not> matched else matched))))"

definition eval_is_null :: "compiled \<Rightarrow> bool \<Rightarrow> compiled" where
  "eval_is_null e negated row = bindE (e row) (\<lambda>v.
     Inr (bool_value (if negated then \<not> is_nullish v else is_nullish v)))"

fun eval_case :: "(compiled \<times> compiled) list \<Rightarrow> compiled \<Rightarrow> compiled" where
  "eval_case [] otherwise row = otherwise row"
| "eval_case ((c, r) # ws) otherwise row =
     bindE (c row) (\<lambda>v. if js_truthy v then r row else eval_case ws otherwise row)"

definition timestamp_field :: "string \<Rightarrow> timestamp_parts \<Rightarrow> eval_value" where
  "timestamp_field field ts =
     (if field = ''YEAR'' then num_value (dp_year ts) else if field = ''MONTH'' then num_value (dp_month ts)
      else if field = ''DAY'' then num_value (dp_day ts) else if field = ''HOUR'' then num_value (tp_hour ts)
      else if field = ''MINUTE'' then num_value (tp_minute ts) else if field = ''SECOND'' then num_value (tp_second ts)
      else null_value)"

definition date_field :: "string \<Rightarrow> date_parts \<Rightarrow> eval_value" where
  "date_field field d =
     (if field = ''YEAR'' then num_value (dp_year d) else if field = ''MONTH'' then num_value (dp_month d)
      else if field = ''DAY'' then num_value (dp_day d) else null_value)"

definition eval_extract :: "string \<Rightarrow> data_type option \<Rightarrow> compiled \<Rightarrow> compiled" where
  "eval_extract field srcType source row = bindE (source row) (\<lambda>val.
     if val = null_value then Inr null_value
     else if srcType = Some TIMESTAMP \<or> is_big val \<or> js_greater val (num_value (Fin 100000))
       then Inr (timestamp_field field (epochMsToTimestamp (js_number val)))
     else Inr (date_field field (epochDaysToDate (js_number val))))"

definition compileBinaryOp :: "string \<Rightarrow> compiled \<Rightarrow> compiled \<Rightarrow> bool \<Rightarrow> compiled" where
  "compileBinaryOp op left right timestampOperand = (case binaryValueOp op timestampOperand of
       None \<Rightarrow> (\<lambda>row. Inr null_value)
     | Some apply_op \<Rightarrow> (\<lambda>row. bindE (left row) (\<lambda>a. bindE (right row) (\<lambda>b. apply_op a b))))"

definition compileUnaryOp :: "string \<Rightarrow> compiled \<Rightarrow> compiled" where
  "compileUnaryOp op operand = (case unaryValueOp op of
       None \<Rightarrow> operand
     | Some apply_op \<Rightarrow> (\<lambda>row. bindE (operand row) apply_op))"

section \<open>Compilation\<close>

text \<open>The kinds that may have been computed into a column already.\<close>

definition materializable :: "bexpr \<Rightarrow> bool" where
  "materializable e = (case e of
       BoundBinary _ _ _ _ \<Rightarrow> True | BoundUnary _ _ _ \<Rightarrow> True | BoundFunction _ _ _ \<Rightarrow> True
     | BoundAggregate _ _ _ _ \<Rightarrow> True | BoundCase _ _ _ \<Rightarrow> True | BoundCast _ _ \<Rightarrow> True
     | BoundExtract _ _ \<Rightarrow> True | BoundWindow _ _ _ _ _ _ \<Rightarrow> True | _ \<Rightarrow> False)"

definition materializedColumnOf :: "exec_env \<Rightarrow> bexpr \<Rightarrow> int option" where
  "materializedColumnOf env e = (case env_mapping env of
       None \<Rightarrow> None
     | Some m \<Rightarrow> if materializable e then map_of m (exprKey (env_ids env) e) else None)"

definition column_getter :: "int \<Rightarrow> compiled" where
  "column_getter i row = Inr (Val (column_at row i))"

definition unless_materialized :: "exec_env \<Rightarrow> bexpr \<Rightarrow> eval_error + compiled \<Rightarrow> eval_error + compiled" where
  "unless_materialized env e computed = (case materializedColumnOf env e of
       Some i \<Rightarrow> Inr (column_getter i)
     | None \<Rightarrow> computed)"

fun sequenceE :: "('e + 'a) list \<Rightarrow> 'e + 'a list" where
  "sequenceE [] = Inr []"
| "sequenceE (m # ms) = bindE m (\<lambda>x. bindE (sequenceE ms) (\<lambda>xs. Inr (x # xs)))"

definition is_timestamp :: "bexpr \<Rightarrow> bool" where
  "is_timestamp e \<longleftrightarrow> getExprType e = Some TIMESTAMP"

function (sequential) compile :: "exec_env \<Rightarrow> bexpr \<Rightarrow> eval_error + compiled" where
  "compile env (BoundColumnRef c) = bindE (resolveColumnIndex c (env_mapping env)) (\<lambda>i. Inr (column_getter i))"
| "compile env (BoundLiteral v t) = Inr (\<lambda>row. Inr (Val v))"
| "compile env (BoundBinary op l r t) = unless_materialized env (BoundBinary op l r t)
     (bindE (compile env l) (\<lambda>left. bindE (compile env r) (\<lambda>right.
        Inr (compileBinaryOp op left right (is_timestamp l \<or> is_timestamp r)))))"
| "compile env (BoundUnary op e t) = unless_materialized env (BoundUnary op e t)
     (bindE (compile env e) (\<lambda>operand. Inr (compileUnaryOp op operand)))"
| "compile env (BoundFunction f es t) = unless_materialized env (BoundFunction f es t)
     (bindE (sequenceE (map (compile env) es)) (\<lambda>args. Inr (compileFunction (env_host env) f args)))"
| "compile env (BoundAggregate f es d t) = unless_materialized env (BoundAggregate f es d t) (Inl UnresolvedReference)"
| "compile env (BoundCase ws el t) = unless_materialized env (BoundCase ws el t)
     (bindE (sequenceE (map (\<lambda>w. bindE (compile env (bw_condition w)) (\<lambda>c.
          bindE (compile env (bw_result w)) (\<lambda>r. Inr (c, r)))) ws)) (\<lambda>clauses.
        case el of None \<Rightarrow> Inr (eval_case clauses (\<lambda>row. Inr null_value))
        | Some e \<Rightarrow> bindE (compile env e) (\<lambda>otherwise. Inr (eval_case clauses otherwise))))"
| "compile env (BoundCast e t) = unless_materialized env (BoundCast e t)
     (bindE (compile env e) (\<lambda>f. Inr (\<lambda>row. bindE (f row) (\<lambda>v. Inr (castToType (env_host env) v t)))))"
| "compile env (BoundBetween e lo hi n) =
     bindE (compile env e) (\<lambda>f. bindE (compile env lo) (\<lambda>l. bindE (compile env hi) (\<lambda>h. Inr (eval_between f l h n))))"
| "compile env (BoundInList e (ExprList es) n) = bindE (compile env e) (\<lambda>f.
     if list_all is_literal es then Inr (eval_in_literals f (map literal_of es) n)
     else bindE (sequenceE (map (compile env) es)) (\<lambda>items. Inr (eval_in_items f items n)))"
| "compile env (BoundInList e (OneExpr e') n) = bindE (compile env e) (\<lambda>f. Inr (\<lambda>row. Inr (bool_value True)))"
| "compile env (BoundLike e p n) = bindE (compile env e) (\<lambda>f. bindE (compile env p) (\<lambda>g. Inr (eval_like f g n)))"
| "compile env (BoundIsNull e n) = bindE (compile env e) (\<lambda>f. Inr (eval_is_null f n))"
| "compile env (BoundExtract fd e) = unless_materialized env (BoundExtract fd e)
     (bindE (compile env e) (\<lambda>f. Inr (eval_extract fd (getExprType e) f)))"
| "compile env (BoundInterval v u) = Inr (\<lambda>row. Inr (Interval v u))"
| "compile env (BoundWindow f es ps os fr t) = unless_materialized env (BoundWindow f es ps os fr t) (Inl UnresolvedReference)"
| "compile env _ = Inr (\<lambda>row. Inr null_value)"
  by pat_completeness auto
termination
  by (relation "measure (\<lambda>(env, e). size e)") (auto simp: termination_simp)

definition compileExpression :: "exec_env \<Rightarrow> bexpr option \<Rightarrow> eval_error + compiled" where
  "compileExpression env e = (case e of None \<Rightarrow> Inr (\<lambda>row. Inr null_value) | Some e \<Rightarrow> compile env e)"

text \<open>Compile, then run on a row.\<close>

definition eval :: "exec_env \<Rightarrow> bexpr \<Rightarrow> row \<Rightarrow> value_result" where
  "eval env e row = bindE (compile env e) (\<lambda>f. f row)"

end
