(* ===== verification/ExpressionSpec.thy ===== *)
theory ExpressionSpec
  imports ExpressionEval
begin

text \<open>
  What the compiled expressions compute: the conjuncts of a predicate mean what the predicate means, BETWEEN
  is the conjunction of its two comparisons, comparing 64-bit integers is exact up to \<open>2 ^ 53\<close> and not
  beyond, and LIKE does not see past a line break.
\<close>

lemma not_nullish [simp]: "\<not> is_nullish (bool_value b)" "is_nullish null_value" "is_nullish Undef"
  "\<not> is_nullish (num_value x)" "\<not> is_nullish (text_value s)" "\<not> is_nullish (Val (VBig i))" "\<not> is_nullish (Interval q u)"
  by (simp_all add: is_nullish_def)

section \<open>Conjuncts\<close>

text \<open>The compiled conjunction of two compilations.\<close>

definition and_compiled :: "eval_error + compiled \<Rightarrow> eval_error + compiled \<Rightarrow> eval_error + compiled" where
  "and_compiled m n = bindE m (\<lambda>f. bindE n (\<lambda>g. Inr (\<lambda>row. bindE (f row) (\<lambda>a. bindE (g row) (and_op a)))))"

lemma and_op_assoc: "bindE (and_op a b) (\<lambda>x. and_op x c) = bindE (and_op b c) (\<lambda>x. and_op a x)"
  by (auto simp: and_op_def)

lemma and_op_late:
  "bindE (and_op a b) (\<lambda>x. bindE m (and_op x)) = bindE m (\<lambda>c. bindE (and_op b c) (and_op a))"
  by (cases m) (simp_all add: and_op_assoc, simp add: and_op_def)

lemma and_compiled_assoc: "and_compiled (and_compiled k m) n = and_compiled k (and_compiled m n)"
  by (cases k; cases m; cases n) (simp_all add: and_compiled_def bindE_assoc and_op_late)

lemma compile_and:
  "materializedColumnOf env (BoundBinary ''AND'' l r t) = None \<Longrightarrow>
     compile env (BoundBinary ''AND'' l r t) = and_compiled (compile env l) (compile env r)"
  by (simp add: unless_materialized_def and_compiled_def compileBinaryOp_def)

lemma foldl_and_compiled: "foldl and_compiled (and_compiled x y) ms = and_compiled x (foldl and_compiled y ms)"
  by (induction ms arbitrary: y) (simp_all add: and_compiled_assoc)

definition all_compiled :: "(eval_error + compiled) list \<Rightarrow> eval_error + compiled" where
  "all_compiled ms = foldl and_compiled (hd ms) (tl ms)"

lemma all_compiled_cons: "ms \<noteq> [] \<Longrightarrow> all_compiled (m # ms) = and_compiled m (all_compiled ms)"
  by (cases ms) (simp_all add: all_compiled_def foldl_and_compiled)

lemma split_pending_nonempty: "es \<noteq> [] \<Longrightarrow> split_pending es \<noteq> []"
  by (induction es rule: split_pending.induct) auto

lemma nodes_parts: "p \<in> set (walk_parts e) \<Longrightarrow> n \<in> set (nodes p) \<Longrightarrow> n \<in> set (nodes e)"
  by (subst nodes.simps) auto

lemma nodes_self [simp]: "e \<in> set (nodes e)"
  by (subst nodes.simps) simp

lemma nodes_binary:
  "set (nodes (BoundBinary op l r t)) = insert (BoundBinary op l r t) (set (nodes l) \<union> set (nodes r))"
  by (subst nodes.simps) auto

text \<open>Operator names are written in capitals, as the parser writes them.\<close>

definition capital_ops :: "bexpr \<Rightarrow> bool" where
  "capital_ops e \<longleftrightarrow>
     list_all (\<lambda>n. case n of BoundBinary op _ _ _ \<Rightarrow> toUpperCase op = op | BoundUnary op _ _ \<Rightarrow> toUpperCase op = op
        | _ \<Rightarrow> True) (nodes e)"

lemma capital_binary:
  "capital_ops (BoundBinary op l r t) \<longleftrightarrow> toUpperCase op = op \<and> capital_ops l \<and> capital_ops r"
  by (auto simp: capital_ops_def list_all_iff nodes_binary)

lemma capital_unary: "capital_ops (BoundUnary op e t) \<longleftrightarrow> toUpperCase op = op \<and> capital_ops e"
  by (auto simp: capital_ops_def list_all_iff nodes.simps [of "BoundUnary op e t"])

lemma compile_split:
  assumes "\<And>l r t. materializedColumnOf env (BoundBinary ''AND'' l r t) = None"
  shows "es \<noteq> [] \<Longrightarrow> \<forall>e \<in> set es. capital_ops e \<Longrightarrow>
    all_compiled (map (compile env) (split_pending es)) = all_compiled (map (compile env) es)"
proof (induction es rule: split_pending.induct)
  case (2 op l r t pending)
  show ?case
  proof (cases "toUpperCase op = ''AND''")
    case True
    then have "op = ''AND''" using 2 by (simp add: capital_binary)
    moreover have "all_compiled (map (compile env) (split_pending (l # r # pending)))
        = all_compiled (map (compile env) (l # r # pending))"
      using 2 True by (simp add: capital_binary)
    ultimately show ?thesis using True
      by (simp add: compile_and [OF assms] all_compiled_def del: compile.simps)
  next
    case False
    then show ?thesis using 2
      by (cases "pending = []") (simp_all add: all_compiled_cons split_pending_nonempty del: compile.simps)
  qed
qed (simp_all del: compile.simps, (metis all_compiled_cons list.map_disc_iff split_pending_nonempty split_pending.simps(1))+)

lemma compile_combine:
  assumes "\<And>l r t. materializedColumnOf env (BoundBinary ''AND'' l r t) = None"
  shows "compile env (foldl (\<lambda>acc pred. BoundBinary ''AND'' acc pred BOOLEAN) p ps)
    = foldl and_compiled (compile env p) (map (compile env) ps)"
  by (induction ps arbitrary: p) (simp_all add: compile_and [OF assms] del: compile.simps)

text \<open>
  C32: Splitting a predicate into conjuncts and combining them again does not change what it evaluates to
  on any row, exceptions included, when no conjunction is a computed column and the operators are written
  in capitals.
\<close>

theorem conjuncts_mean_predicate:
  assumes "\<And>l r t. materializedColumnOf env (BoundBinary ''AND'' l r t) = None" and "capital_ops e"
  shows "\<exists>p. combineConjuncts (splitConjuncts (Some e)) = Some p \<and> eval env p row = eval env e row
    \<and> list_all (\<lambda>c. \<not> isConjunction c) (splitConjuncts (Some e))"
proof -
  obtain p ps where s: "split_pending [e] = p # ps"
    using split_pending_nonempty [of "[e]"] by (cases "split_pending [e]") auto
  have "compile env (foldl (\<lambda>acc pred. BoundBinary ''AND'' acc pred BOOLEAN) p ps)
      = all_compiled (map (compile env) (split_pending [e]))"
    by (simp add: compile_combine [OF assms(1)] s all_compiled_def)
  also have "\<dots> = compile env e"
    using compile_split [OF assms(1), of "[e]"] assms(2) by (simp add: all_compiled_def)
  finally show ?thesis
    using split_no_conjunction [of _ "[e]"] s
    by (auto simp: eval_def splitConjuncts_def combineConjuncts_def list_all_iff)
qed

definition sample_env :: exec_env where
  "sample_env = \<lparr>env_host = \<lparr>h_parseDate = \<lambda>_. NaN, h_upper = id, h_lower = id, h_pow = \<lambda>_ _. NaN, h_sqrt = \<lambda>_. NaN\<rparr>,
     env_ids = \<lambda>_. 0, env_mapping = None\<rparr>"

abbreviation sample_column :: "nat \<Rightarrow> bexpr" where
  "sample_column i \<equiv> mk_column ''t'' ''c'' (int i) (Some BOOLEAN) 0"

lemma sample_column_compiles: "compile sample_env (sample_column i) = Inr (column_getter (int i))"
  by (simp add: mk_column_def resolveColumnIndex_def lookupColumnIndex_def sample_env_def AMBIGUOUS_COLUMN_def)

lemma sample_column_evals [simp]: "eval sample_env (sample_column i) row = Inr (Val (column_at row (int i)))"
  by (simp add: eval_def sample_column_compiles column_getter_def)

definition sample_conjunction :: bexpr where
  "sample_conjunction = BoundBinary ''AND'' (sample_column 0)
     (BoundBinary ''AND'' (sample_column 1) (sample_column 2) BOOLEAN) BOOLEAN"

lemma conjuncts_mean_predicate_witness:
  "\<exists>p. combineConjuncts (splitConjuncts (Some sample_conjunction)) = Some p
     \<and> eval sample_env p [VNull, VBool False, VBool True] = eval sample_env sample_conjunction [VNull, VBool False, VBool True]
     \<and> list_all (\<lambda>c. \<not> isConjunction c) (splitConjuncts (Some sample_conjunction))"
proof (rule conjuncts_mean_predicate)
  show "materializedColumnOf sample_env (BoundBinary ''AND'' l r t) = None" for l r t
    by (simp add: materializedColumnOf_def sample_env_def)
  show "capital_ops sample_conjunction"
    by (simp add: sample_conjunction_def capital_binary)
      (simp add: capital_ops_def mk_column_def nodes.simps)
qed

section \<open>BETWEEN\<close>

text \<open>Operands whose comparison does not depend on rounding a \<open>bigint\<close> to a number.\<close>

definition exactly_comparable :: "eval_value set \<Rightarrow> bool" where
  "exactly_comparable vs \<longleftrightarrow>
     (\<forall>v \<in> vs. \<not> is_big v) \<or> (\<forall>v \<in> vs. \<not> is_textual v \<and> (case v of Val (VBig i) \<Rightarrow> \<bar>i\<bar> \<le> 2 ^ 53 | _ \<Rightarrow> True))"

lemma compare_not_textual:
  "\<not> is_textual a \<Longrightarrow> \<not> is_textual b \<Longrightarrow> js_compare a b = order_num (exact_number a) (exact_number b)"
  by (auto simp: js_compare_def to_primitive_def is_textual_def split: eval_value.splits column_value.splits)

lemma toNum_not_big: "\<not> is_big v \<Longrightarrow> toNum v = v"
  by (auto simp: toNum_def is_big_def split: eval_value.splits column_value.splits)

lemma toNum_small:
  "\<not> is_textual v \<Longrightarrow> (case v of Val (VBig i) \<Rightarrow> \<bar>i\<bar> \<le> 2 ^ 53 | _ \<Rightarrow> True)
     \<Longrightarrow> \<not> is_textual (toNum v) \<and> exact_number (toNum v) = exact_number v"
  by (auto simp: toNum_def is_textual_def exact_number_def num_of_big_int split: eval_value.splits column_value.splits)

lemma compare_toNum:
  "exactly_comparable vs \<Longrightarrow> a \<in> vs \<Longrightarrow> b \<in> vs \<Longrightarrow> js_compare (toNum a) (toNum b) = js_compare a b"
  by (auto simp: exactly_comparable_def toNum_not_big toNum_small compare_not_textual)

definition between_expr :: "bexpr \<Rightarrow> bexpr \<Rightarrow> bexpr \<Rightarrow> bexpr" where
  "between_expr e lo hi = BoundBinary ''AND'' (BoundBinary ''>='' e lo BOOLEAN) (BoundBinary ''<='' e hi BOOLEAN) BOOLEAN"

lemma eval_binary:
  "materializedColumnOf env (BoundBinary op l r t) = None \<Longrightarrow> binaryValueOp op (is_timestamp l \<or> is_timestamp r) = Some f
    \<Longrightarrow> compile env l = Inr cl \<Longrightarrow> compile env r = Inr cr
    \<Longrightarrow> compile env (BoundBinary op l r t) = Inr (\<lambda>row. bindE (cl row) (\<lambda>a. bindE (cr row) (f a)))"
  by (simp add: unless_materialized_def compileBinaryOp_def)

lemma eval_compiles: "eval env e row = Inr v \<Longrightarrow> \<exists>f. compile env e = Inr f \<and> f row = Inr v"
  by (auto simp: eval_def bindE_Inr_iff)

text \<open>
  C33: \<open>e BETWEEN lo AND hi\<close> evaluates to what \<open>e >= lo AND e <= hi\<close> evaluates to, NULL operands included,
  when the three values compare without rounding.
\<close>

theorem between_is_conjunction:
  assumes "\<And>op l r t. materializedColumnOf env (BoundBinary op l r t) = None"
    and "eval env e row = Inr v" "eval env lo row = Inr vlo" "eval env hi row = Inr vhi"
    and "exactly_comparable {v, vlo, vhi}"
  shows "eval env (BoundBetween e lo hi False) row = eval env (between_expr e lo hi) row"
proof -
  obtain f l h where c: "compile env e = Inr f" "f row = Inr v" "compile env lo = Inr l" "l row = Inr vlo"
      "compile env hi = Inr h" "h row = Inr vhi"
    using assms(2-4) by (blast dest: eval_compiles)
  have b: "eval env (between_expr e lo hi) row
      = bindE (comparison_op js_at_least v vlo) (\<lambda>x. bindE (comparison_op js_at_most v vhi) (and_op x))"
    using c unfolding between_expr_def eval_def
    by (simp add: eval_binary [OF assms(1)] del: compile.simps)
  show ?thesis
    unfolding b
    using c compare_toNum [OF assms(5), of v vlo] compare_toNum [OF assms(5), of v vhi]
    by (simp add: eval_def eval_between_def comparison_op_def and_op_def between_truth_def truth_value_def
        negated_truth_def js_at_least_def js_at_most_def Let_def)
qed

lemma between_is_conjunction_witness:
  "eval sample_env (BoundBetween (sample_column 0) (BoundLiteral (VNum (Fin 3)) (Some INT32)) (sample_column 1) False)
       [VBig 5, VNull]
     = eval sample_env (between_expr (sample_column 0) (BoundLiteral (VNum (Fin 3)) (Some INT32)) (sample_column 1))
       [VBig 5, VNull]"
proof (rule between_is_conjunction)
  show "materializedColumnOf sample_env (BoundBinary op l r t) = None" for op l r t
    by (simp add: materializedColumnOf_def sample_env_def)
  show "eval sample_env (sample_column 0) [VBig 5, VNull] = Inr (Val (VBig 5))"
    using sample_column_evals [of 0] by (simp add: column_at_def)
  show "eval sample_env (BoundLiteral (VNum (Fin 3)) (Some INT32)) [VBig 5, VNull] = Inr (num_value (Fin 3))"
    by (simp add: eval_def)
  show "eval sample_env (sample_column 1) [VBig 5, VNull] = Inr null_value"
    using sample_column_evals [of 1] by (simp add: column_at_def)
  show "exactly_comparable {Val (VBig 5), num_value (Fin 3), null_value}"
    by (simp add: exactly_comparable_def is_textual_def)
qed

section \<open>64-bit integers\<close>

definition integer_comparison :: "string \<Rightarrow> int \<Rightarrow> int \<Rightarrow> bool" where
  "integer_comparison op i j =
     (if op = ''='' then i = j else if op = ''<>'' then i \<noteq> j else if op = ''<'' then i < j
      else if op = ''>'' then i > j else if op = ''<='' then i \<le> j else i \<ge> j)"

definition comparison_operators :: "string list" where
  "comparison_operators = [''='', ''<>'', ''<'', ''>'', ''<='', ''>='']"

lemma order_num_ints:
  "order_num (Fin (of_int i)) (Fin (of_int j)) = Some (if i < j then Less else if j < i then Greater else Equal)"
  by (auto simp: order_num_def js_eq_def)

lemma compare_ints: "js_compare (num_value (Fin (of_int i))) (num_value (Fin (of_int j)))
    = Some (if i < j then Less else if j < i then Greater else Equal)"
  by (simp add: js_compare_def to_primitive_def exact_number_def order_num_ints)

lemma small_bigs_compare:
  assumes "\<bar>i\<bar> \<le> 2 ^ 53" "\<bar>j\<bar> \<le> 2 ^ 53" "op \<in> set comparison_operators"
  shows "\<exists>f. binaryValueOp op False = Some f
     \<and> f (Val (VBig i)) (Val (VBig j)) = Inr (bool_value (integer_comparison op i j))"
proof -
  have n: "toNum (Val (VBig i)) = num_value (Fin (of_int i))" "toNum (Val (VBig j)) = num_value (Fin (of_int j))"
    using num_of_big_int [OF assms(1)] num_of_big_int [OF assms(2)] by (simp_all add: toNum_def)
  have c: "comparison_op f (Val (VBig i)) (Val (VBig j))
      = Inr (bool_value (f (num_value (Fin (of_int i))) (num_value (Fin (of_int j)))))" for f
    by (simp add: comparison_op_def n)
  show ?thesis
    using assms(3) unfolding comparison_operators_def
    by (simp, elim disjE)
      (simp_all add: c integer_comparison_def js_eq_def js_less_def js_greater_def js_at_most_def
        js_at_least_def compare_ints order_le_less not_less)
qed

text \<open>
  C34: Comparing two BIGINT values is comparing the integers as long as both are at most \<open>2 ^ 53\<close> in
  magnitude, and the bound is sharp: \<open>2 ^ 53 + 1\<close> is found equal to \<open>2 ^ 53\<close>.
\<close>

theorem bigint_comparison_bound:
  "(\<forall>i j op. \<bar>i\<bar> \<le> 2 ^ 53 \<and> \<bar>j\<bar> \<le> 2 ^ 53 \<and> op \<in> set comparison_operators \<longrightarrow>
       (\<exists>f. binaryValueOp op False = Some f
          \<and> f (Val (VBig i)) (Val (VBig j)) = Inr (bool_value (integer_comparison op i j))))
    \<and> (\<exists>f. binaryValueOp ''='' False = Some f
          \<and> f (Val (VBig (2 ^ 53 + 1))) (Val (VBig (2 ^ 53))) = Inr (bool_value True))"
proof -
  have "ilog2 9007199254740993 = 53" by code_simp
  then have "grid 9007199254740993 = 9007199254740992"
    using rhe_half [of 4503599627370496] by (simp add: grid_def ulp_exp_def pow2_def)
  then have "num_of_big (2 ^ 53 + 1) = num_of_big (2 ^ 53)"
    using num_of_big_int [of "2 ^ 53"] by (simp add: num_of_big_def rnd_def [of 9007199254740993] pow2_def Let_def)
  then have "comparison_op js_same (Val (VBig (2 ^ 53 + 1))) (Val (VBig (2 ^ 53))) = Inr (bool_value True)"
    by (simp only: comparison_op_def toNum_def eval_value.case column_value.case not_nullish) (simp add: js_eq_def)
  then show ?thesis using small_bigs_compare by auto
qed

lemma bigint_comparison_bound_witness:
  "(\<exists>f. binaryValueOp ''<'' False = Some f \<and> f (Val (VBig 5)) (Val (VBig 7)) = Inr (bool_value True))
     \<and> num_of_big (2 ^ 53 + 1) = num_of_big (2 ^ 53)"
proof -
  note both = bigint_comparison_bound
  have "\<exists>f. binaryValueOp ''<'' False = Some f
      \<and> f (Val (VBig 5)) (Val (VBig 7)) = Inr (bool_value (integer_comparison ''<'' 5 7))"
    using both [THEN conjunct1, rule_format, of 5 7 "''<''"] by (simp add: comparison_operators_def)
  moreover have "num_of_big (2 ^ 53 + 1) = num_of_big (2 ^ 53)"
    using both [THEN conjunct2] by (simp add: comparison_op_def toNum_def js_eq_def)
  ultimately show ?thesis by (simp add: integer_comparison_def)
qed

section \<open>LIKE\<close>

text \<open>
  C35: A text with a line break does not match the pattern \<open>%\<close>, which matches every text without one.
\<close>

theorem like_stops_at_line_break:
  "eval sample_env (BoundLike (sample_column 0) (BoundLiteral (VStr [37]) (Some VARCHAR)) False) [VStr (s @ 10 # t)]
     = Inr (bool_value False)"
proof -
  have "regex_test [AnySequence] s = list_all dot_matches s" for s
    by (induction s) auto
  then have "\<not> regex_test [AnySequence] (s @ 10 # t)"
    by (simp add: dot_matches_def)
  then show ?thesis
    using sample_column_compiles [of 0]
    by (simp add: eval_def column_getter_def eval_like_def likeToRegex_def column_at_def)
qed

end
