(* ===== verification/Column.thy ===== *)
theory Column
  imports Bitmap ColumnEncoding ExpressionEval
begin

text \<open>
  Columns: \<open>storage/column.ts\<close>, a typed array or a UTF-8 buffer with a null bitmap, or an encoded vector,
  and \<open>storage/dictionary-column.ts\<close>, indices into a dictionary of values. The allocator hands out zeroed
  arrays of the asked size. A view shares the arrays of its column and is only read, so a view is the
  column itself. Writing into a typed array out of its range has no effect, as in the language.
\<close>

section \<open>State\<close>

datatype typed_array = IntArray "int list" | NumArray "jsnum list"

record column =
  c_type :: data_type
  c_capacity :: nat
  c_length :: nat
  c_encoded :: "encoded_vector option"
  c_data :: "typed_array option"
  c_offsets :: "nat list"
  c_bytes :: "byte list"
  c_used :: nat
  c_nulls :: "32 word list"
  c_hasNulls :: bool

text \<open>\<open>BigInt\<close> of a number that is not finite; a dictionary of more than 65536 values; a buffer that never grows; a row with more values than columns.\<close>

datatype column_error = NotAnInteger | DictionaryFull | BufferStuck | NoSuchColumn

definition STRING_INITIAL_BYTES :: nat where "STRING_INITIAL_BYTES = 4096"

text \<open>A new typed array of \<open>typedArrayCtorFor\<close>.\<close>

definition typedArrayFor :: "data_type \<Rightarrow> nat \<Rightarrow> typed_array" where
  "typedArrayFor t n = (if t = FLOAT64 then NumArray (replicate n (Fin 0)) else IntArray (replicate n 0))"

definition column_new :: "data_type \<Rightarrow> nat \<Rightarrow> column" where
  "column_new t capacity =
     \<lparr>c_type = t, c_capacity = capacity, c_length = 0, c_encoded = None,
      c_data = (if isFixedWidth t then Some (typedArrayFor t capacity) else None),
      c_offsets = (if isFixedWidth t then [] else replicate (capacity + 1) 0),
      c_bytes = (if isFixedWidth t then [] else replicate STRING_INITIAL_BYTES 0),
      c_used = 0, c_nulls = createBitmap capacity, c_hasNulls = False\<rparr>"

definition column_fromParts ::
  "data_type \<Rightarrow> typed_array option \<Rightarrow> (nat list \<times> byte list \<times> nat) option \<Rightarrow> 32 word list \<Rightarrow> nat \<Rightarrow> bool \<Rightarrow> column" where
  "column_fromParts t data strings nulls len hasNulls =
     \<lparr>c_type = t, c_capacity = len, c_length = len, c_encoded = None, c_data = data,
      c_offsets = (case strings of None \<Rightarrow> [] | Some (os, bs, used) \<Rightarrow> os),
      c_bytes = (case strings of None \<Rightarrow> [] | Some (os, bs, used) \<Rightarrow> bs),
      c_used = (case strings of None \<Rightarrow> 0 | Some (os, bs, used) \<Rightarrow> used),
      c_nulls = nulls, c_hasNulls = hasNulls\<rparr>"

definition column_fromEncoded :: "data_type \<Rightarrow> encoded_vector \<Rightarrow> 32 word list \<Rightarrow> nat \<Rightarrow> bool \<Rightarrow> column" where
  "column_fromEncoded t encoded nulls len hasNulls =
     \<lparr>c_type = t, c_capacity = len, c_length = len, c_encoded = Some encoded, c_data = None, c_offsets = [],
      c_bytes = [], c_used = 0, c_nulls = nulls, c_hasNulls = hasNulls\<rparr>"

text \<open>The getter \<open>data\<close> decodes the encoded vector first.\<close>

definition column_decoded :: "column \<Rightarrow> column" where
  "column_decoded c = (case c_encoded c of
       None \<Rightarrow> c
     | Some e \<Rightarrow> c\<lparr>c_data := Some (IntArray (ev_decode e)), c_encoded := None\<rparr>)"

definition column_scanView :: "column \<Rightarrow> column" where
  "column_scanView c = c"

section \<open>Reading\<close>

definition nth_opt :: "'a list \<Rightarrow> nat \<Rightarrow> 'a option" where
  "nth_opt xs i = (if i < length xs then Some (xs ! i) else None)"

text \<open>The element of a typed array, a \<open>bigint\<close> in the 64-bit ones; \<open>Undef\<close> out of range.\<close>

definition element :: "data_type \<Rightarrow> typed_array option \<Rightarrow> nat \<Rightarrow> eval_value" where
  "element t data i = (case data of
       None \<Rightarrow> Undef
     | Some (NumArray xs) \<Rightarrow> (case nth_opt xs i of None \<Rightarrow> Undef | Some x \<Rightarrow> num_value x)
     | Some (IntArray xs) \<Rightarrow> (case nth_opt xs i of None \<Rightarrow> Undef
         | Some k \<Rightarrow> if t \<in> {INT64, DECIMAL, TIMESTAMP} then Val (VBig k) else num_value (Fin (of_int k))))"

definition column_getString :: "column \<Rightarrow> nat \<Rightarrow> ustr" where
  "column_getString c i = (case (nth_opt (c_offsets c) i, nth_opt (c_offsets c) (i + 1)) of
       (Some start, Some stop) \<Rightarrow> if start = stop then [] else utf8_decode (take (stop - start) (drop start (c_bytes c)))
     | (Some start, None) \<Rightarrow> utf8_decode (drop start (c_bytes c))
     | _ \<Rightarrow> [])"

definition column_get :: "jsnum \<Rightarrow> column \<Rightarrow> nat \<Rightarrow> eval_value" where
  "column_get scale c i =
     (if c_hasNulls c \<and> \<not> testBit (c_nulls c) i then null_value
      else case c_encoded c of
          Some e \<Rightarrow> Val (ev_valueAt e i)
        | None \<Rightarrow>
            if c_type c = VARCHAR then text_value (column_getString c i)
            else let v = element (c_type c) (c_data c) i
                 in if c_type c = BOOLEAN then bool_value (\<not> js_same v (num_value (Fin 0)))
                    else if c_type c = DECIMAL then num_value (js_div (js_number v) scale)
                    else v)"

definition column_isNull :: "column \<Rightarrow> nat \<Rightarrow> bool" where
  "column_isNull c i \<longleftrightarrow> c_hasNulls c \<and> \<not> testBit (c_nulls c) i"

section \<open>Writing\<close>

definition to_bigint :: "jsnum \<Rightarrow> column_error + int" where
  "to_bigint x = (case x of Fin q \<Rightarrow> Inr (js_trunc (Fin q)) | _ \<Rightarrow> Inl NotAnInteger)"

text \<open>What an element of the typed array becomes when a value that is not null is assigned.\<close>

definition stored_int :: "jsnum \<Rightarrow> data_type \<Rightarrow> column_value \<Rightarrow> column_error + int" where
  "stored_int scale t v =
     (if t = BOOLEAN then Inr (if js_truthy (Val v) then 1 else 0)
      else if t = DECIMAL then (case v of
          VBig i \<Rightarrow> Inr (wrap_signed 64 i)
        | _ \<Rightarrow> bindE (to_bigint (js_round (js_mul (js_number (Val v)) scale))) (\<lambda>i. Inr (wrap_signed 64 i)))
      else if t = INT64 \<or> t = TIMESTAMP then (case v of
          VBig i \<Rightarrow> Inr (wrap_signed 64 i)
        | _ \<Rightarrow> bindE (to_bigint (js_number (Val v))) (\<lambda>i. Inr (wrap_signed 64 i)))
      else Inr (to_int32 (js_number (Val v))))"

definition array_set :: "jsnum \<Rightarrow> data_type \<Rightarrow> typed_array option \<Rightarrow> nat \<Rightarrow> column_value \<Rightarrow> column_error + typed_array option" where
  "array_set scale t data i v = (case data of
       None \<Rightarrow> Inr None
     | Some (NumArray xs) \<Rightarrow> Inr (Some (NumArray (xs[i := js_number (Val v)])))
     | Some (IntArray xs) \<Rightarrow> bindE (stored_int scale t v) (\<lambda>k. Inr (Some (IntArray (xs[i := k])))))"

definition column_bump :: "nat \<Rightarrow> column \<Rightarrow> column" where
  "column_bump i c = (if c_length c \<le> i then c\<lparr>c_length := i + 1\<rparr> else c)"

definition column_setNull :: "nat \<Rightarrow> column \<Rightarrow> column" where
  "column_setNull i c =
     (let c1 = c\<lparr>c_hasNulls := True, c_nulls := clearBit (c_nulls c) i\<rparr>;
          c2 = (if c_type c = VARCHAR then c1\<lparr>c_offsets := (c_offsets c1)[i + 1 := (case nth_opt (c_offsets c1) i of
                  None \<Rightarrow> 0 | Some start \<Rightarrow> start)]\<rparr> else c1)
      in column_bump i c2)"

text \<open>The buffer doubles until the text fits; one of no bytes never does.\<close>

partial_function (option) grow_bytes :: "nat \<Rightarrow> byte list \<Rightarrow> byte list option" where
  "grow_bytes needed bytes =
     (if length bytes < needed then grow_bytes needed (bytes @ replicate (length bytes) 0) else Some bytes)"

definition column_setString :: "nat \<Rightarrow> ustr \<Rightarrow> column \<Rightarrow> column_error + column" where
  "column_setString i s c =
     (let encoded = utf8_encode s
      in case grow_bytes (c_used c + length encoded) (c_bytes c) of
           None \<Rightarrow> Inl BufferStuck
         | Some bytes \<Rightarrow> Inr (c\<lparr>
             c_offsets := (c_offsets c)[i := c_used c, i + 1 := c_used c + length encoded],
             c_bytes := take (c_used c) bytes @ encoded @ drop (c_used c + length encoded) bytes,
             c_used := c_used c + length encoded\<rparr>))"

definition column_set :: "jsnum \<Rightarrow> nat \<Rightarrow> column_value \<Rightarrow> column \<Rightarrow> column_error + column" where
  "column_set scale i v c =
     (if v = VNull then Inr (column_setNull i c)
      else let c1 = c\<lparr>c_nulls := setBit (c_nulls c) i\<rparr>
           in bindE (if c_type c = VARCHAR then column_setString i (js_text (Val v)) c1
                     else let c2 = column_decoded c1
                          in bindE (array_set scale (c_type c) (c_data c2) i v) (\<lambda>data. Inr (c2\<lparr>c_data := data\<rparr>)))
                (\<lambda>c3. Inr (column_bump i c3)))"

text \<open>\<open>newArray.set(oldArray)\<close>, for an old array that is not longer.\<close>

definition copied :: "'a list \<Rightarrow> 'a list \<Rightarrow> 'a list" where
  "copied old fresh = old @ drop (length old) fresh"

fun copied_array :: "typed_array option \<Rightarrow> typed_array \<Rightarrow> typed_array" where
  "copied_array (Some (IntArray xs)) (IntArray ys) = IntArray (copied xs ys)"
| "copied_array (Some (NumArray xs)) (NumArray ys) = NumArray (copied xs ys)"
| "copied_array _ ys = ys"

definition column_grow :: "column \<Rightarrow> column" where
  "column_grow c =
     (let newCapacity = c_capacity c * 2;
          c1 = (if isFixedWidth (c_type c)
                then c\<lparr>c_data := Some (copied_array (c_data (column_decoded c)) (typedArrayFor (c_type c) newCapacity)),
                       c_encoded := None\<rparr>
                else c\<lparr>c_offsets := copied (c_offsets c) (replicate (newCapacity + 1) 0)\<rparr>)
      in c1\<lparr>c_nulls := copied (c_nulls c) (createBitmap newCapacity), c_capacity := newCapacity\<rparr>)"

definition column_append :: "jsnum \<Rightarrow> column_value \<Rightarrow> column \<Rightarrow> column_error + column" where
  "column_append scale v c =
     (let c1 = (if c_capacity c \<le> c_length c then column_grow c else c)
      in column_set scale (c_length c1) v c1)"

fun column_appendBatch :: "jsnum \<Rightarrow> column_value list \<Rightarrow> column \<Rightarrow> column_error + column" where
  "column_appendBatch scale [] c = Inr c"
| "column_appendBatch scale (v # vs) c = bindE (column_append scale v c) (column_appendBatch scale vs)"

text \<open>What \<open>set\<close> does with the \<open>undefined\<close> of a read out of range.\<close>

definition settable :: "eval_value \<Rightarrow> column_value" where
  "settable v = (case v of Val x \<Rightarrow> x | _ \<Rightarrow> VNull)"

fun set_all :: "jsnum \<Rightarrow> (nat \<Rightarrow> eval_value) \<Rightarrow> nat list \<Rightarrow> column \<Rightarrow> column_error + column" where
  "set_all scale get [] c = Inr c"
| "set_all scale get (i # is) c = bindE (column_set scale i (settable (get i)) c) (set_all scale get is)"

definition copied_bits :: "32 word list \<Rightarrow> nat \<Rightarrow> nat \<Rightarrow> 32 word list \<Rightarrow> 32 word list" where
  "copied_bits src start len dst = fold (\<lambda>i b. if testBit src (start + i) then setBit b i else b) [0..<len] dst"

fun array_part :: "typed_array \<Rightarrow> nat \<Rightarrow> nat \<Rightarrow> typed_array" where
  "array_part (IntArray xs) start stop = IntArray (take (stop - start) (drop start xs))"
| "array_part (NumArray xs) start stop = NumArray (take (stop - start) (drop start xs))"

definition column_slice :: "jsnum \<Rightarrow> nat \<Rightarrow> nat \<Rightarrow> column \<Rightarrow> column_error + column" where
  "column_slice scale start stop c =
     (let len = stop - start; fresh = column_new (c_type c) len
      in bindE (if c_type c = VARCHAR \<or> c_encoded c \<noteq> None
                then set_all scale (\<lambda>i. column_get scale c (start + i)) [0..<len] fresh
                else Inr (fresh\<lparr>
                  c_data := (case c_data c of
                      None \<Rightarrow> c_data fresh
                    | Some xs \<Rightarrow> Some (copied_array (Some (array_part xs start stop)) (typedArrayFor (c_type c) len))),
                  c_nulls := copied_bits (c_nulls c) start len (c_nulls fresh)\<rparr>))
           (\<lambda>col. Inr (col\<lparr>c_length := len, c_hasNulls := c_hasNulls c\<rparr>)))"

end
