(* ===== verification/ColumnSound.thy ===== *)
theory ColumnSound
  imports Column
begin

text \<open>
  A column holds the values that were set at its end, one after the other: what it reads back is the value
  as its type stores it. The locale \<open>value_store\<close> is the contract chunks rely on.
\<close>

section \<open>What a column reads back\<close>

definition int_shown :: "jsnum \<Rightarrow> data_type \<Rightarrow> int \<Rightarrow> eval_value" where
  "int_shown scale t k =
     (if t = BOOLEAN then bool_value (k \<noteq> 0) else if t = DECIMAL then num_value (js_div (num_of_big k) scale)
      else if t = INT64 \<or> t = TIMESTAMP then Val (VBig k) else num_value (Fin (of_int k)))"

definition read_back :: "jsnum \<Rightarrow> data_type \<Rightarrow> column_value \<Rightarrow> eval_value" where
  "read_back scale t v =
     (if v = VNull then null_value
      else if t = VARCHAR then text_value (js_text (Val v))
      else if t = FLOAT64 then num_value (js_number (Val v))
      else case stored_int scale t v of Inr k \<Rightarrow> int_shown scale t k | Inl _ \<Rightarrow> Undef)"

text \<open>A text keeps its characters: it is well formed and does not begin with a byte order mark.\<close>

definition readable :: "data_type \<Rightarrow> column_value \<Rightarrow> bool" where
  "readable t v \<longleftrightarrow> (t = VARCHAR \<and> v \<noteq> VNull \<longrightarrow>
     well_formed (js_text (Val v)) \<and> (js_text (Val v) = [] \<or> hd (js_text (Val v)) \<noteq> 0xfeff))"

section \<open>Invariant\<close>

definition array_ok :: "data_type \<Rightarrow> nat \<Rightarrow> typed_array \<Rightarrow> bool" where
  "array_ok t n a \<longleftrightarrow> (case a of
       NumArray xs \<Rightarrow> t = FLOAT64 \<and> length xs = n
     | IntArray xs \<Rightarrow> t \<noteq> FLOAT64 \<and> length xs = n \<and> (t \<in> ENCODABLE_TYPES \<longrightarrow> list_all (in_range t) xs))"

lemma in_range_zero: "in_range t 0"
  by (simp add: integer_defs)

lemma wrap_signed_bounds: "- (2 ^ (n - 1)) \<le> wrap_signed n v" "0 < n \<Longrightarrow> wrap_signed n v < 2 ^ (n - 1)"
proof -
  have "0 \<le> (v + 2 ^ (n - 1)) mod 2 ^ n" "(v + 2 ^ (n - 1)) mod 2 ^ n < 2 ^ n" by simp_all
  moreover have "0 < n \<Longrightarrow> (2 :: int) ^ n = 2 ^ (n - 1) + 2 ^ (n - 1)" by (cases n) simp_all
  ultimately show "- (2 ^ (n - 1)) \<le> wrap_signed n v" "0 < n \<Longrightarrow> wrap_signed n v < 2 ^ (n - 1)"
    unfolding wrap_signed_def by linarith+
qed

lemma in_range_wrapped: "in_range INT64 (wrap_signed 64 k)" "in_range INT32 (wrap_signed 32 k)"
  using wrap_signed_bounds [of 64 k] wrap_signed_bounds [of 32 k] by (simp_all add: integer_defs)

lemma stored_in_range: "stored_int scale t v = Inr k \<Longrightarrow> t \<in> ENCODABLE_TYPES \<Longrightarrow> in_range t k"
  by (auto simp: stored_int_def ENCODABLE_TYPES_def in_range_wrapped to_int32_def bindE_Inr_iff split: column_value.splits)

lemma array_set_ok:
  assumes "array_set scale t (Some a) i v = Inr data" "array_ok t n a"
  shows "\<exists>b. data = Some b \<and> array_ok t n b"
proof (cases a)
  case (IntArray xs)
  then obtain k where k: "stored_int scale t v = Inr k" "data = Some (IntArray (xs[i := k]))"
    using assms(1) by (auto simp: array_set_def bindE_Inr_iff)
  have "list_all (in_range t) (xs[i := k])" if "t \<in> ENCODABLE_TYPES"
    using assms(2) IntArray that stored_in_range [OF k(1) that]
    by (auto simp: array_ok_def list_all_iff dest: set_update_subset_insert [THEN subsetD])
  then show ?thesis using assms(2) IntArray k by (auto simp: array_ok_def)
next
  case (NumArray xs)
  then show ?thesis using assms by (auto simp: array_set_def array_ok_def)
qed

definition strings_ok :: "column \<Rightarrow> bool" where
  "strings_ok c \<longleftrightarrow> length (c_offsets c) = c_capacity c + 1 \<and> c_offsets c ! c_length c = c_used c
     \<and> c_used c \<le> length (c_bytes c) \<and> 0 < length (c_bytes c)"

definition column_ok :: "column \<Rightarrow> bool" where
  "column_ok c \<longleftrightarrow> c_encoded c = None \<and> 0 < c_capacity c \<and> c_capacity c \<le> 2 ^ 31 \<and> c_length c \<le> c_capacity c
     \<and> c_capacity c \<le> 32 * length (c_nulls c)
     \<and> (if c_type c = VARCHAR then strings_ok c
        else \<exists>a. c_data c = Some a \<and> array_ok (c_type c) (c_capacity c) a)"

definition stored_at :: "jsnum \<Rightarrow> column \<Rightarrow> nat \<Rightarrow> column_value \<Rightarrow> bool" where
  "stored_at scale c i v \<longleftrightarrow> (case c_data c of
       Some (NumArray xs) \<Rightarrow> xs ! i = js_number (Val v)
     | Some (IntArray xs) \<Rightarrow> stored_int scale (c_type c) v = Inr (xs ! i)
     | None \<Rightarrow> False)"

definition string_at :: "column \<Rightarrow> nat \<Rightarrow> ustr \<Rightarrow> bool" where
  "string_at c i s \<longleftrightarrow> c_offsets c ! i \<le> c_offsets c ! (i + 1) \<and> c_offsets c ! (i + 1) \<le> c_used c
     \<and> take (c_offsets c ! (i + 1) - c_offsets c ! i) (drop (c_offsets c ! i) (c_bytes c)) = utf8_encode s"

definition column_value_at :: "jsnum \<Rightarrow> column \<Rightarrow> nat \<Rightarrow> column_value \<Rightarrow> bool" where
  "column_value_at scale c i v \<longleftrightarrow>
     (if v = VNull then c_hasNulls c \<and> \<not> testBit (c_nulls c) i
      else testBit (c_nulls c) i
        \<and> (if c_type c = VARCHAR then string_at c i (js_text (Val v)) else stored_at scale c i v))"

definition column_holds :: "jsnum \<Rightarrow> column \<Rightarrow> column_value list \<Rightarrow> bool" where
  "column_holds scale c vs \<longleftrightarrow> column_ok c \<and> c_length c = length vs \<and> (\<forall>i < length vs. column_value_at scale c i (vs ! i))"

lemma fixed_not_varchar: "isFixedWidth t \<longleftrightarrow> t \<noteq> VARCHAR"
  by (cases t) (simp_all add: isFixedWidth_def)

lemma column_new_holds:
  assumes "0 < n" "n \<le> 2 ^ 31"
  shows "column_holds scale (column_new t n) []"
proof -
  have "n \<le> 32 * bitmapWordCount n" by (simp add: bitmapWordCount_def)
  then show ?thesis
    using assms by (simp add: column_holds_def column_ok_def column_new_def fixed_not_varchar array_ok_def typedArrayFor_def
        strings_ok_def createBitmap_def STRING_INITIAL_BYTES_def list_all_length in_range_zero)
qed

lemma utf8_nonempty: "utf8_encode s = [] \<Longrightarrow> well_formed s \<Longrightarrow> s = [] \<or> hd s \<noteq> 0xfeff \<Longrightarrow> s = []"
  using utf8_decode_encode [of s] by (simp add: utf8_decode_def)

lemma column_holds_get:
  assumes "column_holds scale c vs" "i < length vs" "readable (c_type c) (vs ! i)"
  shows "column_get scale c i = read_back scale (c_type c) (vs ! i)"
proof (cases "vs ! i = VNull")
  case True
  then show ?thesis using assms(1,2) by (auto simp: column_holds_def column_value_at_def column_get_def read_back_def)
next
  case False
  have ok: "column_ok c" "column_value_at scale c i (vs ! i)" "i < c_capacity c" "c_encoded c = None"
    using assms by (auto simp: column_holds_def column_ok_def)
  have bit: "testBit (c_nulls c) i" using ok(2) False by (simp add: column_value_at_def)
  show ?thesis
  proof (cases "c_type c = VARCHAR")
    case True
    then have s: "string_at c i (js_text (Val (vs ! i)))" "strings_ok c"
      using ok(1,2) False by (simp_all add: column_value_at_def column_ok_def)
    have r: "well_formed (js_text (Val (vs ! i)))" "js_text (Val (vs ! i)) = [] \<or> hd (js_text (Val (vs ! i))) \<noteq> 0xfeff"
      using assms(3) True False by (simp_all add: readable_def)
    have o1: "nth_opt (c_offsets c) i = Some (c_offsets c ! i)" "nth_opt (c_offsets c) (i + 1) = Some (c_offsets c ! (i + 1))"
      using s(2) ok(3) by (simp_all add: strings_ok_def nth_opt_def)
    have "column_getString c i = js_text (Val (vs ! i))"
    proof (cases "c_offsets c ! i = c_offsets c ! (i + 1)")
      case True
      then have "utf8_encode (js_text (Val (vs ! i))) = []" using s(1) by (simp add: string_at_def)
      then show ?thesis using utf8_nonempty [OF _ r] True o1 by (simp add: column_getString_def)
    next
      case False
      then show ?thesis
        using s(1) o1 utf8_decode_encode [OF r] by (simp add: column_getString_def string_at_def)
    qed
    then show ?thesis using True False bit ok(4) by (simp add: column_get_def read_back_def)
  next
    case False
    then obtain a where a: "c_data c = Some a" "array_ok (c_type c) (c_capacity c) a"
      using ok(1) by (auto simp: column_ok_def)
    have st: "stored_at scale c i (vs ! i)" using ok(2) False \<open>vs ! i \<noteq> VNull\<close> by (simp add: column_value_at_def)
    show ?thesis
    proof (cases a)
      case (NumArray xs)
      then show ?thesis using a st False \<open>vs ! i \<noteq> VNull\<close> bit ok(3,4)
        by (auto simp: column_get_def read_back_def element_def nth_opt_def array_ok_def stored_at_def Let_def)
    next
      case (IntArray xs)
      then have "column_get scale c i = int_shown scale (c_type c) (xs ! i)"
        using a False bit ok(3,4) by (auto simp: column_get_def element_def nth_opt_def array_ok_def int_shown_def Let_def js_eq_def)
      moreover have "read_back scale (c_type c) (vs ! i) = int_shown scale (c_type c) (xs ! i)"
        using IntArray a st False \<open>vs ! i \<noteq> VNull\<close> by (simp add: read_back_def stored_at_def array_ok_def)
      ultimately show ?thesis by simp
    qed
  qed
qed

section \<open>Setting the next value\<close>

lemma bits_small: "column_ok c \<Longrightarrow> i < c_capacity c \<Longrightarrow> i < 2 ^ 32 \<and> i < 32 * length (c_nulls c)"
  by (auto simp: column_ok_def)

lemma column_value_at_cong:
  assumes "column_value_at scale c i v" "c_type c' = c_type c" "testBit (c_nulls c') i = testBit (c_nulls c) i"
    and "c_hasNulls c \<longrightarrow> c_hasNulls c'"
    and "c_type c = VARCHAR \<Longrightarrow> string_at c i (js_text (Val v)) \<Longrightarrow> string_at c' i (js_text (Val v))"
    and "c_type c \<noteq> VARCHAR \<Longrightarrow> stored_at scale c i v \<Longrightarrow> stored_at scale c' i v"
  shows "column_value_at scale c' i v"
  using assms by (auto simp: column_value_at_def split: if_splits)

lemma column_set_null_holds:
  assumes "column_holds scale c vs" "length vs < c_capacity c"
  shows "column_holds scale (column_setNull (length vs) c) (vs @ [VNull])"
proof -
  let ?n = "length vs" and ?c = "column_setNull (length vs) c"
  have ok: "column_ok c" "c_length c = ?n" and at: "\<And>i. i < ?n \<Longrightarrow> column_value_at scale c i (vs ! i)"
    using assms(1) by (auto simp: column_holds_def)
  have fields: "c_type ?c = c_type c" "c_capacity ?c = c_capacity c" "c_length ?c = ?n + 1" "c_encoded ?c = c_encoded c"
      "c_data ?c = c_data c" "c_bytes ?c = c_bytes c" "c_used ?c = c_used c" "c_nulls ?c = clearBit (c_nulls c) ?n" "c_hasNulls ?c"
      "c_offsets ?c = (if c_type c = VARCHAR then (c_offsets c)[?n + 1 := c_offsets c ! ?n] else c_offsets c)"
    using ok assms(2)
    by (auto simp: column_setNull_def column_bump_def Let_def nth_opt_def column_ok_def strings_ok_def)
  have str: "c_type c = VARCHAR \<Longrightarrow> strings_ok c" using ok(1) by (simp add: column_ok_def)
  have "column_ok ?c"
    using ok assms(2) str by (auto simp: column_ok_def fields strings_ok_def)
  moreover have "column_value_at scale ?c i ((vs @ [VNull]) ! i)" if i: "i < Suc ?n" for i
  proof (cases "i = ?n")
    case True
    then show ?thesis using bits_small [OF ok(1) assms(2)] by (simp add: column_value_at_def fields testBit_clearBit)
  next
    case False
    then have "i < ?n" using i by simp
    then have bit: "testBit (clearBit (c_nulls c) ?n) i = testBit (c_nulls c) i"
      using bits_small [OF ok(1) assms(2)] bits_small [OF ok(1), of i] assms(2) by (subst testBit_clearBit) auto
    have "column_value_at scale ?c i (vs ! i)"
      by (rule column_value_at_cong [OF at [OF \<open>i < ?n\<close>]])
        (use \<open>i < ?n\<close> bit in \<open>auto simp: fields string_at_def stored_at_def split: option.splits typed_array.splits\<close>)
    then show ?thesis using \<open>i < ?n\<close> by (simp add: nth_append)
  qed
  ultimately show ?thesis by (simp add: column_holds_def fields)
qed

lemma grow_bytes_some:
  assumes "0 < length bytes"
  shows "\<exists>more. grow_bytes needed bytes = Some (bytes @ more) \<and> needed \<le> length (bytes @ more)"
  using assms
proof (induction "needed - length bytes" arbitrary: bytes rule: less_induct)
  case less
  show ?case
  proof (cases "length bytes < needed")
    case True
    let ?b = "bytes @ replicate (length bytes) 0"
    have "needed - length ?b < needed - length bytes" "0 < length ?b"
      using less.prems True unfolding length_append length_replicate by linarith+
    from less.hyps [OF this] obtain more where "grow_bytes needed ?b = Some (?b @ more)" "needed \<le> length (?b @ more)"
      by blast
    then show ?thesis using True by (subst grow_bytes.simps) auto
  next
    case False
    then show ?thesis by (subst grow_bytes.simps) (auto intro: exI [of _ "[]"])
  qed
qed

lemma take_drop_append: "a + n \<le> length xs \<Longrightarrow> take n (drop a (xs @ ys)) = take n (drop a xs)"
  by simp

lemma string_at_kept:
  assumes "string_at c i s" "i < n" "n < length (c_offsets c)" "c_used c \<le> length (c_bytes c)"
    and "c_offsets c' = (c_offsets c)[n := c_used c, n + 1 := u]" "c_offsets c ! n = c_used c" "c_used c \<le> c_used c'"
    and "take (c_used c) (c_bytes c') = take (c_used c) (c_bytes c)"
  shows "string_at c' i s"
proof -
  have o: "c_offsets c' ! i = c_offsets c ! i" "c_offsets c' ! (i + 1) = c_offsets c ! (i + 1)"
    using assms(2,3,5,6) by (auto simp: nth_list_update)
  let ?a = "c_offsets c ! i" and ?b = "c_offsets c ! (i + 1)"
  have le: "?a \<le> ?b" "?b \<le> c_used c" using assms(1) by (simp_all add: string_at_def)
  have "take (?b - ?a) (drop ?a bs) = take (?b - ?a) (drop ?a (take (c_used c) bs))" for bs :: "byte list"
    using le by (simp add: drop_take min_def)
  then have "take (?b - ?a) (drop ?a (c_bytes c')) = take (?b - ?a) (drop ?a (c_bytes c))"
    using assms(8) by metis
  then show ?thesis using assms(1,7) le o by (simp add: string_at_def)
qed

lemma column_set_text_holds:
  assumes "column_holds scale c vs" "length vs < c_capacity c" "c_type c = VARCHAR" "v \<noteq> VNull"
    and "column_set scale (length vs) v c = Inr c'"
  shows "column_holds scale c' (vs @ [v])"
proof -
  let ?n = "length vs" and ?s = "utf8_encode (js_text (Val v))"
  have ok: "column_ok c" "c_length c = ?n" and at: "\<And>i. i < ?n \<Longrightarrow> column_value_at scale c i (vs ! i)"
    using assms(1) by (auto simp: column_holds_def)
  have str: "length (c_offsets c) = c_capacity c + 1" "c_offsets c ! ?n = c_used c" "c_used c \<le> length (c_bytes c)"
      "0 < length (c_bytes c)"
    using ok assms(3) by (auto simp: column_ok_def strings_ok_def)
  obtain more where g: "grow_bytes (c_used c + length ?s) (c_bytes c) = Some (c_bytes c @ more)"
      "c_used c + length ?s \<le> length (c_bytes c @ more)"
    using grow_bytes_some [OF str(4)] by blast
  let ?bytes = "take (c_used c) (c_bytes c @ more) @ ?s @ drop (c_used c + length ?s) (c_bytes c @ more)"
  have c': "c' = c\<lparr>c_nulls := setBit (c_nulls c) ?n, c_offsets := (c_offsets c)[?n := c_used c, ?n + 1 := c_used c + length ?s],
      c_bytes := ?bytes, c_used := c_used c + length ?s, c_length := ?n + 1\<rparr>"
    using assms(3-5) g(1) ok(2) by (auto simp: column_set_def column_setString_def column_bump_def Let_def)
  have pre: "take (c_used c) ?bytes = take (c_used c) (c_bytes c)" using str(3) by simp
  have len: "length ?bytes = length (c_bytes c @ more)" using str(3) g(2) by simp
  have "strings_ok c'"
  proof -
    have "length (c_bytes c') = length (c_bytes c @ more)" unfolding len [symmetric] by (simp add: c')
    moreover have "c_offsets c' ! c_length c' = c_used c'" "length (c_offsets c') = c_capacity c' + 1"
        "c_used c' = c_used c + length ?s"
      using str(1) assms(2) by (simp_all add: c')
    moreover have "0 < length (c_bytes c @ more)" using str(4) by simp
    ultimately show ?thesis using g(2) unfolding strings_ok_def by argo
  qed
  then have "column_ok c'" using ok assms(2,3) by (simp add: column_ok_def c')
  moreover have "column_value_at scale c' i ((vs @ [v]) ! i)" if i: "i < Suc ?n" for i
  proof (cases "i = ?n")
    case True
    have "string_at c' ?n (js_text (Val v))"
      using str assms(2) by (simp add: string_at_def c' nth_list_update)
    then show ?thesis
      using True assms(3,4) bits_small [OF ok(1) assms(2)] by (simp add: column_value_at_def c' testBit_setBit)
  next
    case False
    then have "i < ?n" using i by simp
    then have bit: "testBit (setBit (c_nulls c) ?n) i = testBit (c_nulls c) i"
      using bits_small [OF ok(1) assms(2)] bits_small [OF ok(1), of i] assms(2) by (subst testBit_setBit) auto
    have "column_value_at scale c' i (vs ! i)"
    proof (rule column_value_at_cong [OF at [OF \<open>i < ?n\<close>]])
      show "string_at c' i (js_text (Val (vs ! i)))" if "string_at c i (js_text (Val (vs ! i)))"
        by (rule string_at_kept [OF that \<open>i < ?n\<close>])
          (use str pre assms(2) in \<open>simp_all add: c'\<close>)
    qed (use bit assms(3) in \<open>simp_all add: c'\<close>)
    then show ?thesis using \<open>i < ?n\<close> by (simp add: nth_append)
  qed
  ultimately show ?thesis using ok by (simp add: column_holds_def c')
qed

lemma column_set_fixed_holds:
  assumes "column_holds scale c vs" "length vs < c_capacity c" "c_type c \<noteq> VARCHAR" "v \<noteq> VNull"
    and "column_set scale (length vs) v c = Inr c'"
  shows "column_holds scale c' (vs @ [v])"
proof -
  let ?n = "length vs"
  have ok: "column_ok c" "c_length c = ?n" "c_encoded c = None" and at: "\<And>i. i < ?n \<Longrightarrow> column_value_at scale c i (vs ! i)"
    using assms(1) by (auto simp: column_holds_def column_ok_def)
  obtain a where a: "c_data c = Some a" "array_ok (c_type c) (c_capacity c) a"
    using ok(1) assms(3) by (auto simp: column_ok_def)
  obtain data where d: "array_set scale (c_type c) (Some a) ?n v = Inr data"
      "c' = c\<lparr>c_nulls := setBit (c_nulls c) ?n, c_data := data, c_length := ?n + 1\<rparr>"
    using assms(3-5) ok a by (auto simp: column_set_def column_decoded_def column_bump_def Let_def bindE_Inr_iff)
  obtain b where b: "data = Some b" "array_ok (c_type c) (c_capacity c) b"
      "stored_at scale c' ?n v" "\<And>i w. i < ?n \<Longrightarrow> stored_at scale c i w \<Longrightarrow> stored_at scale c' i w"
  proof -
    obtain b where "data = Some b" "array_ok (c_type c) (c_capacity c) b" using array_set_ok [OF d(1) a(2)] by blast
    moreover have "stored_at scale c' ?n v \<and> (\<forall>i w. i < ?n \<longrightarrow> stored_at scale c i w \<longrightarrow> stored_at scale c' i w)"
      using d a assms(2) by (cases a) (auto simp: array_set_def array_ok_def stored_at_def bindE_Inr_iff)
    ultimately show ?thesis using that by blast
  qed
  have "column_ok c'" using ok assms(2,3) b by (simp add: column_ok_def d(2))
  moreover have "column_value_at scale c' i ((vs @ [v]) ! i)" if i: "i < Suc ?n" for i
  proof (cases "i = ?n")
    case True
    then show ?thesis
      using assms(3,4) bits_small [OF ok(1) assms(2)] b(3) by (simp add: column_value_at_def d(2) testBit_setBit)
  next
    case False
    then have "i < ?n" using i by simp
    then have bit: "testBit (setBit (c_nulls c) ?n) i = testBit (c_nulls c) i"
      using bits_small [OF ok(1) assms(2)] bits_small [OF ok(1), of i] assms(2) by (subst testBit_setBit) auto
    have "column_value_at scale c' i (vs ! i)"
      by (rule column_value_at_cong [OF at [OF \<open>i < ?n\<close>]])
        (use bit assms(3) b(4) \<open>i < ?n\<close> in \<open>simp_all add: d(2)\<close>)
    then show ?thesis using \<open>i < ?n\<close> by (simp add: nth_append)
  qed
  ultimately show ?thesis using ok by (simp add: column_holds_def d(2))
qed

lemma column_set_holds:
  assumes "column_holds scale c vs" "length vs < c_capacity c" "column_set scale (length vs) v c = Inr c'"
  shows "column_holds scale c' (vs @ [v])" "c_type c' = c_type c" "c_capacity c' = c_capacity c"
proof -
  show "column_holds scale c' (vs @ [v])"
  proof (cases "v = VNull")
    case True
    then show ?thesis using column_set_null_holds [OF assms(1,2)] assms(3) by (simp add: column_set_def)
  next
    case False
    then show ?thesis
      using column_set_text_holds [OF assms(1,2) _ False assms(3)] column_set_fixed_holds [OF assms(1,2) _ False assms(3)]
      by blast
  qed
  show "c_type c' = c_type c" "c_capacity c' = c_capacity c"
    using assms(3)
    by (auto simp: column_set_def column_setNull_def column_setString_def column_decoded_def column_bump_def Let_def
        bindE_Inr_iff split: if_splits option.splits)
qed

section \<open>Appending\<close>

lemma testBit_copied:
  "i < 32 * length old \<Longrightarrow> i < 2 ^ 32 \<Longrightarrow> testBit (copied old fresh) i = testBit old i"
  by (simp add: testBit_bit word_at_def copied_def nth_append less_mult_imp_div_less mult.commute)

lemma nth_copied: "i < length old \<Longrightarrow> copied old fresh ! i = old ! i"
  by (simp add: copied_def nth_append)

lemma length_copied: "length old \<le> length fresh \<Longrightarrow> length (copied old fresh) = length fresh"
  by (simp add: copied_def)

lemma column_grow_holds:
  assumes "column_holds scale c vs" "c_capacity c \<le> 2 ^ 30"
  shows "column_holds scale (column_grow c) vs" "c_capacity (column_grow c) = 2 * c_capacity c"
    "c_type (column_grow c) = c_type c"
proof -
  let ?g = "column_grow c" and ?n = "length vs"
  have ok: "column_ok c" "c_length c = ?n" "c_encoded c = None" and at: "\<And>i. i < ?n \<Longrightarrow> column_value_at scale c i (vs ! i)"
    using assms(1) by (auto simp: column_holds_def column_ok_def)
  have fields: "c_type ?g = c_type c" "c_capacity ?g = 2 * c_capacity c" "c_length ?g = c_length c" "c_encoded ?g = None"
      "c_bytes ?g = c_bytes c" "c_used ?g = c_used c" "c_hasNulls ?g = c_hasNulls c"
      "c_nulls ?g = copied (c_nulls c) (createBitmap (c_capacity c * 2))"
      "c_type c = VARCHAR \<Longrightarrow> c_offsets ?g = copied (c_offsets c) (replicate (c_capacity c * 2 + 1) 0)"
      "c_type c \<noteq> VARCHAR \<Longrightarrow> c_data ?g = Some (copied_array (c_data c) (typedArrayFor (c_type c) (c_capacity c * 2)))"
    using ok(3) by (auto simp: column_grow_def Let_def fixed_not_varchar column_decoded_def)
  have bits: "testBit (c_nulls ?g) i = testBit (c_nulls c) i" if "i < ?n" for i
    using bits_small [OF ok(1), of i] ok that by (simp add: fields testBit_copied column_ok_def)
  have nulls: "2 * c_capacity c \<le> 32 * length (c_nulls ?g)"
    by (simp add: fields copied_def createBitmap_def bitmapWordCount_def)
  show "c_capacity ?g = 2 * c_capacity c" "c_type ?g = c_type c" by (simp_all add: fields)
  show "column_holds scale ?g vs"
  proof (cases "c_type c = VARCHAR")
    case True
    then have s: "strings_ok c" using ok(1) by (simp add: column_ok_def)
    have o: "c_offsets ?g ! i = c_offsets c ! i" if "i \<le> c_capacity c" for i
      using s that True by (simp add: fields nth_copied strings_ok_def)
    have "strings_ok ?g"
      using s o [of "c_length c"] ok True by (simp add: strings_ok_def fields length_copied column_ok_def)
    then have "column_ok ?g" using ok assms(2) True nulls by (simp add: column_ok_def fields)
    moreover have "column_value_at scale ?g i (vs ! i)" if "i < ?n" for i
      by (rule column_value_at_cong [OF at [OF that]])
        (use bits [OF that] that ok True o [of i] o [of "i + 1"] in \<open>auto simp: fields string_at_def column_ok_def\<close>)
    ultimately show ?thesis using ok by (simp add: column_holds_def fields)
  next
    case False
    then obtain a where a: "c_data c = Some a" "array_ok (c_type c) (c_capacity c) a"
      using ok(1) by (auto simp: column_ok_def)
    let ?b = "copied_array (c_data c) (typedArrayFor (c_type c) (c_capacity c * 2))"
    have b: "array_ok (c_type c) (2 * c_capacity c) ?b"
      using a by (cases a) (auto simp: array_ok_def typedArrayFor_def length_copied mult.commute copied_def
          list_all_length nth_append in_range_zero)
    then have "column_ok ?g" using ok assms(2) False nulls by (simp add: column_ok_def fields)
    moreover have "column_value_at scale ?g i (vs ! i)" if "i < ?n" for i
    proof (rule column_value_at_cong [OF at [OF that]])
      show "stored_at scale ?g i (vs ! i)" if "stored_at scale c i (vs ! i)"
        using that a False \<open>i < ?n\<close> ok
        by (cases a) (auto simp: stored_at_def fields array_ok_def typedArrayFor_def nth_copied column_ok_def)
    qed (use bits [OF that] False in \<open>auto simp: fields\<close>)
    ultimately show ?thesis using ok by (simp add: column_holds_def fields)
  qed
qed

lemma column_append_holds:
  assumes "column_holds scale c vs" "length vs < 2 ^ 30" "column_append scale v c = Inr c'"
  shows "column_holds scale c' (vs @ [v])" "c_type c' = c_type c"
proof -
  let ?c = "if c_capacity c \<le> c_length c then column_grow c else c"
  have len: "c_length c = length vs" "c_capacity c > 0" "c_length c \<le> c_capacity c"
    using assms(1) by (auto simp: column_holds_def column_ok_def)
  have h: "column_holds scale ?c vs" "length vs < c_capacity ?c" "c_type ?c = c_type c" "c_length ?c = length vs"
    using assms(1,2) len column_grow_holds [OF assms(1)] by (auto simp: column_holds_def)
  have s: "column_set scale (length vs) v ?c = Inr c'"
    using assms(3) h(4) by (simp add: column_append_def Let_def)
  show "column_holds scale c' (vs @ [v])" "c_type c' = c_type c"
    using column_set_holds [OF h(1,2) s] h(3) by simp_all
qed

section \<open>The contract of a column\<close>

text \<open>
  What a chunk asks of its columns: setting the value after the last keeps the earlier ones, and what was
  set is read back as the column shows it. A value the column does not accept may read differently.
\<close>

locale value_store =
  fixes set_value :: "nat \<Rightarrow> column_value \<Rightarrow> 'c \<Rightarrow> column_error + 'c"
    and get_value :: "'c \<Rightarrow> nat \<Rightarrow> eval_value"
    and capacity :: "'c \<Rightarrow> nat"
    and holds :: "'c \<Rightarrow> column_value list \<Rightarrow> bool"
    and shown :: "'c \<Rightarrow> column_value \<Rightarrow> eval_value"
    and accepts :: "'c \<Rightarrow> column_value \<Rightarrow> bool"
  assumes get_law: "holds c vs \<Longrightarrow> i < length vs \<Longrightarrow> accepts c (vs ! i) \<Longrightarrow> get_value c i = shown c (vs ! i)"
    and set_law: "holds c vs \<Longrightarrow> length vs < capacity c \<Longrightarrow> set_value (length vs) v c = Inr c' \<Longrightarrow> holds c' (vs @ [v])"
    and set_same: "holds c vs \<Longrightarrow> length vs < capacity c \<Longrightarrow> set_value (length vs) v c = Inr c'
      \<Longrightarrow> capacity c' = capacity c \<and> shown c' = shown c \<and> accepts c' = accepts c"

text \<open>One value into each column, at the same position; the columns beyond the row are left alone.\<close>

fun set_row :: "(nat \<Rightarrow> 'v \<Rightarrow> 'c \<Rightarrow> column_error + 'c) \<Rightarrow> nat \<Rightarrow> 'v list \<Rightarrow> 'c list \<Rightarrow> column_error + 'c list" where
  "set_row set_value n [] cs = Inr cs"
| "set_row set_value n (v # vs) [] = Inl NoSuchColumn"
| "set_row set_value n (v # vs) (c # cs) =
     bindE (set_value n v c) (\<lambda>c'. bindE (set_row set_value n vs cs) (\<lambda>cs'. Inr (c' # cs')))"

context value_store begin

definition filled :: "nat \<Rightarrow> 'c \<Rightarrow> column_value list \<Rightarrow> bool" where
  "filled n c vs \<longleftrightarrow> holds c vs \<and> length vs = n"

lemma set_row_filled:
  "list_all2 (filled n) cs vss \<Longrightarrow> \<forall>c \<in> set cs. n < capacity c \<Longrightarrow> length row = length cs
    \<Longrightarrow> set_row set_value n row cs = Inr cs'
    \<Longrightarrow> list_all2 (filled (Suc n)) cs' (map2 (\<lambda>vs v. vs @ [v]) vss row)
      \<and> map capacity cs' = map capacity cs \<and> map shown cs' = map shown cs \<and> map accepts cs' = map accepts cs"
proof (induction cs vss arbitrary: row cs' rule: list_all2_induct)
  case (Cons c cs vs vss)
  then obtain v row' where row: "row = v # row'" by (cases row) auto
  then obtain d ds where d: "set_value n v c = Inr d" "set_row set_value n row' cs = Inr ds" "cs' = d # ds"
    using Cons.prems(3) by (auto simp: bindE_Inr_iff)
  have c: "holds c vs" "length vs < capacity c" "set_value (length vs) v c = Inr d"
    using Cons.hyps(1) Cons.prems(1) d(1) by (auto simp: filled_def)
  show ?case
    using Cons.IH [OF _ _ d(2)] Cons.prems row set_law [OF c] set_same [OF c] Cons.hyps(1)
    by (auto simp: d(3) filled_def)
qed (auto dest: sym)

lemma filled_get: "filled n c vs \<Longrightarrow> i < n \<Longrightarrow> accepts c (vs ! i) \<Longrightarrow> get_value c i = shown c (vs ! i)"
  using get_law by (auto simp: filled_def)

end

text \<open>A plain column keeps the contract.\<close>

interpretation col: value_store "column_set scale" "column_get scale" c_capacity "column_holds scale"
  "\<lambda>c. read_back scale (c_type c)" "\<lambda>c. readable (c_type c)"
  for scale
proof
  show "column_get scale c i = read_back scale (c_type c) (vs ! i)"
    if "column_holds scale c vs" "i < length vs" "readable (c_type c) (vs ! i)" for c vs i
    using column_holds_get that by blast
  show "column_holds scale c' (vs @ [v])"
    and "c_capacity c' = c_capacity c \<and> read_back scale (c_type c') = read_back scale (c_type c)
      \<and> readable (c_type c') = readable (c_type c)"
    if "column_holds scale c vs" "length vs < c_capacity c" "column_set scale (length vs) v c = Inr c'" for c vs v c'
    using column_set_holds [OF that] by simp_all
qed

end
