(* ===== verification/DictionaryColumn.thy ===== *)
theory DictionaryColumn
  imports ColumnSound
begin

text \<open>
  \<open>storage/dictionary-column.ts\<close>: a VARCHAR column as 16-bit indices into the list of its distinct values.
  The dictionary is a \<open>Map\<close> from values to indices, rebuilt from the list when it is missing. A view shares
  the arrays and is only read. A slice shares dictionary and list with its column; both only grow.
\<close>

record dict_column =
  d_capacity :: nat
  d_length :: nat
  d_dictionary :: "(column_value \<times> nat) list option"
  d_reverse :: "column_value list"
  d_indices :: "nat list"
  d_nulls :: "32 word list"
  d_hasNulls :: bool

definition MAX_DICT_SIZE :: nat where "MAX_DICT_SIZE = 65535"

definition dict_new :: "nat \<Rightarrow> dict_column" where
  "dict_new capacity = \<lparr>d_capacity = capacity, d_length = 0, d_dictionary = Some [], d_reverse = [],
     d_indices = replicate capacity 0, d_nulls = createBitmap capacity, d_hasNulls = False\<rparr>"

definition dict_fromParts :: "nat list \<Rightarrow> column_value list \<Rightarrow> 32 word list \<Rightarrow> nat \<Rightarrow> bool \<Rightarrow> dict_column" where
  "dict_fromParts indices reverse nulls len hasNulls = \<lparr>d_capacity = len, d_length = len, d_dictionary = None,
     d_reverse = reverse, d_indices = indices, d_nulls = nulls, d_hasNulls = hasNulls\<rparr>"

definition dict_scanView :: "dict_column \<Rightarrow> dict_column" where
  "dict_scanView d = d"

text \<open>The getter \<open>dictionary\<close>: later entries of the \<open>Map\<close> constructor win.\<close>

definition dictionary_of :: "dict_column \<Rightarrow> (column_value \<times> nat) list" where
  "dictionary_of d = (case d_dictionary d of
       Some m \<Rightarrow> m
     | None \<Rightarrow> rev (zip (d_reverse d) [0..<length (d_reverse d)]))"

definition dict_get :: "dict_column \<Rightarrow> nat \<Rightarrow> eval_value" where
  "dict_get d i =
     (if d_hasNulls d \<and> \<not> testBit (d_nulls d) i then null_value
      else case nth_opt (d_indices d) i of
          None \<Rightarrow> Undef
        | Some k \<Rightarrow> (case nth_opt (d_reverse d) k of None \<Rightarrow> Undef | Some v \<Rightarrow> Val v))"

definition dict_isNull :: "dict_column \<Rightarrow> nat \<Rightarrow> bool" where
  "dict_isNull d i \<longleftrightarrow> d_hasNulls d \<and> \<not> testBit (d_nulls d) i"

definition dict_bump :: "nat \<Rightarrow> dict_column \<Rightarrow> dict_column" where
  "dict_bump i d = (if d_length d \<le> i then d\<lparr>d_length := i + 1\<rparr> else d)"

definition dict_setNull :: "nat \<Rightarrow> dict_column \<Rightarrow> dict_column" where
  "dict_setNull i d = dict_bump i (d\<lparr>d_hasNulls := True, d_nulls := clearBit (d_nulls d) i\<rparr>)"

text \<open>The index of a value, and the column with the value in its dictionary.\<close>

definition dict_intern :: "column_value \<Rightarrow> dict_column \<Rightarrow> column_error + nat \<times> dict_column" where
  "dict_intern v d = (case map_of (dictionary_of d) v of
       Some k \<Rightarrow> Inr (k, d\<lparr>d_dictionary := Some (dictionary_of d)\<rparr>)
     | None \<Rightarrow> let k = length (d_reverse d)
         in if MAX_DICT_SIZE < k then Inl DictionaryFull
            else Inr (k, d\<lparr>d_dictionary := Some ((v, k) # dictionary_of d), d_reverse := d_reverse d @ [v]\<rparr>))"

definition dict_set :: "nat \<Rightarrow> column_value \<Rightarrow> dict_column \<Rightarrow> column_error + dict_column" where
  "dict_set i v d =
     (if v = VNull then Inr (dict_setNull i d)
      else bindE (dict_intern v (d\<lparr>d_nulls := setBit (d_nulls d) i\<rparr>)) (\<lambda>(k, d1).
             Inr (dict_bump i (d1\<lparr>d_indices := (d_indices d1)[i := k]\<rparr>))))"

definition dict_grow :: "dict_column \<Rightarrow> dict_column" where
  "dict_grow d =
     (let newCapacity = d_capacity d * 2
      in d\<lparr>d_indices := copied (d_indices d) (replicate newCapacity 0),
           d_nulls := copied (d_nulls d) (createBitmap newCapacity), d_capacity := newCapacity\<rparr>)"

definition dict_append :: "column_value \<Rightarrow> dict_column \<Rightarrow> column_error + dict_column" where
  "dict_append v d =
     (let d1 = (if d_capacity d \<le> d_length d then dict_grow d else d) in dict_set (d_length d1) v d1)"

fun dict_appendBatch :: "column_value list \<Rightarrow> dict_column \<Rightarrow> column_error + dict_column" where
  "dict_appendBatch [] d = Inr d"
| "dict_appendBatch (v # vs) d = bindE (dict_append v d) (dict_appendBatch vs)"

definition dict_slice :: "nat \<Rightarrow> nat \<Rightarrow> dict_column \<Rightarrow> dict_column" where
  "dict_slice start stop d =
     (let len = stop - start; fresh = dict_new len
      in fresh\<lparr>d_dictionary := Some (dictionary_of d), d_reverse := d_reverse d,
           d_indices := copied (take len (drop start (d_indices d))) (d_indices fresh),
           d_nulls := copied_bits (d_nulls d) start len (d_nulls fresh),
           d_length := len, d_hasNulls := d_hasNulls d\<rparr>)"

section \<open>What a dictionary column holds\<close>

text \<open>The dictionary is the inverse of the list, and every index points into the list.\<close>

definition dictionary_ok :: "dict_column \<Rightarrow> bool" where
  "dictionary_ok d \<longleftrightarrow> (\<forall>v k. map_of (dictionary_of d) v = Some k \<longleftrightarrow> k < length (d_reverse d) \<and> d_reverse d ! k = v)
     \<and> length (d_reverse d) \<le> MAX_DICT_SIZE + 1"

definition dict_ok :: "dict_column \<Rightarrow> bool" where
  "dict_ok d \<longleftrightarrow> dictionary_ok d \<and> 0 < d_capacity d \<and> d_capacity d \<le> 2 ^ 31 \<and> d_length d \<le> d_capacity d
     \<and> d_capacity d \<le> 32 * length (d_nulls d) \<and> length (d_indices d) = d_capacity d"

definition dict_value_at :: "dict_column \<Rightarrow> nat \<Rightarrow> column_value \<Rightarrow> bool" where
  "dict_value_at d i v \<longleftrightarrow>
     (if v = VNull then d_hasNulls d \<and> \<not> testBit (d_nulls d) i
      else testBit (d_nulls d) i \<and> d_indices d ! i < length (d_reverse d) \<and> d_reverse d ! (d_indices d ! i) = v)"

definition dict_holds :: "dict_column \<Rightarrow> column_value list \<Rightarrow> bool" where
  "dict_holds d vs \<longleftrightarrow> dict_ok d \<and> d_length d = length vs \<and> (\<forall>i < length vs. dict_value_at d i (vs ! i))"

lemma dictionary_ok_cong:
  "d_dictionary d' = d_dictionary d \<Longrightarrow> d_reverse d' = d_reverse d \<Longrightarrow> dictionary_ok d' = dictionary_ok d"
  by (simp add: dictionary_ok_def dictionary_of_def split: option.splits)

lemma dict_new_holds: "0 < n \<Longrightarrow> n \<le> 2 ^ 31 \<Longrightarrow> dict_holds (dict_new n) []"
proof -
  assume "0 < n" "n \<le> 2 ^ 31"
  moreover have "n \<le> 32 * bitmapWordCount n" by (simp add: bitmapWordCount_def)
  ultimately show ?thesis
    by (simp add: dict_holds_def dict_ok_def dictionary_ok_def dictionary_of_def dict_new_def createBitmap_def)
qed

lemma dict_holds_get:
  assumes "dict_holds d vs" "i < length vs"
  shows "dict_get d i = Val (vs ! i)"
  using assms by (auto simp: dict_holds_def dict_ok_def dict_value_at_def dict_get_def nth_opt_def split: if_splits)

lemma dict_bits_small: "dict_ok d \<Longrightarrow> i < d_capacity d \<Longrightarrow> i < 2 ^ 32 \<and> i < 32 * length (d_nulls d)"
  by (auto simp: dict_ok_def)

lemma dict_intern_ok:
  assumes "dictionary_ok d" "dict_intern v d = Inr (k, d')"
  shows "dictionary_ok d'" "k < length (d_reverse d')" "d_reverse d' ! k = v"
    "\<exists>more. d_reverse d' = d_reverse d @ more" "d_capacity d' = d_capacity d" "d_length d' = d_length d"
    "d_indices d' = d_indices d" "d_nulls d' = d_nulls d" "d_hasNulls d' = d_hasNulls d"
proof -
  have inv: "\<And>v k. map_of (dictionary_of d) v = Some k \<longleftrightarrow> k < length (d_reverse d) \<and> d_reverse d ! k = v"
    using assms(1) by (simp add: dictionary_ok_def)
  have a: "dictionary_ok d' \<and> k < length (d_reverse d') \<and> d_reverse d' ! k = v
      \<and> (\<exists>more. d_reverse d' = d_reverse d @ more) \<and> d_capacity d' = d_capacity d \<and> d_length d' = d_length d
      \<and> d_indices d' = d_indices d \<and> d_nulls d' = d_nulls d \<and> d_hasNulls d' = d_hasNulls d"
  proof (cases "map_of (dictionary_of d) v")
    case (Some j)
    then have "k = j" "d' = d\<lparr>d_dictionary := Some (dictionary_of d)\<rparr>"
      using assms(2) by (auto simp: dict_intern_def)
    then show ?thesis using assms(1) inv Some by (auto simp: dictionary_ok_def dictionary_of_def)
  next
    case None
    then have d': "k = length (d_reverse d)" "length (d_reverse d) \<le> MAX_DICT_SIZE"
        "d' = d\<lparr>d_dictionary := Some ((v, k) # dictionary_of d), d_reverse := d_reverse d @ [v]\<rparr>"
      using assms(2) by (auto simp: dict_intern_def Let_def split: if_splits)
    have fresh: "\<And>j. j < length (d_reverse d) \<Longrightarrow> d_reverse d ! j \<noteq> v" using inv [of v] None by auto
    have "map_of (dictionary_of d') w = Some j \<longleftrightarrow> j < length (d_reverse d') \<and> d_reverse d' ! j = w" for w j
      using inv [of w j] fresh d' by (auto simp: dictionary_of_def nth_append less_Suc_eq)
    then show ?thesis using d' by (auto simp: dictionary_ok_def)
  qed
  then show "dictionary_ok d'" "k < length (d_reverse d')" "d_reverse d' ! k = v"
    "\<exists>more. d_reverse d' = d_reverse d @ more" "d_capacity d' = d_capacity d" "d_length d' = d_length d"
    "d_indices d' = d_indices d" "d_nulls d' = d_nulls d" "d_hasNulls d' = d_hasNulls d" by blast+
qed

lemma dict_set_holds:
  assumes "dict_holds d vs" "length vs < d_capacity d" "dict_set (length vs) v d = Inr d'"
  shows "dict_holds d' (vs @ [v])" "d_capacity d' = d_capacity d"
proof -
  let ?n = "length vs"
  have ok: "dict_ok d" "d_length d = ?n" and at: "\<And>i. i < ?n \<Longrightarrow> dict_value_at d i (vs ! i)"
    using assms(1) by (auto simp: dict_holds_def)
  note n = dict_bits_small [OF ok(1) assms(2)]
  have small: "i < 2 ^ 32" if "i < ?n" for i using n that by linarith
  have "dict_holds d' (vs @ [v]) \<and> d_capacity d' = d_capacity d"
  proof (cases "v = VNull")
    case True
    then have d': "d' = d\<lparr>d_hasNulls := True, d_nulls := clearBit (d_nulls d) ?n, d_length := ?n + 1\<rparr>"
      using assms(3) ok(2) by (simp add: dict_set_def dict_setNull_def dict_bump_def)
    have "dict_ok d'" using ok assms(2) dictionary_ok_cong [of d' d] by (simp add: d' dict_ok_def)
    moreover have "dict_value_at d' i ((vs @ [v]) ! i)" if "i < Suc ?n" for i
    proof (cases "i = ?n")
      case True
      then show ?thesis using n \<open>v = VNull\<close> by (simp add: dict_value_at_def d' testBit_clearBit)
    next
      case False
      then have i: "i < ?n" using that by simp
      have "testBit (clearBit (d_nulls d) ?n) i = testBit (d_nulls d) i"
        using n small [OF i] False by (subst testBit_clearBit) auto
      then show ?thesis using at [OF i] i by (auto simp: dict_value_at_def d' nth_append split: if_splits)
    qed
    ultimately show ?thesis by (simp add: dict_holds_def d')
  next
    case False
    let ?d = "d\<lparr>d_nulls := setBit (d_nulls d) ?n\<rparr>"
    obtain k d1 where d1: "dict_intern v ?d = Inr (k, d1)" "d' = dict_bump ?n (d1\<lparr>d_indices := (d_indices d1)[?n := k]\<rparr>)"
      using assms(3) False by (auto simp: dict_set_def bindE_Inr_iff)
    have "dictionary_ok ?d" using ok(1) dictionary_ok_cong [of ?d d] by (simp add: dict_ok_def)
    note i = dict_intern_ok [OF this d1(1)]
    obtain more where more: "d_reverse d1 = d_reverse d @ more" using i(4) by auto
    have d': "d' = d1\<lparr>d_indices := (d_indices d1)[?n := k], d_length := ?n + 1\<rparr>"
      using d1(2) i(6) ok(2) by (simp add: dict_bump_def)
    have "dict_ok d'"
      using ok assms(2) i(1,5,7,8) dictionary_ok_cong [of d' d1] by (simp add: d' dict_ok_def)
    moreover have "dict_value_at d' j ((vs @ [v]) ! j)" if "j < Suc ?n" for j
    proof (cases "j = ?n")
      case True
      then show ?thesis using n False i(2,3,7,8) ok assms(2) by (simp add: dict_value_at_def d' testBit_setBit dict_ok_def)
    next
      case neq: False
      then have j: "j < ?n" using that by simp
      have "testBit (setBit (d_nulls d) ?n) j = testBit (d_nulls d) j"
        using n small [OF j] neq by (subst testBit_setBit) auto
      then show ?thesis using at [OF j] j neq i(7-9) more
        by (auto simp: dict_value_at_def d' nth_append split: if_splits)
    qed
    ultimately show ?thesis using i(5) by (simp add: dict_holds_def d')
  qed
  then show "dict_holds d' (vs @ [v])" "d_capacity d' = d_capacity d" by simp_all
qed

text \<open>A dictionary column keeps the contract, and reads every value back as it is.\<close>

interpretation dict: value_store dict_set dict_get d_capacity dict_holds "\<lambda>d. Val" "\<lambda>d v. True"
  by unfold_locales (rule dict_holds_get, assumption+, rule dict_set_holds(1), assumption+, simp add: dict_set_holds(2))

end
