(* ===== verification/ZoneMap.thy ===== *)
theory ZoneMap
  imports ExpressionEval
begin

text \<open>
  Chunk statistics and pruning: \<open>storage/zone-map.ts\<close> summarises each column of a chunk as a range and a
  null flag, and \<open>execution/zone-map-pruner.ts\<close> evaluates a predicate on that summary to the set of truth
  values its rows may have. A chunk without TRUE in that set is skipped.
\<close>

section \<open>Zone maps\<close>

record column_zone =
  cz_range :: "(column_value \<times> column_value) option"
  cz_hasNulls :: bool

record chunk_zone =
  zm_rowCount :: nat
  zm_columns :: "column_zone list"

definition isBefore :: "column_value \<Rightarrow> column_value \<Rightarrow> bool" where
  "isBefore left right = (case (left, right) of
       (VBig i, VBig j) \<Rightarrow> i < j
     | (VStr s, _) \<Rightarrow> ustr_lt (js_text (Val left)) (js_text (Val right))
     | (_, VStr t) \<Rightarrow> ustr_lt (js_text (Val left)) (js_text (Val right))
     | _ \<Rightarrow> js_lt (js_number (Val left)) (js_number (Val right)))"

text \<open>One round of the loop of \<open>summarizeColumn\<close>.\<close>

definition summarize_value :: "column_value \<Rightarrow> column_zone \<Rightarrow> column_zone" where
  "summarize_value v z =
     (if v = VNull then z\<lparr>cz_hasNulls := True\<rparr>
      else case cz_range z of
          None \<Rightarrow> z\<lparr>cz_range := Some (v, v)\<rparr>
        | Some (lo, hi) \<Rightarrow> if isBefore v lo then z\<lparr>cz_range := Some (v, hi)\<rparr>
            else if isBefore hi v then z\<lparr>cz_range := Some (lo, v)\<rparr> else z)"

text \<open>A column is read through its \<open>get\<close>, at the selected rows when there is a selection.\<close>

definition selected_row :: "nat list option \<Rightarrow> nat \<Rightarrow> nat" where
  "selected_row selection i = (case selection of None \<Rightarrow> i | Some sel \<Rightarrow> sel ! i)"

definition summarizeColumn :: "(nat \<Rightarrow> column_value) \<Rightarrow> nat \<Rightarrow> nat list option \<Rightarrow> column_zone" where
  "summarizeColumn get count selection =
     fold (\<lambda>i. summarize_value (get (selected_row selection i))) [0..<count] \<lparr>cz_range = None, cz_hasNulls = False\<rparr>"

definition buildChunkZoneMap :: "(nat \<Rightarrow> column_value) list \<Rightarrow> nat \<Rightarrow> nat list option \<Rightarrow> chunk_zone" where
  "buildChunkZoneMap columns count selection =
     \<lparr>zm_rowCount = count, zm_columns = map (\<lambda>get. summarizeColumn get count selection) columns\<rparr>"

section \<open>Truth sets\<close>

type_synonym truth_set = "3 word"

definition IS_TRUE :: truth_set where "IS_TRUE = 1"
definition IS_FALSE :: truth_set where "IS_FALSE = 2"
definition IS_UNKNOWN :: truth_set where "IS_UNKNOWN = 4"
definition ANY_TRUTH :: truth_set where "ANY_TRUTH = IS_TRUE OR IS_FALSE OR IS_UNKNOWN"
definition NO_TRUTH :: truth_set where "NO_TRUTH = 0"

definition may :: "truth_set \<Rightarrow> truth_set \<Rightarrow> bool" where
  "may ts k \<longleftrightarrow> ts AND k \<noteq> 0"

definition truthOf :: "bool \<Rightarrow> bool \<Rightarrow> bool \<Rightarrow> truth_set" where
  "truthOf possiblyTrue possiblyFalse possiblyUnknown =
     (if possiblyTrue then IS_TRUE else 0) OR (if possiblyFalse then IS_FALSE else 0)
       OR (if possiblyUnknown then IS_UNKNOWN else 0)"

definition kleeneNot :: "truth_set \<Rightarrow> truth_set" where
  "kleeneNot x = truthOf (may x IS_FALSE) (may x IS_TRUE) (may x IS_UNKNOWN)"

definition kleeneAnd :: "truth_set \<Rightarrow> truth_set \<Rightarrow> truth_set" where
  "kleeneAnd l r =
     (let unknown = may l IS_UNKNOWN \<and> may r (IS_TRUE OR IS_UNKNOWN) \<or> may r IS_UNKNOWN \<and> may l (IS_TRUE OR IS_UNKNOWN)
      in truthOf (may l IS_TRUE \<and> may r IS_TRUE) (may l IS_FALSE \<or> may r IS_FALSE) unknown)"

definition kleeneOr :: "truth_set \<Rightarrow> truth_set \<Rightarrow> truth_set" where
  "kleeneOr l r =
     (let unknown = may l IS_UNKNOWN \<and> may r (IS_FALSE OR IS_UNKNOWN) \<or> may r IS_UNKNOWN \<and> may l (IS_FALSE OR IS_UNKNOWN)
      in truthOf (may l IS_TRUE \<or> may r IS_TRUE) (may l IS_FALSE \<and> may r IS_FALSE) unknown)"

section \<open>Comparables\<close>

definition comparableOf :: "column_value \<Rightarrow> column_value" where
  "comparableOf v = (case v of VBig i \<Rightarrow> VNum (num_of_big i) | _ \<Rightarrow> v)"

definition literalComparable :: "column_value \<Rightarrow> column_value option" where
  "literalComparable v = (if v = VNull then None else Some (comparableOf v))"

text \<open>\<open>None\<close> is NaN, the answer for values of different types.\<close>

definition compareComparable :: "column_value \<Rightarrow> column_value \<Rightarrow> int option" where
  "compareComparable left right = (case (left, right) of
       (VStr s, VStr t) \<Rightarrow> Some (if ustr_lt s t then - 1 else if ustr_lt t s then 1 else 0)
     | (VNum a, VNum b) \<Rightarrow> Some (if js_lt a b then - 1 else if js_lt b a then 1 else 0)
     | (VBool a, VBool b) \<Rightarrow> Some (if a = b then 0 else if a then 1 else - 1)
     | _ \<Rightarrow> None)"

type_synonym range_rule = "(int \<Rightarrow> int \<Rightarrow> bool) \<times> (int \<Rightarrow> int \<Rightarrow> bool)"

definition RANGE_RULES :: "(string \<times> range_rule) list" where
  "RANGE_RULES =
     [(''='', (\<lambda>lo hi. lo \<le> 0 \<and> 0 \<le> hi, \<lambda>lo hi. \<not> (lo = 0 \<and> hi = 0))),
      (''<>'', (\<lambda>lo hi. \<not> (lo = 0 \<and> hi = 0), \<lambda>lo hi. lo \<le> 0 \<and> 0 \<le> hi)),
      (''<'', (\<lambda>lo hi. lo < 0, \<lambda>lo hi. 0 \<le> hi)),
      (''<='', (\<lambda>lo hi. lo \<le> 0, \<lambda>lo hi. 0 < hi)),
      (''>'', (\<lambda>lo hi. 0 < hi, \<lambda>lo hi. lo \<le> 0)),
      (''>='', (\<lambda>lo hi. 0 \<le> hi, \<lambda>lo hi. lo < 0))]"

definition FLIPPED_OPS :: "(string \<times> string) list" where
  "FLIPPED_OPS = [(''='', ''=''), (''<>'', ''<>''), (''<'', ''>''), (''<='', ''>=''), (''>'', ''<''), (''>='', ''<='')]"

section \<open>Compilation to zone evaluators\<close>

text \<open>\<open>None\<close> is the evaluator \<open>anyTruth\<close>, which the source recognises by identity.\<close>

type_synonym zone_evaluator = "(chunk_zone \<Rightarrow> truth_set) option"
type_synonym column_resolver = "bound_column \<Rightarrow> int"

definition zone_truth :: "zone_evaluator \<Rightarrow> chunk_zone \<Rightarrow> truth_set" where
  "zone_truth ev zm = (case ev of None \<Rightarrow> ANY_TRUTH | Some f \<Rightarrow> f zm)"

definition columnZoneOf :: "chunk_zone \<Rightarrow> int \<Rightarrow> column_zone option" where
  "columnZoneOf zm i = (if 0 \<le> i \<and> nat i < length (zm_columns zm) then Some (zm_columns zm ! nat i) else None)"

definition nullOnlyTruth :: "column_zone \<Rightarrow> truth_set" where
  "nullOnlyTruth zone = (if cz_hasNulls zone then IS_UNKNOWN else NO_TRUTH)"

definition literalValueOf :: "bexpr \<Rightarrow> column_value" where
  "literalValueOf e = (case e of BoundLiteral v t \<Rightarrow> v | _ \<Rightarrow> VNull)"

definition columnIndexOf :: "bexpr \<Rightarrow> column_resolver \<Rightarrow> int" where
  "columnIndexOf e resolve = (case e of BoundColumnRef c \<Rightarrow> resolve c | _ \<Rightarrow> UNRESOLVED_COLUMN)"

text \<open>Every evaluator over one column: ANY without a zone, \<open>noValues\<close> without a range, else \<open>f\<close> of the range.\<close>

definition on_zone :: "int \<Rightarrow> (column_zone \<Rightarrow> truth_set) \<Rightarrow> (column_zone \<Rightarrow> column_value \<Rightarrow> column_value \<Rightarrow> truth_set)
    \<Rightarrow> chunk_zone \<Rightarrow> truth_set" where
  "on_zone colIdx noValues f zm = (case columnZoneOf zm colIdx of
       None \<Rightarrow> ANY_TRUTH
     | Some zone \<Rightarrow> (case cz_range zone of None \<Rightarrow> noValues zone
         | Some (lo, hi) \<Rightarrow> f zone (comparableOf lo) (comparableOf hi)))"

definition compareEvaluator :: "int \<Rightarrow> column_value \<Rightarrow> range_rule \<Rightarrow> chunk_zone \<Rightarrow> truth_set" where
  "compareEvaluator colIdx literal rule = on_zone colIdx nullOnlyTruth (\<lambda>zone lower upper.
     case (compareComparable lower literal, compareComparable upper literal) of
       (Some lo, Some hi) \<Rightarrow> truthOf (fst rule lo hi) (snd rule lo hi) (cz_hasNulls zone)
     | _ \<Rightarrow> ANY_TRUTH)"

definition compileComparison :: "string \<Rightarrow> bexpr \<Rightarrow> bexpr \<Rightarrow> column_resolver \<Rightarrow> zone_evaluator" where
  "compileComparison op left right resolve =
     (let direct = columnIndexOf left resolve \<noteq> UNRESOLVED_COLUMN \<and> literalValueOf right \<noteq> VNull;
          colIdx = (if direct then columnIndexOf left resolve else columnIndexOf right resolve);
          literal = (if direct then literalValueOf right else literalValueOf left);
          effectiveOp = (if direct then op else case map_of FLIPPED_OPS op of Some f \<Rightarrow> f | None \<Rightarrow> op)
      in case (map_of RANGE_RULES effectiveOp, literalComparable literal) of
           (Some rule, Some c) \<Rightarrow>
             if colIdx = UNRESOLVED_COLUMN then None else Some (compareEvaluator colIdx c rule)
         | _ \<Rightarrow> None)"

definition LOGICAL_COMBINERS :: "(string \<times> (truth_set \<Rightarrow> truth_set \<Rightarrow> truth_set)) list" where
  "LOGICAL_COMBINERS = [(''AND'', kleeneAnd), (''OR'', kleeneOr)]"

definition combine_zones :: "(truth_set \<Rightarrow> truth_set \<Rightarrow> truth_set) \<Rightarrow> zone_evaluator \<Rightarrow> zone_evaluator \<Rightarrow> zone_evaluator" where
  "combine_zones combiner left right =
     (if left = None \<and> right = None then None else Some (\<lambda>zm. combiner (zone_truth left zm) (zone_truth right zm)))"

definition compileBetween :: "bexpr \<Rightarrow> bexpr \<Rightarrow> bexpr \<Rightarrow> bool \<Rightarrow> column_resolver \<Rightarrow> zone_evaluator" where
  "compileBetween e low high negated resolve =
     (case combine_zones kleeneAnd (compileComparison ''>='' e low resolve) (compileComparison ''<='' e high resolve) of
        None \<Rightarrow> None
      | Some inclusive \<Rightarrow> Some (if negated then (\<lambda>zm. kleeneNot (inclusive zm)) else inclusive))"

definition compileIsNull :: "bexpr \<Rightarrow> bool \<Rightarrow> column_resolver \<Rightarrow> zone_evaluator" where
  "compileIsNull e negated resolve =
     (let colIdx = columnIndexOf e resolve
      in if colIdx = UNRESOLVED_COLUMN then None
         else Some (\<lambda>zm. case columnZoneOf zm colIdx of
             None \<Rightarrow> ANY_TRUTH
           | Some zone \<Rightarrow> let hasValues = cz_range zone \<noteq> None
               in if negated then truthOf hasValues (cz_hasNulls zone) False
                  else truthOf (cz_hasNulls zone) hasValues False))"

text \<open>The loop over the literals: whether one matches and whether one covers the range, \<open>None\<close> for ANY.\<close>

fun scan_literals :: "column_value \<Rightarrow> column_value \<Rightarrow> bool \<Rightarrow> column_value list \<Rightarrow> bool \<times> bool \<Rightarrow> (bool \<times> bool) option" where
  "scan_literals lower upper singleton [] found = Some found"
| "scan_literals lower upper singleton (v # vs) (matches, covers) =
     (case (compareComparable lower v, compareComparable upper v) of
        (Some lo, Some hi) \<Rightarrow> scan_literals lower upper singleton vs
          (matches \<or> lo \<le> 0 \<and> 0 \<le> hi, covers \<or> singleton \<and> lo = 0)
      | _ \<Rightarrow> None)"

definition negated_zone :: "bool \<Rightarrow> truth_set \<Rightarrow> truth_set" where
  "negated_zone negated t = (if negated then kleeneNot t else t)"

definition compileInList :: "bexpr \<Rightarrow> bexpr bound_list \<Rightarrow> bool \<Rightarrow> column_resolver \<Rightarrow> zone_evaluator" where
  "compileInList e items negated resolve =
     (let colIdx = columnIndexOf e resolve
      in case items of
           OneExpr _ \<Rightarrow> None
         | ExprList es \<Rightarrow>
             if colIdx = UNRESOLVED_COLUMN \<or> \<not> list_all is_literal es then None
             else let raw = map literal_of es; listHasNull = VNull \<in> set raw;
                      vs = map comparableOf (filter (\<lambda>v. v \<noteq> VNull) raw)
                  in Some (on_zone colIdx (\<lambda>zone. negated_zone negated (nullOnlyTruth zone)) (\<lambda>zone lower upper.
                       case scan_literals lower upper (compareComparable lower upper = Some 0) vs (False, False) of
                         None \<Rightarrow> ANY_TRUTH
                       | Some (matchesRange, coversRange) \<Rightarrow> negated_zone negated
                           (truthOf matchesRange (\<not> listHasNull \<and> \<not> coversRange)
                              (cz_hasNulls zone \<or> listHasNull \<and> \<not> coversRange)))))"

definition MAX_CODE_UNIT :: "16 word" where "MAX_CODE_UNIT = 0xffff"

definition literalPrefixOf :: "ustr \<Rightarrow> ustr option" where
  "literalPrefixOf pattern =
     (let prefix = takeWhile (\<lambda>u. u \<noteq> 37 \<and> u \<noteq> 95) pattern
      in if prefix = [] then None else if MAX_CODE_UNIT \<le> last prefix then None else Some prefix)"

definition nextPrefix :: "ustr \<Rightarrow> ustr" where
  "nextPrefix prefix = butlast prefix @ [last prefix + 1]"

definition compileLike :: "bexpr \<Rightarrow> bexpr \<Rightarrow> bool \<Rightarrow> column_resolver \<Rightarrow> zone_evaluator" where
  "compileLike e pattern negated resolve =
     (let colIdx = columnIndexOf e resolve
      in case literalValueOf pattern of
           VStr p \<Rightarrow>
             if colIdx = UNRESOLVED_COLUMN then None
             else (case literalPrefixOf p of
                 None \<Rightarrow> None
               | Some prefix \<Rightarrow> Some (on_zone colIdx (\<lambda>zone. negated_zone negated (nullOnlyTruth zone)) (\<lambda>zone lower upper.
                   case (lower, upper) of
                     (VStr lo, VStr hi) \<Rightarrow> negated_zone negated
                       (truthOf (ustr_le prefix hi \<and> ustr_lt lo (nextPrefix prefix)) True (cz_hasNulls zone))
                   | _ \<Rightarrow> ANY_TRUTH)))
         | _ \<Rightarrow> None)"

fun compileZoneEvaluator :: "column_resolver \<Rightarrow> bexpr \<Rightarrow> zone_evaluator" where
  "compileZoneEvaluator resolve (BoundBinary op l r t) = (case map_of LOGICAL_COMBINERS (toUpperCase op) of
       None \<Rightarrow> compileComparison op l r resolve
     | Some combiner \<Rightarrow> combine_zones combiner (compileZoneEvaluator resolve l) (compileZoneEvaluator resolve r))"
| "compileZoneEvaluator resolve (BoundUnary op e t) =
     (if toUpperCase op \<noteq> ''NOT'' then None
      else map_option (\<lambda>f zm. kleeneNot (f zm)) (compileZoneEvaluator resolve e))"
| "compileZoneEvaluator resolve (BoundBetween e lo hi n) = compileBetween e lo hi n resolve"
| "compileZoneEvaluator resolve (BoundIsNull e n) = compileIsNull e n resolve"
| "compileZoneEvaluator resolve (BoundInList e es n) = compileInList e es n resolve"
| "compileZoneEvaluator resolve (BoundLike e p n) = compileLike e p n resolve"
| "compileZoneEvaluator resolve _ = None"

text \<open>The first column of each name wins.\<close>

definition schemaColumnResolver :: "string list \<Rightarrow> string \<Rightarrow> column_resolver" where
  "schemaColumnResolver schema alias c =
     (if depth c \<noteq> 0 \<or> isCorrelated c then UNRESOLVED_COLUMN
      else if tableAlias c \<noteq> [] \<and> toUpperCase (tableAlias c) \<noteq> toUpperCase alias then UNRESOLVED_COLUMN
      else case map_of (zip (map toUpperCase schema) [0..<length schema]) (toUpperCase (columnName c)) of
          None \<Rightarrow> UNRESOLVED_COLUMN
        | Some i \<Rightarrow> int i)"

definition compileChunkPruner :: "bexpr option \<Rightarrow> column_resolver \<Rightarrow> (chunk_zone \<Rightarrow> bool) option" where
  "compileChunkPruner predicate resolve = (case predicate of
       None \<Rightarrow> None
     | Some p \<Rightarrow> (case compileZoneEvaluator resolve p of
           None \<Rightarrow> None
         | Some evaluate \<Rightarrow> Some (\<lambda>zm. zm_rowCount zm = 0 \<or> \<not> may (evaluate zm) IS_TRUE)))"

end
