(* ===== verification/Chunk.thy ===== *)
theory Chunk
  imports DictionaryColumn ZoneMap
begin

text \<open>
  \<open>storage/chunk.ts\<close>: a batch of rows as columns of one size, with an optional selection of row numbers,
  and the encoding of its columns (\<open>encodedColumn\<close> and \<open>encodeChunkColumns\<close> of
  \<open>storage/encoding/column-encoding.ts\<close>). Reading a column that does not exist throws.
\<close>

section \<open>Columns of a chunk\<close>

datatype any_column = Plain column | Dict dict_column

fun any_get :: "jsnum \<Rightarrow> any_column \<Rightarrow> nat \<Rightarrow> eval_value" where
  "any_get scale (Plain c) i = column_get scale c i"
| "any_get scale (Dict d) i = dict_get d i"

fun any_set :: "jsnum \<Rightarrow> nat \<Rightarrow> column_value \<Rightarrow> any_column \<Rightarrow> column_error + any_column" where
  "any_set scale i v (Plain c) = bindE (column_set scale i v c) (\<lambda>c'. Inr (Plain c'))"
| "any_set scale i v (Dict d) = bindE (dict_set i v d) (\<lambda>d'. Inr (Dict d'))"

fun any_type :: "any_column \<Rightarrow> data_type" where
  "any_type (Plain c) = c_type c"
| "any_type (Dict d) = VARCHAR"

fun any_scanView :: "any_column \<Rightarrow> any_column" where
  "any_scanView (Plain c) = Plain (column_scanView c)"
| "any_scanView (Dict d) = Dict (dict_scanView d)"

fun any_cleared :: "any_column \<Rightarrow> any_column" where
  "any_cleared (Plain c) = Plain (c\<lparr>c_length := 0\<rparr>)"
| "any_cleared (Dict d) = Dict (d\<lparr>d_length := 0\<rparr>)"

section \<open>Chunks\<close>

record data_chunk =
  ch_columns :: "any_column list"
  ch_size :: nat
  ch_selection :: "nat list option"

type_synonym column_schema = "string \<times> data_type"

definition chunk_fromSchema :: "column_schema list \<Rightarrow> nat \<Rightarrow> data_chunk" where
  "chunk_fromSchema schema capacity =
     \<lparr>ch_columns = map (\<lambda>(name, t). if t = VARCHAR then Dict (dict_new capacity) else Plain (column_new t capacity)) schema,
      ch_size = 0, ch_selection = None\<rparr>"

definition chunk_getColumn :: "nat \<Rightarrow> data_chunk \<Rightarrow> any_column option" where
  "chunk_getColumn i ch = nth_opt (ch_columns ch) i"

definition chunk_columnCount :: "data_chunk \<Rightarrow> nat" where
  "chunk_columnCount ch = length (ch_columns ch)"

definition chunk_activeRowIndex :: "data_chunk \<Rightarrow> nat \<Rightarrow> nat" where
  "chunk_activeRowIndex ch i = selected_row (ch_selection ch) i"

definition chunk_getValue :: "jsnum \<Rightarrow> nat \<Rightarrow> nat \<Rightarrow> data_chunk \<Rightarrow> column_error + eval_value" where
  "chunk_getValue scale row col ch = (case nth_opt (ch_columns ch) col of
       None \<Rightarrow> Inl NoSuchColumn
     | Some c \<Rightarrow> Inr (any_get scale c (chunk_activeRowIndex ch row)))"

definition chunk_setSelectionVector :: "nat list option \<Rightarrow> nat \<Rightarrow> data_chunk \<Rightarrow> data_chunk" where
  "chunk_setSelectionVector sv count ch = ch\<lparr>ch_selection := sv, ch_size := count\<rparr>"

definition chunk_clearSelectionVector :: "data_chunk \<Rightarrow> data_chunk" where
  "chunk_clearSelectionVector ch = ch\<lparr>ch_selection := None\<rparr>"

definition chunk_appendRow :: "jsnum \<Rightarrow> column_value list \<Rightarrow> data_chunk \<Rightarrow> column_error + data_chunk" where
  "chunk_appendRow scale row ch =
     bindE (set_row (any_set scale) (ch_size ch) row (ch_columns ch)) (\<lambda>cs.
       Inr (ch\<lparr>ch_columns := cs, ch_size := ch_size ch + 1\<rparr>))"

fun columns_at :: "any_column list \<Rightarrow> nat list \<Rightarrow> column_error + any_column list" where
  "columns_at cs [] = Inr []"
| "columns_at cs (i # is) = (case nth_opt cs i of
       None \<Rightarrow> Inl NoSuchColumn
     | Some c \<Rightarrow> bindE (columns_at cs is) (\<lambda>cs'. Inr (c # cs')))"

definition chunk_project :: "nat list \<Rightarrow> data_chunk \<Rightarrow> column_error + data_chunk" where
  "chunk_project indices ch = bindE (columns_at (ch_columns ch) indices) (\<lambda>cs. Inr (ch\<lparr>ch_columns := cs\<rparr>))"

definition chunk_scanView :: "data_chunk \<Rightarrow> data_chunk" where
  "chunk_scanView ch = ch\<lparr>ch_columns := map any_scanView (ch_columns ch)\<rparr>"

definition flat_column :: "jsnum \<Rightarrow> nat list \<Rightarrow> nat \<Rightarrow> any_column \<Rightarrow> column_error + any_column" where
  "flat_column scale sv count col =
     bindE (set_all scale (\<lambda>i. any_get scale col (sv ! i)) [0..<count] (column_new (any_type col) count)) (\<lambda>c.
       Inr (Plain (c\<lparr>c_length := count\<rparr>)))"

definition chunk_flatten :: "jsnum \<Rightarrow> data_chunk \<Rightarrow> column_error + data_chunk" where
  "chunk_flatten scale ch = (case ch_selection ch of
       None \<Rightarrow> Inr ch
     | Some sv \<Rightarrow> bindE (sequenceE (map (flat_column scale sv (ch_size ch)) (ch_columns ch))) (\<lambda>cs.
         Inr \<lparr>ch_columns = cs, ch_size = ch_size ch, ch_selection = None\<rparr>))"

definition chunk_reset :: "data_chunk \<Rightarrow> data_chunk" where
  "chunk_reset ch = \<lparr>ch_columns = map any_cleared (ch_columns ch), ch_size = 0, ch_selection = None\<rparr>"

definition chunk_toRows :: "jsnum \<Rightarrow> data_chunk \<Rightarrow> eval_value list list" where
  "chunk_toRows scale ch =
     map (\<lambda>i. map (\<lambda>c. any_get scale c (chunk_activeRowIndex ch i)) (ch_columns ch)) [0..<ch_size ch]"

section \<open>Encoding the columns of a chunk\<close>

datatype table_error = ColumnFailed column_error | EncodingFailed for_error | PageMissing

definition lift_error :: "('e \<Rightarrow> 'f) \<Rightarrow> 'e + 'a \<Rightarrow> 'f + 'a" where
  "lift_error f r = (case r of Inl e \<Rightarrow> Inl (f e) | Inr x \<Rightarrow> Inr x)"

definition integer_data :: "column \<Rightarrow> int list option" where
  "integer_data c = (case c_data c of Some (IntArray xs) \<Rightarrow> Some xs | _ \<Rightarrow> None)"

fun encodedColumn :: "encoding_config \<Rightarrow> any_column \<Rightarrow> for_error + any_column" where
  "encodedColumn cfg (Dict d) = Inr (Dict d)"
| "encodedColumn cfg (Plain c) =
     bindE (encodeColumnValues cfg (c_type c) (c_encoded c) (integer_data c) (c_length c)) (\<lambda>encoded.
       Inr (Plain (case encoded of
           None \<Rightarrow> c
         | Some e \<Rightarrow> if c_encoded c \<noteq> None then c
             else column_fromEncoded (c_type c) e (c_nulls c) (c_length c) (c_hasNulls c))))"

definition encodeChunkColumns :: "jsnum \<Rightarrow> encoding_config \<Rightarrow> data_chunk \<Rightarrow> table_error + data_chunk" where
  "encodeChunkColumns scale cfg ch =
     bindE (lift_error ColumnFailed (chunk_flatten scale ch)) (\<lambda>src.
       bindE (lift_error EncodingFailed (sequenceE (map (encodedColumn cfg) (ch_columns src)))) (\<lambda>cs.
         Inr \<lparr>ch_columns = cs, ch_size = ch_size src, ch_selection = None\<rparr>))"

section \<open>What a chunk holds\<close>

fun any_capacity :: "any_column \<Rightarrow> nat" where
  "any_capacity (Plain c) = c_capacity c"
| "any_capacity (Dict d) = d_capacity d"

fun any_holds :: "jsnum \<Rightarrow> any_column \<Rightarrow> column_value list \<Rightarrow> bool" where
  "any_holds scale (Plain c) vs = column_holds scale c vs"
| "any_holds scale (Dict d) vs = dict_holds d vs"

fun any_shown :: "jsnum \<Rightarrow> any_column \<Rightarrow> column_value \<Rightarrow> eval_value" where
  "any_shown scale (Plain c) v = read_back scale (c_type c) v"
| "any_shown scale (Dict d) v = Val v"

fun any_accepts :: "any_column \<Rightarrow> column_value \<Rightarrow> bool" where
  "any_accepts (Plain c) v = readable (c_type c) v"
| "any_accepts (Dict d) v = True"

text \<open>Either kind of column keeps the contract.\<close>

interpretation any: value_store "any_set scale" "any_get scale" any_capacity "any_holds scale" "any_shown scale" any_accepts
  for scale
proof
  fix c vs v c' i
  show "any_get scale c i = any_shown scale c (vs ! i)"
    if "any_holds scale c vs" "i < length vs" "any_accepts c (vs ! i)"
    using that col.get_law [of scale] dict.get_law by (cases c) auto
  assume h: "any_holds scale c vs" "length vs < any_capacity c" "any_set scale (length vs) v c = Inr c'"
  have "any_holds scale c' (vs @ [v]) \<and> any_capacity c' = any_capacity c \<and> any_shown scale c' = any_shown scale c
      \<and> any_accepts c' = any_accepts c"
  proof (cases c)
    case (Plain p)
    then obtain p' where p: "column_set scale (length vs) v p = Inr p'" "c' = Plain p'"
      using h(3) by (auto simp: bindE_Inr_iff)
    show ?thesis using column_set_holds [of scale p vs v p'] h p Plain by (auto simp: fun_eq_iff)
  next
    case (Dict d)
    then obtain d' where d: "dict_set (length vs) v d = Inr d'" "c' = Dict d'"
      using h(3) by (auto simp: bindE_Inr_iff)
    show ?thesis using dict_set_holds [of d vs v d'] h d Dict by (auto simp: fun_eq_iff)
  qed
  then show "any_holds scale c' (vs @ [v])"
    "any_capacity c' = any_capacity c \<and> any_shown scale c' = any_shown scale c \<and> any_accepts c' = any_accepts c"
    by simp_all
qed

end
