(* ===== verification/ZoneMapSound.thy ===== *)
theory ZoneMapSound
  imports ZoneMap ExpressionSpec
begin

text \<open>
  Pruning is sound: the truth set a zone evaluator computes from a chunk's summary holds the truth value
  of the predicate at every row of the chunk.
\<close>

section \<open>Truth sets\<close>

lemma may_truthOf [simp]:
  "may (truthOf t f u) IS_TRUE = t" "may (truthOf t f u) IS_FALSE = f" "may (truthOf t f u) IS_UNKNOWN = u"
  by (cases t; cases f; cases u; simp add: may_def truthOf_def IS_TRUE_def IS_FALSE_def IS_UNKNOWN_def)+

lemma may_any [simp]: "may ANY_TRUTH IS_TRUE" "may ANY_TRUTH IS_FALSE" "may ANY_TRUTH IS_UNKNOWN"
  by (simp_all add: may_def ANY_TRUTH_def IS_TRUE_def IS_FALSE_def IS_UNKNOWN_def)

lemma may_either [simp]: "may ts (a OR b) \<longleftrightarrow> may ts a \<or> may ts b"
proof -
  have "(ts AND (a OR b) = 0) = (ts AND a = 0 \<and> ts AND b = 0)"
    by (auto simp: bit_eq_iff bit_and_iff bit_or_iff)
  then show ?thesis by (simp add: may_def)
qed

text \<open>\<open>admits ts v\<close>: the set \<open>ts\<close> holds the truth value of \<open>v\<close>; a value that is no truth value needs them all.\<close>

definition admits :: "truth_set \<Rightarrow> eval_value \<Rightarrow> bool" where
  "admits ts v \<longleftrightarrow>
     (if is_nullish v then may ts IS_UNKNOWN
      else if v = bool_value True then may ts IS_TRUE
      else if v = bool_value False then may ts IS_FALSE
      else ts = ANY_TRUTH)"

lemma admits_any [simp]: "admits ANY_TRUTH v"
  by (simp add: admits_def)

lemma admits_simps [simp]:
  "admits ts null_value = may ts IS_UNKNOWN" "admits ts (bool_value True) = may ts IS_TRUE"
  "admits ts (bool_value False) = may ts IS_FALSE" "admits ts Undef = may ts IS_UNKNOWN"
  by (simp_all add: admits_def)

text \<open>The four kinds of value, as the logical operators see them.\<close>

lemma truth_cases [case_names unknown true false other]:
  obtains "is_nullish v" | "v = bool_value True" | "v = bool_value False"
    | "\<not> is_nullish v" "v \<noteq> bool_value True" "v \<noteq> bool_value False"
  by blast

lemma admits_unknown: "is_nullish v \<Longrightarrow> admits ts v = may ts IS_UNKNOWN"
  by (simp add: admits_def)

lemma admits_other:
  "\<not> is_nullish v \<Longrightarrow> v \<noteq> bool_value True \<Longrightarrow> v \<noteq> bool_value False \<Longrightarrow> admits ts v = (ts = ANY_TRUTH)"
  by (simp add: admits_def)

lemma nullish_no_bool: "is_nullish v \<Longrightarrow> v \<noteq> bool_value b"
  by auto

lemma admits_and:
  assumes "admits l a" "admits r b" "and_op a b = Inr v"
  shows "admits (kleeneAnd l r) v"
  using assms
  by (cases a rule: truth_cases; cases b rule: truth_cases)
    (auto simp add: and_op_def kleeneAnd_def Let_def admits_unknown admits_other nullish_no_bool)

lemma admits_or:
  assumes "admits l a" "admits r b" "or_op a b = Inr v"
  shows "admits (kleeneOr l r) v"
  using assms
  by (cases a rule: truth_cases; cases b rule: truth_cases)
    (auto simp add: or_op_def kleeneOr_def Let_def admits_unknown admits_other nullish_no_bool)

lemma admits_not:
  assumes "admits ts a" "not_op a = Inr v"
  shows "admits (kleeneNot ts) v"
  using assms
  by (cases a rule: truth_cases; cases "js_truthy a")
    (auto simp add: not_op_def kleeneNot_def admits_unknown admits_other)

text \<open>Truth values as options: \<open>None\<close> is unknown.\<close>

definition kleene_and3 :: "bool option \<Rightarrow> bool option \<Rightarrow> bool option" where
  "kleene_and3 a b = between_truth a b"

lemma admits_truth [simp]:
  "admits ts (truth_value t) =
     (case t of None \<Rightarrow> may ts IS_UNKNOWN | Some True \<Rightarrow> may ts IS_TRUE | Some False \<Rightarrow> may ts IS_FALSE)"
  by (simp add: truth_value_def split: option.splits bool.splits)

lemma admits_between_truth:
  "admits l (truth_value a) \<Longrightarrow> admits r (truth_value b) \<Longrightarrow> admits (kleeneAnd l r) (truth_value (between_truth a b))"
  by (auto simp: between_truth_def kleeneAnd_def split: option.splits bool.splits)

lemma admits_negated:
  "admits ts (truth_value t) \<Longrightarrow> admits (negated_zone n ts) (truth_value (negated_truth n t))"
  by (auto simp: negated_zone_def negated_truth_def kleeneNot_def split: option.splits bool.splits)

section \<open>Comparables\<close>

text \<open>The values for which comparing through \<open>Number\<close> is exact.\<close>

definition tame_value :: "column_value \<Rightarrow> bool" where
  "tame_value v \<longleftrightarrow> (case v of VNum x \<Rightarrow> x \<noteq> NaN | VBig i \<Rightarrow> \<bar>i\<bar> \<le> 2 ^ 53 | _ \<Rightarrow> True)"

definition order_of_sign :: "int \<Rightarrow> js_order" where
  "order_of_sign k = (if k < 0 then Less else if k = 0 then Equal else Greater)"

lemma order_num_sign:
  "a \<noteq> NaN \<Longrightarrow> b \<noteq> NaN \<Longrightarrow>
     order_num a b = Some (order_of_sign (if js_lt a b then - 1 else if js_lt b a then 1 else 0))"
  using js_lt_linear [of a b] by (auto simp: order_num_def order_of_sign_def js_eq_def)

lemma order_text_sign:
  "order_text s t = Some (order_of_sign (if ustr_lt s t then - 1 else if ustr_lt t s then 1 else 0))"
  using ustr_lt_linear [of s t] by (auto simp: order_text_def order_of_sign_def)

lemma compare_values:
  assumes "tame_value v" "tame_value c" "compareComparable (comparableOf v) (comparableOf c) = Some k"
  shows "js_compare (toNum (Val v)) (toNum (Val c)) = Some (order_of_sign k)"
    "js_compare (Val v) (Val c) = Some (order_of_sign k)"
    "js_same (toNum (Val v)) (toNum (Val c)) \<longleftrightarrow> k = 0"
proof -
  note d = js_compare_def toNum_def comparableOf_def compareComparable_def to_primitive_def exact_number_def
    tame_value_def num_of_big_int order_num_sign order_text_sign
  note lin = js_lt_linear ustr_lt_linear
  show "js_compare (toNum (Val v)) (toNum (Val c)) = Some (order_of_sign k)"
    using assms by (cases v; cases c) (auto simp: d)
  show "js_compare (Val v) (Val c) = Some (order_of_sign k)"
    using assms by (cases v; cases c) (auto simp: d)
  show "js_same (toNum (Val v)) (toNum (Val c)) \<longleftrightarrow> k = 0"
    using assms lin by (cases v; cases c) (auto simp: d js_eq_def split: if_splits)
qed

lemma compare_flip: "compareComparable b a = Some k \<Longrightarrow> compareComparable a b = Some (- k)"
proof (cases a; cases b)
  fix s t assume "a = VStr s" "b = VStr t" "compareComparable b a = Some k"
  then show ?thesis using ustr_lt_trans [of s t s] by (auto simp: compareComparable_def split: if_splits)
next
  fix x y assume "a = VNum x" "b = VNum y" "compareComparable b a = Some k"
  then show ?thesis using js_lt_trans [of x y x] by (auto simp: compareComparable_def split: if_splits)
qed (auto simp: compareComparable_def split: if_splits)

text \<open>The order of comparables of one kind.\<close>

fun cle :: "column_value \<Rightarrow> column_value \<Rightarrow> bool" where
  "cle (VStr s) (VStr t) = ustr_le s t"
| "cle (VNum x) (VNum y) = js_le x y"
| "cle (VBool p) (VBool q) = (p \<longrightarrow> q)"
| "cle _ _ = False"

lemma cle_trans: "cle a b \<Longrightarrow> cle b c \<Longrightarrow> cle a c"
  by (cases a; cases b; cases c; simp) (blast intro: js_le_trans ustr_le_trans)+

lemma compare_mono_left:
  "cle a b \<Longrightarrow> c \<noteq> VNum NaN \<Longrightarrow> compareComparable a c = Some i \<Longrightarrow> \<exists>j. compareComparable b c = Some j \<and> i \<le> j"
proof (cases a; cases b)
  fix s t assume a: "a = VStr s" "b = VStr t" "cle a b" "compareComparable a c = Some i"
  then obtain u where u: "c = VStr u" by (cases c) (auto simp: compareComparable_def)
  have "ustr_lt t u \<Longrightarrow> ustr_lt s u" "ustr_lt u s \<Longrightarrow> ustr_lt u t" "ustr_lt u t \<longrightarrow> \<not> ustr_lt t u"
    using a(3) ustr_lt_trans [of s t u] ustr_lt_trans [of u s t] ustr_lt_trans [of u t u] by (auto simp: a(1,2) ustr_le_def)
  then show ?thesis using a u by (auto simp: compareComparable_def)
next
  fix x y assume a: "a = VNum x" "b = VNum y" "cle a b" "c \<noteq> VNum NaN" "compareComparable a c = Some i"
  then obtain z where z: "c = VNum z" "z \<noteq> NaN" by (cases c) (auto simp: compareComparable_def)
  have le: "js_le x y" using a by simp
  have "js_lt y z \<Longrightarrow> js_lt x z" "js_lt z x \<Longrightarrow> js_lt z y"
    using js_le_lt_trans [OF le, of z] js_lt_le_trans [OF _ le, of z] by auto
  moreover have "js_lt z y \<longrightarrow> \<not> js_lt y z" using js_lt_trans [of z y z] by auto
  ultimately show ?thesis using a z by (auto simp: compareComparable_def)
qed (auto simp: compareComparable_def split: column_value.splits)

lemma compare_mono_right:
  assumes "cle b a" "c \<noteq> VNum NaN" "compareComparable a c = Some i"
  shows "\<exists>j. compareComparable b c = Some j \<and> j \<le> i"
proof -
  obtain j where j: "compareComparable b c = Some j"
    using assms(1,3) by (cases a; cases b; cases c) (auto simp: compareComparable_def)
  then show ?thesis using compare_mono_left [OF assms(1,2) j] assms(3) by auto
qed

lemma compare_equal:
  "compareComparable a c = Some 0 \<Longrightarrow> a \<noteq> VNum NaN \<Longrightarrow> c \<noteq> VNum NaN \<Longrightarrow> a = c"
  using ustr_lt_linear js_lt_linear
  by (cases a; cases c) (auto simp: compareComparable_def split: if_splits)

lemma compare_self: "a \<noteq> VNull \<Longrightarrow> (\<forall>i. a \<noteq> VBig i) \<Longrightarrow> compareComparable a a = Some 0"
  by (cases a) (auto simp: compareComparable_def)

lemma cle_not_NaN: "cle a b \<Longrightarrow> a \<noteq> VNum NaN \<and> b \<noteq> VNum NaN"
  by (cases a; cases b) (auto simp: js_cmp_defs dest: js_lt_not_NaN)

lemma cle_antisym: "cle a b \<Longrightarrow> cle b a \<Longrightarrow> a = b"
  by (cases a; cases b) (auto simp: js_cmp_defs ustr_le_def dest: js_lt_trans ustr_lt_trans)

lemma comparable_not_NaN: "tame_value v \<Longrightarrow> comparableOf v \<noteq> VNum NaN"
  by (cases v) (auto simp: tame_value_def comparableOf_def)

lemma comparable_kind [simp]: "comparableOf v = VNull \<longleftrightarrow> v = VNull" "comparableOf v \<noteq> VBig i"
  by (cases v; simp add: comparableOf_def)+

section \<open>Summaries cover the values\<close>

definition covers :: "column_zone \<Rightarrow> column_value \<Rightarrow> bool" where
  "covers z v \<longleftrightarrow>
     (if v = VNull then cz_hasNulls z
      else \<exists>lo hi. cz_range z = Some (lo, hi) \<and> cle (comparableOf lo) (comparableOf v) \<and> cle (comparableOf v) (comparableOf hi))"

fun same_kind :: "column_value \<Rightarrow> column_value \<Rightarrow> bool" where
  "same_kind (VStr _) (VStr _) = True"
| "same_kind (VNum x) (VNum y) = (x \<noteq> NaN \<and> y \<noteq> NaN)"
| "same_kind (VBool _) (VBool _) = True"
| "same_kind (VBig _) (VBig _) = True"
| "same_kind _ _ = False"

text \<open>The values of one column are of one type, and no number among them is NaN.\<close>

definition one_kind :: "column_value set \<Rightarrow> bool" where
  "one_kind vs \<longleftrightarrow> (\<forall>u \<in> vs. \<forall>v \<in> vs. same_kind u v)"

lemma before_le:
  assumes "same_kind u v"
  shows "isBefore u v \<Longrightarrow> cle (comparableOf u) (comparableOf v)"
    "\<not> isBefore u v \<Longrightarrow> cle (comparableOf v) (comparableOf u)"
proof -
  have "(isBefore u v \<longrightarrow> cle (comparableOf u) (comparableOf v)) \<and> (\<not> isBefore u v \<longrightarrow> cle (comparableOf v) (comparableOf u))"
    using assms
  proof (cases "(u, v)" rule: same_kind.cases)
    case (2 x y)
    then show ?thesis using assms by (simp add: isBefore_def comparableOf_def js_not_lt) (simp add: js_le_def)
  next
    case (3 p q)
    then show ?thesis by (simp add: isBefore_def comparableOf_def)
  qed (simp_all add: isBefore_def comparableOf_def num_of_big_mono ustr_not_lt, simp add: ustr_le_def)
  then show "isBefore u v \<Longrightarrow> cle (comparableOf u) (comparableOf v)"
    "\<not> isBefore u v \<Longrightarrow> cle (comparableOf v) (comparableOf u)" by blast+
qed

lemma same_kind_self: "same_kind u v \<Longrightarrow> same_kind u u \<and> same_kind v v \<and> u \<noteq> VNull \<and> v \<noteq> VNull"
  by (cases "(u, v)" rule: same_kind.cases) auto

lemma same_kind_refl: "same_kind u u \<Longrightarrow> cle (comparableOf u) (comparableOf u)"
  using before_le [of u u] by blast

text \<open>What the loop over a column keeps: the ends of the range are values seen, and every value seen is covered.\<close>

definition zone_covers :: "column_value list \<Rightarrow> column_zone \<Rightarrow> bool" where
  "zone_covers vs z \<longleftrightarrow> (\<forall>v \<in> set vs. covers z v)
     \<and> (\<forall>lo hi. cz_range z = Some (lo, hi) \<longrightarrow> {lo, hi} \<subseteq> set vs - {VNull})"

lemma covers_wider:
  "covers z u \<Longrightarrow> cz_range z = Some (lo, hi) \<Longrightarrow> cle (comparableOf lo') (comparableOf lo)
    \<Longrightarrow> cle (comparableOf hi) (comparableOf hi') \<Longrightarrow> covers (z\<lparr>cz_range := Some (lo', hi')\<rparr>) u"
  by (auto simp: covers_def intro: cle_trans split: if_splits)

lemma covers_within:
  "cz_range z = Some (lo, hi) \<Longrightarrow> cle (comparableOf lo) (comparableOf v) \<Longrightarrow> cle (comparableOf v) (comparableOf hi)
    \<Longrightarrow> v \<noteq> VNull \<Longrightarrow> covers z v"
  by (simp add: covers_def)

lemma summarize_value_covers:
  assumes "zone_covers vs z" "one_kind (set (v # vs) - {VNull})"
  shows "zone_covers (vs @ [v]) (summarize_value v z)"
proof (cases "v = VNull")
  case True
  then show ?thesis using assms(1)
    by (auto simp: zone_covers_def summarize_value_def covers_def split: if_splits)
next
  case v: False
  show ?thesis
  proof (cases "cz_range z")
    case None
    have "same_kind v v" using assms(2) v by (simp add: one_kind_def)
    moreover have "\<forall>u \<in> set vs. u = VNull" using assms(1) None by (auto simp: zone_covers_def covers_def split: if_splits)
    ultimately show ?thesis using assms(1) None v
      by (auto simp: zone_covers_def summarize_value_def covers_def same_kind_refl)
  next
    case (Some r)
    then obtain lo hi where z: "cz_range z = Some (lo, hi)" by (cases r) auto
    have m: "lo \<in> set vs" "hi \<in> set vs" "lo \<noteq> VNull" "hi \<noteq> VNull"
      and c: "\<And>u. u \<in> set vs \<Longrightarrow> covers z u"
      using assms(1) z by (auto simp: zone_covers_def)
    have k: "same_kind v lo" "same_kind hi v" "same_kind v v" "same_kind lo lo" "same_kind hi hi"
      using assms(2) v m by (auto simp: one_kind_def)
    have r: "cle (comparableOf v) (comparableOf v)" "cle (comparableOf lo) (comparableOf lo)"
        "cle (comparableOf hi) (comparableOf hi)" "cle (comparableOf lo) (comparableOf hi)"
      using k same_kind_refl c [OF m(1)] m z by (auto simp: covers_def split: if_splits)
    have upd: "\<And>lo' hi'. cz_range (z\<lparr>cz_range := Some (lo', hi')\<rparr>) = Some (lo', hi')" by simp
    consider "isBefore v lo" | "\<not> isBefore v lo" "isBefore hi v" | "\<not> isBefore v lo" "\<not> isBefore hi v" by blast
    then show ?thesis
    proof cases
      case 1
      have le: "cle (comparableOf v) (comparableOf lo)" by (rule before_le(1) [OF k(1) 1])
      have "covers (z\<lparr>cz_range := Some (v, hi)\<rparr>) u" if "u \<in> set (vs @ [v])" for u
        using that covers_wider [OF c z le r(3)] covers_within [OF upd r(1) cle_trans [OF le r(4)] v] by auto
      then show ?thesis using 1 v z m by (auto simp: zone_covers_def summarize_value_def)
    next
      case 2
      have le: "cle (comparableOf hi) (comparableOf v)" by (rule before_le(1) [OF k(2) 2(2)])
      have "covers (z\<lparr>cz_range := Some (lo, v)\<rparr>) u" if "u \<in> set (vs @ [v])" for u
        using that covers_wider [OF c z r(2) le] covers_within [OF upd cle_trans [OF r(4) le] r(1) v] by auto
      then show ?thesis using 2 v z m by (auto simp: zone_covers_def summarize_value_def)
    next
      case 3
      have "covers z v"
        by (rule covers_within [OF z before_le(2) [OF k(1) 3(1)] before_le(2) [OF k(2) 3(2)] v])
      then show ?thesis using 3 v z m c by (auto simp: zone_covers_def summarize_value_def)
    qed
  qed
qed

lemma fold_summarize_covers:
  "zone_covers us z \<Longrightarrow> one_kind (set (us @ vs) - {VNull}) \<Longrightarrow> zone_covers (us @ vs) (fold summarize_value vs z)"
proof (induction vs arbitrary: us z)
  case (Cons v vs)
  have "one_kind (set (v # us) - {VNull})" using Cons.prems(2) by (auto simp: one_kind_def)
  from Cons.IH [OF summarize_value_covers [OF Cons.prems(1) this]] Cons.prems(2) show ?case by simp
qed simp

text \<open>The values of a chunk's column, in the order of its rows.\<close>

definition column_values :: "(nat \<Rightarrow> column_value) \<Rightarrow> nat \<Rightarrow> nat list option \<Rightarrow> column_value list" where
  "column_values get count selection = map (\<lambda>i. get (selected_row selection i)) [0..<count]"

lemma summarizeColumn_covers:
  assumes "one_kind (set (column_values get count selection) - {VNull})" "v \<in> set (column_values get count selection)"
  shows "covers (summarizeColumn get count selection) v"
proof -
  let ?vs = "column_values get count selection" and ?z = "\<lparr>cz_range = None, cz_hasNulls = False\<rparr>"
  have s: "summarizeColumn get count selection = fold summarize_value ?vs ?z"
    unfolding summarizeColumn_def column_values_def fold_map by (simp add: o_def)
  have "zone_covers [] ?z" by (simp add: zone_covers_def)
  then have "zone_covers ([] @ ?vs) (fold summarize_value ?vs ?z)"
    using assms(1) by (intro fold_summarize_covers) simp_all
  then show ?thesis
    using assms(2) unfolding s zone_covers_def by simp
qed

end
