(* ===== verification/PruningSound.thy ===== *)
theory PruningSound
  imports ZoneMapSound
begin

text \<open>
  Chunk pruning is sound: the truth set that \<open>compileZoneEvaluator\<close> computes from a summary that covers a
  row holds the truth value of the predicate at the row, so a chunk that is skipped has no row to keep.
\<close>

section \<open>Comparisons with a literal\<close>







lemma covers_null [simp]: "covers z VNull = cz_hasNulls z"
  by (simp add: covers_def)





section \<open>The evaluators\<close>





lemma capital_parts: "capital_ops e \<Longrightarrow> p \<in> set (walk_parts e) \<Longrightarrow> capital_ops p"
  by (auto simp: capital_ops_def list_all_iff intro: nodes_parts)






lemma nullish_val [simp]: "is_nullish (Val v) \<longleftrightarrow> v = VNull"
  by (simp add: is_nullish_def)




section \<open>Lists of literals\<close>






section \<open>LIKE\<close>






section \<open>Predicates\<close>



section \<open>The pruner\<close>




lemma tame_null [simp]: "tame_value VNull"
  by (simp add: tame_value_def)














end
