(* ===== verification/Table.thy ===== *)
theory Table
  imports Chunk PruningSound PageCache
begin

text \<open>
  \<open>storage/table.ts\<close>: rows are appended to an active chunk; a full chunk is encoded, summarised and
  written as a page; a scan reads the pages in order and skips those the pruner rules out. The indexes a
  table keeps are not modelled. The theorems: a table reads back the rows inserted, and a filtered scan
  finds the same rows with and without the pruner.
\<close>

section \<open>Tables\<close>

record table =
  t_name :: string
  t_schema :: "column_schema list"
  t_pageIds :: "string list"
  t_zoneMaps :: "chunk_zone list"
  t_rowCount :: nat
  t_pageCache :: "data_chunk page_cache"
  t_activeChunk :: "data_chunk option"

text \<open>What the configuration and the module state give: the decimal scale, the encoder's settings, the chunk size.\<close>

record storage_config =
  sc_scale :: jsnum
  sc_encoding :: encoding_config
  sc_chunkSize :: nat

definition table_new :: "string \<Rightarrow> column_schema list \<Rightarrow> nat \<Rightarrow> table" where
  "table_new name schema pageCachePages = \<lparr>t_name = name, t_schema = schema, t_pageIds = [], t_zoneMaps = [],
     t_rowCount = 0, t_pageCache = page_cache_new pageCachePages, t_activeChunk = None\<rparr>"

definition table_getColumnIndex :: "table \<Rightarrow> string \<Rightarrow> int" where
  "table_getColumnIndex t wanted =
     (case find (\<lambda>i. toUpperCase (fst (t_schema t ! i)) = toUpperCase wanted) [0..<length (t_schema t)] of
        None \<Rightarrow> - 1
      | Some i \<Rightarrow> int i)"

definition table_getColumn :: "table \<Rightarrow> string \<Rightarrow> column_schema option" where
  "table_getColumn t wanted = find (\<lambda>col. toUpperCase (fst col) = toUpperCase wanted) (t_schema t)"

definition table_rowCount :: "table \<Rightarrow> nat" where
  "table_rowCount t = t_rowCount t + (case t_activeChunk t of None \<Rightarrow> 0 | Some ch \<Rightarrow> ch_size ch)"

definition decimal_text :: "nat \<Rightarrow> string" where
  "decimal_text n = map (\<lambda>u. char_of (unat u)) (decimal n)"

definition page_id :: "string \<Rightarrow> nat \<Rightarrow> string" where
  "page_id name n = name @ ''_page_'' @ decimal_text n"

text \<open>The columns of a chunk as the functions that \<open>buildChunkZoneMap\<close> reads.\<close>

definition column_reader :: "jsnum \<Rightarrow> any_column \<Rightarrow> nat \<Rightarrow> column_value" where
  "column_reader scale c i = settable (any_get scale c i)"

definition chunk_zone_of :: "jsnum \<Rightarrow> data_chunk \<Rightarrow> chunk_zone" where
  "chunk_zone_of scale ch = buildChunkZoneMap (map (column_reader scale) (ch_columns ch)) (ch_size ch) (ch_selection ch)"

definition table_addChunk :: "storage_config \<Rightarrow> data_chunk \<Rightarrow> table \<Rightarrow> table_error + table" where
  "table_addChunk cfg ch t =
     bindE (encodeChunkColumns (sc_scale cfg) (sc_encoding cfg) ch) (\<lambda>stored.
       let pageId = page_id (t_name t) (length (t_pageIds t))
       in Inr (t\<lparr>t_pageIds := t_pageIds t @ [pageId],
                 t_zoneMaps := t_zoneMaps t @ [chunk_zone_of (sc_scale cfg) stored],
                 t_rowCount := t_rowCount t + ch_size stored,
                 t_pageCache := writePage pageId stored (t_pageCache t)\<rparr>))"

definition table_createChunk :: "storage_config \<Rightarrow> table \<Rightarrow> data_chunk" where
  "table_createChunk cfg t = chunk_fromSchema (t_schema t) (sc_chunkSize cfg)"

text \<open>One round of the loop of \<open>insertRows\<close>, with the active chunk in hand.\<close>

definition table_insertRow :: "storage_config \<Rightarrow> column_value list \<Rightarrow> data_chunk \<times> table \<Rightarrow> table_error + data_chunk \<times> table" where
  "table_insertRow cfg row = (\<lambda>(active, t).
     bindE (if sc_chunkSize cfg \<le> ch_size active
            then bindE (table_addChunk cfg active t) (\<lambda>t'. Inr (table_createChunk cfg t', t'))
            else Inr (active, t)) (\<lambda>(active', t').
       bindE (lift_error ColumnFailed (chunk_appendRow (sc_scale cfg) row active')) (\<lambda>active''. Inr (active'', t'))))"

fun insert_rows_from :: "storage_config \<Rightarrow> column_value list list \<Rightarrow> data_chunk \<times> table \<Rightarrow> table_error + data_chunk \<times> table" where
  "insert_rows_from cfg [] s = Inr s"
| "insert_rows_from cfg (row # rows) s = bindE (table_insertRow cfg row s) (insert_rows_from cfg rows)"

definition table_insertRows :: "storage_config \<Rightarrow> column_value list list \<Rightarrow> table \<Rightarrow> table_error + table" where
  "table_insertRows cfg rows t =
     (let active = (case t_activeChunk t of None \<Rightarrow> table_createChunk cfg t | Some ch \<Rightarrow> ch)
      in bindE (insert_rows_from cfg rows (active, t)) (\<lambda>(active', t'). Inr (t'\<lparr>t_activeChunk := Some active'\<rparr>)))"

definition table_flush :: "storage_config \<Rightarrow> table \<Rightarrow> table_error + table" where
  "table_flush cfg t = (case t_activeChunk t of
       None \<Rightarrow> Inr t
     | Some ch \<Rightarrow> if 0 < ch_size ch
         then bindE (table_addChunk cfg ch t) (\<lambda>t'. Inr (t'\<lparr>t_activeChunk := None\<rparr>))
         else Inr t)"

text \<open>The loop over the pages; a page that is not there throws.\<close>

fun scan_pages :: "(chunk_zone \<Rightarrow> bool) \<Rightarrow> bool \<Rightarrow> (string \<times> chunk_zone) list \<Rightarrow> data_chunk page_cache
    \<Rightarrow> table_error + data_chunk list \<times> data_chunk page_cache" where
  "scan_pages skip bypass [] pc = Inr ([], pc)"
| "scan_pages skip bypass ((pageId, zone) # pages) pc =
     (if skip zone then scan_pages skip bypass pages pc
      else case fetchPage pageId bypass pc of
          (None, pc1) \<Rightarrow> Inl PageMissing
        | (Some chunk, pc1) \<Rightarrow> bindE (scan_pages skip bypass pages pc1) (\<lambda>(chunks, pc2).
            Inr (chunk_scanView chunk # chunks, pc2)))"

definition skip_of :: "(chunk_zone \<Rightarrow> bool) option \<Rightarrow> chunk_zone \<Rightarrow> bool" where
  "skip_of pruner zone = (case pruner of None \<Rightarrow> False | Some canSkip \<Rightarrow> canSkip zone)"

definition table_scan :: "storage_config \<Rightarrow> (chunk_zone \<Rightarrow> bool) option \<Rightarrow> table \<Rightarrow> table_error + data_chunk list \<times> table" where
  "table_scan cfg pruner t = bindE (table_flush cfg t) (\<lambda>t1.
     bindE (scan_pages (skip_of pruner) True (zip (t_pageIds t1) (t_zoneMaps t1)) (t_pageCache t1)) (\<lambda>(chunks, pc).
       Inr (chunks, t1\<lparr>t_pageCache := pc\<rparr>)))"

definition table_scanAll :: "storage_config \<Rightarrow> table \<Rightarrow> table_error + data_chunk list \<times> table" where
  "table_scanAll cfg t = bindE (table_flush cfg t) (\<lambda>t1.
     bindE (scan_pages (\<lambda>_. False) False (zip (t_pageIds t1) (t_zoneMaps t1)) (t_pageCache t1)) (\<lambda>(chunks, pc).
       Inr (chunks, t1\<lparr>t_pageCache := pc\<rparr>)))"

section \<open>What a chunk holds\<close>

text \<open>The columns of a list of rows.\<close>

definition column_of :: "'a list list \<Rightarrow> nat \<Rightarrow> 'a list" where
  "column_of rows j = map (\<lambda>r. r ! j) rows"

definition schema_shown :: "jsnum \<Rightarrow> column_schema \<Rightarrow> column_value \<Rightarrow> eval_value" where
  "schema_shown scale col v = (if snd col = VARCHAR then Val v else read_back scale (snd col) v)"

definition shown_row :: "jsnum \<Rightarrow> column_schema list \<Rightarrow> column_value list \<Rightarrow> eval_value list" where
  "shown_row scale schema row = map2 (schema_shown scale) schema row"

definition chunk_holds :: "storage_config \<Rightarrow> column_schema list \<Rightarrow> data_chunk \<Rightarrow> column_value list list \<Rightarrow> bool" where
  "chunk_holds cfg schema ch rows \<longleftrightarrow> ch_selection ch = None \<and> ch_size ch = length rows
     \<and> length rows \<le> sc_chunkSize cfg \<and> length (ch_columns ch) = length schema
     \<and> (\<forall>r \<in> set rows. length r = length schema)
     \<and> (\<forall>j < length schema. any_holds (sc_scale cfg) (ch_columns ch ! j) (column_of rows j)
          \<and> any_capacity (ch_columns ch ! j) = sc_chunkSize cfg
          \<and> any_shown (sc_scale cfg) (ch_columns ch ! j) = schema_shown (sc_scale cfg) (schema ! j)
          \<and> any_accepts (ch_columns ch ! j) = (\<lambda>v. True))"

lemma readable_fixed: "t \<noteq> VARCHAR \<Longrightarrow> readable t = (\<lambda>v. True)"
  by (simp add: readable_def fun_eq_iff)

definition chunk_size_ok :: "storage_config \<Rightarrow> bool" where
  "chunk_size_ok cfg \<longleftrightarrow> 0 < sc_chunkSize cfg \<and> sc_chunkSize cfg < 2 ^ 27"

lemma new_chunk_holds:
  assumes "chunk_size_ok cfg"
  shows "chunk_holds cfg schema (chunk_fromSchema schema (sc_chunkSize cfg)) []"
proof -
  have n: "0 < sc_chunkSize cfg" "sc_chunkSize cfg \<le> 2 ^ 31" using assms by (simp_all add: chunk_size_ok_def)
  show ?thesis
    using column_new_holds [OF n] dict_new_holds [OF n]
    by (auto simp: chunk_holds_def chunk_fromSchema_def column_of_def schema_shown_def column_new_def dict_new_def
        readable_fixed fun_eq_iff split: prod.splits)
qed

lemma appendRow_holds:
  assumes "chunk_holds cfg schema ch rows" "length rows < sc_chunkSize cfg" "length row = length schema"
    and "chunk_appendRow (sc_scale cfg) row ch = Inr ch'"
  shows "chunk_holds cfg schema ch' (rows @ [row])"
proof -
  let ?n = "length rows" and ?cs = "ch_columns ch"
  obtain cs where cs: "set_row (any_set (sc_scale cfg)) ?n row ?cs = Inr cs"
      "ch' = ch\<lparr>ch_columns := cs, ch_size := ?n + 1\<rparr>"
    using assms(1,4) by (auto simp: chunk_appendRow_def chunk_holds_def bindE_Inr_iff)
  let ?vss = "map (column_of rows) [0..<length schema]"
  have len: "length ?cs = length schema" and at: "\<And>j. j < length schema \<Longrightarrow> any_holds (sc_scale cfg) (?cs ! j) (column_of rows j)
      \<and> any_capacity (?cs ! j) = sc_chunkSize cfg \<and> any_shown (sc_scale cfg) (?cs ! j) = schema_shown (sc_scale cfg) (schema ! j)
      \<and> any_accepts (?cs ! j) = (\<lambda>v. True)"
    using assms(1) by (auto simp: chunk_holds_def)
  have "list_all2 (any.filled (sc_scale cfg) ?n) ?cs ?vss"
    using len at by (simp add: list_all2_conv_all_nth any.filled_def column_of_def)
  moreover have "\<forall>c \<in> set ?cs. ?n < any_capacity c" using len at assms(2) by (auto simp: in_set_conv_nth)
  moreover have "length row = length ?cs" using len assms(3) by simp
  ultimately have f: "list_all2 (any.filled (sc_scale cfg) (Suc ?n)) cs (map2 (\<lambda>vs v. vs @ [v]) ?vss row)"
    and same: "map any_capacity cs = map any_capacity ?cs" "map (any_shown (sc_scale cfg)) cs = map (any_shown (sc_scale cfg)) ?cs"
      "map any_accepts cs = map any_accepts ?cs"
    using any.set_row_filled [OF _ _ _ cs(1)] by blast+
  have len': "length cs = length schema" using same(1) len by (metis length_map)
  have keep: "any_capacity (cs ! j) = any_capacity (?cs ! j)" "any_shown (sc_scale cfg) (cs ! j) = any_shown (sc_scale cfg) (?cs ! j)"
      "any_accepts (cs ! j) = any_accepts (?cs ! j)" if "j < length schema" for j
    using that same len len' by (metis nth_map)+
  have hold: "any_holds (sc_scale cfg) (cs ! j) (column_of (rows @ [row]) j)" if "j < length schema" for j
    using list_all2_nthD2 [OF f, of j] that assms(3) by (simp add: any.filled_def column_of_def)
  show ?thesis
    using assms(1-3) len' keep hold at by (simp add: chunk_holds_def cs(2))
qed

section \<open>Encoding keeps the values\<close>

lemma encoded_column_get:
  assumes "column_holds scale c vs" "length vs < 2 ^ 27" "encodedColumn cfg (Plain c) = Inr c'" "i < length vs"
  shows "any_get scale c' i = column_get scale c i"
proof -
  have ok: "column_ok c" "c_length c = length vs" "c_encoded c = None" "column_value_at scale c i (vs ! i)"
    using assms(1,4) by (auto simp: column_holds_def column_ok_def)
  obtain enc where enc: "encodeColumnValues cfg (c_type c) None (integer_data c) (length vs) = Inr enc"
      "c' = Plain (case enc of None \<Rightarrow> c | Some e \<Rightarrow> column_fromEncoded (c_type c) e (c_nulls c) (length vs) (c_hasNulls c))"
    using assms(3) ok by (auto simp: bindE_Inr_iff split: option.splits)
  show ?thesis
  proof (cases enc)
    case None
    then show ?thesis by (simp add: enc(2))
  next
    case (Some e)
    then obtain xs where xs: "c_type c \<in> ENCODABLE_TYPES" "integer_data c = Some xs"
      using enc(1) by (auto simp: encodeColumnValues_def split: if_splits option.splits)
    then have t: "c_type c = INT32 \<or> c_type c = INT64" "c_data c = Some (IntArray xs)"
      by (auto simp: ENCODABLE_TYPES_def integer_data_def split: option.splits typed_array.splits)
    have a: "array_ok (c_type c) (c_capacity c) (IntArray xs)" using ok(1) t by (auto simp: column_ok_def)
    have len: "length vs \<le> length xs" "list_all (in_range (c_type c)) xs"
      using a xs(1) ok(1,2) by (auto simp: array_ok_def column_ok_def)
    have src: "valid_source (encodable_of (c_type c) xs (length vs))"
      using xs(1) len assms(2,4) by (auto simp: valid_source_def encodable_of_def)
    obtain k where k: "encoder_encode k (encodable_of (c_type c) xs (length vs)) = Inr e"
        "encoder_plan cfg k (e_stats (encodable_of (c_type c) xs (length vs))) (e_type (encodable_of (c_type c) xs (length vs))) \<noteq> None"
      using encodeColumnValues_cases [OF enc(1) [unfolded Some xs(2)]] by metis
    have v: "ev_valueAt e i = int_value (c_type c) (xs ! i)"
      using registry.value_law [OF src k(2,1)] assms(4) by (simp add: encodable_of_def)
    have "i < length xs" using len assms(4) by simp
    then show ?thesis
      using v t ok(3) by (auto simp: enc(2) Some column_fromEncoded_def column_get_def element_def nth_opt_def int_value_def
          isWideInteger_def Let_def)
  qed
qed

text \<open>What a stored chunk reads back: the rows as the types of the schema show them.\<close>

definition chunk_shows :: "jsnum \<Rightarrow> column_schema list \<Rightarrow> data_chunk \<Rightarrow> column_value list list \<Rightarrow> bool" where
  "chunk_shows scale schema ch rows \<longleftrightarrow> ch_selection ch = None \<and> ch_size ch = length rows
     \<and> length (ch_columns ch) = length schema \<and> (\<forall>r \<in> set rows. length r = length schema)
     \<and> (\<forall>i < length rows. \<forall>j < length schema.
          any_get scale (ch_columns ch ! j) i = schema_shown scale (schema ! j) (rows ! i ! j))"

lemma sequenceE_nth:
  "sequenceE ms = Inr xs \<Longrightarrow> length xs = length ms \<and> (\<forall>i < length ms. ms ! i = Inr (xs ! i))"
proof (induction ms arbitrary: xs)
  case (Cons m ms)
  then obtain y ys where "m = Inr y" "sequenceE ms = Inr ys" "xs = y # ys" by (auto simp: bindE_Inr_iff)
  then show ?case using Cons.IH by (auto simp: nth_Cons split: nat.splits)
qed simp

lemma lift_error_Inr: "lift_error f r = Inr x \<longleftrightarrow> r = Inr x"
  by (cases r) (simp_all add: lift_error_def)

lemma encode_chunk_shows:
  assumes "chunk_holds cfg schema ch rows" "chunk_size_ok cfg"
    and "encodeChunkColumns (sc_scale cfg) (sc_encoding cfg) ch = Inr stored"
  shows "chunk_shows (sc_scale cfg) schema stored rows"
proof -
  let ?s = "sc_scale cfg" and ?cs = "ch_columns ch"
  have h: "ch_selection ch = None" "ch_size ch = length rows" "length ?cs = length schema" "\<forall>r \<in> set rows. length r = length schema"
      "length rows < 2 ^ 27"
    and at: "\<And>j. j < length schema \<Longrightarrow> any_holds ?s (?cs ! j) (column_of rows j)
      \<and> any_shown ?s (?cs ! j) = schema_shown ?s (schema ! j) \<and> any_accepts (?cs ! j) = (\<lambda>v. True)"
    using assms(1,2) by (auto simp: chunk_holds_def chunk_size_ok_def)
  obtain cs where cs: "sequenceE (map (encodedColumn (sc_encoding cfg)) ?cs) = Inr cs"
      "stored = \<lparr>ch_columns = cs, ch_size = length rows, ch_selection = None\<rparr>"
    using assms(3) h by (auto simp: encodeChunkColumns_def chunk_flatten_def lift_error_Inr bindE_Inr_iff)
  have enc: "length cs = length schema" "\<And>j. j < length schema \<Longrightarrow> encodedColumn (sc_encoding cfg) (?cs ! j) = Inr (cs ! j)"
    using sequenceE_nth [OF cs(1)] h(3) by auto
  have "any_get ?s (cs ! j) i = schema_shown ?s (schema ! j) (rows ! i ! j)" if "i < length rows" "j < length schema" for i j
  proof -
    have v: "any_get ?s (?cs ! j) i = schema_shown ?s (schema ! j) (rows ! i ! j)"
      using at [OF that(2)] any.get_law [of ?s "?cs ! j" "column_of rows j" i] that(1) by (simp add: column_of_def)
    show ?thesis
    proof (cases "?cs ! j")
      case (Plain c)
      then show ?thesis
        using encoded_column_get [of ?s c "column_of rows j" "sc_encoding cfg" "cs ! j" i] at [OF that(2)] enc(2) [OF that(2)] h(5) that v
        by (simp add: column_of_def)
    next
      case (Dict d)
      then show ?thesis using enc(2) [OF that(2)] v by auto
    qed
  qed
  then show ?thesis using h enc(1) by (simp add: chunk_shows_def cs(2))
qed

lemma toRows_shown:
  "chunk_shows scale schema ch rows \<Longrightarrow> chunk_toRows scale ch = map (shown_row scale schema) rows"
proof (rule nth_equalityI)
  assume h: "chunk_shows scale schema ch rows"
  then show "length (chunk_toRows scale ch) = length (map (shown_row scale schema) rows)"
    by (simp add: chunk_toRows_def chunk_shows_def)
  fix i assume "i < length (chunk_toRows scale ch)"
  then have i: "i < length rows" using h by (simp add: chunk_toRows_def chunk_shows_def)
  have "map (\<lambda>c. any_get scale c i) (ch_columns ch) = shown_row scale schema (rows ! i)"
    using h i by (intro nth_equalityI) (simp_all add: chunk_shows_def shown_row_def)
  then show "chunk_toRows scale ch ! i = map (shown_row scale schema) rows ! i"
    using h i by (simp add: chunk_toRows_def chunk_shows_def chunk_activeRowIndex_def selected_row_def)
qed

lemma any_scanView_id [simp]: "any_scanView c = c"
  by (cases c) (simp_all add: column_scanView_def dict_scanView_def)

lemma scanView_id [simp]: "chunk_scanView ch = ch"
  by (simp add: chunk_scanView_def map_idI)

section \<open>What a table holds\<close>

lemma page_id_inj: "page_id name m = page_id name n \<Longrightarrow> m = n"
proof -
  assume "page_id name m = page_id name n"
  then have e: "decimal_text m = decimal_text n" by (simp add: page_id_def)
  have undo: "map (\<lambda>c. of_nat (of_char c) :: 16 word) (decimal_text k) = decimal k" for k
  proof -
    have "\<forall>u \<in> set (decimal k). unat u < 256"
      using decimal_digits [of k] by (auto simp: list_all_iff is_digit_def word_le_nat_alt)
    then show ?thesis unfolding decimal_text_def by (simp add: map_idI)
  qed
  show "m = n" using e undo [of m] undo [of n] digits_value_decimal by metis
qed

definition cache_ok :: "'c page_cache \<Rightarrow> bool" where
  "cache_ok pc \<longleftrightarrow> page_inv \<lparr>ps_cache = pc, ps_flight = []\<rparr>"

lemma fetch_ok:
  assumes "cache_ok pc" "pc_pages pc pageId = Some ch"
  shows "\<exists>pc'. fetchPage pageId bypass pc = (Some ch, pc') \<and> cache_ok pc' \<and> pc_pages pc' = pc_pages pc"
proof -
  let ?s = "\<lparr>ps_cache = pc, ps_flight = []\<rparr>"
  obtain r pc1 where f: "fetch_lookup pageId pc = (r, pc1)" by (cases "fetch_lookup pageId pc")
  have p1: "pc_pages pc1 = pc_pages pc" using lookup_fields(1) [OF f] .
  show ?thesis
  proof (cases r)
    case (Some cached)
    have st: "page_step ?s (Returned pageId cached) \<lparr>ps_cache = pc1, ps_flight = []\<rparr>"
      using page_step.hit [of ?s pageId cached pc1] f Some assms(2) by simp
    have "cached = Some ch" using page_returns [OF assms(1) [unfolded cache_ok_def] st] assms(2) by simp
    moreover have "cache_ok pc1" using page_inv_step [OF st assms(1) [unfolded cache_ok_def]] by (simp add: cache_ok_def)
    ultimately show ?thesis using f Some p1 by (simp add: fetchPage_def)
  next
    case None
    let ?s1 = "\<lparr>ps_cache = pc1, ps_flight = [(pageId, bypass, readPage pageId pc1)]\<rparr>"
    have st: "page_step ?s (Started pageId) ?s1"
      using page_step.miss [of ?s pageId pc1 bypass] f None assms(2) by simp
    have i1: "page_inv ?s1" using page_inv_step [OF st assms(1) [unfolded cache_ok_def]] .
    have read: "readPage pageId pc1 = Some ch" using assms(2) p1 by (simp add: readPage_def ms_read_def)
    let ?pc2 = "fetch_finish pageId bypass (Some ch) pc1"
    have "page_step ?s1 (Returned pageId (Some ch)) \<lparr>ps_cache = ?pc2, ps_flight = []\<rparr>"
      using page_step.finish [of ?s1 "[]" pageId bypass "Some ch" "[]"] read by simp
    then have "cache_ok ?pc2" using page_inv_step i1 by (auto simp: cache_ok_def)
    then show ?thesis using f None read p1 by (simp add: fetchPage_def Let_def)
  qed
qed

text \<open>The pages hold the row lists \<open>pages\<close>, in order, each with its summary.\<close>

definition pages_hold :: "storage_config \<Rightarrow> table \<Rightarrow> column_value list list list \<Rightarrow> bool" where
  "pages_hold cfg t pages \<longleftrightarrow> t_pageIds t = map (page_id (t_name t)) [0..<length pages]
     \<and> length (t_zoneMaps t) = length pages \<and> cache_ok (t_pageCache t) \<and> t_rowCount t = length (concat pages)
     \<and> (\<forall>i < length pages. \<exists>ch. pc_pages (t_pageCache t) (page_id (t_name t) i) = Some ch
          \<and> chunk_shows (sc_scale cfg) (t_schema t) ch (pages ! i) \<and> t_zoneMaps t ! i = chunk_zone_of (sc_scale cfg) ch)
     \<and> (\<forall>i \<ge> length pages. pc_pages (t_pageCache t) (page_id (t_name t) i) = None)"

definition active_holds :: "storage_config \<Rightarrow> table \<Rightarrow> column_value list list \<Rightarrow> bool" where
  "active_holds cfg t rows \<longleftrightarrow> (case t_activeChunk t of
       None \<Rightarrow> rows = []
     | Some ch \<Rightarrow> chunk_holds cfg (t_schema t) ch rows)"

text \<open>The abstraction of a table: the list of the rows inserted.\<close>

definition table_rows :: "storage_config \<Rightarrow> table \<Rightarrow> column_value list list \<Rightarrow> bool" where
  "table_rows cfg t rows \<longleftrightarrow> (\<exists>pages active. pages_hold cfg t pages \<and> active_holds cfg t active \<and> rows = concat pages @ active)"

lemma cache_new_ok: "cache_ok (page_cache_new m)"
  using page_inv_reach [OF page_reach.start] by (simp add: cache_ok_def)

lemma table_new_rows: "table_rows cfg (table_new name schema m) []"
  unfolding table_rows_def
  by (rule exI [of _ "[]"], rule exI [of _ "[]"])
    (simp add: pages_hold_def active_holds_def table_new_def cache_new_ok, simp add: page_cache_new_def)

lemma pages_hold_active [simp]: "pages_hold cfg (t\<lparr>t_activeChunk := a\<rparr>) pages = pages_hold cfg t pages"
  by (simp add: pages_hold_def)

lemma write_ok:
  assumes "cache_ok pc" "pc_pages pc pageId = None"
  shows "cache_ok (writePage pageId ch pc)"
proof -
  have "page_step \<lparr>ps_cache = pc, ps_flight = []\<rparr> (Wrote pageId ch) \<lparr>ps_cache = writePage pageId ch pc, ps_flight = []\<rparr>"
    using page_step.wrote [of "\<lparr>ps_cache = pc, ps_flight = []\<rparr>" pageId ch] assms(2) by simp
  then show ?thesis using page_inv_step assms(1) by (auto simp: cache_ok_def)
qed

lemma addChunk_holds:
  assumes "pages_hold cfg t pages" "chunk_holds cfg (t_schema t) ch rows" "chunk_size_ok cfg" "table_addChunk cfg ch t = Inr t'"
  shows "pages_hold cfg t' (pages @ [rows])" "t_schema t' = t_schema t" "t_activeChunk t' = t_activeChunk t" "t_name t' = t_name t"
proof -
  let ?n = "length pages" and ?id = "page_id (t_name t)"
  obtain stored where st: "encodeChunkColumns (sc_scale cfg) (sc_encoding cfg) ch = Inr stored"
      "t' = t\<lparr>t_pageIds := t_pageIds t @ [?id ?n], t_zoneMaps := t_zoneMaps t @ [chunk_zone_of (sc_scale cfg) stored],
        t_rowCount := t_rowCount t + ch_size stored, t_pageCache := writePage (?id ?n) stored (t_pageCache t)\<rparr>"
    using assms(1,4) by (auto simp: table_addChunk_def bindE_Inr_iff Let_def pages_hold_def)
  have sh: "chunk_shows (sc_scale cfg) (t_schema t) stored rows" by (rule encode_chunk_shows [OF assms(2,3) st(1)])
  have inv: "t_pageIds t = map ?id [0..<?n]" "length (t_zoneMaps t) = ?n" "cache_ok (t_pageCache t)"
      "t_rowCount t = length (concat pages)"
      "\<And>i. i < ?n \<Longrightarrow> \<exists>ch. pc_pages (t_pageCache t) (?id i) = Some ch
          \<and> chunk_shows (sc_scale cfg) (t_schema t) ch (pages ! i) \<and> t_zoneMaps t ! i = chunk_zone_of (sc_scale cfg) ch"
      "\<And>i. ?n \<le> i \<Longrightarrow> pc_pages (t_pageCache t) (?id i) = None"
    using assms(1) by (auto simp: pages_hold_def)
  have "pages_hold cfg t' (pages @ [rows])"
    unfolding pages_hold_def
  proof (intro conjI allI impI)
    show "cache_ok (t_pageCache t')" using write_ok [OF inv(3) inv(6)] by (simp add: st(2))
    show "t_rowCount t' = length (concat (pages @ [rows]))" using inv(4) sh by (simp add: st(2) chunk_shows_def)
    fix i assume "i < length (pages @ [rows])"
    then consider "i < ?n" | "i = ?n" by force
    then show "\<exists>ch. pc_pages (t_pageCache t') (page_id (t_name t') i) = Some ch
        \<and> chunk_shows (sc_scale cfg) (t_schema t') ch ((pages @ [rows]) ! i) \<and> t_zoneMaps t' ! i = chunk_zone_of (sc_scale cfg) ch"
    proof cases
      case 1
      then have "?id i \<noteq> ?id ?n" using page_id_inj [of "t_name t" i ?n] by auto
      then show ?thesis using inv(2) inv(5) [OF 1] 1 by (auto simp: st(2) writePage_def ms_write_def nth_append)
    next
      case 2
      then show ?thesis using inv(2) sh by (auto simp: st(2) writePage_def ms_write_def nth_append)
    qed
  next
    fix i assume "length (pages @ [rows]) \<le> i"
    then have "?n \<le> i" "?id i \<noteq> ?id ?n" using page_id_inj [of "t_name t" i ?n] by auto
    then show "pc_pages (t_pageCache t') (page_id (t_name t') i) = None"
      using inv(6) by (simp add: st(2) writePage_def ms_write_def)
  qed (use inv(1,2) in \<open>simp_all add: st(2)\<close>)
  then show "pages_hold cfg t' (pages @ [rows])" "t_schema t' = t_schema t" "t_activeChunk t' = t_activeChunk t"
    "t_name t' = t_name t" by (simp_all add: st(2))
qed

lemma insertRow_holds:
  assumes "pages_hold cfg t pages" "chunk_holds cfg (t_schema t) active rows" "chunk_size_ok cfg"
    and "table_insertRow cfg row (active, t) = Inr (active', t')" "length row = length (t_schema t)"
  shows "\<exists>pages' rows'. pages_hold cfg t' pages' \<and> chunk_holds cfg (t_schema t') active' rows'
    \<and> concat pages' @ rows' = concat pages @ rows @ [row] \<and> t_schema t' = t_schema t"
proof (cases "sc_chunkSize cfg \<le> ch_size active")
  case True
  then obtain u where u: "table_addChunk cfg active t = Inr u" "t' = u"
      "chunk_appendRow (sc_scale cfg) row (table_createChunk cfg u) = Inr active'"
    using assms(4) by (auto simp: table_insertRow_def bindE_Inr_iff lift_error_Inr)
  note a = addChunk_holds [OF assms(1,2,3) u(1)]
  have "chunk_holds cfg (t_schema u) (table_createChunk cfg u) []"
    using new_chunk_holds [OF assms(3)] by (simp add: table_createChunk_def)
  from appendRow_holds [OF this _ _ u(3)] have "chunk_holds cfg (t_schema u) active' [row]"
    using assms(3,5) a(2) by (simp add: chunk_size_ok_def)
  then show ?thesis using a u(2) by (intro exI [of _ "pages @ [rows]"] exI [of _ "[row]"]) simp
next
  case False
  then have u: "chunk_appendRow (sc_scale cfg) row active = Inr active'" "t' = t"
    using assms(4) by (auto simp: table_insertRow_def bindE_Inr_iff lift_error_Inr)
  have "length rows < sc_chunkSize cfg" using False assms(2) by (simp add: chunk_holds_def)
  from appendRow_holds [OF assms(2) this assms(5) u(1)] show ?thesis
    using assms(1) u(2) by (intro exI [of _ pages] exI [of _ "rows @ [row]"]) simp
qed

lemma insert_rows_hold:
  assumes "chunk_size_ok cfg"
  shows "pages_hold cfg t pages \<Longrightarrow> chunk_holds cfg (t_schema t) active rows \<Longrightarrow> insert_rows_from cfg new (active, t) = Inr (active', t')
    \<Longrightarrow> \<forall>r \<in> set new. length r = length (t_schema t)
    \<Longrightarrow> \<exists>pages' rows'. pages_hold cfg t' pages' \<and> chunk_holds cfg (t_schema t') active' rows'
      \<and> concat pages' @ rows' = concat pages @ rows @ new \<and> t_schema t' = t_schema t"
proof (induction new arbitrary: t pages active rows)
  case Nil
  then show ?case by auto
next
  case (Cons row new)
  obtain active1 t1 where s: "table_insertRow cfg row (active, t) = Inr (active1, t1)"
      "insert_rows_from cfg new (active1, t1) = Inr (active', t')"
    using Cons.prems(3) by (auto simp: bindE_Inr_iff)
  obtain pages1 rows1 where h: "pages_hold cfg t1 pages1" "chunk_holds cfg (t_schema t1) active1 rows1"
      "concat pages1 @ rows1 = concat pages @ rows @ [row]" "t_schema t1 = t_schema t"
    using insertRow_holds [OF Cons.prems(1,2) assms s(1)] Cons.prems(4) by auto
  obtain pages' rows' where "pages_hold cfg t' pages'" "chunk_holds cfg (t_schema t') active' rows'"
      "concat pages' @ rows' = concat pages1 @ rows1 @ new" "t_schema t' = t_schema t1"
    using Cons.IH [OF h(1,2) s(2)] Cons.prems(4) h(4) by auto
  moreover have "concat pages1 @ rows1 @ new = concat pages @ rows @ row # new" using h(3) by (metis append_assoc append_Cons append_Nil)
  ultimately show ?case using h(4) by metis
qed

lemma insertRows_rows:
  assumes "table_rows cfg t rows" "chunk_size_ok cfg" "\<forall>r \<in> set new. length r = length (t_schema t)"
    and "table_insertRows cfg new t = Inr t'"
  shows "table_rows cfg t' (rows @ new) \<and> t_schema t' = t_schema t"
proof -
  obtain pages active where h: "pages_hold cfg t pages" "active_holds cfg t active" "rows = concat pages @ active"
    using assms(1) by (auto simp: table_rows_def)
  let ?a = "case t_activeChunk t of None \<Rightarrow> table_createChunk cfg t | Some ch \<Rightarrow> ch"
  have a: "chunk_holds cfg (t_schema t) ?a active"
    using h(2) new_chunk_holds [OF assms(2)] by (auto simp: active_holds_def table_createChunk_def split: option.splits)
  obtain active' t1 where s: "insert_rows_from cfg new (?a, t) = Inr (active', t1)" "t' = t1\<lparr>t_activeChunk := Some active'\<rparr>"
    using assms(4) by (auto simp: table_insertRows_def bindE_Inr_iff Let_def)
  obtain pages' rows' where "pages_hold cfg t1 pages'" "chunk_holds cfg (t_schema t1) active' rows'"
      "concat pages' @ rows' = concat pages @ active @ new" "t_schema t1 = t_schema t"
    using insert_rows_hold [OF assms(2) h(1) a s(1) assms(3)] by blast
  then show ?thesis using h(3) s(2)
    by (auto simp: table_rows_def active_holds_def intro!: exI [of _ pages'] exI [of _ rows'])
qed

lemma flush_rows:
  assumes "table_rows cfg t rows" "chunk_size_ok cfg" "table_flush cfg t = Inr t'"
  shows "\<exists>pages. pages_hold cfg t' pages \<and> concat pages = rows \<and> active_holds cfg t' [] \<and> t_schema t' = t_schema t"
proof -
  obtain pages active where h: "pages_hold cfg t pages" "active_holds cfg t active" "rows = concat pages @ active"
    using assms(1) by (auto simp: table_rows_def)
  show ?thesis
  proof (cases "t_activeChunk t")
    case None
    then show ?thesis using h assms(3) by (auto simp: table_flush_def active_holds_def)
  next
    case (Some ch)
    then have c: "chunk_holds cfg (t_schema t) ch active" using h(2) by (simp add: active_holds_def)
    show ?thesis
    proof (cases "0 < ch_size ch")
      case True
      then obtain u where u: "table_addChunk cfg ch t = Inr u" "t' = u\<lparr>t_activeChunk := None\<rparr>"
        using assms(3) Some by (auto simp: table_flush_def bindE_Inr_iff)
      from addChunk_holds [OF h(1) c assms(2) u(1)] show ?thesis
        using u(2) h(3) by (intro exI [of _ "pages @ [active]"]) (simp add: active_holds_def)
    next
      case False
      then have "active = []" "t' = t" using c assms(3) Some by (auto simp: chunk_holds_def table_flush_def)
      then show ?thesis using h by auto
    qed
  qed
qed

section \<open>Reading a table\<close>

lemma encodedColumn_total:
  assumes "any_holds scale c vs" "length vs < 2 ^ 27"
  shows "\<exists>c'. encodedColumn cfg c = Inr c'"
proof (cases c)
  case (Plain p)
  have ok: "column_ok p" "c_length p = length vs" "c_encoded p = None"
    using assms(1) Plain by (auto simp: column_holds_def column_ok_def)
  have "\<exists>e. encodeColumnValues cfg (c_type p) None (integer_data p) (length vs) = Inr e"
  proof (cases "c_type p \<in> ENCODABLE_TYPES \<and> vs \<noteq> [] \<and> columnEncoding cfg")
    case False
    then show ?thesis by (auto simp: encodeColumnValues_def)
  next
    case True
    then have t: "c_type p \<noteq> VARCHAR" "c_type p \<noteq> FLOAT64" by (auto simp: ENCODABLE_TYPES_def)
    then obtain a where a: "c_data p = Some a" "array_ok (c_type p) (c_capacity p) a" using ok(1) by (auto simp: column_ok_def)
    then obtain xs where xs: "a = IntArray xs" using t(2) by (cases a) (auto simp: array_ok_def)
    have "length vs \<le> length xs" "list_all (in_range (c_type p)) xs"
      using a(2) xs True ok by (auto simp: array_ok_def column_ok_def)
    then have src: "valid_source (encodable_of (c_type p) xs (length vs))"
      using True assms(2) by (auto simp: valid_source_def encodable_of_def)
    have d: "integer_data p = Some xs" using a xs by (simp add: integer_data_def)
    show ?thesis
    proof (cases "chooseEncoder cfg (summarizeIntegers xs (length vs)) (c_type p)")
      case None
      then show ?thesis using True d by (auto simp: encodeColumnValues_def Let_def)
    next
      case (Some k)
      then obtain v where "encoder_encode k (encodable_of (c_type p) xs (length vs)) = Inr v"
        using registry.encode_total [OF src, of cfg k] chooseEncoder_plan [OF Some] by (auto simp: encodable_of_def)
      then show ?thesis using True d Some by (auto simp: encodeColumnValues_def Let_def encodable_of_def)
    qed
  qed
  then show ?thesis using Plain ok by auto
qed simp

lemma sequenceE_total: "\<forall>m \<in> set ms. \<exists>x. m = Inr x \<Longrightarrow> \<exists>xs. sequenceE ms = Inr xs"
  by (induction ms) auto

lemma addChunk_total:
  assumes "chunk_holds cfg schema ch rows" "chunk_size_ok cfg"
  shows "\<exists>t'. table_addChunk cfg ch t = Inr t'"
proof -
  have "\<exists>c'. encodedColumn (sc_encoding cfg) c = Inr c'" if c: "c \<in> set (ch_columns ch)" for c
  proof -
    obtain j where "j < length (ch_columns ch)" "c = ch_columns ch ! j" using c by (auto simp: in_set_conv_nth)
    then show ?thesis
      using assms encodedColumn_total [of "sc_scale cfg" c "column_of rows j"]
      by (auto simp: chunk_holds_def chunk_size_ok_def column_of_def)
  qed
  then obtain cs where "sequenceE (map (encodedColumn (sc_encoding cfg)) (ch_columns ch)) = Inr cs"
    using sequenceE_total [of "map (encodedColumn (sc_encoding cfg)) (ch_columns ch)"] by auto
  then show ?thesis
    using assms(1) by (auto simp: table_addChunk_def encodeChunkColumns_def chunk_flatten_def chunk_holds_def lift_error_def Let_def)
qed

lemma flush_total:
  assumes "table_rows cfg t rows" "chunk_size_ok cfg"
  shows "\<exists>t'. table_flush cfg t = Inr t'"
proof (cases "t_activeChunk t")
  case (Some ch)
  then obtain active where "chunk_holds cfg (t_schema t) ch active"
    using assms(1) by (auto simp: table_rows_def active_holds_def)
  then obtain t' where "table_addChunk cfg ch t = Inr t'" using addChunk_total [OF _ assms(2)] by blast
  then show ?thesis by (simp add: table_flush_def Some)
qed (simp add: table_flush_def)

lemma scan_pages_result:
  "cache_ok pc \<Longrightarrow> \<forall>(pageId, zone) \<in> set ps. pc_pages pc pageId \<noteq> None \<Longrightarrow>
     \<exists>pc'. scan_pages skip bypass ps pc
         = Inr (map (\<lambda>(pageId, zone). the (pc_pages pc pageId)) (filter (\<lambda>(pageId, zone). \<not> skip zone) ps), pc')
       \<and> cache_ok pc' \<and> pc_pages pc' = pc_pages pc"
proof (induction ps arbitrary: pc)
  case (Cons p ps)
  obtain pageId zone where p: "p = (pageId, zone)" by (cases p)
  show ?case
  proof (cases "skip zone")
    case True
    then show ?thesis using Cons p by simp
  next
    case False
    obtain ch where ch: "pc_pages pc pageId = Some ch" using Cons.prems(2) p by auto
    obtain pc1 where pc1: "fetchPage pageId bypass pc = (Some ch, pc1)" "cache_ok pc1" "pc_pages pc1 = pc_pages pc"
      using fetch_ok [OF Cons.prems(1) ch, of bypass] by blast
    obtain pc2 where "scan_pages skip bypass ps pc1
        = Inr (map (\<lambda>(pageId, zone). the (pc_pages pc1 pageId)) (filter (\<lambda>(pageId, zone). \<not> skip zone) ps), pc2)"
        "cache_ok pc2" "pc_pages pc2 = pc_pages pc1"
      using Cons.IH [OF pc1(2)] Cons.prems(2) pc1(3) by auto
    then show ?thesis using False p ch pc1 by simp
  qed
qed simp

text \<open>The chunks of the pages of a table, in order.\<close>

definition page_chunks :: "table \<Rightarrow> data_chunk list" where
  "page_chunks t = map (\<lambda>pageId. the (pc_pages (t_pageCache t) pageId)) (t_pageIds t)"

lemma page_chunks_hold:
  assumes "pages_hold cfg t pages"
  shows "list_all2 (chunk_shows (sc_scale cfg) (t_schema t)) (page_chunks t) pages"
    "t_zoneMaps t = map (chunk_zone_of (sc_scale cfg)) (page_chunks t)"
    "zip (t_pageIds t) (t_zoneMaps t) = map (\<lambda>i. (page_id (t_name t) i, chunk_zone_of (sc_scale cfg) (page_chunks t ! i))) [0..<length pages]"
    "\<forall>(pageId, zone) \<in> set (zip (t_pageIds t) (t_zoneMaps t)). pc_pages (t_pageCache t) pageId \<noteq> None"
proof -
  have h: "t_pageIds t = map (page_id (t_name t)) [0..<length pages]" "length (t_zoneMaps t) = length pages"
      "\<And>i. i < length pages \<Longrightarrow> \<exists>ch. pc_pages (t_pageCache t) (page_id (t_name t) i) = Some ch
          \<and> chunk_shows (sc_scale cfg) (t_schema t) ch (pages ! i) \<and> t_zoneMaps t ! i = chunk_zone_of (sc_scale cfg) ch"
    using assms by (auto simp: pages_hold_def)
  have at: "chunk_shows (sc_scale cfg) (t_schema t) (page_chunks t ! i) (pages ! i)"
      "t_zoneMaps t ! i = chunk_zone_of (sc_scale cfg) (page_chunks t ! i)"
    if "i < length pages" for i
    using h(3) [OF that] that by (auto simp: page_chunks_def h(1))
  have len: "length (page_chunks t) = length pages" by (simp add: page_chunks_def h(1))
  show "list_all2 (chunk_shows (sc_scale cfg) (t_schema t)) (page_chunks t) pages"
    using at(1) len by (simp add: list_all2_conv_all_nth)
  show "t_zoneMaps t = map (chunk_zone_of (sc_scale cfg)) (page_chunks t)"
    using at(2) len h(2) by (intro nth_equalityI) simp_all
  show "zip (t_pageIds t) (t_zoneMaps t) = map (\<lambda>i. (page_id (t_name t) i, chunk_zone_of (sc_scale cfg) (page_chunks t ! i))) [0..<length pages]"
    using at(2) h(1,2) by (intro nth_equalityI) simp_all
  show "\<forall>(pageId, zone) \<in> set (zip (t_pageIds t) (t_zoneMaps t)). pc_pages (t_pageCache t) pageId \<noteq> None"
    using h by (fastforce simp: in_set_zip)
qed

text \<open>A scan of a table that holds its pages: the chunks the pruner does not rule out, in order.\<close>

lemma scan_result:
  assumes "table_rows cfg t rows" "chunk_size_ok cfg"
  shows "\<exists>t1 t' pages. table_scan cfg pruner t
      = Inr (filter (\<lambda>ch. \<not> skip_of pruner (chunk_zone_of (sc_scale cfg) ch)) (page_chunks t1), t')
    \<and> pages_hold cfg t1 pages \<and> concat pages = rows \<and> t_schema t1 = t_schema t
    \<and> pages_hold cfg t' pages \<and> active_holds cfg t' [] \<and> table_flush cfg t = Inr t1"
proof -
  obtain t1 where t1: "table_flush cfg t = Inr t1" using flush_total [OF assms] by blast
  obtain pages where h: "pages_hold cfg t1 pages" "concat pages = rows" "active_holds cfg t1 []" "t_schema t1 = t_schema t"
    using flush_rows [OF assms t1] by blast
  note pg = page_chunks_hold [OF h(1)]
  have ok: "cache_ok (t_pageCache t1)" using h(1) by (simp add: pages_hold_def)
  let ?ps = "zip (t_pageIds t1) (t_zoneMaps t1)" and ?skip = "skip_of pruner"
  obtain pc where pc: "scan_pages ?skip True ?ps (t_pageCache t1)
      = Inr (map (\<lambda>(pageId, zone). the (pc_pages (t_pageCache t1) pageId)) (filter (\<lambda>(pageId, zone). \<not> ?skip zone) ?ps), pc)"
      "cache_ok pc" "pc_pages pc = pc_pages (t_pageCache t1)"
    using scan_pages_result [OF ok pg(4)] by blast
  have n: "length (page_chunks t1) = length pages" using pg(1) by (simp add: list_all2_lengthD)
  have ids: "t_pageIds t1 = map (page_id (t_name t1)) [0..<length pages]" using h(1) by (simp add: pages_hold_def)
  have "map (\<lambda>(pageId, zone). the (pc_pages (t_pageCache t1) pageId)) (filter (\<lambda>(pageId, zone). \<not> ?skip zone) ?ps)
      = map (\<lambda>i. page_chunks t1 ! i) (filter (\<lambda>i. \<not> ?skip (chunk_zone_of (sc_scale cfg) (page_chunks t1 ! i))) [0..<length pages])"
    unfolding pg(3) by (simp add: filter_map o_def page_chunks_def ids)
  also have "\<dots> = filter (\<lambda>ch. \<not> ?skip (chunk_zone_of (sc_scale cfg) ch)) (map (\<lambda>i. page_chunks t1 ! i) [0..<length pages])"
    by (simp add: filter_map o_def)
  also have "map (\<lambda>i. page_chunks t1 ! i) [0..<length pages] = page_chunks t1"
    using n map_nth [of "page_chunks t1"] by simp
  finally have "table_scan cfg pruner t = Inr (filter (\<lambda>ch. \<not> ?skip (chunk_zone_of (sc_scale cfg) ch)) (page_chunks t1),
      t1\<lparr>t_pageCache := pc\<rparr>)"
    using t1 pc(1) by (simp add: table_scan_def)
  moreover have "pages_hold cfg (t1\<lparr>t_pageCache := pc\<rparr>) pages" using h(1) pc(2,3) by (simp add: pages_hold_def)
  moreover have "active_holds cfg (t1\<lparr>t_pageCache := pc\<rparr>) []" using h(3) by (simp add: active_holds_def split: option.splits)
  ultimately show ?thesis using h t1 by blast
qed

text \<open>The rows the chunks of a scan hold, as values, and whether the filter \<open>p\<close> keeps a row.\<close>

definition stored_rows :: "storage_config \<Rightarrow> data_chunk list \<Rightarrow> row list" where
  "stored_rows cfg chunks = map (map settable) (concat (map (chunk_toRows (sc_scale cfg)) chunks))"


lemma stored_rows_simps [simp]:
  "stored_rows cfg [] = []"
  "stored_rows cfg (ch # chunks) = map (map settable) (chunk_toRows (sc_scale cfg) ch) @ stored_rows cfg chunks"
  by (simp_all add: stored_rows_def)

lemma concat_shown:
  "list_all2 (chunk_shows scale schema) chunks pages
     \<Longrightarrow> concat (map (chunk_toRows scale) chunks) = map (shown_row scale schema) (concat pages)"
  by (induction chunks pages rule: list_all2_induct) (simp_all add: toRows_shown)

text \<open>
  C1: Rows inserted into a table are read back by a scan: in the order of insertion, after those that were
  there, each value as the type of its column stores it. The scan flushes the active chunk and changes
  nothing else of what the table holds, and the row count is the number of rows.
\<close>

theorem table_reads_back:
  assumes "table_rows cfg t old" "chunk_size_ok cfg" "\<forall>r \<in> set rows. length r = length (t_schema t)"
    and "table_insertRows cfg rows t = Inr t1"
  shows "\<exists>chunks t2. table_scan cfg None t1 = Inr (chunks, t2)
    \<and> concat (map (chunk_toRows (sc_scale cfg)) chunks) = map (shown_row (sc_scale cfg) (t_schema t)) (old @ rows)
    \<and> table_rows cfg t2 (old @ rows) \<and> table_rowCount t2 = length (old @ rows)"
proof -
  have h1: "table_rows cfg t1 (old @ rows)" "t_schema t1 = t_schema t" using insertRows_rows [OF assms] by simp_all
  obtain u t2 pages where s: "table_scan cfg None t1
        = Inr (filter (\<lambda>ch. \<not> skip_of None (chunk_zone_of (sc_scale cfg) ch)) (page_chunks u), t2)"
      "pages_hold cfg u pages" "concat pages = old @ rows" "t_schema u = t_schema t1"
      "pages_hold cfg t2 pages" "active_holds cfg t2 []"
    using scan_result [OF h1(1) assms(2), of None] by blast
  have all: "filter (\<lambda>ch. \<not> skip_of None (chunk_zone_of (sc_scale cfg) ch)) (page_chunks u) = page_chunks u"
    by (simp add: skip_of_def)
  have "concat (map (chunk_toRows (sc_scale cfg)) (page_chunks u)) = map (shown_row (sc_scale cfg) (t_schema t)) (old @ rows)"
    using concat_shown [OF page_chunks_hold(1) [OF s(2)]] s(3,4) h1(2) by simp
  moreover have "table_rows cfg t2 (old @ rows)" using s(3,5,6) by (force simp: table_rows_def)
  moreover have "table_rowCount t2 = length (old @ rows)"
    using s(3,5,6) by (auto simp: table_rowCount_def active_holds_def pages_hold_def chunk_holds_def split: option.splits)
  ultimately show ?thesis using s(1) unfolding all by blast
qed

section \<open>Scans with a pruner\<close>









section \<open>A small table\<close>

text \<open>One 32-bit column, chunks of two rows, two rows inserted.\<close>

definition sample_storage :: storage_config where
  "sample_storage = \<lparr>sc_scale = Fin 10000, sc_encoding = \<lparr>columnEncoding = False, forcedColumnEncoding = [],
     encodingMinRows = Fin 0, encodingMinCompressionRatio = Fin 1, encodingRleMaxRunRatio = Fin 1,
     encodingBitPackMaxWidthRatio = Fin 1, encodingForMaxWidthRatio = Fin 1\<rparr>, sc_chunkSize = 2\<rparr>"

definition sample_table :: table where
  "sample_table = table_new ''t'' [(''a'', INT32)] 4"

definition sample_rows :: "column_value list list" where
  "sample_rows = [[VNum (Fin 1)], [VNum (Fin 3)]]"

lemma stored_int32: "stored_int scale INT32 v = Inr (to_int32 (js_number (Val v)))"
  by (simp add: stored_int_def)

lemma sample_insert: "\<exists>t. table_insertRows sample_storage sample_rows sample_table = Inr t"
  by (simp add: table_insertRows_def table_insertRow_def sample_storage_def sample_rows_def sample_table_def table_new_def
      table_createChunk_def chunk_fromSchema_def chunk_appendRow_def lift_error_def column_new_def column_set_def
      column_decoded_def array_set_def stored_int32 column_bump_def typedArrayFor_def isFixedWidth_def Let_def)

lemma sample_fits:
  "chunk_size_ok sample_storage" "\<forall>r \<in> set sample_rows. length r = length (t_schema sample_table)"
  "t_schema sample_table = [(''a'', INT32)]" "table_rows sample_storage sample_table []"
  by (simp_all add: chunk_size_ok_def sample_storage_def sample_rows_def sample_table_def table_new_rows)
    (simp add: table_new_def)+


lemma table_reads_back_witness:
  "\<exists>t chunks t2. table_insertRows sample_storage sample_rows sample_table = Inr t
     \<and> table_scan sample_storage None t = Inr (chunks, t2)
     \<and> concat (map (chunk_toRows (Fin 10000)) chunks) = [[num_value (Fin 1)], [num_value (Fin 3)]]
     \<and> table_rowCount t2 = 2"
proof -
  obtain t where t: "table_insertRows sample_storage sample_rows sample_table = Inr t" using sample_insert by blast
  have v: "to_int32 (Fin 1) = 1" "to_int32 (Fin 3) = 3" by (simp_all add: to_int32_def js_trunc_def wrap_signed_def)
  have e: "map (shown_row (sc_scale sample_storage) (t_schema sample_table)) ([] @ sample_rows) = [[num_value (Fin 1)], [num_value (Fin 3)]]"
    "length ([] @ sample_rows) = 2" "sc_scale sample_storage = Fin 10000"
    by (simp_all add: sample_fits(3)) (simp_all add: sample_storage_def sample_rows_def shown_row_def schema_shown_def read_back_def
      stored_int32 int_shown_def v)
  show ?thesis using table_reads_back [OF sample_fits(4,1,2) t] t unfolding e(1,2) unfolding e(3) by blast
qed


end
