(* ===== verification/WasmMemory.thy ===== *)
theory WasmMemory
  imports ByteIO JsNumber
begin

text \<open>
  What the AssemblyScript kernels of \<open>wasm/assembly/\<close> use of WebAssembly: a linear memory of bytes,
  little-endian loads and stores that trap (\<open>None\<close>) outside it, and 128-bit vectors as their 16 bytes.
  A pointer is a 32-bit address; \<open>count\<close> is a number of elements, never negative in the callers. An \<open>f64\<close>
  is its bit pattern. The lemmas state when a store leaves other bytes alone and what the lane
  comparisons and the mask of a vector say.
\<close>

section \<open>Memory\<close>

type_synonym memory = "byte list"

text \<open>\<open>ptr + (<usize>i << shift)\<close> on 32-bit addresses.\<close>

definition elem_ptr :: "nat \<Rightarrow> nat \<Rightarrow> nat \<Rightarrow> nat" where
  "elem_ptr ptr i shift = (ptr + i * 2 ^ shift) mod 2 ^ 32"

definition load_bytes :: "nat \<Rightarrow> nat \<Rightarrow> memory \<Rightarrow> byte list option" where
  "load_bytes k a mem = (if a + k \<le> length mem then Some (take k (drop a mem)) else None)"

definition store_bytes :: "nat \<Rightarrow> byte list \<Rightarrow> memory \<Rightarrow> memory option" where
  "store_bytes a bs mem = (if a + length bs \<le> length mem then Some (take a mem @ bs @ drop (a + length bs) mem) else None)"

definition load_i32 :: "nat \<Rightarrow> memory \<Rightarrow> 32 word option" where
  "load_i32 a mem = map_option (\<lambda>bs. word_of_nat (le_nat bs)) (load_bytes 4 a mem)"

definition load_f64 :: "nat \<Rightarrow> memory \<Rightarrow> 64 word option" where
  "load_f64 a mem = map_option (\<lambda>bs. word_of_nat (le_nat bs)) (load_bytes 8 a mem)"

definition store_i32 :: "nat \<Rightarrow> nat \<Rightarrow> memory \<Rightarrow> memory option" where
  "store_i32 a v mem = store_bytes a (le_bytes 4 v) mem"

text \<open>The number an \<open>f64\<close> bit pattern stands for.\<close>

definition f64_value :: "64 word \<Rightarrow> jsnum" where
  "f64_value w =
     (let m = unat w mod 2 ^ 52; e = (unat w div 2 ^ 52) mod 2048; neg = bit w 63
      in if e = 2047 then (if m \<noteq> 0 then NaN else if neg then NInf else PInf)
         else let q = (if e = 0 then of_nat m * pow2 (- 1074) else of_nat (2 ^ 52 + m) * pow2 (int e - 1075))
              in Fin (if neg then - q else q))"

section \<open>Vectors\<close>

type_synonym v128 = "byte list"

definition load_v128 :: "nat \<Rightarrow> memory \<Rightarrow> v128 option" where
  "load_v128 a mem = load_bytes 16 a mem"

text \<open>The \<open>j\<close>-th lane of \<open>k\<close> bytes.\<close>

definition lane :: "nat \<Rightarrow> v128 \<Rightarrow> nat \<Rightarrow> nat" where
  "lane k v j = le_nat (take k (drop (k * j) v))"

definition i32_lane :: "v128 \<Rightarrow> nat \<Rightarrow> 32 word" where
  "i32_lane v j = word_of_nat (lane 4 v j)"

definition f64_lane :: "v128 \<Rightarrow> nat \<Rightarrow> 64 word" where
  "f64_lane v j = word_of_nat (lane 8 v j)"

definition i32x4_splat :: "32 word \<Rightarrow> v128" where
  "i32x4_splat x = concat (replicate 4 (le_bytes 4 (unat x)))"

definition f64x2_splat :: "64 word \<Rightarrow> v128" where
  "f64x2_splat x = concat (replicate 2 (le_bytes 8 (unat x)))"

text \<open>A lane that holds is all ones, one that does not is zero.\<close>

definition lane_bytes :: "nat \<Rightarrow> bool \<Rightarrow> byte list" where
  "lane_bytes k b = replicate k (if b then - 1 else 0)"

definition i32x4_compare :: "(32 word \<Rightarrow> 32 word \<Rightarrow> bool) \<Rightarrow> v128 \<Rightarrow> v128 \<Rightarrow> v128" where
  "i32x4_compare p a b = concat (map (\<lambda>j. lane_bytes 4 (p (i32_lane a j) (i32_lane b j))) [0..<4])"

definition f64x2_compare :: "(64 word \<Rightarrow> 64 word \<Rightarrow> bool) \<Rightarrow> v128 \<Rightarrow> v128 \<Rightarrow> v128" where
  "f64x2_compare p a b = concat (map (\<lambda>j. lane_bytes 8 (p (f64_lane a j) (f64_lane b j))) [0..<2])"

definition v128_and :: "v128 \<Rightarrow> v128 \<Rightarrow> v128" where
  "v128_and a b = map2 (\<lambda>x y. x AND y) a b"

definition v128_or :: "v128 \<Rightarrow> v128 \<Rightarrow> v128" where
  "v128_or a b = map2 (\<lambda>x y. x OR y) a b"

definition i8x16_bitmask :: "v128 \<Rightarrow> 32 word" where
  "i8x16_bitmask v = horner_sum of_bool 2 (map (\<lambda>b. bit b 7) v)"

text \<open>Signed comparison of \<open>i32\<close> and the comparisons of \<open>f64\<close>.\<close>

definition f64_eq :: "64 word \<Rightarrow> 64 word \<Rightarrow> bool" where
  "f64_eq a b = js_eq (f64_value a) (f64_value b)"

definition f64_lt :: "64 word \<Rightarrow> 64 word \<Rightarrow> bool" where
  "f64_lt a b = js_lt (f64_value a) (f64_value b)"

definition f64_le :: "64 word \<Rightarrow> 64 word \<Rightarrow> bool" where
  "f64_le a b = js_le (f64_value a) (f64_value b)"

section \<open>Loops\<close>

text \<open>\<open>for (i = from; i < stop; i += stride)\<close> over a state, stopped by a trap.\<close>

function for_loop :: "nat \<Rightarrow> nat \<Rightarrow> nat \<Rightarrow> (nat \<Rightarrow> 's \<Rightarrow> 's option) \<Rightarrow> 's \<Rightarrow> 's option" where
  "for_loop i stop stride step s =
     (if i < stop \<and> 0 < stride then Option.bind (step i s) (for_loop (i + stride) stop stride step) else Some s)"
  by pat_completeness auto
termination by (relation "measure (\<lambda>(i, stop, stride, step, s). stop - i)") auto

declare for_loop.simps [simp del]

text \<open>A loop keeps an invariant that each round carries from \<open>i\<close> to \<open>i + stride\<close>.\<close>

lemma for_loop_inv:
  assumes "i \<le> stop" "0 < stride" "stride dvd (stop - i)" "P i s"
    and "\<And>j s. i \<le> j \<Longrightarrow> j + stride \<le> stop \<Longrightarrow> P j s \<Longrightarrow> \<exists>s'. step j s = Some s' \<and> P (j + stride) s'"
  shows "\<exists>s'. for_loop i stop stride step s = Some s' \<and> P stop s'"
  using assms
proof (induction "stop - i" arbitrary: i s rule: less_induct)
  case less
  show ?case
  proof (cases "i = stop")
    case True
    then show ?thesis using less.prems(4) by (subst for_loop.simps) simp
  next
    case False
    then have lt: "i < stop" "i + stride \<le> stop"
      using less.prems(1,2,3) by (auto dest: dvd_imp_le)
    obtain s' where s': "step i s = Some s'" "P (i + stride) s'" using less.prems(5) [OF _ lt(2) less.prems(4)] by blast
    have "stride dvd stop - (i + stride)"
      using less.prems(3) lt by (metis add_diff_cancel_left' diff_diff_left dvd_minus_self)
    moreover have "\<exists>t'. step j t = Some t' \<and> P (j + stride) t'"
      if "i + stride \<le> j" "j + stride \<le> stop" "P j t" for j t
      using less.prems(5) [of j t] that by simp
    ultimately have "\<exists>t. for_loop (i + stride) stop stride step s' = Some t \<and> P stop t"
      using less.hyps [of "i + stride" s'] lt less.prems(2) s'(2) by simp
    then show ?thesis using lt s'(1) less.prems(2) by (subst for_loop.simps) simp
  qed
qed

section \<open>Bytes that a store leaves alone\<close>

definition put_at :: "nat \<Rightarrow> byte list \<Rightarrow> memory \<Rightarrow> memory" where
  "put_at a bs mem = take a mem @ bs @ drop (a + length bs) mem"

lemma length_put_at [simp]: "a + length bs \<le> length mem \<Longrightarrow> length (put_at a bs mem) = length mem"
  by (simp add: put_at_def)

lemma put_at_nil [simp]: "put_at a [] mem = mem"
  by (simp add: put_at_def)

lemma store_bytes_put: "a + length bs \<le> length mem \<Longrightarrow> store_bytes a bs mem = Some (put_at a bs mem)"
  by (simp add: store_bytes_def put_at_def)

lemma put_at_extend:
  "a + length bs + length cs \<le> length mem \<Longrightarrow> put_at (a + length bs) cs (put_at a bs mem) = put_at a (bs @ cs) mem"
proof (cases "length mem \<le> a")
  case True
  moreover assume "a + length bs + length cs \<le> length mem"
  ultimately have "length bs = 0" "length cs = 0" by linarith+
  then show ?thesis by simp
qed (auto simp: put_at_def take_drop min_def ac_simps)

lemma load_put_at:
  assumes "a + length bs \<le> length mem" "b + k \<le> a \<or> a + length bs \<le> b"
  shows "load_bytes k b (put_at a bs mem) = load_bytes k b mem"
  using assms(2)
proof
  assume "b + k \<le> a"
  then show ?thesis using assms(1)
    by (auto simp: load_bytes_def put_at_def take_drop min_def)
next
  assume "a + length bs \<le> b"
  then show ?thesis using assms(1) by (simp add: load_bytes_def put_at_def)
qed

section \<open>Lanes\<close>

lemma lane_load: "load_v128 a mem = Some v \<Longrightarrow> k * j + k \<le> 16 \<Longrightarrow> load_bytes k (a + k * j) mem = Some (take k (drop (k * j) v))"
  by (auto simp: load_v128_def load_bytes_def take_drop min_def ac_simps split: if_splits)

lemma upt4: "[0..<4] = [0, 1, 2, 3 :: nat]"
  by (simp add: upt_rec)

lemma upt2: "[0..<2] = [0, 1 :: nat]"
  by (simp add: upt_rec)

text \<open>The bits of the mask of a comparison, one per byte.\<close>

definition lanes_of :: "nat \<Rightarrow> nat \<Rightarrow> (nat \<Rightarrow> bool) \<Rightarrow> v128" where
  "lanes_of k n b = concat (map (\<lambda>j. lane_bytes k (b j)) [0..<n])"

lemma replicate_lanes: "replicate 4 x = [x, x, x, x]" "replicate 8 x = [x, x, x, x, x, x, x, x]"
  by (simp_all add: eval_nat_numeral)

lemma mask_lanes4:
  "i8x16_bitmask (lanes_of 4 4 b) AND 0x000F \<noteq> 0 \<longleftrightarrow> b 0"
  "i8x16_bitmask (lanes_of 4 4 b) AND 0x00F0 \<noteq> 0 \<longleftrightarrow> b 1"
  "i8x16_bitmask (lanes_of 4 4 b) AND 0x0F00 \<noteq> 0 \<longleftrightarrow> b 2"
  "i8x16_bitmask (lanes_of 4 4 b) AND 0xF000 \<noteq> 0 \<longleftrightarrow> b 3"
  by (cases "b 0"; cases "b 1"; cases "b 2"; cases "b 3";
      simp add: i8x16_bitmask_def lanes_of_def upt4 lane_bytes_def replicate_lanes)+

lemma mask_lanes2:
  "i8x16_bitmask (lanes_of 8 2 b) AND 0x00FF \<noteq> 0 \<longleftrightarrow> b 0"
  "i8x16_bitmask (lanes_of 8 2 b) AND 0xFF00 \<noteq> 0 \<longleftrightarrow> b 1"
  by (cases "b 0"; cases "b 1"; simp add: i8x16_bitmask_def lanes_of_def upt2 lane_bytes_def replicate_lanes)+

lemma length_lanes: "length (lanes_of k n c) = k * n"
  by (induction n) (simp_all add: lanes_of_def lane_bytes_def)

lemma combine_lanes:
  "v128_and (lanes_of k n a) (lanes_of k n b) = lanes_of k n (\<lambda>j. a j \<and> b j)"
  "v128_or (lanes_of k n a) (lanes_of k n b) = lanes_of k n (\<lambda>j. a j \<or> b j)"
proof -
  have "v128_and (lanes_of k n a) (lanes_of k n b) = lanes_of k n (\<lambda>j. a j \<and> b j)
      \<and> v128_or (lanes_of k n a) (lanes_of k n b) = lanes_of k n (\<lambda>j. a j \<or> b j)"
  proof (induction n)
    case (Suc n)
    have "lanes_of k (Suc n) c = lanes_of k n c @ lane_bytes k (c n)" for c by (simp add: lanes_of_def)
    then show ?case using Suc
      by (simp add: v128_and_def v128_or_def zip_append lane_bytes_def zip_replicate length_lanes)
  qed (simp add: lanes_of_def v128_and_def v128_or_def)
  then show "v128_and (lanes_of k n a) (lanes_of k n b) = lanes_of k n (\<lambda>j. a j \<and> b j)"
    "v128_or (lanes_of k n a) (lanes_of k n b) = lanes_of k n (\<lambda>j. a j \<or> b j)" by simp_all
qed

lemma compare_lanes:
  "i32x4_compare p a b = lanes_of 4 4 (\<lambda>j. p (i32_lane a j) (i32_lane b j))"
  "f64x2_compare q a b = lanes_of 8 2 (\<lambda>j. q (f64_lane a j) (f64_lane b j))"
  by (simp_all add: i32x4_compare_def f64x2_compare_def lanes_of_def)

lemma lanes_cong: "(\<And>j. j < n \<Longrightarrow> a j = b j) \<Longrightarrow> lanes_of k n a = lanes_of k n b"
  unfolding lanes_of_def by (rule arg_cong [where f = concat]) simp

lemma word_of_le: "word_of_nat (le_nat (le_bytes 4 (unat x))) = (x :: 32 word)"
  "word_of_nat (le_nat (le_bytes 8 (unat y))) = (y :: 64 word)"
proof -
  have "unat x < 256 ^ 4" "unat y < 256 ^ 8" using unsigned_less [where 'a = nat, of x] unsigned_less [where 'a = nat, of y] by simp_all
  then show "word_of_nat (le_nat (le_bytes 4 (unat x))) = x" "word_of_nat (le_nat (le_bytes 8 (unat y))) = y"
    by (simp_all only: le_nat_le_bytes_small) simp_all
qed

lemma splat_lane:
  "j < 4 \<Longrightarrow> i32_lane (i32x4_splat x) j = x"
  "j < 2 \<Longrightarrow> f64_lane (f64x2_splat y) j = y"
proof -
  have r: "concat (replicate 4 (le_bytes 4 (unat x))) = le_bytes 4 (unat x) @ le_bytes 4 (unat x) @ le_bytes 4 (unat x) @ le_bytes 4 (unat x)"
    "concat (replicate 2 (le_bytes 8 (unat y))) = le_bytes 8 (unat y) @ le_bytes 8 (unat y)"
    by (simp_all add: eval_nat_numeral)
  have "j < 4 \<longleftrightarrow> j = 0 \<or> j = 1 \<or> j = 2 \<or> j = 3" "j < 2 \<longleftrightarrow> j = 0 \<or> j = 1" by auto
  then show "j < 4 \<Longrightarrow> i32_lane (i32x4_splat x) j = x" "j < 2 \<Longrightarrow> f64_lane (f64x2_splat y) j = y"
    by (auto simp: i32_lane_def f64_lane_def i32x4_splat_def f64x2_splat_def lane_def r word_of_le)
qed

lemma vector_lane:
  "load_v128 a mem = Some v \<Longrightarrow> j < 4 \<Longrightarrow> load_i32 (a + 4 * j) mem = Some (i32_lane v j)"
  "load_v128 a mem = Some v \<Longrightarrow> j < 2 \<Longrightarrow> load_f64 (a + 8 * j) mem = Some (f64_lane v j)"
  using lane_load [of a mem v 4 j] lane_load [of a mem v 8 j]
  by (simp_all add: load_i32_def load_f64_def i32_lane_def f64_lane_def lane_def)

end
