(* ===== verification/WasmFilter.thy ===== *)
theory WasmFilter
  imports WasmMemory
begin

text \<open>
  The filter kernels \<open>wasm/assembly/filter.ts\<close>, \<open>filter-f64.ts\<close> and \<open>compound-filter.ts\<close>: a vector loop over
  four \<open>i32\<close> or two \<open>f64\<close> at a time, a scalar loop over the rest, the matching positions stored in turn into
  the selection area. All kernels share the two loops, so the model has them once, with the comparison as
  an argument. The theorem: each kernel stores exactly the positions whose element passes, in order.
\<close>

section \<open>The loops of a kernel\<close>

text \<open>\<open>if (hit) { store<i32>(selVecPtr + (matchCount << 2), i); matchCount++; }\<close>\<close>

definition emit :: "nat \<Rightarrow> bool \<Rightarrow> nat \<Rightarrow> nat \<times> memory \<Rightarrow> (nat \<times> memory) option" where
  "emit selVecPtr hit i = (\<lambda>(matchCount, mem).
     if hit then map_option (\<lambda>mem'. (matchCount + 1, mem')) (store_i32 (elem_ptr selVecPtr matchCount 2) i mem)
     else Some (matchCount, mem))"

text \<open>One \<open>emit\<close> per lane, each with the bits of its bytes.\<close>

fun emit_lanes :: "nat \<Rightarrow> 32 word \<Rightarrow> nat \<Rightarrow> 32 word list \<Rightarrow> nat \<times> memory \<Rightarrow> (nat \<times> memory) option" where
  "emit_lanes selVecPtr bits i [] s = Some s"
| "emit_lanes selVecPtr bits i (m # ms) s =
     Option.bind (emit selVecPtr (bits AND m \<noteq> 0) i s) (emit_lanes selVecPtr bits (i + 1) ms)"

definition I32_MASKS :: "32 word list" where "I32_MASKS = [0x000F, 0x00F0, 0x0F00, 0xF000]"
definition F64_MASKS :: "32 word list" where "F64_MASKS = [0xFF, 0xFF00]"

definition vector_step :: "nat \<Rightarrow> 32 word list \<Rightarrow> (memory \<Rightarrow> v128 \<Rightarrow> v128 option) \<Rightarrow> nat \<Rightarrow> nat
    \<Rightarrow> nat \<Rightarrow> nat \<times> memory \<Rightarrow> (nat \<times> memory) option" where
  "vector_step shift masks cmp dataPtr selVecPtr i = (\<lambda>(matchCount, mem).
     Option.bind (load_v128 (elem_ptr dataPtr i shift) mem) (\<lambda>vec.
     Option.bind (cmp mem vec) (\<lambda>c. emit_lanes selVecPtr (i8x16_bitmask c) i masks (matchCount, mem))))"

definition scalar_step :: "nat \<Rightarrow> (memory \<Rightarrow> nat \<Rightarrow> bool option) \<Rightarrow> nat \<Rightarrow> nat \<Rightarrow> nat \<Rightarrow> nat \<times> memory \<Rightarrow> (nat \<times> memory) option" where
  "scalar_step shift test dataPtr selVecPtr i = (\<lambda>(matchCount, mem).
     Option.bind (test mem (elem_ptr dataPtr i shift)) (\<lambda>hit. emit selVecPtr hit i (matchCount, mem)))"

text \<open>\<open>simdEnd\<close> is \<open>count\<close> without its remainder by the number of lanes (\<open>count & ~3\<close>, \<open>count & ~1\<close>).\<close>

definition filter_kernel :: "nat \<Rightarrow> 32 word list \<Rightarrow> (memory \<Rightarrow> v128 \<Rightarrow> v128 option) \<Rightarrow> (memory \<Rightarrow> nat \<Rightarrow> bool option)
    \<Rightarrow> nat \<Rightarrow> nat \<Rightarrow> nat \<Rightarrow> memory \<Rightarrow> (nat \<times> memory) option" where
  "filter_kernel shift masks cmp test dataPtr selVecPtr count mem =
     (let simdEnd = count - count mod length masks
      in Option.bind (for_loop 0 simdEnd (length masks) (vector_step shift masks cmp dataPtr selVecPtr) (0, mem))
           (for_loop simdEnd count 1 (scalar_step shift test dataPtr selVecPtr)))"

definition i32_kernel :: "(v128 \<Rightarrow> v128) \<Rightarrow> (32 word \<Rightarrow> bool) \<Rightarrow> nat \<Rightarrow> nat \<Rightarrow> nat \<Rightarrow> memory \<Rightarrow> (nat \<times> memory) option" where
  "i32_kernel cmp test = filter_kernel 2 I32_MASKS (\<lambda>mem vec. Some (cmp vec)) (\<lambda>mem a. map_option test (load_i32 a mem))"

definition f64_kernel :: "(v128 \<Rightarrow> v128) \<Rightarrow> (64 word \<Rightarrow> bool) \<Rightarrow> nat \<Rightarrow> nat \<Rightarrow> nat \<Rightarrow> memory \<Rightarrow> (nat \<times> memory) option" where
  "f64_kernel cmp test = filter_kernel 3 F64_MASKS (\<lambda>mem vec. Some (cmp vec)) (\<lambda>mem a. map_option test (load_f64 a mem))"

section \<open>Comparisons with one value\<close>

definition filterEqI32 :: "nat \<Rightarrow> nat \<Rightarrow> nat \<Rightarrow> 32 word \<Rightarrow> memory \<Rightarrow> (nat \<times> memory) option" where
  "filterEqI32 dataPtr selVecPtr count x =
     i32_kernel (\<lambda>vec. i32x4_compare (=) vec (i32x4_splat x)) (\<lambda>v. v = x) dataPtr selVecPtr count"

definition filterLtI32 :: "nat \<Rightarrow> nat \<Rightarrow> nat \<Rightarrow> 32 word \<Rightarrow> memory \<Rightarrow> (nat \<times> memory) option" where
  "filterLtI32 dataPtr selVecPtr count x =
     i32_kernel (\<lambda>vec. i32x4_compare (<s) vec (i32x4_splat x)) (\<lambda>v. v <s x) dataPtr selVecPtr count"

definition filterGtI32 :: "nat \<Rightarrow> nat \<Rightarrow> nat \<Rightarrow> 32 word \<Rightarrow> memory \<Rightarrow> (nat \<times> memory) option" where
  "filterGtI32 dataPtr selVecPtr count x =
     i32_kernel (\<lambda>vec. i32x4_compare (\<lambda>a b. b <s a) vec (i32x4_splat x)) (\<lambda>v. x <s v) dataPtr selVecPtr count"

definition filterLeI32 :: "nat \<Rightarrow> nat \<Rightarrow> nat \<Rightarrow> 32 word \<Rightarrow> memory \<Rightarrow> (nat \<times> memory) option" where
  "filterLeI32 dataPtr selVecPtr count x =
     i32_kernel (\<lambda>vec. i32x4_compare (\<le>s) vec (i32x4_splat x)) (\<lambda>v. v \<le>s x) dataPtr selVecPtr count"

definition filterGeI32 :: "nat \<Rightarrow> nat \<Rightarrow> nat \<Rightarrow> 32 word \<Rightarrow> memory \<Rightarrow> (nat \<times> memory) option" where
  "filterGeI32 dataPtr selVecPtr count x =
     i32_kernel (\<lambda>vec. i32x4_compare (\<lambda>a b. b \<le>s a) vec (i32x4_splat x)) (\<lambda>v. x \<le>s v) dataPtr selVecPtr count"

definition filterBetweenI32 :: "nat \<Rightarrow> nat \<Rightarrow> nat \<Rightarrow> 32 word \<Rightarrow> 32 word \<Rightarrow> memory \<Rightarrow> (nat \<times> memory) option" where
  "filterBetweenI32 dataPtr selVecPtr count low high =
     i32_kernel (\<lambda>vec. v128_and (i32x4_compare (\<lambda>a b. b \<le>s a) vec (i32x4_splat low))
                                (i32x4_compare (\<le>s) vec (i32x4_splat high)))
       (\<lambda>v. low \<le>s v \<and> v \<le>s high) dataPtr selVecPtr count"

definition filterEqF64 :: "nat \<Rightarrow> nat \<Rightarrow> nat \<Rightarrow> 64 word \<Rightarrow> memory \<Rightarrow> (nat \<times> memory) option" where
  "filterEqF64 dataPtr selVecPtr count x =
     f64_kernel (\<lambda>vec. f64x2_compare f64_eq vec (f64x2_splat x)) (\<lambda>v. f64_eq v x) dataPtr selVecPtr count"

definition filterLtF64 :: "nat \<Rightarrow> nat \<Rightarrow> nat \<Rightarrow> 64 word \<Rightarrow> memory \<Rightarrow> (nat \<times> memory) option" where
  "filterLtF64 dataPtr selVecPtr count x =
     f64_kernel (\<lambda>vec. f64x2_compare f64_lt vec (f64x2_splat x)) (\<lambda>v. f64_lt v x) dataPtr selVecPtr count"

definition filterGtF64 :: "nat \<Rightarrow> nat \<Rightarrow> nat \<Rightarrow> 64 word \<Rightarrow> memory \<Rightarrow> (nat \<times> memory) option" where
  "filterGtF64 dataPtr selVecPtr count x =
     f64_kernel (\<lambda>vec. f64x2_compare (\<lambda>a b. f64_lt b a) vec (f64x2_splat x)) (\<lambda>v. f64_lt x v) dataPtr selVecPtr count"

definition filterLeF64 :: "nat \<Rightarrow> nat \<Rightarrow> nat \<Rightarrow> 64 word \<Rightarrow> memory \<Rightarrow> (nat \<times> memory) option" where
  "filterLeF64 dataPtr selVecPtr count x =
     f64_kernel (\<lambda>vec. f64x2_compare f64_le vec (f64x2_splat x)) (\<lambda>v. f64_le v x) dataPtr selVecPtr count"

definition filterGeF64 :: "nat \<Rightarrow> nat \<Rightarrow> nat \<Rightarrow> 64 word \<Rightarrow> memory \<Rightarrow> (nat \<times> memory) option" where
  "filterGeF64 dataPtr selVecPtr count x =
     f64_kernel (\<lambda>vec. f64x2_compare (\<lambda>a b. f64_le b a) vec (f64x2_splat x)) (\<lambda>v. f64_le x v) dataPtr selVecPtr count"

definition filterBetweenF64 :: "nat \<Rightarrow> nat \<Rightarrow> nat \<Rightarrow> 64 word \<Rightarrow> 64 word \<Rightarrow> memory \<Rightarrow> (nat \<times> memory) option" where
  "filterBetweenF64 dataPtr selVecPtr count low high =
     f64_kernel (\<lambda>vec. v128_and (f64x2_compare (\<lambda>a b. f64_le b a) vec (f64x2_splat low))
                                (f64x2_compare f64_le vec (f64x2_splat high)))
       (\<lambda>v. f64_le low v \<and> f64_le v high) dataPtr selVecPtr count"

section \<open>Compound comparisons\<close>

definition CMP_EQ :: "32 word" where "CMP_EQ = 0"
definition CMP_LT :: "32 word" where "CMP_LT = 1"
definition CMP_GT :: "32 word" where "CMP_GT = 2"
definition CMP_LE :: "32 word" where "CMP_LE = 3"
definition CMP_GE :: "32 word" where "CMP_GE = 4"

definition scalarCmpI32 :: "32 word \<Rightarrow> 32 word \<Rightarrow> 32 word \<Rightarrow> bool" where
  "scalarCmpI32 v x op =
     (if op = CMP_EQ then v = x else if op = CMP_LT then v <s x else if op = CMP_GT then x <s v
      else if op = CMP_LE then v \<le>s x else x \<le>s v)"

definition simdCmpI32 :: "v128 \<Rightarrow> v128 \<Rightarrow> 32 word \<Rightarrow> v128" where
  "simdCmpI32 vec splat op =
     (if op = CMP_EQ then i32x4_compare (=) vec splat else if op = CMP_LT then i32x4_compare (<s) vec splat
      else if op = CMP_GT then i32x4_compare (\<lambda>a b. b <s a) vec splat
      else if op = CMP_LE then i32x4_compare (\<le>s) vec splat else i32x4_compare (\<lambda>a b. b \<le>s a) vec splat)"

definition scalarCmpF64 :: "64 word \<Rightarrow> 64 word \<Rightarrow> 32 word \<Rightarrow> bool" where
  "scalarCmpF64 v x op =
     (if op = CMP_EQ then f64_eq v x else if op = CMP_LT then f64_lt v x else if op = CMP_GT then f64_lt x v
      else if op = CMP_LE then f64_le v x else f64_le x v)"

definition simdCmpF64 :: "v128 \<Rightarrow> v128 \<Rightarrow> 32 word \<Rightarrow> v128" where
  "simdCmpF64 vec splat op =
     (if op = CMP_EQ then f64x2_compare f64_eq vec splat else if op = CMP_LT then f64x2_compare f64_lt vec splat
      else if op = CMP_GT then f64x2_compare (\<lambda>a b. f64_lt b a) vec splat
      else if op = CMP_LE then f64x2_compare f64_le vec splat else f64x2_compare (\<lambda>a b. f64_le b a) vec splat)"

definition filterCompoundAndI32 :: "nat \<Rightarrow> nat \<Rightarrow> nat \<Rightarrow> 32 word \<Rightarrow> 32 word \<Rightarrow> 32 word \<Rightarrow> 32 word \<Rightarrow> memory \<Rightarrow> (nat \<times> memory) option" where
  "filterCompoundAndI32 dataPtr selVecPtr count op1 val1 op2 val2 =
     i32_kernel (\<lambda>vec. v128_and (simdCmpI32 vec (i32x4_splat val1) op1) (simdCmpI32 vec (i32x4_splat val2) op2))
       (\<lambda>v. scalarCmpI32 v val1 op1 \<and> scalarCmpI32 v val2 op2) dataPtr selVecPtr count"

definition filterCompoundOrI32 :: "nat \<Rightarrow> nat \<Rightarrow> nat \<Rightarrow> 32 word \<Rightarrow> 32 word \<Rightarrow> 32 word \<Rightarrow> 32 word \<Rightarrow> memory \<Rightarrow> (nat \<times> memory) option" where
  "filterCompoundOrI32 dataPtr selVecPtr count op1 val1 op2 val2 =
     i32_kernel (\<lambda>vec. v128_or (simdCmpI32 vec (i32x4_splat val1) op1) (simdCmpI32 vec (i32x4_splat val2) op2))
       (\<lambda>v. scalarCmpI32 v val1 op1 \<or> scalarCmpI32 v val2 op2) dataPtr selVecPtr count"

definition filterCompoundAndF64 :: "nat \<Rightarrow> nat \<Rightarrow> nat \<Rightarrow> 32 word \<Rightarrow> 64 word \<Rightarrow> 32 word \<Rightarrow> 64 word \<Rightarrow> memory \<Rightarrow> (nat \<times> memory) option" where
  "filterCompoundAndF64 dataPtr selVecPtr count op1 val1 op2 val2 =
     f64_kernel (\<lambda>vec. v128_and (simdCmpF64 vec (f64x2_splat val1) op1) (simdCmpF64 vec (f64x2_splat val2) op2))
       (\<lambda>v. scalarCmpF64 v val1 op1 \<and> scalarCmpF64 v val2 op2) dataPtr selVecPtr count"

definition filterCompoundOrF64 :: "nat \<Rightarrow> nat \<Rightarrow> nat \<Rightarrow> 32 word \<Rightarrow> 64 word \<Rightarrow> 32 word \<Rightarrow> 64 word \<Rightarrow> memory \<Rightarrow> (nat \<times> memory) option" where
  "filterCompoundOrF64 dataPtr selVecPtr count op1 val1 op2 val2 =
     f64_kernel (\<lambda>vec. v128_or (simdCmpF64 vec (f64x2_splat val1) op1) (simdCmpF64 vec (f64x2_splat val2) op2))
       (\<lambda>v. scalarCmpF64 v val1 op1 \<or> scalarCmpF64 v val2 op2) dataPtr selVecPtr count"

section \<open>Any number of comparisons\<close>











section \<open>What a kernel selects\<close>

text \<open>The memory after the positions \<open>hs\<close> were stored.\<close>

definition selected :: "nat \<Rightarrow> nat list \<Rightarrow> memory \<Rightarrow> memory" where
  "selected selVecPtr hs mem = put_at selVecPtr (concat (map (le_bytes 4) hs)) mem"

definition hits :: "(nat \<Rightarrow> bool) \<Rightarrow> nat \<Rightarrow> nat list" where
  "hits p i = filter p [0..<i]"

lemma hits_simps [simp]: "hits p 0 = []" "hits p (Suc i) = hits p i @ (if p i then [i] else [])"
  by (simp_all add: hits_def)

lemma length_hits: "length (hits p i) \<le> i"
  using length_filter_le [of p "[0..<i]"] by (simp add: hits_def)

lemma length_words: "length (concat (map (le_bytes 4) hs)) = 4 * length hs"
  by (induction hs) simp_all

lemma emit_hit:
  assumes "i < count" "selVecPtr + 4 * count \<le> length mem" "length mem \<le> 2 ^ 32"
  shows "emit selVecPtr (p i) i (length (hits p i), selected selVecPtr (hits p i) mem)
    = Some (length (hits p (Suc i)), selected selVecPtr (hits p (Suc i)) mem)"
proof (cases "p i")
  case True
  let ?h = "hits p i"
  have n: "length ?h < count" using length_hits [of p i] assms(1) by simp
  then have fit: "selVecPtr + 4 * length ?h + 4 \<le> length mem" using assms(2) by linarith
  then have a: "elem_ptr selVecPtr (length ?h) 2 = selVecPtr + 4 * length ?h"
    using assms(3) by (simp add: elem_ptr_def mult.commute)
  have bs: "length (concat (map (le_bytes 4) ?h)) = 4 * length ?h" by (rule length_words)
  have "put_at (selVecPtr + 4 * length ?h) (le_bytes 4 i) (selected selVecPtr ?h mem)
      = selected selVecPtr (?h @ [i]) mem"
    using put_at_extend [of selVecPtr "concat (map (le_bytes 4) ?h)" "le_bytes 4 i" mem] fit
    by (simp add: selected_def bs)
  moreover have "length (selected selVecPtr ?h mem) = length mem"
    using fit by (simp add: selected_def bs)
  ultimately show ?thesis
    using True fit by (simp add: emit_def store_i32_def a store_bytes_put)
qed (simp add: emit_def)

lemma emit_lanes_hits:
  assumes "i + length ms \<le> count" "selVecPtr + 4 * count \<le> length mem" "length mem \<le> 2 ^ 32"
    and "\<forall>j < length ms. (bits AND ms ! j \<noteq> 0) = p (i + j)"
  shows "emit_lanes selVecPtr bits i ms (length (hits p i), selected selVecPtr (hits p i) mem)
    = Some (length (hits p (i + length ms)), selected selVecPtr (hits p (i + length ms)) mem)"
  using assms(1,4)
proof (induction ms arbitrary: i)
  case (Cons m ms)
  have "(bits AND m \<noteq> 0) = p i" using Cons.prems(2) by (metis add.right_neutral length_greater_0_conv list.distinct(1) nth_Cons_0)
  moreover have "\<forall>j < length ms. (bits AND ms ! j \<noteq> 0) = p (Suc i + j)"
  proof (intro allI impI)
    fix j assume "j < length ms"
    then show "(bits AND ms ! j \<noteq> 0) = p (Suc i + j)" using Cons.prems(2) [rule_format, of "Suc j"] by simp
  qed
  ultimately show ?case
    using Cons.IH [of "Suc i"] Cons.prems(1) emit_hit [of i count selVecPtr mem p] assms(2,3) by simp
qed simp

lemma filter_kernel_selects:
  assumes fit: "selVecPtr + 4 * count \<le> length mem" "length mem \<le> 2 ^ 32" and ms: "masks \<noteq> []"
    and vec: "\<And>hs i. length hs \<le> count \<Longrightarrow> i + length masks \<le> count \<Longrightarrow>
      \<exists>vec c. load_v128 (elem_ptr dataPtr i shift) (selected selVecPtr hs mem) = Some vec
        \<and> cmp (selected selVecPtr hs mem) vec = Some c
        \<and> (\<forall>j < length masks. (i8x16_bitmask c AND masks ! j \<noteq> 0) = p (i + j))"
    and test: "\<And>hs i. length hs \<le> count \<Longrightarrow> i < count \<Longrightarrow>
      test (selected selVecPtr hs mem) (elem_ptr dataPtr i shift) = Some (p i)"
  shows "filter_kernel shift masks cmp test dataPtr selVecPtr count mem
    = Some (length (hits p count), selected selVecPtr (hits p count) mem)"
proof -
  let ?n = "count - count mod length masks" and ?k = "length masks"
  let ?P = "\<lambda>i s. s = (length (hits p i), selected selVecPtr (hits p i) mem)"
  have k: "0 < ?k" using ms by simp
  have start: "?P 0 (0, mem)" by (simp add: selected_def)
  have vstep: "\<exists>s'. vector_step shift masks cmp dataPtr selVecPtr j s = Some s' \<and> ?P (j + ?k) s'"
    if j: "j + ?k \<le> ?n" "?P j s" for j s
  proof -
    have c: "length (hits p j) \<le> count" "j + ?k \<le> count" using length_hits [of p j] j(1) by linarith+
    obtain vec c where v: "load_v128 (elem_ptr dataPtr j shift) (selected selVecPtr (hits p j) mem) = Some vec"
        "cmp (selected selVecPtr (hits p j) mem) vec = Some c"
        "\<forall>i < ?k. (i8x16_bitmask c AND masks ! i \<noteq> 0) = p (j + i)"
      using vec [OF c] by blast
    show ?thesis using emit_lanes_hits [OF c(2) fit v(3)] v(1,2) j(2) by (simp add: vector_step_def)
  qed
  have "?k dvd ?n - 0" by (simp add: minus_mod_eq_mult_div)
  then obtain s where s: "for_loop 0 ?n ?k (vector_step shift masks cmp dataPtr selVecPtr) (0, mem) = Some s" "?P ?n s"
    using for_loop_inv [where P = ?P and i = 0 and stop = ?n and stride = ?k, OF _ k _ start] vstep by blast
  have sstep: "\<exists>s'. scalar_step shift test dataPtr selVecPtr j s = Some s' \<and> ?P (j + 1) s'"
    if j: "j + 1 \<le> count" "?P j s" for j s
  proof -
    have "length (hits p j) \<le> count" "j < count" using length_hits [of p j] j(1) by linarith+
    then show ?thesis using test emit_hit [OF _ fit, of j p] j(2) by (simp add: scalar_step_def)
  qed
  have "\<exists>t. for_loop ?n count 1 (scalar_step shift test dataPtr selVecPtr) s = Some t \<and> ?P count t"
    using for_loop_inv [where P = ?P and i = ?n and stop = count and stride = 1, OF _ _ _ s(2)] sstep by simp
  then show ?thesis using s(1) by (auto simp: filter_kernel_def Let_def)
qed

section \<open>The kernels\<close>

definition i32_at :: "memory \<Rightarrow> nat \<Rightarrow> nat \<Rightarrow> 32 word" where
  "i32_at mem ptr i = word_of_nat (le_nat (take 4 (drop (ptr + 4 * i) mem)))"

definition f64_at :: "memory \<Rightarrow> nat \<Rightarrow> nat \<Rightarrow> 64 word" where
  "f64_at mem ptr i = word_of_nat (le_nat (take 8 (drop (ptr + 8 * i) mem)))"

text \<open>An area of \<open>bytes\<close> bytes lies in memory and apart from the selection area of \<open>count\<close> positions.\<close>

definition area_apart :: "nat \<Rightarrow> nat \<Rightarrow> nat \<Rightarrow> nat \<Rightarrow> memory \<Rightarrow> bool" where
  "area_apart ptr bytes selVecPtr count mem \<longleftrightarrow> ptr + bytes \<le> length mem
     \<and> (ptr + bytes \<le> selVecPtr \<or> selVecPtr + 4 * count \<le> ptr)"

definition selection_fits :: "nat \<Rightarrow> nat \<Rightarrow> memory \<Rightarrow> bool" where
  "selection_fits selVecPtr count mem \<longleftrightarrow> selVecPtr + 4 * count \<le> length mem \<and> length mem \<le> 2 ^ 32"

lemma load_selected:
  assumes "selection_fits selVecPtr count mem" "area_apart ptr bytes selVecPtr count mem" "length hs \<le> count"
    and "ptr \<le> b" "b + k \<le> ptr + bytes"
  shows "load_bytes k b (selected selVecPtr hs mem) = Some (take k (drop b mem))"
proof -
  have "load_bytes k b (selected selVecPtr hs mem) = load_bytes k b mem"
    unfolding selected_def
    by (rule load_put_at) (use assms in \<open>auto simp: selection_fits_def area_apart_def length_words\<close>)
  then show ?thesis using assms(2,5) by (simp add: load_bytes_def area_apart_def)
qed

lemma elem_ptr_small: "ptr + 2 ^ shift * i < 2 ^ 32 \<Longrightarrow> elem_ptr ptr i shift = ptr + 2 ^ shift * i"
  by (simp add: elem_ptr_def mult.commute)

lemma load_i32_selected:
  assumes "selection_fits selVecPtr count mem" "area_apart ptr (4 * n) selVecPtr count mem" "length hs \<le> count" "i < n"
  shows "load_i32 (elem_ptr ptr i 2) (selected selVecPtr hs mem) = Some (i32_at mem ptr i)"
proof -
  have b: "ptr + 4 * i + 4 \<le> ptr + 4 * n" using assms(4) by simp
  have "elem_ptr ptr i 2 = ptr + 4 * i"
    using elem_ptr_small [of ptr 2 i] b assms(1,2) by (simp add: selection_fits_def area_apart_def)
  then show ?thesis
    using load_selected [OF assms(1-3) _ b] by (simp add: load_i32_def i32_at_def)
qed

lemma load_f64_selected:
  assumes "selection_fits selVecPtr count mem" "area_apart ptr (8 * n) selVecPtr count mem" "length hs \<le> count" "i < n"
  shows "load_f64 (elem_ptr ptr i 3) (selected selVecPtr hs mem) = Some (f64_at mem ptr i)"
proof -
  have b: "ptr + 8 * i + 8 \<le> ptr + 8 * n" using assms(4) by simp
  have "elem_ptr ptr i 3 = ptr + 8 * i"
    using elem_ptr_small [of ptr 3 i] b assms(1,2) by (simp add: selection_fits_def area_apart_def)
  then show ?thesis
    using load_selected [OF assms(1-3) _ b] by (simp add: load_f64_def f64_at_def)
qed

lemma load_vector_i32:
  assumes "selection_fits selVecPtr count mem" "area_apart ptr (4 * n) selVecPtr count mem" "length hs \<le> count" "i + 4 \<le> n"
  shows "\<exists>vec. load_v128 (elem_ptr ptr i 2) (selected selVecPtr hs mem) = Some vec \<and> (\<forall>j < 4. i32_lane vec j = i32_at mem ptr (i + j))"
proof -
  have b: "ptr + 4 * i + 16 \<le> ptr + 4 * n" using assms(4) by simp
  have a: "elem_ptr ptr i 2 = ptr + 4 * i"
    using elem_ptr_small [of ptr 2 i] b assms(1,2) by (simp add: selection_fits_def area_apart_def)
  obtain vec where v: "load_v128 (elem_ptr ptr i 2) (selected selVecPtr hs mem) = Some vec"
    using load_selected [OF assms(1-3) _ b] by (simp add: load_v128_def a)
  have "i32_lane vec j = i32_at mem ptr (i + j)" if "j < 4" for j
  proof -
    have c: "ptr + 4 * (i + j) + 4 \<le> ptr + 4 * n" using assms(4) that by simp
    have "load_i32 (ptr + 4 * (i + j)) (selected selVecPtr hs mem) = Some (i32_at mem ptr (i + j))"
      using load_selected [OF assms(1-3) _ c] by (simp add: load_i32_def i32_at_def)
    then show ?thesis using vector_lane(1) [OF v that] by (simp add: a algebra_simps)
  qed
  then show ?thesis using v by blast
qed

lemma load_vector_f64:
  assumes "selection_fits selVecPtr count mem" "area_apart ptr (8 * n) selVecPtr count mem" "length hs \<le> count" "i + 2 \<le> n"
  shows "\<exists>vec. load_v128 (elem_ptr ptr i 3) (selected selVecPtr hs mem) = Some vec \<and> (\<forall>j < 2. f64_lane vec j = f64_at mem ptr (i + j))"
proof -
  have b: "ptr + 8 * i + 16 \<le> ptr + 8 * n" using assms(4) by simp
  have a: "elem_ptr ptr i 3 = ptr + 8 * i"
    using elem_ptr_small [of ptr 3 i] b assms(1,2) by (simp add: selection_fits_def area_apart_def)
  obtain vec where v: "load_v128 (elem_ptr ptr i 3) (selected selVecPtr hs mem) = Some vec"
    using load_selected [OF assms(1-3) _ b] by (simp add: load_v128_def a)
  have "f64_lane vec j = f64_at mem ptr (i + j)" if "j < 2" for j
  proof -
    have c: "ptr + 8 * (i + j) + 8 \<le> ptr + 8 * n" using assms(4) that by simp
    have "load_f64 (ptr + 8 * (i + j)) (selected selVecPtr hs mem) = Some (f64_at mem ptr (i + j))"
      using load_selected [OF assms(1-3) _ c] by (simp add: load_f64_def f64_at_def)
    then show ?thesis using vector_lane(2) [OF v that] by (simp add: a algebra_simps)
  qed
  then show ?thesis using v by blast
qed

text \<open>A kernel whose vector comparison decides each lane as the test \<open>q\<close> decides the element.\<close>

definition selects :: "(nat \<Rightarrow> bool) \<Rightarrow> nat \<Rightarrow> nat \<Rightarrow> memory \<Rightarrow> (nat \<times> memory) option" where
  "selects p selVecPtr count mem = Some (length (hits p count), selected selVecPtr (hits p count) mem)"

lemma masks_lengths [simp]: "length I32_MASKS = 4" "length F64_MASKS = 2" "I32_MASKS \<noteq> []" "F64_MASKS \<noteq> []"
  by (simp_all add: I32_MASKS_def F64_MASKS_def)

lemma i32_masks_decide: "\<forall>j < 4. (i8x16_bitmask (lanes_of 4 4 b) AND I32_MASKS ! j \<noteq> 0) = b j"
proof (intro allI impI)
  fix j :: nat assume "j < 4"
  then consider "j = 0" | "j = 1" | "j = 2" | "j = 3" by linarith
  then show "(i8x16_bitmask (lanes_of 4 4 b) AND I32_MASKS ! j \<noteq> 0) = b j"
    using mask_lanes4 [of b] by cases (simp_all add: I32_MASKS_def)
qed

lemma f64_masks_decide: "\<forall>j < 2. (i8x16_bitmask (lanes_of 8 2 b) AND F64_MASKS ! j \<noteq> 0) = b j"
proof (intro allI impI)
  fix j :: nat assume "j < 2"
  then consider "j = 0" | "j = 1" by linarith
  then show "(i8x16_bitmask (lanes_of 8 2 b) AND F64_MASKS ! j \<noteq> 0) = b j"
    using mask_lanes2 [of b] by cases (simp_all add: F64_MASKS_def)
qed

lemma i32_kernel_general:
  assumes s: "selection_fits selVecPtr count mem" "area_apart dataPtr (4 * count) selVecPtr count mem"
    and vec: "\<And>hs vec. length hs \<le> count \<Longrightarrow> cmp (selected selVecPtr hs mem) vec = Some (lanes_of 4 4 (\<lambda>j. q (i32_lane vec j)))"
    and test: "\<And>hs i. length hs \<le> count \<Longrightarrow> i < count \<Longrightarrow>
      test (selected selVecPtr hs mem) (elem_ptr dataPtr i 2) = Some (q (i32_at mem dataPtr i))"
  shows "filter_kernel 2 I32_MASKS cmp test dataPtr selVecPtr count mem = selects (\<lambda>i. q (i32_at mem dataPtr i)) selVecPtr count mem"
  unfolding selects_def
proof (rule filter_kernel_selects)
  fix hs :: "nat list" and i assume h: "length hs \<le> count" "i + length I32_MASKS \<le> count"
  obtain v where v: "load_v128 (elem_ptr dataPtr i 2) (selected selVecPtr hs mem) = Some v" "\<forall>j < 4. i32_lane v j = i32_at mem dataPtr (i + j)"
    using load_vector_i32 [OF s h(1)] h(2) by auto
  have "cmp (selected selVecPtr hs mem) v = Some (lanes_of 4 4 (\<lambda>j. q (i32_at mem dataPtr (i + j))))"
    using vec [OF h(1), of v] lanes_cong [of 4 "\<lambda>j. q (i32_lane v j)" "\<lambda>j. q (i32_at mem dataPtr (i + j))" 4] v(2) by simp
  then show "\<exists>vec c. load_v128 (elem_ptr dataPtr i 2) (selected selVecPtr hs mem) = Some vec
        \<and> cmp (selected selVecPtr hs mem) vec = Some c
        \<and> (\<forall>j < length I32_MASKS. (i8x16_bitmask c AND I32_MASKS ! j \<noteq> 0) = q (i32_at mem dataPtr (i + j)))"
    using v(1) i32_masks_decide by auto
qed (use s(1) test in \<open>simp_all add: selection_fits_def\<close>)

lemma f64_kernel_general:
  assumes s: "selection_fits selVecPtr count mem" "area_apart dataPtr (8 * count) selVecPtr count mem"
    and vec: "\<And>hs vec. length hs \<le> count \<Longrightarrow> cmp (selected selVecPtr hs mem) vec = Some (lanes_of 8 2 (\<lambda>j. q (f64_lane vec j)))"
    and test: "\<And>hs i. length hs \<le> count \<Longrightarrow> i < count \<Longrightarrow>
      test (selected selVecPtr hs mem) (elem_ptr dataPtr i 3) = Some (q (f64_at mem dataPtr i))"
  shows "filter_kernel 3 F64_MASKS cmp test dataPtr selVecPtr count mem = selects (\<lambda>i. q (f64_at mem dataPtr i)) selVecPtr count mem"
  unfolding selects_def
proof (rule filter_kernel_selects)
  fix hs :: "nat list" and i assume h: "length hs \<le> count" "i + length F64_MASKS \<le> count"
  obtain v where v: "load_v128 (elem_ptr dataPtr i 3) (selected selVecPtr hs mem) = Some v" "\<forall>j < 2. f64_lane v j = f64_at mem dataPtr (i + j)"
    using load_vector_f64 [OF s h(1)] h(2) by auto
  have "cmp (selected selVecPtr hs mem) v = Some (lanes_of 8 2 (\<lambda>j. q (f64_at mem dataPtr (i + j))))"
    using vec [OF h(1), of v] lanes_cong [of 2 "\<lambda>j. q (f64_lane v j)" "\<lambda>j. q (f64_at mem dataPtr (i + j))" 8] v(2) by simp
  then show "\<exists>vec c. load_v128 (elem_ptr dataPtr i 3) (selected selVecPtr hs mem) = Some vec
        \<and> cmp (selected selVecPtr hs mem) vec = Some c
        \<and> (\<forall>j < length F64_MASKS. (i8x16_bitmask c AND F64_MASKS ! j \<noteq> 0) = q (f64_at mem dataPtr (i + j)))"
    using v(1) f64_masks_decide by auto
qed (use s(1) test in \<open>simp_all add: selection_fits_def\<close>)

lemma compare_splat:
  "i32x4_compare p vec (i32x4_splat x) = lanes_of 4 4 (\<lambda>j. p (i32_lane vec j) x)"
  "f64x2_compare q vec (f64x2_splat y) = lanes_of 8 2 (\<lambda>j. q (f64_lane vec j) y)"
  unfolding compare_lanes by (rule lanes_cong, simp add: splat_lane)+

lemma simdCmp_splat:
  "simdCmpI32 vec (i32x4_splat x) op = lanes_of 4 4 (\<lambda>j. scalarCmpI32 (i32_lane vec j) x op)"
  "simdCmpF64 vec (f64x2_splat y) op = lanes_of 8 2 (\<lambda>j. scalarCmpF64 (f64_lane vec j) y op)"
  by (simp_all add: simdCmpI32_def simdCmpF64_def scalarCmpI32_def scalarCmpF64_def compare_splat)

lemma i32_kernel_selects:
  assumes "selection_fits selVecPtr count mem" "area_apart dataPtr (4 * count) selVecPtr count mem"
    and "\<And>vec. cmp vec = lanes_of 4 4 (\<lambda>j. q (i32_lane vec j))"
  shows "i32_kernel cmp q dataPtr selVecPtr count mem = selects (\<lambda>i. q (i32_at mem dataPtr i)) selVecPtr count mem"
  unfolding i32_kernel_def
  by (rule i32_kernel_general [OF assms(1,2)]) (simp_all add: assms(3) load_i32_selected [OF assms(1,2)])

lemma f64_kernel_selects:
  assumes "selection_fits selVecPtr count mem" "area_apart dataPtr (8 * count) selVecPtr count mem"
    and "\<And>vec. cmp vec = lanes_of 8 2 (\<lambda>j. q (f64_lane vec j))"
  shows "f64_kernel cmp q dataPtr selVecPtr count mem = selects (\<lambda>i. q (f64_at mem dataPtr i)) selVecPtr count mem"
  unfolding f64_kernel_def
  by (rule f64_kernel_general [OF assms(1,2)]) (simp_all add: assms(3) load_f64_selected [OF assms(1,2)])

lemmas kernel_lanes = compare_splat simdCmp_splat combine_lanes










lemma pair_kernels_select:
  assumes "selection_fits selVecPtr count mem"
  shows "area_apart dataPtr (4 * count) selVecPtr count mem \<Longrightarrow> filterCompoundAndI32 dataPtr selVecPtr count op1 x op2 y mem
      = selects (\<lambda>i. scalarCmpI32 (i32_at mem dataPtr i) x op1 \<and> scalarCmpI32 (i32_at mem dataPtr i) y op2) selVecPtr count mem"
    "area_apart dataPtr (4 * count) selVecPtr count mem \<Longrightarrow> filterCompoundOrI32 dataPtr selVecPtr count op1 x op2 y mem
      = selects (\<lambda>i. scalarCmpI32 (i32_at mem dataPtr i) x op1 \<or> scalarCmpI32 (i32_at mem dataPtr i) y op2) selVecPtr count mem"
    "area_apart dataPtr (8 * count) selVecPtr count mem \<Longrightarrow> filterCompoundAndF64 dataPtr selVecPtr count op1 u op2 v mem
      = selects (\<lambda>i. scalarCmpF64 (f64_at mem dataPtr i) u op1 \<and> scalarCmpF64 (f64_at mem dataPtr i) v op2) selVecPtr count mem"
    "area_apart dataPtr (8 * count) selVecPtr count mem \<Longrightarrow> filterCompoundOrF64 dataPtr selVecPtr count op1 u op2 v mem
      = selects (\<lambda>i. scalarCmpF64 (f64_at mem dataPtr i) u op1 \<or> scalarCmpF64 (f64_at mem dataPtr i) v op2) selVecPtr count mem"
  unfolding filterCompoundAndI32_def filterCompoundOrI32_def filterCompoundAndF64_def filterCompoundOrF64_def
  by (simp_all add: i32_kernel_selects [OF assms] f64_kernel_selects [OF assms] kernel_lanes)

text \<open>
  C17: The vectorised filter kernels do what their scalar tests say: for an area of elements of either width
  that does not overlap the selection area, each of the twelve comparison kernels returns the number of
  positions whose element passes and leaves memory unchanged except that those positions, ascending, fill
  the selection area.
\<close>

theorem filter_kernels_select:
  assumes "selection_fits selVecPtr count mem" "area_apart dataPtr (width * count) selVecPtr count mem"
  shows "(width = 4 \<longrightarrow>
      filterEqI32 dataPtr selVecPtr count x mem = selects (\<lambda>i. i32_at mem dataPtr i = x) selVecPtr count mem
    \<and> filterLtI32 dataPtr selVecPtr count x mem = selects (\<lambda>i. i32_at mem dataPtr i <s x) selVecPtr count mem
    \<and> filterGtI32 dataPtr selVecPtr count x mem = selects (\<lambda>i. x <s i32_at mem dataPtr i) selVecPtr count mem
    \<and> filterLeI32 dataPtr selVecPtr count x mem = selects (\<lambda>i. i32_at mem dataPtr i \<le>s x) selVecPtr count mem
    \<and> filterGeI32 dataPtr selVecPtr count x mem = selects (\<lambda>i. x \<le>s i32_at mem dataPtr i) selVecPtr count mem
    \<and> filterBetweenI32 dataPtr selVecPtr count x y mem
        = selects (\<lambda>i. x \<le>s i32_at mem dataPtr i \<and> i32_at mem dataPtr i \<le>s y) selVecPtr count mem)
   \<and> (width = 8 \<longrightarrow>
      filterEqF64 dataPtr selVecPtr count u mem = selects (\<lambda>i. f64_eq (f64_at mem dataPtr i) u) selVecPtr count mem
    \<and> filterLtF64 dataPtr selVecPtr count u mem = selects (\<lambda>i. f64_lt (f64_at mem dataPtr i) u) selVecPtr count mem
    \<and> filterGtF64 dataPtr selVecPtr count u mem = selects (\<lambda>i. f64_lt u (f64_at mem dataPtr i)) selVecPtr count mem
    \<and> filterLeF64 dataPtr selVecPtr count u mem = selects (\<lambda>i. f64_le (f64_at mem dataPtr i) u) selVecPtr count mem
    \<and> filterGeF64 dataPtr selVecPtr count u mem = selects (\<lambda>i. f64_le u (f64_at mem dataPtr i)) selVecPtr count mem
    \<and> filterBetweenF64 dataPtr selVecPtr count u v mem
        = selects (\<lambda>i. f64_le u (f64_at mem dataPtr i) \<and> f64_le (f64_at mem dataPtr i) v) selVecPtr count mem)"
proof (intro conjI impI)
  assume w: "width = 4"
  note k = i32_kernel_selects [OF assms [unfolded w]]
  show "filterEqI32 dataPtr selVecPtr count x mem = selects (\<lambda>i. i32_at mem dataPtr i = x) selVecPtr count mem"
    unfolding filterEqI32_def by (rule k) (rule kernel_lanes)
  show "filterLtI32 dataPtr selVecPtr count x mem = selects (\<lambda>i. i32_at mem dataPtr i <s x) selVecPtr count mem"
    unfolding filterLtI32_def by (rule k) (rule kernel_lanes)
  show "filterGtI32 dataPtr selVecPtr count x mem = selects (\<lambda>i. x <s i32_at mem dataPtr i) selVecPtr count mem"
    unfolding filterGtI32_def by (rule k) (rule kernel_lanes)
  show "filterLeI32 dataPtr selVecPtr count x mem = selects (\<lambda>i. i32_at mem dataPtr i \<le>s x) selVecPtr count mem"
    unfolding filterLeI32_def by (rule k) (rule kernel_lanes)
  show "filterGeI32 dataPtr selVecPtr count x mem = selects (\<lambda>i. x \<le>s i32_at mem dataPtr i) selVecPtr count mem"
    unfolding filterGeI32_def by (rule k) (rule kernel_lanes)
  show "filterBetweenI32 dataPtr selVecPtr count x y mem
      = selects (\<lambda>i. x \<le>s i32_at mem dataPtr i \<and> i32_at mem dataPtr i \<le>s y) selVecPtr count mem"
    unfolding filterBetweenI32_def by (rule k) (simp add: kernel_lanes)
next
  assume w: "width = 8"
  note k = f64_kernel_selects [OF assms [unfolded w]]
  show "filterEqF64 dataPtr selVecPtr count u mem = selects (\<lambda>i. f64_eq (f64_at mem dataPtr i) u) selVecPtr count mem"
    unfolding filterEqF64_def by (rule k) (rule kernel_lanes)
  show "filterLtF64 dataPtr selVecPtr count u mem = selects (\<lambda>i. f64_lt (f64_at mem dataPtr i) u) selVecPtr count mem"
    unfolding filterLtF64_def by (rule k) (rule kernel_lanes)
  show "filterGtF64 dataPtr selVecPtr count u mem = selects (\<lambda>i. f64_lt u (f64_at mem dataPtr i)) selVecPtr count mem"
    unfolding filterGtF64_def by (rule k) (rule kernel_lanes)
  show "filterLeF64 dataPtr selVecPtr count u mem = selects (\<lambda>i. f64_le (f64_at mem dataPtr i) u) selVecPtr count mem"
    unfolding filterLeF64_def by (rule k) (rule kernel_lanes)
  show "filterGeF64 dataPtr selVecPtr count u mem = selects (\<lambda>i. f64_le u (f64_at mem dataPtr i)) selVecPtr count mem"
    unfolding filterGeF64_def by (rule k) (rule kernel_lanes)
  show "filterBetweenF64 dataPtr selVecPtr count u v mem
      = selects (\<lambda>i. f64_le u (f64_at mem dataPtr i) \<and> f64_le (f64_at mem dataPtr i) v) selVecPtr count mem"
    unfolding filterBetweenF64_def by (rule k) (simp add: kernel_lanes)
qed

text \<open>Five elements 3, 7, 1, 7, 2, then room for five positions.\<close>

definition sample_memory :: memory where
  "sample_memory = [3, 0, 0, 0, 7, 0, 0, 0, 1, 0, 0, 0, 7, 0, 0, 0, 2, 0, 0, 0] @ replicate 20 0"

lemma sample_memory_fits: "selection_fits 20 5 sample_memory" "area_apart 0 (4 * 5) 20 5 sample_memory"
  by (simp_all add: selection_fits_def area_apart_def sample_memory_def)

lemma upt5: "[0..<5] = [0, 1, 2, 3, 4 :: nat]"
  by (simp add: upt_rec)

lemma sample_elements:
  "i32_at sample_memory 0 0 = 3" "i32_at sample_memory 0 (Suc 0) = 7" "i32_at sample_memory 0 2 = 1" "i32_at sample_memory 0 3 = 7"
  "i32_at sample_memory 0 4 = 2"
  by (simp_all add: i32_at_def sample_memory_def)

lemma filter_kernels_select_witness:
  "filterLtI32 0 20 5 3 sample_memory = Some (2, selected 20 [2, 4] sample_memory)"
proof -
  have "filterLtI32 0 20 5 3 sample_memory = selects (\<lambda>i. i32_at sample_memory 0 i <s 3) 20 5 sample_memory"
    using filter_kernels_select [OF sample_memory_fits] by simp
  moreover have "hits (\<lambda>i. i32_at sample_memory 0 i <s 3) 5 = [2, 4]"
    by (simp add: hits_def upt5 sample_elements word_sless_alt)
  ultimately show ?thesis by (simp add: selects_def)
qed




end
