(* ===== verification/RowFilter.thy ===== *)
theory RowFilter
  imports Table
begin

text \<open>
  \<open>execution/operators/filter.ts\<close>: the filter operator, which plans a predicate of comparisons for the filter
  kernels when it has a dispatch, and otherwise evaluates the predicate row by row; and the part of
  \<open>parallel/parallel-dispatch.ts\<close> that runs a filter, in morsels on a worker pool or at once. A worker pool and
  a kernel are arguments; \<open>registered_kernel\<close> is what \<open>wasm/register-kernels.ts\<close> registers, whose rows are those
  the theory of the kernels shows the exports to select. The getter \<open>data\<close> of a column decodes it first; that the
  column stays decoded is not recorded, since it reads the same.
\<close>

section \<open>The dispatch\<close>

text \<open>\<open>FilterParams\<close>: a value, or the two bounds.\<close>

datatype filter_args = OneValue column_value | ValueRange column_value column_value

text \<open>\<open>ParallelExpressionDispatch\<close>: a filter answers the selection vector and how many of it match.\<close>

record filter_dispatch =
  fd_canParallelize :: "string \<Rightarrow> data_type \<Rightarrow> nat \<Rightarrow> bool"
  fd_filterParallel :: "typed_array \<Rightarrow> nat \<Rightarrow> string \<Rightarrow> data_type \<Rightarrow> filter_args \<Rightarrow> (nat list \<times> nat) option"

type_synonym row_kernel = "typed_array \<Rightarrow> filter_args \<Rightarrow> nat list"

text \<open>A filter task: a morsel of the staged data, whose positions are counted from \<open>ft_baseIndex\<close>.\<close>

record filter_task =
  ft_data :: typed_array
  ft_operation :: string
  ft_type :: data_type
  ft_args :: filter_args
  ft_baseIndex :: nat

record worker_pool =
  activeWorkerCount :: nat
  pool_execute :: "filter_task list \<Rightarrow> (nat list \<times> nat) list"

record parallel_dispatch =
  pd_workerPool :: "worker_pool option"
  pd_lookup :: "string \<Rightarrow> data_type \<Rightarrow> row_kernel option"
  pd_parallelThreshold :: nat
  pd_morselSize :: nat

definition PARALLELIZABLE_TYPES :: "data_type set" where
  "PARALLELIZABLE_TYPES = {INT32, FLOAT64, DATE}"

definition FILTER_OPS :: "string list" where
  "FILTER_OPS = [''filterEq'', ''filterLt'', ''filterGt'', ''filterLe'', ''filterGe'', ''filterBetween'']"

definition AGG_OPS :: "string list" where
  "AGG_OPS = [''sum'', ''min'', ''max'']"

definition canParallelize :: "parallel_dispatch \<Rightarrow> string \<Rightarrow> data_type \<Rightarrow> nat \<Rightarrow> bool" where
  "canParallelize pd operation t count \<longleftrightarrow>
     \<not> (pd_workerPool pd = None \<or> count < pd_parallelThreshold pd) \<and> t \<in> PARALLELIZABLE_TYPES
     \<and> (operation \<in> set FILTER_OPS \<or> operation \<in> set AGG_OPS)"

definition filterFallback :: "parallel_dispatch \<Rightarrow> string \<Rightarrow> data_type \<Rightarrow> typed_array \<Rightarrow> filter_args \<Rightarrow> (nat list \<times> nat) option" where
  "filterFallback pd operation t data args =
     map_option (\<lambda>kernel. let sv = kernel data args in (sv, length sv)) (pd_lookup pd operation t)"

definition ceil_div :: "nat \<Rightarrow> nat \<Rightarrow> nat" where
  "ceil_div a b = (a + b - 1) div b"

text \<open>The loop of \<open>_splitRange\<close>, which would not end if morsels were empty.\<close>

partial_function (option) morsels_from :: "nat \<Rightarrow> nat \<Rightarrow> nat \<Rightarrow> (nat \<times> nat) list option" where
  "morsels_from totalCount morselSize offset =
     (if offset < totalCount
      then let len = min morselSize (totalCount - offset)
           in Option.bind (morsels_from totalCount morselSize (offset + len)) (\<lambda>rest. Some ((offset, len) # rest))
      else Some [])"

definition splitRange :: "parallel_dispatch \<Rightarrow> nat \<Rightarrow> nat \<Rightarrow> (nat \<times> nat) list option" where
  "splitRange pd totalCount workerCount =
     (let morselCount = max workerCount (ceil_div totalCount (pd_morselSize pd))
      in morsels_from totalCount (ceil_div totalCount morselCount) 0)"

text \<open>\<open>_gatherSelectionVectors\<close>, for results whose vectors hold as many positions as they match.\<close>

definition gatherSelectionVectors :: "(nat list \<times> nat) list \<Rightarrow> nat list \<times> nat" where
  "gatherSelectionVectors results =
     (concat (map fst (filter (\<lambda>r. 0 < snd r) results)), sum_list (map snd results))"

definition filter_tasks :: "typed_array \<Rightarrow> string \<Rightarrow> data_type \<Rightarrow> filter_args \<Rightarrow> (nat \<times> nat) list \<Rightarrow> filter_task list" where
  "filter_tasks data operation t args morsels =
     map (\<lambda>(start, len). \<lparr>ft_data = array_part data start (start + len), ft_operation = operation, ft_type = t,
       ft_args = args, ft_baseIndex = start\<rparr>) morsels"

definition filterParallel :: "parallel_dispatch \<Rightarrow> typed_array \<Rightarrow> nat \<Rightarrow> string \<Rightarrow> data_type \<Rightarrow> filter_args \<Rightarrow> (nat list \<times> nat) option" where
  "filterParallel pd data count operation t args =
     (case pd_workerPool pd of
        None \<Rightarrow> filterFallback pd operation t data args
      | Some pool \<Rightarrow>
          if \<not> canParallelize pd operation t count then filterFallback pd operation t data args
          else Option.bind (splitRange pd count (activeWorkerCount pool)) (\<lambda>morsels.
            Some (gatherSelectionVectors (pool_execute pool (filter_tasks data operation t args morsels)))))"

definition dispatch_of :: "parallel_dispatch \<Rightarrow> filter_dispatch" where
  "dispatch_of pd = \<lparr>fd_canParallelize = canParallelize pd, fd_filterParallel = filterParallel pd\<rparr>"

section \<open>The registered kernels\<close>

definition i32_holds :: "string \<Rightarrow> int \<Rightarrow> int \<Rightarrow> bool" where
  "i32_holds operation v x =
     (if operation = ''filterEq'' then v = x else if operation = ''filterLt'' then v < x
      else if operation = ''filterGt'' then v > x else if operation = ''filterLe'' then v \<le> x else v \<ge> x)"

definition f64_holds :: "string \<Rightarrow> jsnum \<Rightarrow> jsnum \<Rightarrow> bool" where
  "f64_holds operation v x =
     (if operation = ''filterEq'' then js_eq v x else if operation = ''filterLt'' then js_lt v x
      else if operation = ''filterGt'' then js_lt x v else if operation = ''filterLe'' then js_le v x else js_le x v)"

text \<open>An argument is converted to the parameter type of the export: a number to an \<open>i32\<close> by \<open>ToInt32\<close>.\<close>

definition i32_kernel_rows :: "string \<Rightarrow> int list \<Rightarrow> filter_args \<Rightarrow> nat list" where
  "i32_kernel_rows operation xs args = (case args of
       OneValue v \<Rightarrow> filter (\<lambda>i. i32_holds operation (xs ! i) (to_int32 (js_number (Val v)))) [0..<length xs]
     | ValueRange lo hi \<Rightarrow>
         filter (\<lambda>i. to_int32 (js_number (Val lo)) \<le> xs ! i \<and> xs ! i \<le> to_int32 (js_number (Val hi))) [0..<length xs])"

definition f64_kernel_rows :: "string \<Rightarrow> jsnum list \<Rightarrow> filter_args \<Rightarrow> nat list" where
  "f64_kernel_rows operation xs args = (case args of
       OneValue v \<Rightarrow> filter (\<lambda>i. f64_holds operation (xs ! i) (js_number (Val v))) [0..<length xs]
     | ValueRange lo hi \<Rightarrow>
         filter (\<lambda>i. js_le (js_number (Val lo)) (xs ! i) \<and> js_le (xs ! i) (js_number (Val hi))) [0..<length xs])"

definition registered_kernel :: "string \<Rightarrow> data_type \<Rightarrow> row_kernel option" where
  "registered_kernel operation t =
     (if operation \<in> set FILTER_OPS \<and> t \<in> {INT32, FLOAT64, DATE}
      then Some (\<lambda>data args. case data of
          IntArray xs \<Rightarrow> i32_kernel_rows operation xs args
        | NumArray xs \<Rightarrow> f64_kernel_rows operation xs args)
      else None)"

section \<open>Filter plans\<close>

datatype filter_plan =
    SimplePlan string data_type nat column_value
  | BetweenPlan data_type nat column_value column_value
  | AndPlan filter_plan filter_plan
  | OrPlan filter_plan filter_plan

definition OP_TO_FILTER :: "(string \<times> string) list" where
  "OP_TO_FILTER = [(''='', ''filterEq''), (''<'', ''filterLt''), (''>'', ''filterGt''), (''<='', ''filterLe''), (''>='', ''filterGe'')]"

fun extractColumnAndLiteral :: "bexpr \<Rightarrow> bexpr \<Rightarrow> (bound_column \<times> column_value) option" where
  "extractColumnAndLiteral (BoundColumnRef c) (BoundLiteral v t) = Some (c, v)"
| "extractColumnAndLiteral (BoundLiteral v t) (BoundColumnRef c) = Some (c, v)"
| "extractColumnAndLiteral l r = None"

definition extractLiteralValue :: "bexpr \<Rightarrow> column_value" where
  "extractLiteralValue e = (case e of BoundLiteral v t \<Rightarrow> v | _ \<Rightarrow> VNull)"

text \<open>The index of a column of fixed width that the mapping resolves.\<close>

definition planned_column :: "column_mapping option \<Rightarrow> bound_column \<Rightarrow> (data_type \<times> nat) option" where
  "planned_column mapping c = (case column_dataType c of
       None \<Rightarrow> None
     | Some t \<Rightarrow> if \<not> isFixedWidth t \<or> optionalColumnIndex c mapping = UNRESOLVED_COLUMN then None
         else Some (t, nat (optionalColumnIndex c mapping)))"

definition analyzeComparison :: "filter_dispatch \<Rightarrow> column_mapping option \<Rightarrow> string \<Rightarrow> bexpr \<Rightarrow> bexpr \<Rightarrow> filter_plan option" where
  "analyzeComparison d mapping op left right =
     Option.bind (map_of OP_TO_FILTER op) (\<lambda>operation.
     Option.bind (extractColumnAndLiteral left right) (\<lambda>(c, literal).
       if literal = VNull then None
       else Option.bind (planned_column mapping c) (\<lambda>(t, i).
         if fd_canParallelize d operation t 1 then Some (SimplePlan operation t i literal) else None)))"

definition analyzeBetween :: "column_mapping option \<Rightarrow> bexpr \<Rightarrow> bexpr \<Rightarrow> bexpr \<Rightarrow> filter_plan option" where
  "analyzeBetween mapping e lo hi = (case e of
       BoundColumnRef c \<Rightarrow> Option.bind (planned_column mapping c) (\<lambda>(t, i).
         if extractLiteralValue lo = VNull \<or> extractLiteralValue hi = VNull then None
         else Some (BetweenPlan t i (extractLiteralValue lo) (extractLiteralValue hi)))
     | _ \<Rightarrow> None)"

text \<open>\<open>_analyze\<close>; a predicate that is \<open>AND\<close> or \<open>OR\<close> is never a comparison.\<close>

fun analyze :: "filter_dispatch \<Rightarrow> column_mapping option \<Rightarrow> bexpr \<Rightarrow> filter_plan option" where
  "analyze d mapping (BoundBinary op l r t) =
     (if op = ''AND'' \<or> op = ''OR''
      then (case (analyze d mapping l, analyze d mapping r) of
             (Some p, Some q) \<Rightarrow> Some (if op = ''AND'' then AndPlan p q else OrPlan p q)
           | _ \<Rightarrow> None)
      else analyzeComparison d mapping op l r)"
| "analyze d mapping (BoundBetween e lo hi negated) = analyzeBetween mapping e lo hi"
| "analyze d mapping _ = None"

section \<open>Running a plan\<close>

definition getColumnData :: "data_chunk \<Rightarrow> any_column option \<Rightarrow> typed_array option" where
  "getColumnData chunk column =
     (if ch_selection chunk \<noteq> None then None
      else case column of
          Some (Plain c) \<Rightarrow> map_option (\<lambda>data. array_part data 0 (c_length c)) (c_data (column_decoded c))
        | _ \<Rightarrow> None)"

fun any_isNull :: "any_column \<Rightarrow> nat \<Rightarrow> bool" where
  "any_isNull (Plain c) i = column_isNull c i"
| "any_isNull (Dict d) i = dict_isNull d i"

fun any_hasNulls :: "any_column \<Rightarrow> bool" where
  "any_hasNulls (Plain c) = c_hasNulls c"
| "any_hasNulls (Dict d) = d_hasNulls d"

text \<open>The kept positions move to the front of the vector; the result is how many there are.\<close>

definition dropNullRows :: "any_column \<Rightarrow> nat list \<Rightarrow> nat \<Rightarrow> nat list \<times> nat" where
  "dropNullRows column sv count =
     (if \<not> any_hasNulls column then (sv, count)
      else let kept = filter (\<lambda>i. \<not> any_isNull column i) (take count sv)
           in (kept @ drop (length kept) sv, length kept))"

definition empty_chunk :: "data_chunk \<Rightarrow> data_chunk" where
  "empty_chunk chunk = \<lparr>ch_columns = ch_columns chunk, ch_size = 0, ch_selection = None\<rparr>"

definition applySelectionVector :: "data_chunk \<Rightarrow> nat list \<Rightarrow> nat \<Rightarrow> data_chunk" where
  "applySelectionVector chunk sv count =
     (if count = 0 then empty_chunk chunk
      else if count = ch_size chunk \<and> ch_selection chunk = None then chunk
      else \<lparr>ch_columns = ch_columns chunk, ch_size = count, ch_selection = Some (take count sv)\<rparr>)"

definition run_kernel :: "filter_dispatch \<Rightarrow> data_chunk \<Rightarrow> nat \<Rightarrow> string \<Rightarrow> data_type \<Rightarrow> filter_args \<Rightarrow> data_chunk option" where
  "run_kernel d chunk i operation t args =
     Option.bind (nth_opt (ch_columns chunk) i) (\<lambda>column.
     Option.bind (getColumnData chunk (Some column)) (\<lambda>data.
     Option.bind (fd_filterParallel d data (case data of IntArray xs \<Rightarrow> length xs | NumArray xs \<Rightarrow> length xs) operation t args)
       (\<lambda>(sv, matchCount). let (sv', count) = dropNullRows column sv matchCount
          in Some (applySelectionVector chunk sv' count))))"

text \<open>The merges of two ascending selections.\<close>

fun intersectSorted :: "nat list \<Rightarrow> nat list \<Rightarrow> nat list" where
  "intersectSorted [] bs = []"
| "intersectSorted as [] = []"
| "intersectSorted (a # as) (b # bs) =
     (if a = b then a # intersectSorted as bs
      else if a < b then intersectSorted as (b # bs) else intersectSorted (a # as) bs)"

fun unionSorted :: "nat list \<Rightarrow> nat list \<Rightarrow> nat list" where
  "unionSorted [] bs = bs"
| "unionSorted as [] = as"
| "unionSorted (a # as) (b # bs) =
     (if a = b then a # unionSorted as bs
      else if a < b then a # unionSorted as (b # bs) else b # unionSorted (a # as) bs)"

definition merge_and :: "data_chunk \<Rightarrow> data_chunk \<Rightarrow> data_chunk \<Rightarrow> data_chunk option" where
  "merge_and chunk leftResult rightResult = (case (ch_selection leftResult, ch_selection rightResult) of
       (Some leftSv, Some rightSv) \<Rightarrow>
         let merged = intersectSorted (take (ch_size leftResult) leftSv) (take (ch_size rightResult) rightSv)
         in Some (applySelectionVector chunk merged (length merged))
     | _ \<Rightarrow> None)"

definition merge_or :: "data_chunk \<Rightarrow> data_chunk \<Rightarrow> data_chunk \<Rightarrow> data_chunk option" where
  "merge_or chunk leftResult rightResult = (case (ch_selection leftResult, ch_selection rightResult) of
       (None, None) \<Rightarrow> None
     | (None, Some rightSv) \<Rightarrow> Some rightResult
     | (Some leftSv, None) \<Rightarrow> Some leftResult
     | (Some leftSv, Some rightSv) \<Rightarrow>
         let merged = unionSorted (take (ch_size leftResult) leftSv) (take (ch_size rightResult) rightSv)
         in Some (applySelectionVector chunk merged (length merged)))"

definition missing_or_empty :: "data_chunk option \<Rightarrow> bool" where
  "missing_or_empty r \<longleftrightarrow> (case r of None \<Rightarrow> True | Some ch \<Rightarrow> ch_size ch = 0)"

fun executeParallel :: "filter_dispatch \<Rightarrow> data_chunk \<Rightarrow> filter_plan \<Rightarrow> data_chunk option" where
  "executeParallel d chunk (SimplePlan operation t i v) = run_kernel d chunk i operation t (OneValue v)"
| "executeParallel d chunk (BetweenPlan t i lo hi) = run_kernel d chunk i ''filterBetween'' t (ValueRange lo hi)"
| "executeParallel d chunk (AndPlan p q) =
     (let leftResult = executeParallel d chunk p
      in if missing_or_empty leftResult then Some (empty_chunk chunk)
         else let rightResult = executeParallel d chunk q
              in if missing_or_empty rightResult then Some (empty_chunk chunk)
                 else merge_and chunk (the leftResult) (the rightResult))"
| "executeParallel d chunk (OrPlan p q) =
     (case (executeParallel d chunk p, executeParallel d chunk q) of
        (None, r) \<Rightarrow> r
      | (l, None) \<Rightarrow> l
      | (Some l, Some r) \<Rightarrow> merge_or chunk l r)"

section \<open>The operator\<close>

record filter_operator =
  fo_predicate :: "bexpr option"
  fo_evaluator :: compiled
  fo_columnMapping :: "column_mapping option"
  fo_dispatch :: "filter_dispatch option"

text \<open>The row of a chunk that an evaluator reads.\<close>

definition row_at :: "jsnum \<Rightarrow> data_chunk \<Rightarrow> nat \<Rightarrow> row" where
  "row_at scale chunk i = map (\<lambda>c. column_reader scale c i) (ch_columns chunk)"

fun passing_rows :: "(nat \<Rightarrow> value_result) \<Rightarrow> nat list \<Rightarrow> eval_error + nat list" where
  "passing_rows evaluator [] = Inr []"
| "passing_rows evaluator (i # is) = bindE (evaluator i) (\<lambda>v.
     bindE (passing_rows evaluator is) (\<lambda>rest. Inr (if js_truthy v then i # rest else rest)))"

definition executeFallback :: "jsnum \<Rightarrow> compiled \<Rightarrow> data_chunk \<Rightarrow> eval_error + data_chunk" where
  "executeFallback scale evaluator chunk =
     bindE (passing_rows (\<lambda>i. evaluator (row_at scale chunk i)) (map (chunk_activeRowIndex chunk) [0..<ch_size chunk])) (\<lambda>sv.
       Inr (if sv = [] then empty_chunk chunk
            else if length sv = ch_size chunk then chunk
            else \<lparr>ch_columns = ch_columns chunk, ch_size = length sv, ch_selection = Some sv\<rparr>))"

definition filter_process :: "jsnum \<Rightarrow> filter_operator \<Rightarrow> data_chunk \<Rightarrow> eval_error + data_chunk" where
  "filter_process scale fo chunk =
     (if ch_size chunk = 0 then Inr (empty_chunk chunk)
      else case (fo_dispatch fo, fo_predicate fo) of
          (Some d, Some predicate) \<Rightarrow>
            (case Option.bind (analyze d (fo_columnMapping fo) predicate) (executeParallel d chunk) of
               Some result \<Rightarrow> Inr result
             | None \<Rightarrow> executeFallback scale (fo_evaluator fo) chunk)
        | _ \<Rightarrow> executeFallback scale (fo_evaluator fo) chunk)"

end
