(* ===== verification/RowFilterSpec.thy ===== *)
theory RowFilterSpec
  imports RowFilter
begin

text \<open>
  The properties of the filter operator: what the evaluated path keeps, that morsels on a worker pool select
  the rows of one kernel call, when a planned comparison keeps the rows the predicate is true at, and the plans
  that do not.
\<close>

section \<open>The evaluated path\<close>

definition active_rows :: "data_chunk \<Rightarrow> nat list" where
  "active_rows chunk = map (chunk_activeRowIndex chunk) [0..<ch_size chunk]"

lemma active_rows_flat [simp]: "ch_selection chunk = None \<Longrightarrow> active_rows chunk = [0..<ch_size chunk]"
  by (simp add: active_rows_def chunk_activeRowIndex_def selected_row_def map_idI)

lemma active_rows_empty [simp]: "active_rows (empty_chunk chunk) = []"
  by (simp add: active_rows_def empty_chunk_def)

lemma active_rows_selected: "length sv = n \<Longrightarrow>
    active_rows \<lparr>ch_columns = cs, ch_size = n, ch_selection = Some sv\<rparr> = sv"
  by (auto simp: active_rows_def chunk_activeRowIndex_def selected_row_def intro: nth_equalityI)

definition passes :: "(nat \<Rightarrow> value_result) \<Rightarrow> nat \<Rightarrow> bool" where
  "passes evaluator i = (case evaluator i of Inr v \<Rightarrow> js_truthy v | Inl _ \<Rightarrow> False)"

lemma passing_rows_filter: "passing_rows evaluator is = Inr sv \<Longrightarrow> sv = filter (passes evaluator) is"
proof (induction "is" arbitrary: sv)
  case (Cons i "is")
  then obtain v rest where "evaluator i = Inr v" "passing_rows evaluator is = Inr rest" "sv = (if js_truthy v then i # rest else rest)"
    by (auto simp: bindE_Inr_iff)
  then show ?case using Cons.IH by (simp add: passes_def)
qed simp

lemma executeFallback_rows:
  assumes "executeFallback scale evaluator chunk = Inr result"
  shows "active_rows result = filter (passes (\<lambda>i. evaluator (row_at scale chunk i))) (active_rows chunk)
    \<and> ch_columns result = ch_columns chunk"
proof -
  let ?p = "passes (\<lambda>i. evaluator (row_at scale chunk i))"
  obtain sv where "passing_rows (\<lambda>i. evaluator (row_at scale chunk i)) (active_rows chunk) = Inr sv"
      and r: "result = (if sv = [] then empty_chunk chunk else if length sv = ch_size chunk then chunk
            else \<lparr>ch_columns = ch_columns chunk, ch_size = length sv, ch_selection = Some sv\<rparr>)"
    using assms by (auto simp: executeFallback_def active_rows_def bindE_Inr_iff)
  then have sv: "sv = filter ?p (active_rows chunk)" by (simp add: passing_rows_filter)
  have "filter ?p (active_rows chunk) = active_rows chunk" if "length sv = ch_size chunk"
    using that length_filter_less [of _ "active_rows chunk" ?p]
    unfolding sv filter_id_conv by (auto simp: active_rows_def)
  then show ?thesis using r sv by (auto simp: active_rows_selected empty_chunk_def)
qed

section \<open>Morsels\<close>

lemma array_part_take:
  "(case array_part data a b of IntArray xs \<Rightarrow> length xs | NumArray xs \<Rightarrow> length xs)
    = min (b - a) ((case data of IntArray xs \<Rightarrow> length xs | NumArray xs \<Rightarrow> length xs) - a)"
  by (cases data) auto

text \<open>Consecutive morsels from \<open>offset\<close> to \<open>count\<close>.\<close>

fun consecutive :: "nat \<Rightarrow> nat \<Rightarrow> (nat \<times> nat) list \<Rightarrow> bool" where
  "consecutive offset count [] \<longleftrightarrow> offset = count"
| "consecutive offset count ((start, len) # ms) \<longleftrightarrow> start = offset \<and> 0 < len \<and> consecutive (offset + len) count ms"

lemma morsels_from_total:
  "0 < m \<Longrightarrow> offset \<le> count \<Longrightarrow>
     \<exists>ms. morsels_from count m offset = Some ms \<and> consecutive offset count ms \<and> (\<forall>(s, len) \<in> set ms. len \<le> m)
       \<and> length ms = ceil_div (count - offset) m"
proof (induction "count - offset" arbitrary: offset rule: less_induct)
  case less
  show ?case
  proof (cases "offset < count")
    case False
    then show ?thesis using less.prems by (simp add: morsels_from.simps ceil_div_def)
  next
    case True
    let ?len = "min m (count - offset)"
    have lt: "count - (offset + ?len) < count - offset" "offset + ?len \<le> count" using less.prems True by auto
    obtain ms where ms: "morsels_from count m (offset + ?len) = Some ms" "consecutive (offset + ?len) count ms"
        "\<forall>(s, len) \<in> set ms. len \<le> m" "length ms = ceil_div (count - (offset + ?len)) m"
      using less.hyps [OF lt(1) less.prems(1) lt(2)] by blast
    have "ceil_div (count - offset) m = Suc (ceil_div (count - (offset + ?len)) m)"
    proof (cases "m \<le> count - offset")
      case True
      then have e: "count - offset + m - 1 = (count - (offset + ?len) + m - 1) + m" using less.prems(1) by simp
      show ?thesis unfolding ceil_div_def e using less.prems(1) by (simp only: div_add_self2)
    next
      case False
      then have "count - offset + m - 1 < 2 * m" "m \<le> count - offset + m - 1" "count - (offset + ?len) + m - 1 < m"
        using True less.prems by auto
      then have "(count - offset + m - 1) div m = 1" "(count - (offset + ?len) + m - 1) div m = 0"
        by (auto simp: div_nat_eqI)
      then show ?thesis by (simp add: ceil_div_def)
    qed
    then show ?thesis using True ms less.prems(1) by (subst morsels_from.simps) (simp add: Let_def)
  qed
qed

lemma ceil_div_pos: "0 < a \<Longrightarrow> 0 < b \<Longrightarrow> 0 < ceil_div a b"
  by (simp add: ceil_div_def div_greater_zero_iff)

lemma splitRange_consecutive:
  assumes "0 < pd_morselSize pd"
  shows "\<exists>ms. splitRange pd count workers = Some ms \<and> consecutive 0 count ms"
proof (cases "count = 0")
  case True
  then show ?thesis by (simp add: splitRange_def morsels_from.simps)
next
  case False
  let ?count = "max workers (ceil_div count (pd_morselSize pd))"
  have "0 < ?count" using False assms ceil_div_pos [of count "pd_morselSize pd"] by (simp add: less_max_iff_disj)
  then have "0 < ceil_div count ?count" using False ceil_div_pos [of count ?count] by simp
  then show ?thesis using morsels_from_total [of "ceil_div count ?count" 0 count] by (auto simp: splitRange_def Let_def)
qed

text \<open>A kernel works row by row: on two pieces it selects what it selects on the whole.\<close>

definition array_length :: "typed_array \<Rightarrow> nat" where
  "array_length data = (case data of IntArray xs \<Rightarrow> length xs | NumArray xs \<Rightarrow> length xs)"

definition rowwise :: "row_kernel \<Rightarrow> bool" where
  "rowwise kern \<longleftrightarrow> (\<forall>data args. \<exists>p. \<forall>a b. a \<le> b \<and> b \<le> array_length data \<longrightarrow>
     map ((+) a) (kern (array_part data a b) args) = filter p [a..<b])"

lemma shift_filter: "map ((+) a) (filter p [0..<n]) = filter (\<lambda>i. p (i - a)) [a..<a + n]"
proof -
  have "[a..<a + n] = map ((+) a) [0..<n]" using map_add_upt [of a n] by (simp add: add.commute [of a] cong: map_cong)
  then show ?thesis by (simp add: filter_map o_def)
qed

lemma rowwise_rows:
  assumes "\<And>xs args. rows xs args = filter (\<lambda>i. t args (xs ! i)) [0..<length xs]" "a \<le> b" "b \<le> length xs"
  shows "map ((+) a) (rows (take (b - a) (drop a xs)) args) = filter (\<lambda>i. t args (xs ! i)) [a..<b]"
proof -
  have "map ((+) a) (rows (take (b - a) (drop a xs)) args)
      = filter (\<lambda>i. t args (take (b - a) (drop a xs) ! (i - a))) [a..<a + (b - a)]"
    using assms(2,3) by (simp add: assms(1) shift_filter)
  also have "\<dots> = filter (\<lambda>i. t args (xs ! i)) [a..<b]"
    using assms(2,3) by (intro filter_cong) auto
  finally show ?thesis .
qed

lemma registered_rowwise:
  assumes "registered_kernel operation t = Some kern"
  shows "rowwise kern"
proof -
  have k: "kern = (\<lambda>data args. case data of IntArray xs \<Rightarrow> i32_kernel_rows operation xs args | NumArray xs \<Rightarrow> f64_kernel_rows operation xs args)"
    using assms by (auto simp: registered_kernel_def split: if_splits)
  have i: "i32_kernel_rows operation xs args = filter (\<lambda>i. (case args of
        OneValue v \<Rightarrow> i32_holds operation (xs ! i) (to_int32 (js_number (Val v)))
      | ValueRange lo hi \<Rightarrow> to_int32 (js_number (Val lo)) \<le> xs ! i \<and> xs ! i \<le> to_int32 (js_number (Val hi)))) [0..<length xs]"
    for xs args by (cases args) (simp_all add: i32_kernel_rows_def)
  have f: "f64_kernel_rows operation xs args = filter (\<lambda>i. (case args of
        OneValue v \<Rightarrow> f64_holds operation (xs ! i) (js_number (Val v))
      | ValueRange lo hi \<Rightarrow> js_le (js_number (Val lo)) (xs ! i) \<and> js_le (xs ! i) (js_number (Val hi)))) [0..<length xs]"
    for xs args by (cases args) (simp_all add: f64_kernel_rows_def)
  show ?thesis
    unfolding rowwise_def
  proof (intro allI)
    fix data args
    show "\<exists>p. \<forall>a b. a \<le> b \<and> b \<le> array_length data \<longrightarrow> map ((+) a) (kern (array_part data a b) args) = filter p [a..<b]"
    proof (cases data)
      case (IntArray xs)
      then show ?thesis
        using rowwise_rows [where rows = "i32_kernel_rows operation" and xs = xs and args = args, OF i]
        by (auto simp: k array_length_def simp del: map_eq_conv)
    next
      case (NumArray xs)
      then show ?thesis
        using rowwise_rows [where rows = "f64_kernel_rows operation" and xs = xs and args = args, OF f]
        by (auto simp: k array_length_def simp del: map_eq_conv)
    qed
  qed
qed

text \<open>A pool that answers every task with what the kernel of its operation selects, counted from the morsel's start.\<close>

definition task_result :: "(string \<Rightarrow> data_type \<Rightarrow> row_kernel option) \<Rightarrow> filter_task \<Rightarrow> nat list \<times> nat" where
  "task_result lookup t = (case lookup (ft_operation t) (ft_type t) of
       None \<Rightarrow> ([], 0)
     | Some kern \<Rightarrow> let sv = map ((+) (ft_baseIndex t)) (kern (ft_data t) (ft_args t)) in (sv, length sv))"

definition pool_runs_tasks :: "parallel_dispatch \<Rightarrow> bool" where
  "pool_runs_tasks pd \<longleftrightarrow> (\<forall>pool tasks. pd_workerPool pd = Some pool \<longrightarrow> pool_execute pool tasks = map (task_result (pd_lookup pd)) tasks)"

lemma gather_results: "gatherSelectionVectors (map (\<lambda>t. (f t, length (f t))) ts) = (concat (map f ts), length (concat (map f ts)))"
proof -
  have "concat (map fst (filter (\<lambda>r. 0 < snd r) (map (\<lambda>t. (f t, length (f t))) ts))) = concat (map f ts)"
    by (induction ts) auto
  then show ?thesis by (simp add: gatherSelectionVectors_def o_def length_concat)
qed

lemma consecutive_filters:
  "consecutive offset count ms \<Longrightarrow> concat (map (\<lambda>(s, len). filter p [s..<s + len]) ms) = filter p [offset..<count]"
proof (induction ms arbitrary: offset)
  case (Cons m ms)
  obtain s len where m: "m = (s, len)" by (cases m)
  have c: "s = offset" "consecutive (offset + len) count ms" using Cons.prems m by auto
  have "offset + len \<le> count" if "consecutive (offset + len) count ms" for ms offset
    using that by (induction ms arbitrary: offset len) (auto, metis add.assoc le_add1 order_trans)
  then have "[offset..<count] = [offset..<offset + len] @ [offset + len..<count]"
    using c(2) upt_add_eq_append [of offset "offset + len" "count - (offset + len)"] by simp
  then show ?case using Cons.IH [OF c(2)] m c(1) by simp
qed simp

lemma consecutive_bounds: "consecutive offset count ms \<Longrightarrow> (s, len) \<in> set ms \<Longrightarrow> offset \<le> s \<and> s + len \<le> count"
proof (induction ms arbitrary: offset)
  case (Cons m ms)
  have le: "offset \<le> count" if "consecutive offset count ms" for ms offset
    using that by (induction ms arbitrary: offset) (auto, metis add_leD1)
  obtain s' len' where "m = (s', len')" by (cases m)
  then show ?case using Cons le [of "offset + len'" ms] by fastforce
qed simp

lemma parallel_serial:
  assumes "pd_lookup pd = registered_kernel" "0 < pd_morselSize pd" "pool_runs_tasks pd" "operation \<in> set FILTER_OPS"
  shows "filterParallel pd data (array_length data) operation t args = filterFallback pd operation t data args"
proof (cases "pd_workerPool pd")
  case (Some pool)
  show ?thesis
  proof (cases "canParallelize pd operation t (array_length data)")
    case True
    then have "t \<in> PARALLELIZABLE_TYPES" by (simp add: canParallelize_def)
    then obtain kern where k: "registered_kernel operation t = Some kern"
      using assms(4) by (auto simp: registered_kernel_def PARALLELIZABLE_TYPES_def)
    obtain p where p: "\<forall>a b. a \<le> b \<and> b \<le> array_length data \<longrightarrow> map ((+) a) (kern (array_part data a b) args) = filter p [a..<b]"
      using registered_rowwise [OF k] unfolding rowwise_def by blast
    obtain ms where ms: "splitRange pd (array_length data) (activeWorkerCount pool) = Some ms" "consecutive 0 (array_length data) ms"
      using splitRange_consecutive [OF assms(2)] by blast
    let ?rows = "\<lambda>(s, len). map ((+) s) (kern (array_part data s (s + len)) args)"
    have "pool_execute pool (filter_tasks data operation t args ms) = map (\<lambda>m. (?rows m, length (?rows m))) ms"
      using assms(3) Some k by (auto simp: pool_runs_tasks_def filter_tasks_def task_result_def assms(1) Let_def split: prod.splits)
    then have par: "filterParallel pd data (array_length data) operation t args
        = Some (concat (map ?rows ms), length (concat (map ?rows ms)))"
      using Some True ms(1) gather_results [of ?rows ms] by (simp add: filterParallel_def)
    have e: "map ?rows ms = map (\<lambda>(s, len). filter p [s..<s + len]) ms"
      using consecutive_bounds [OF ms(2)] p by (intro map_cong) auto
    have all: "concat (map ?rows ms) = filter p [0..<array_length data]"
      unfolding e by (rule consecutive_filters [OF ms(2)])
    have "array_part data 0 (array_length data) = data" by (cases data) (simp_all add: array_length_def)
    then have "kern data args = filter p [0..<array_length data]"
      using p [rule_format, of 0 "array_length data"] by (simp add: map_idI)
    then show ?thesis using par all k by (simp add: filterFallback_def assms(1) Let_def)
  next
    case False
    then show ?thesis using Some by (simp add: filterParallel_def)
  qed
qed (simp add: filterParallel_def)

text \<open>
  C16: Filtering in morsels on a worker pool is filtering at once: for a registered kernel and a pool that runs
  each task with it, \<open>filterParallel\<close> splits the rows into consecutive morsels, which ends for every number of
  workers, and the gathered selection is the one the kernel returns on the whole column.
\<close>

theorem parallel_filter_serial:
  assumes "pd_lookup pd = registered_kernel" "0 < pd_morselSize pd" "pool_runs_tasks pd" "operation \<in> set FILTER_OPS"
  shows "filterParallel pd data (array_length data) operation t args = filterFallback pd operation t data args"
  using assms by (rule parallel_serial)

definition sample_dispatch :: parallel_dispatch where
  "sample_dispatch = \<lparr>pd_workerPool = Some \<lparr>activeWorkerCount = 2, pool_execute = map (task_result registered_kernel)\<rparr>,
     pd_lookup = registered_kernel, pd_parallelThreshold = 1, pd_morselSize = 2\<rparr>"

lemma sample_dispatch_runs: "pd_lookup sample_dispatch = registered_kernel" "0 < pd_morselSize sample_dispatch"
  "pool_runs_tasks sample_dispatch"
  by (simp_all add: sample_dispatch_def pool_runs_tasks_def)

lemma to_int32_int: "- (2 ^ 31) \<le> k \<Longrightarrow> k < 2 ^ 31 \<Longrightarrow> to_int32 (Fin (of_int k)) = k"
  unfolding to_int32_def js_trunc_int by (rule wrap_signed_id) simp_all

lemma parallel_filter_serial_witness:
  "filterParallel sample_dispatch (IntArray [5, 1, 7]) 3 ''filterGt'' INT32 (OneValue (VNum (Fin 2))) = Some ([0, 2], 2)"
proof -
  have "filterParallel sample_dispatch (IntArray [5, 1, 7]) (array_length (IntArray [5, 1, 7])) ''filterGt'' INT32 (OneValue (VNum (Fin 2)))
      = filterFallback sample_dispatch ''filterGt'' INT32 (IntArray [5, 1, 7]) (OneValue (VNum (Fin 2)))"
    by (rule parallel_filter_serial [OF sample_dispatch_runs]) (simp add: FILTER_OPS_def)
  moreover have "[0..<3] = [0, 1, 2 :: nat]" by (simp add: upt_rec)
  moreover have "to_int32 (Fin 2) = 2" using to_int32_int [of 2] by simp
  ultimately show ?thesis
    by (simp add: array_length_def filterFallback_def sample_dispatch_def registered_kernel_def FILTER_OPS_def i32_kernel_rows_def
        i32_holds_def numeral_3_eq_3)
qed

section \<open>Planned comparisons\<close>

text \<open>A column whose typed array holds the integers \<open>xs\<close> and which reads them back where it is not null.\<close>

definition int_column :: "jsnum \<Rightarrow> column \<Rightarrow> int list \<Rightarrow> bool" where
  "int_column scale c xs \<longleftrightarrow> map_option (\<lambda>data. array_part data 0 (c_length c)) (c_data (column_decoded c)) = Some (IntArray xs)
     \<and> (\<forall>j < length xs. column_get scale c j = (if column_isNull c j then null_value else num_value (Fin (of_int (xs ! j)))))"

definition int_literal :: "int \<Rightarrow> bexpr" where
  "int_literal k = BoundLiteral (VNum (Fin (of_int k))) (Some INT32)"

definition fits_int32 :: "int \<Rightarrow> bool" where
  "fits_int32 k \<longleftrightarrow> - (2 ^ 31) \<le> k \<and> k < 2 ^ 31"

lemma active_rows_apply:
  assumes "ch_selection chunk = None" "set (take count sv) \<subseteq> {0..<ch_size chunk}" "distinct (take count sv)" "sorted (take count sv)"
    and "count \<le> length sv"
  shows "active_rows (applySelectionVector chunk sv count) = take count sv"
proof (cases "count = ch_size chunk")
  case True
  let ?sv = "take count sv"
  have "card (set ?sv) = ch_size chunk" using assms(3,5) True by (simp add: distinct_card)
  then have "set ?sv = {0..<ch_size chunk}" using card_subset_eq [of "{0..<ch_size chunk}" "set ?sv"] assms(2) by simp
  then have "?sv = [0..<ch_size chunk]"
    using assms(3,4) by (intro sorted_distinct_set_unique) simp_all
  then show ?thesis using assms(1) True by (simp add: applySelectionVector_def)
next
  case False
  then show ?thesis using assms(5) by (simp add: applySelectionVector_def active_rows_selected)
qed

lemma sorted_filter_upt: "sorted (filter p [m..<n :: nat])"
  by (rule sorted_wrt_filter) (rule sorted_upt)

lemma run_kernel_rows:
  assumes pd: "pd_lookup pd = registered_kernel" "0 < pd_morselSize pd" "pool_runs_tasks pd"
    and ch: "ch_selection chunk = None" "nth_opt (ch_columns chunk) i = Some (Plain c)" "int_column scale c xs" "length xs = ch_size chunk"
    and op: "operation \<in> set FILTER_OPS" "t \<in> {INT32, DATE}"
    and rows: "i32_kernel_rows operation xs args = filter (\<lambda>j. q (xs ! j)) [0..<length xs]"
  shows "\<exists>result. run_kernel (dispatch_of pd) chunk i operation t args = Some result
    \<and> active_rows result = filter (\<lambda>j. \<not> column_isNull c j \<and> q (xs ! j)) [0..<ch_size chunk]"
proof -
  let ?sv = "filter (\<lambda>j. q (xs ! j)) [0..<ch_size chunk]"
  have data: "getColumnData chunk (Some (Plain c)) = Some (IntArray xs)"
    using ch(1,3) by (simp add: getColumnData_def int_column_def)
  have f: "filterParallel pd (IntArray xs) (length xs) operation t args = Some (?sv, length ?sv)"
    using parallel_serial [OF pd op(1), of "IntArray xs" t args] rows op ch(4)
    by (auto simp: filterFallback_def pd(1) registered_kernel_def array_length_def Let_def)
  obtain sv' count where d: "dropNullRows (Plain c) ?sv (length ?sv) = (sv', count)" by fastforce
  have kept: "take count sv' = filter (\<lambda>j. \<not> column_isNull c j \<and> q (xs ! j)) [0..<ch_size chunk] \<and> count \<le> length sv'"
  proof (cases "c_hasNulls c")
    case False
    then show ?thesis using d by (auto simp: dropNullRows_def column_isNull_def)
  next
    case True
    then show ?thesis using d by (auto simp: dropNullRows_def Let_def conj_commute)
  qed
  then have "active_rows (applySelectionVector chunk sv' count) = filter (\<lambda>j. \<not> column_isNull c j \<and> q (xs ! j)) [0..<ch_size chunk]"
    using active_rows_apply [OF ch(1), of count sv'] sorted_filter_upt by (metis distinct_filter distinct_upt filter_is_subset set_upt)
  moreover have "run_kernel (dispatch_of pd) chunk i operation t args = Some (applySelectionVector chunk sv' count)"
    using ch(2) data f d by (simp add: run_kernel_def dispatch_of_def)
  ultimately show ?thesis by blast
qed

end
