(* ===== verification/FilterPlan.thy ===== *)
theory FilterPlan
  imports RowFilterSpec
begin

text \<open>
  When the filter operator's plans agree with its predicate.
\<close>


lemma toNum_num [simp]: "toNum (num_value x) = num_value x"
  by (simp add: toNum_def)










text \<open>A chunk of one INT32 column.\<close>

definition ints_column :: "int list \<Rightarrow> column" where
  "ints_column xs = column_fromParts INT32 (Some (IntArray xs)) None [] (length xs) False"

definition ints_chunk :: "int list \<Rightarrow> data_chunk" where
  "ints_chunk xs = \<lparr>ch_columns = [Plain (ints_column xs)], ch_size = length xs, ch_selection = None\<rparr>"


definition sample_int_column :: bound_column where
  "sample_int_column = \<lparr>tableAlias = ''t'', columnName = ''c'', columnIndex = 0, column_dataType = Some INT32, depth = 0, isCorrelated = False\<rparr>"

lemma sample_int_resolves: "resolveColumnIndex sample_int_column None = Inr 0" "optionalColumnIndex sample_int_column None = 0"
  by (simp_all add: sample_int_column_def resolveColumnIndex_def optionalColumnIndex_def lookupColumnIndex_def AMBIGUOUS_COLUMN_def)

definition filter_on :: "parallel_dispatch option \<Rightarrow> bexpr \<Rightarrow> filter_operator" where
  "filter_on pd p = \<lparr>fo_predicate = Some p, fo_evaluator = (case compile sample_env p of Inr f \<Rightarrow> f | Inl e \<Rightarrow> (\<lambda>row. Inl e)),
     fo_columnMapping = None, fo_dispatch = map_option dispatch_of pd\<rparr>"



section \<open>Plans that are not their predicate\<close>

text \<open>A dispatch without a pool, at the default threshold: every filter is one kernel call.\<close>

definition local_dispatch :: "nat \<Rightarrow> parallel_dispatch" where
  "local_dispatch threshold = \<lparr>pd_workerPool = None, pd_lookup = registered_kernel, pd_parallelThreshold = threshold, pd_morselSize = 2\<rparr>"

definition int_between :: "int \<Rightarrow> int \<Rightarrow> bool \<Rightarrow> bexpr" where
  "int_between a b negated = BoundBetween (BoundColumnRef sample_int_column) (int_literal a) (int_literal b) negated"

lemma sample_planned [simp]: "planned_column None sample_int_column = Some (INT32, 0)"
proof -
  have "column_dataType sample_int_column = Some INT32" by (simp add: sample_int_column_def)
  then show ?thesis by (simp add: planned_column_def sample_int_resolves UNRESOLVED_COLUMN_def isFixedWidth_def)
qed

lemma analyze_between [simp]:
  "analyze d None (int_between a b negated) = Some (BetweenPlan INT32 0 (VNum (Fin (of_int a))) (VNum (Fin (of_int b))))"
  by (simp add: int_between_def analyzeBetween_def extractLiteralValue_def int_literal_def)

lemma local_between:
  assumes "fits_int32 a" "fits_int32 b"
  shows "executeParallel (dispatch_of (local_dispatch n)) (ints_chunk xs) (BetweenPlan INT32 0 (VNum (Fin (of_int a))) (VNum (Fin (of_int b))))
     = Some (let sv = filter (\<lambda>j. a \<le> xs ! j \<and> xs ! j \<le> b) [0..<length xs]
             in applySelectionVector (ints_chunk xs) sv (length sv))"
  using assms
  by (simp add: run_kernel_def ints_chunk_def nth_opt_def getColumnData_def ints_column_def column_fromParts_def column_decoded_def
      dispatch_of_def local_dispatch_def filterParallel_def filterFallback_def registered_kernel_def FILTER_OPS_def i32_kernel_rows_def
      fits_int32_def to_int32_int dropNullRows_def Let_def)

lemma filter_on_planned:
  "analyze (dispatch_of pd) None p = Some plan \<Longrightarrow> executeParallel (dispatch_of pd) chunk plan = Some result
    \<Longrightarrow> ch_size chunk \<noteq> 0 \<Longrightarrow> filter_process scale (filter_on (Some pd) p) chunk = Inr result"
  by (simp add: filter_process_def filter_on_def)

lemma ints_chunk_simps [simp]: "ch_size (ints_chunk xs) = length xs" "ch_selection (ints_chunk xs) = None"
  "ch_columns (ints_chunk xs) = [Plain (ints_column xs)]"
  by (simp_all add: ints_chunk_def)

lemma negated_range_kept:
  assumes "fits_int32 a" "fits_int32 b" "xs \<noteq> []"
  shows "\<exists>r. filter_process scale (filter_on (Some (local_dispatch n)) (int_between a b negated)) (ints_chunk xs) = Inr r
    \<and> active_rows r = filter (\<lambda>j. a \<le> xs ! j \<and> xs ! j \<le> b) [0..<length xs]"
proof -
  let ?sv = "filter (\<lambda>j. a \<le> xs ! j \<and> xs ! j \<le> b) [0..<length xs]"
  have "active_rows (applySelectionVector (ints_chunk xs) ?sv (length ?sv)) = take (length ?sv) ?sv"
    by (rule active_rows_apply) (auto simp: sorted_filter_upt)
  then show ?thesis
    using filter_on_planned [OF analyze_between local_between [OF assms(1,2)]] assms(3) by (simp add: Let_def)
qed

definition or_ranges :: bexpr where
  "or_ranges = BoundBinary ''OR'' (int_between 0 9 False) (int_between 5 6 False) BOOLEAN"

lemma upt_3: "[0..<3] = [0, 1, 2 :: nat]"
  by (simp add: upt_rec)

lemma or_drops_rows:
  "\<exists>r. filter_process scale (filter_on (Some (local_dispatch n)) or_ranges) (ints_chunk [5, 1, 7]) = Inr r \<and> active_rows r = [0]"
proof -
  let ?r = "applySelectionVector (ints_chunk [5, 1, 7]) [0] 1"
  have p: "analyze (dispatch_of (local_dispatch n)) None or_ranges
      = Some (OrPlan (BetweenPlan INT32 0 (VNum (Fin (of_int 0))) (VNum (Fin (of_int 9)))) (BetweenPlan INT32 0 (VNum (Fin (of_int 5))) (VNum (Fin (of_int 6)))))"
    unfolding or_ranges_def by (simp del: of_int_numeral of_int_0)
  have "executeParallel (dispatch_of (local_dispatch n)) (ints_chunk [5, 1, 7])
      (OrPlan (BetweenPlan INT32 0 (VNum (Fin (of_int 0))) (VNum (Fin (of_int 9)))) (BetweenPlan INT32 0 (VNum (Fin (of_int 5))) (VNum (Fin (of_int 6)))))
      = Some ?r"
    unfolding executeParallel.simps(4)
    by (subst (1 2) local_between) (simp_all add: fits_int32_def numeral_3_eq_3 upt_rec [of 0] upt_rec [of 1] applySelectionVector_def merge_or_def)
  then show ?thesis
    using filter_on_planned [OF p] by (auto simp: applySelectionVector_def active_rows_selected)
qed

lemma and_of_selected_empty:
  assumes "sv \<noteq> []"
  shows "filter_process scale (filter_on (Some pd) (BoundBinary ''AND'' (int_between a b neg) (int_between a' b' neg') BOOLEAN))
     (ints_chunk xs\<lparr>ch_size := length sv, ch_selection := Some sv\<rparr>) = Inr (empty_chunk (ints_chunk xs))"
proof -
  let ?chunk = "ints_chunk xs\<lparr>ch_size := length sv, ch_selection := Some sv\<rparr>"
  have "executeParallel (dispatch_of pd) ?chunk (BetweenPlan t 0 lo hi) = None" for t lo hi
    by (simp add: run_kernel_def getColumnData_def nth_opt_def)
  then have "executeParallel (dispatch_of pd) ?chunk (AndPlan (BetweenPlan t 0 lo hi) q) = Some (empty_chunk ?chunk)" for t lo hi q
    by (simp add: missing_or_empty_def)
  then show ?thesis using assms
    by (subst filter_on_planned [where result = "empty_chunk ?chunk"]) (auto simp: empty_chunk_def)
qed

text \<open>
  C36: Three plans do not mean their predicate. NOT BETWEEN is run as BETWEEN: the rows in the range are kept. An OR
  whose left side holds everywhere keeps the rows of its right side only. An AND of two ranges on a chunk that already
  has a selection keeps no row at all.
\<close>

theorem filter_plans_wrong:
  "(\<forall>a b xs. fits_int32 a \<and> fits_int32 b \<and> xs \<noteq> [] \<longrightarrow>
      (\<exists>r. filter_process scale (filter_on (Some (local_dispatch n)) (int_between a b True)) (ints_chunk xs) = Inr r
         \<and> active_rows r = filter (\<lambda>j. a \<le> xs ! j \<and> xs ! j \<le> b) [0..<length xs]))
   \<and> (\<exists>r. filter_process scale (filter_on (Some (local_dispatch n)) or_ranges) (ints_chunk [5, 1, 7]) = Inr r \<and> active_rows r = [0])
   \<and> (\<forall>pd sv a b a' b' neg neg'. sv \<noteq> [] \<longrightarrow>
        filter_process scale (filter_on (Some pd) (BoundBinary ''AND'' (int_between a b neg) (int_between a' b' neg') BOOLEAN))
          (ints_chunk xs\<lparr>ch_size := length sv, ch_selection := Some sv\<rparr>) = Inr (empty_chunk (ints_chunk xs)))"
  by (intro conjI allI impI) (simp_all add: negated_range_kept or_drops_rows and_of_selected_empty)

lemma filter_plans_wrong_witness:
  "(\<exists>r. filter_process (Fin 1) (filter_on (Some (local_dispatch 10000)) (int_between 2 9 True)) (ints_chunk [5, 1]) = Inr r
      \<and> active_rows r = [0])
   \<and> filter_process (Fin 1) (filter_on (Some (local_dispatch 10000))
        (BoundBinary ''AND'' (int_between 0 9 False) (int_between 0 9 False) BOOLEAN))
        (ints_chunk [5, 1]\<lparr>ch_size := length [1 :: nat], ch_selection := Some [1]\<rparr>) = Inr (empty_chunk (ints_chunk [5, 1]))"
proof -
  note all = filter_plans_wrong [of "Fin 1" 10000 "[5, 1]"]
  have "filter (\<lambda>j. 2 \<le> [5, 1 :: int] ! j \<and> [5, 1 :: int] ! j \<le> 9) [0..<length [5, 1 :: int]] = [0]"
    by (simp add: upt_rec [of 0] upt_rec [of 1])
  moreover have "\<exists>r. filter_process (Fin 1) (filter_on (Some (local_dispatch 10000)) (int_between 2 9 True)) (ints_chunk [5, 1]) = Inr r
      \<and> active_rows r = filter (\<lambda>j. 2 \<le> [5, 1 :: int] ! j \<and> [5, 1 :: int] ! j \<le> 9) [0..<length [5, 1 :: int]]"
    by (rule all [THEN conjunct1, rule_format]) (simp add: fits_int32_def)
  moreover have "filter_process (Fin 1) (filter_on (Some (local_dispatch 10000))
        (BoundBinary ''AND'' (int_between 0 9 False) (int_between 0 9 False) BOOLEAN))
        (ints_chunk [5, 1]\<lparr>ch_size := length [1 :: nat], ch_selection := Some [1]\<rparr>) = Inr (empty_chunk (ints_chunk [5, 1]))"
    by (rule all [THEN conjunct2, THEN conjunct2, rule_format]) simp
  ultimately show ?thesis by simp
qed

end
