(* ===== verification/TypeInference.thy ===== *)
theory TypeInference
  imports ExpressionSpec
begin

text \<open>
  \<open>binder/type-inference.ts\<close> and \<open>binder/coercion.ts\<close>: the types the binder gives to arithmetic and aggregates, and
  the conversion of a literal to the type of the other operand. The theorems: operands that pass have compatible
  types, and arithmetic of INT32 values stays in the INT64 type it is given.
\<close>

section \<open>Inference\<close>

definition WIDENING_ARITHMETIC_OPS :: "string list" where
  "WIDENING_ARITHMETIC_OPS = [''+'', ''-'', ''*'']"

definition INTEGER_TYPES :: "data_type list" where
  "INTEGER_TYPES = [INT32, INT64]"

definition temporal_type :: "data_type option \<Rightarrow> bool" where
  "temporal_type t \<longleftrightarrow> (case t of None \<Rightarrow> False | Some t \<Rightarrow> isTemporal t)"

definition inferArithmeticType :: "data_type option \<Rightarrow> data_type option \<Rightarrow> string \<Rightarrow> data_type" where
  "inferArithmeticType left right op =
     (if temporal_type left \<and> temporal_type right then (if op = ''-'' then INT32 else the left)
      else if temporal_type left then the left
      else if temporal_type right then the right
      else if op = ''/'' then FLOAT64
      else if left = Some FLOAT64 \<or> right = Some FLOAT64 then FLOAT64
      else if left = Some DECIMAL \<or> right = Some DECIMAL then DECIMAL
      else if op \<in> set WIDENING_ARITHMETIC_OPS then INT64
      else if left = Some INT64 \<or> right = Some INT64 then INT64
      else INT32)"

definition inferAggregateType :: "string \<Rightarrow> data_type option \<Rightarrow> data_type" where
  "inferAggregateType name argType =
     (let f = toUpperCase name
      in if f = ''COUNT'' \<or> f = ''COUNT_STAR'' then INT64
         else if f = ''AVG'' then FLOAT64
         else if f = ''SUM'' then (case argType of
             None \<Rightarrow> FLOAT64
           | Some t \<Rightarrow> if t \<in> set INTEGER_TYPES then INT64 else t)
         else if f = ''MIN'' \<or> f = ''MAX'' then (case argType of None \<Rightarrow> FLOAT64 | Some t \<Rightarrow> t)
         else FLOAT64)"

definition inferComparisonType :: data_type where "inferComparisonType = BOOLEAN"

definition inferLogicalType :: data_type where "inferLogicalType = BOOLEAN"

section \<open>Coercion\<close>

datatype coercion_error = CannotInterpret | NotDefined

definition COMPARISON_OPS :: "string list" where
  "COMPARISON_OPS = [''='', ''<>'', ''!='', ''<'', ''>'', ''<='', ''>='']"

definition ARITHMETIC_OPS :: "string list" where
  "ARITHMETIC_OPS = [''+'', ''-'', ''*'', ''/'', ''%'']"

definition isTextLiteral :: "bexpr \<Rightarrow> bool" where
  "isTextLiteral e \<longleftrightarrow> is_literal e \<and> getExprType e = Some VARCHAR"

definition carriesOwnTyping :: "bexpr \<Rightarrow> bool" where
  "carriesOwnTyping e \<longleftrightarrow> (case e of BoundInterval v u \<Rightarrow> True | _ \<Rightarrow> False)"

text \<open>A cast of a column value is a column value.\<close>

definition cast_literal :: "js_host \<Rightarrow> column_value \<Rightarrow> data_type \<Rightarrow> column_value" where
  "cast_literal H v target = (case castToType H (Val v) target of Val w \<Rightarrow> w | _ \<Rightarrow> VNull)"

definition foldLiteral :: "js_host \<Rightarrow> bexpr \<Rightarrow> data_type \<Rightarrow> coercion_error + bexpr" where
  "foldLiteral H e target =
     (let converted = cast_literal H (literal_of e) target
      in if converted = VNull \<and> literal_of e \<noteq> VNull then Inl CannotInterpret
         else Inr (BoundLiteral converted (Some target)))"

definition compatible :: "string \<Rightarrow> data_type \<Rightarrow> data_type \<Rightarrow> bool" where
  "compatible op left right =
     (if left = right then True
      else if isNumeric left \<and> isNumeric right then True
      else if isTemporal left \<and> isTemporal right then True
      else if op \<notin> set ARITHMETIC_OPS then False
      else isTemporal left \<and> isNumeric right \<or> isNumeric left \<and> isTemporal right)"

definition prefersFold :: "bexpr \<Rightarrow> bexpr \<Rightarrow> bool" where
  "prefersFold candidate other =
     (if \<not> is_literal candidate then False
      else if \<not> is_literal other then True
      else isTextLiteral candidate \<and> \<not> isTextLiteral other)"

definition coerceOperands :: "js_host \<Rightarrow> string \<Rightarrow> bexpr \<Rightarrow> bexpr \<Rightarrow> coercion_error + bexpr \<times> bexpr" where
  "coerceOperands H op left right =
     (if carriesOwnTyping left \<or> carriesOwnTyping right then Inr (left, right)
      else case (getExprType left, getExprType right) of
          (Some leftType, Some rightType) \<Rightarrow>
            if compatible op leftType rightType then Inr (left, right)
            else if prefersFold left right then bindE (foldLiteral H left rightType) (\<lambda>l. Inr (l, right))
            else if prefersFold right left then bindE (foldLiteral H right leftType) (\<lambda>r. Inr (left, r))
            else Inl NotDefined
        | _ \<Rightarrow> Inr (left, right))"

fun group_anchor :: "js_host \<Rightarrow> string \<Rightarrow> bexpr \<Rightarrow> bexpr list \<Rightarrow> coercion_error + bexpr" where
  "group_anchor H op current [] = Inr current"
| "group_anchor H op current (e # es) =
     bindE (coerceOperands H op current e) (\<lambda>(current', _). group_anchor H op current' es)"

fun coerced_operands :: "js_host \<Rightarrow> string \<Rightarrow> bexpr \<Rightarrow> bexpr list \<Rightarrow> coercion_error + bexpr list" where
  "coerced_operands H op current [] = Inr []"
| "coerced_operands H op current (e # es) =
     bindE (coerceOperands H op current e) (\<lambda>(_, e'). bindE (coerced_operands H op current es) (\<lambda>es'. Inr (e' # es')))"

definition coerceGroup :: "js_host \<Rightarrow> string \<Rightarrow> bexpr \<Rightarrow> bexpr list \<Rightarrow> coercion_error + bexpr \<times> bexpr list" where
  "coerceGroup H op anchor operands =
     bindE (group_anchor H op anchor operands) (\<lambda>current.
     bindE (coerced_operands H op current operands) (\<lambda>es. Inr (current, es)))"

section \<open>What coercion guarantees\<close>

lemma compatible_refl [simp]: "compatible op t t"
  by (simp add: compatible_def)

lemma fold_type: "foldLiteral H e t = Inr e' \<Longrightarrow> is_literal e' \<and> getExprType e' = Some t \<and> \<not> carriesOwnTyping e'"
  by (auto simp: foldLiteral_def Let_def is_literal_def carriesOwnTyping_def split: if_splits)

definition untyped :: "bexpr \<Rightarrow> bexpr \<Rightarrow> bool" where
  "untyped l r \<longleftrightarrow> carriesOwnTyping l \<or> carriesOwnTyping r \<or> getExprType l = None \<or> getExprType r = None"

text \<open>What became of an operand: nothing, or a literal got the type of the other side.\<close>

definition folded_to :: "bexpr \<Rightarrow> bexpr \<Rightarrow> bexpr \<Rightarrow> bool" where
  "folded_to other e e' \<longleftrightarrow> e' = e \<or> is_literal e \<and> is_literal e' \<and> getExprType e' = getExprType other"

lemma coerced_types:
  assumes "coerceOperands H op l r = Inr (l', r')"
  shows "(if untyped l r then l' = l \<and> r' = r
      else \<exists>lt rt. getExprType l' = Some lt \<and> getExprType r' = Some rt \<and> compatible op lt rt
        \<and> folded_to r l l' \<and> folded_to l r r' \<and> (l' = l \<or> r' = r))
    \<and> coerceOperands H op l' r' = Inr (l', r')"
  using assms
  by (auto simp: coerceOperands_def untyped_def folded_to_def bindE_Inr_iff prefersFold_def fold_type split: option.splits if_splits)


lemma not_defined:
  "coerceOperands H op l r = Inl e \<Longrightarrow>
     \<exists>lt rt. getExprType l = Some lt \<and> getExprType r = Some rt \<and> \<not> compatible op lt rt
       \<and> (e = NotDefined \<longrightarrow> (is_literal l \<longleftrightarrow> is_literal r))"
  by (auto simp: coerceOperands_def prefersFold_def foldLiteral_def Let_def split: option.splits if_splits)

text \<open>A text that is no date is never refused: the cast gives NaN, which is not \<open>null\<close>.\<close>

lemma bad_date_accepted:
  "\<exists>k. foldLiteral H (BoundLiteral (VStr s) t) DATE = Inr (BoundLiteral (VNum k) (Some DATE))"
  by (simp add: foldLiteral_def cast_literal_def castToType_def literal_of_def is_nullish_def Let_def)

section \<open>Integer arithmetic\<close>

lemma ilog2_pow2 [simp]: "ilog2 (pow2 e) = e"
  by (rule ilog2_unique) simp_all

lemma grid_integral: "\<exists>m. grid (of_int k) = of_int m"
proof (cases "\<bar>k\<bar> \<le> 2 ^ 53")
  case True
  then show ?thesis using grid_int by blast
next
  case False
  then have "(of_int (2 ^ 53) :: rat) \<le> of_int \<bar>k\<bar>" by (simp only: of_int_le_iff)
  then have "pow2 53 \<le> \<bar>of_int k\<bar>" by (simp add: pow2_def)
  then have "53 \<le> ilog2 \<bar>of_int k\<bar>" using ilog2_mono [of "pow2 53" "\<bar>of_int k\<bar>"] by simp
  then have "0 \<le> ulp_exp (of_int k)" by (simp add: ulp_exp_def)
  then obtain n where "pow2 (ulp_exp (of_int k)) = of_int n" using pow2_int by blast
  then have "grid (of_int k) = of_int (if k = 0 then 0 else rhe (of_int k / pow2 (ulp_exp (of_int k))) * n)"
    by (simp add: grid_def)
  then show ?thesis by blast
qed

lemma grid_62: "grid (pow2 62) = pow2 62"
proof -
  have "ulp_exp (pow2 62) = 10" by (simp add: ulp_exp_def)
  moreover have "pow2 62 / pow2 10 = of_int (2 ^ 52)" by (simp add: pow2_def)
  moreover have "rhe (of_int (2 ^ 52)) = 2 ^ 52" by (rule rhe_of_int)
  ultimately show ?thesis unfolding grid_def by (simp add: pow2_def)
qed

lemma rnd_product:
  assumes "\<bar>k\<bar> \<le> 2 ^ 62"
  shows "\<exists>m. rnd (of_int k) = Fin (of_int m) \<and> \<bar>m\<bar> \<le> 2 ^ 62"
proof -
  obtain m where m: "grid (of_int k) = of_int m" using grid_integral by blast
  have "(of_int k :: rat) \<le> of_int (2 ^ 62)" "of_int (- (2 ^ 62)) \<le> (of_int k :: rat)"
    unfolding of_int_le_iff using assms by linarith+
  then have "of_int k \<le> pow2 62" "- pow2 62 \<le> of_int k" by (simp_all add: pow2_def)
  then have "grid (of_int k) \<le> pow2 62" "- pow2 62 \<le> grid (of_int k)"
    using grid_mono [of "of_int k" "pow2 62"] grid_mono [of "- pow2 62" "of_int k"] by (simp_all add: grid_62 grid_minus)
  then have b: "of_int m \<le> pow2 62" "- pow2 62 \<le> of_int m" unfolding m by simp_all
  then have "(of_int m :: rat) \<le> of_int (2 ^ 62)" "of_int (- (2 ^ 62)) \<le> (of_int m :: rat)" by (simp_all add: pow2_def)
  then have "\<bar>m\<bar> \<le> 2 ^ 62" unfolding of_int_le_iff by linarith
  moreover have "pow2 62 < pow2 1024" by simp
  then have "\<not> pow2 1024 \<le> of_int m" "\<not> of_int m \<le> - pow2 1024" using b by linarith+
  then have "rnd (of_int k) = Fin (of_int m)" by (simp add: rnd_def m)
  ultimately show ?thesis by blast
qed

text \<open>
  C20: Coercion makes operands comparable. When \<open>coerceOperands\<close> succeeds on operands that both have a type, the
  results have types on which the operator is defined, at most one operand changed, and only a literal, into a
  literal of the other operand's type; coercing again changes nothing. When it fails the types were not compatible,
  and unless a literal could not be interpreted, both operands or neither are literals.
\<close>

theorem coerceOperands_typed:
  "case coerceOperands H op l r of
     Inr (l', r') \<Rightarrow>
       (if untyped l r then l' = l \<and> r' = r
        else \<exists>lt rt. getExprType l' = Some lt \<and> getExprType r' = Some rt \<and> compatible op lt rt
          \<and> folded_to r l l' \<and> folded_to l r r' \<and> (l' = l \<or> r' = r))
       \<and> coerceOperands H op l' r' = Inr (l', r')
   | Inl e \<Rightarrow> \<exists>lt rt. getExprType l = Some lt \<and> getExprType r = Some rt \<and> \<not> compatible op lt rt
       \<and> (e = NotDefined \<longrightarrow> (is_literal l \<longleftrightarrow> is_literal r))"
  using coerced_types [of H op l r] not_defined [of H op l r] by (auto split: sum.splits)

definition date_text :: bexpr where
  "date_text = BoundLiteral (VStr (ustr_of ''2024-02-29'')) (Some VARCHAR)"

definition date_ref :: bexpr where
  "date_ref = mk_column ''t'' ''d'' 0 (Some DATE) 0"

lemma coerceOperands_typed_witness:
  "\<exists>k. coerceOperands (env_host sample_env) ''='' date_ref date_text = Inr (date_ref, BoundLiteral k (Some DATE))
     \<and> coerceOperands (env_host sample_env) ''='' date_ref (BoundLiteral k (Some DATE)) = Inr (date_ref, BoundLiteral k (Some DATE))"
proof -
  have "\<exists>k. coerceOperands (env_host sample_env) ''='' date_ref date_text = Inr (date_ref, BoundLiteral k (Some DATE))"
    by (simp add: coerceOperands_def date_ref_def date_text_def mk_column_def carriesOwnTyping_def compatible_def isNumeric_def
        isTemporal_def ARITHMETIC_OPS_def prefersFold_def is_literal_def foldLiteral_def cast_literal_def castToType_def literal_of_def
        is_nullish_def Let_def)
  then obtain k where k: "coerceOperands (env_host sample_env) ''='' date_ref date_text = Inr (date_ref, BoundLiteral k (Some DATE))" by blast
  then show ?thesis using coerceOperands_typed [where H = "env_host sample_env" and op = "''=''" and l = date_ref and r = date_text] by auto
qed

text \<open>Values of a 32-bit integer column.\<close>

definition int32_value :: "int \<Rightarrow> eval_value \<Rightarrow> bool" where
  "int32_value i v \<longleftrightarrow> v = num_value (Fin (of_int i)) \<and> - (2 ^ 31) \<le> i \<and> i < 2 ^ 31"

lemma numOp_num [simp]: "numOp (num_value a) (num_value b) f = f (num_value a) (num_value b)"
  by (simp add: numOp_def toNum_def)

lemma int32_product: "- (2 ^ 31) \<le> i \<Longrightarrow> i < 2 ^ 31 \<Longrightarrow> - (2 ^ 31) \<le> j \<Longrightarrow> j < 2 ^ 31 \<Longrightarrow> \<bar>i * j\<bar> \<le> (2 :: int) ^ 62"
proof -
  assume "- (2 ^ 31) \<le> i" "i < 2 ^ 31" "- (2 ^ 31) \<le> j" "j < (2 :: int) ^ 31"
  then have "\<bar>i\<bar> \<le> 2 ^ 31" "\<bar>j\<bar> \<le> 2 ^ 31" by auto
  then have "\<bar>i\<bar> * \<bar>j\<bar> \<le> 2 ^ 31 * 2 ^ 31" by (intro mult_mono) auto
  then show ?thesis by (simp add: abs_mult)
qed

lemma big_product: "rnd (of_int ((2 ^ 31 - 1) * (2 ^ 31 - 1))) = Fin (of_int ((2 ^ 31 - 1) * (2 ^ 31 - 1) - 1))"
proof -
  let ?q = "4611686014132420609 :: rat"
  have "pow2 61 \<le> ?q" "?q < pow2 62" by (simp_all add: pow2_def)
  then have "ilog2 ?q = 61" by (intro ilog2_unique) simp_all
  then have u: "ulp_exp ?q = 9" by (simp add: ulp_exp_def)
  have "\<lfloor>?q / 512\<rfloor> = 9007199246352384" by (simp add: floor_eq_iff)
  then have "rhe (?q / 512) = 9007199246352384" by (simp add: rhe_def Let_def)
  then have "grid ?q = 4611686014132420608" by (simp add: grid_def u pow2_def)
  moreover have "(2 :: rat) ^ 62 \<le> 2 ^ 1024" by (rule power_increasing) simp_all
  ultimately show ?thesis by (simp add: rnd_def pow2_def)
qed

lemma typed_sum:
  assumes "int32_value i a" "int32_value j b"
  shows "plus_op addInterval a b = Inr (num_value (Fin (of_int (i + j))))"
    "minus_op addInterval a b = Inr (num_value (Fin (of_int (i - j))))"
proof -
  have "\<bar>i + j\<bar> \<le> 2 ^ 53" "\<bar>i - j\<bar> \<le> 2 ^ 53" using assms by (auto simp: int32_value_def)
  then have "rnd (of_int (i + j)) = Fin (of_int (i + j))" "rnd (of_int (i - j)) = Fin (of_int (i - j))"
    by (blast intro: rnd_int)+
  then have r: "rnd (of_int i + of_int j) = Fin (of_int (i + j))" "rnd (of_int i + - of_int j) = Fin (of_int (i - j))" by simp_all
  show "plus_op addInterval a b = Inr (num_value (Fin (of_int (i + j))))"
    using assms by (simp add: int32_value_def plus_op_def js_plus_def is_textual_def is_big_def r)
  show "minus_op addInterval a b = Inr (num_value (Fin (of_int (i - j))))"
    using assms r(2) by (simp add: int32_value_def minus_op_def js_minus_def js_arith_def js_sub_def is_big_def)
qed

lemma typed_product:
  assumes "int32_value i a" "int32_value j b"
  shows "\<exists>m. arithmetic_op js_mul a b = Inr (num_value (Fin (of_int m))) \<and> \<bar>m\<bar> \<le> 2 ^ 62 \<and> (\<bar>i * j\<bar> \<le> 2 ^ 53 \<longrightarrow> m = i * j)"
proof -
  have "\<bar>i * j\<bar> \<le> 2 ^ 62" using assms int32_product by (simp add: int32_value_def)
  then obtain m where m: "rnd (of_int (i * j)) = Fin (of_int m)" "\<bar>m\<bar> \<le> 2 ^ 62" using rnd_product by blast
  have "m = i * j" if "\<bar>i * j\<bar> \<le> 2 ^ 53" using rnd_int [OF that] m(1) unfolding m(1) by (simp del: of_int_mult)
  then show ?thesis using assms m by (auto simp: int32_value_def arithmetic_op_def simp flip: of_int_mult)
qed

text \<open>
  C21: Arithmetic of INT32 values fits the INT64 type the binder infers for it. Sums and differences are the exact
  integers; a product is an integer of magnitude at most \<open>2 ^ 62\<close>, the exact one up to \<open>2 ^ 53\<close> but not beyond:
  2147483647 times itself comes out one too small.
\<close>

theorem integer_arithmetic_typed:
  "(\<forall>op \<in> set WIDENING_ARITHMETIC_OPS. inferArithmeticType (Some INT32) (Some INT32) op = INT64)
   \<and> (\<exists>plus minus times. binaryValueOp ''+'' False = Some plus \<and> binaryValueOp ''-'' False = Some minus
       \<and> binaryValueOp ''*'' False = Some times
       \<and> (\<forall>i j a b. int32_value i a \<and> int32_value j b \<longrightarrow>
            plus a b = Inr (num_value (Fin (of_int (i + j)))) \<and> minus a b = Inr (num_value (Fin (of_int (i - j))))
          \<and> (\<exists>m. times a b = Inr (num_value (Fin (of_int m))) \<and> \<bar>m\<bar> \<le> 2 ^ 62 \<and> (\<bar>i * j\<bar> \<le> 2 ^ 53 \<longrightarrow> m = i * j)))
       \<and> times (num_value (Fin (of_int (2 ^ 31 - 1)))) (num_value (Fin (of_int (2 ^ 31 - 1))))
           = Inr (num_value (Fin (of_int ((2 ^ 31 - 1) * (2 ^ 31 - 1) - 1)))))"
proof -
  have "arithmetic_op js_mul (num_value (Fin (of_int (2 ^ 31 - 1)))) (num_value (Fin (of_int (2 ^ 31 - 1))))
      = Inr (num_value (Fin (of_int ((2 ^ 31 - 1) * (2 ^ 31 - 1) - 1))))"
    using big_product by (simp add: arithmetic_op_def)
  moreover have "\<forall>op \<in> set WIDENING_ARITHMETIC_OPS. inferArithmeticType (Some INT32) (Some INT32) op = INT64"
    by (simp add: WIDENING_ARITHMETIC_OPS_def inferArithmeticType_def temporal_type_def isTemporal_def)
  ultimately show ?thesis using typed_sum typed_product by simp
qed

lemma integer_arithmetic_typed_witness:
  "\<exists>plus. binaryValueOp ''+'' False = Some plus
     \<and> plus (num_value (Fin (of_int 2000000000))) (num_value (Fin (of_int 2000000000))) = Inr (num_value (Fin (of_int 4000000000)))"
proof -
  have i: "int32_value 2000000000 (num_value (Fin (of_int 2000000000)))" by (simp add: int32_value_def)
  obtain plus where p: "binaryValueOp ''+'' False = Some plus"
      "\<forall>i j a b. int32_value i a \<and> int32_value j b \<longrightarrow> plus a b = Inr (num_value (Fin (of_int (i + j))))"
    using integer_arithmetic_typed by blast
  have "plus (num_value (Fin (of_int 2000000000))) (num_value (Fin (of_int 2000000000)))
      = Inr (num_value (Fin (of_int (2000000000 + 2000000000))))"
    using p(2) i by blast
  then show ?thesis using p(1) by simp
qed

end
