(* ===== verification/FloatBits.thy ===== *)
theory FloatBits
  imports WasmMemory
begin

text \<open>
  The 64 bits a \<open>Float64Array\<close> stores for a number stand for that number.
\<close>

lemma double_grid: "is_double (Fin q) \<Longrightarrow> grid q = q \<and> \<bar>q\<bar> < pow2 1024"
  by (auto simp: is_double_def rnd_def Let_def split: if_splits)

lemma rhe_grid: "grid q = q \<Longrightarrow> q \<noteq> 0 \<Longrightarrow> \<exists>m :: int. q / pow2 (ulp_exp q) = of_int m"
  by (auto simp: grid_def field_simps intro!: exI [of _ "rhe (q / pow2 (ulp_exp q))"])

text \<open>The fraction and the biased exponent of a magnitude.\<close>

lemma magnitude_parts:
  assumes "grid a = a" "0 < a" "a < pow2 1024"
  shows "\<exists>m E. f64_magnitude a = E * 2 ^ 52 + m \<and> m < 2 ^ 52 \<and> E < 2047
    \<and> a = (if E = 0 then of_nat m * pow2 (- 1074) else of_nat (2 ^ 52 + m) * pow2 (int E - 1075))"
proof -
  let ?e = "ilog2 a"
  obtain k where k: "a / pow2 (ulp_exp a) = of_int k" using rhe_grid [OF assms(1)] assms(2) by auto
  then have ak: "a = of_int k * pow2 (ulp_exp a)" by (simp add: field_simps)
  have k0: "0 < k" using k assms(2) by (metis divide_pos_pos of_int_0_less_iff pow2_pos)
  have b: "pow2 ?e \<le> a" "a < pow2 (?e + 1)" using ilog2_bounds [OF assms(2)] by simp_all
  have e1023: "?e \<le> 1023" using b(1) assms(3) pow2_less_iff [of ?e 1024] by linarith
  show ?thesis
  proof (cases "- 1022 \<le> ?e")
    case True
    then have u: "ulp_exp a = ?e - 52" using assms(2) by (simp add: ulp_exp_def)
    have "pow2 ?e = pow2 52 * pow2 (?e - 52)" "pow2 (?e + 1) = pow2 53 * pow2 (?e - 52)"
      using pow2_add [of 52 "?e - 52"] pow2_add [of 53 "?e - 52"] by (simp_all add: add.commute)
    then have "pow2 52 * pow2 (?e - 52) \<le> of_int k * pow2 (?e - 52)" "of_int k * pow2 (?e - 52) < pow2 53 * pow2 (?e - 52)"
      using b ak u by metis+
    then have "pow2 52 \<le> of_int k" "of_int k < pow2 53"
      using pow2_pos [of "?e - 52"] by (simp_all add: mult_le_cancel_right_pos mult_less_cancel_right_pos)
    then have "(of_int (2 ^ 52) :: rat) \<le> of_int k" "(of_int k :: rat) < of_int (2 ^ 53)" by (simp_all add: pow2_def)
    then have k52: "2 ^ 52 \<le> k" "k < 2 ^ 53" unfolding of_int_le_iff of_int_less_iff by simp_all
    let ?m = "nat k - 2 ^ 52" and ?E = "nat (?e + 1023)"
    have "f64_magnitude a = ?E * 2 ^ 52 + ?m" using True assms(2) k u by (simp add: f64_magnitude_def Let_def)
    moreover have "?m < 2 ^ 52" "?E < 2047" "?E \<noteq> 0" using k52 e1023 True by auto
    moreover have "(of_nat (2 ^ 52 + ?m) :: rat) = of_int k" using k52 by (simp add: of_nat_diff)
    moreover have "int ?E - 1075 = ?e - 52" using True by simp
    ultimately show ?thesis using ak u by (intro exI [of _ ?m] exI [of _ ?E]) simp
  next
    case False
    then have u: "ulp_exp a = - 1074" using assms(2) by (simp add: ulp_exp_def)
    have "a < pow2 (- 1022)" using b(2) False pow2_le_iff [of "?e + 1" "- 1022"] by linarith
    also have "pow2 (- 1022) = pow2 52 * pow2 (- 1074)" using pow2_add [of 52 "- 1074"] by simp
    finally have "of_int k * pow2 (- 1074) < pow2 52 * pow2 (- 1074)" using ak u by metis
    then have "of_int k < pow2 52" using pow2_pos [of "- 1074"] by (simp add: mult_less_cancel_right_pos)
    then have "(of_int k :: rat) < of_int (2 ^ 52)" by (simp add: pow2_def)
    then have "k < 2 ^ 52" unfolding of_int_less_iff by simp
    moreover have "f64_magnitude a = nat k" using False assms(2) k u by (simp add: f64_magnitude_def Let_def)
    ultimately show ?thesis using ak u k0 by (intro exI [of _ "nat k"] exI [of _ 0]) simp
  qed
qed


lemma nat_digit: "a < b \<Longrightarrow> (q * b + a) mod b = a" "a < b \<Longrightarrow> (q * b + a) div b = q" for a b q :: nat
  by simp_all

lemma bits_value:
  assumes "m < 2 ^ 52" "E < 2047" "s \<le> 1"
  shows "f64_value (of_nat (s * 2 ^ 63 + (E * 2 ^ 52 + m)))
    = (let q = (if E = 0 then of_nat m * pow2 (- 1074) else of_nat (2 ^ 52 + m) * pow2 (int E - 1075))
       in Fin (if s = 1 then - q else q))"
proof -
  let ?n = "s * 2 ^ 63 + (E * 2 ^ 52 + m)"
  have split: "?n = (s * 2048 + E) * 2 ^ 52 + m" by (simp add: algebra_simps)
  have "s * 2048 + E < 4096" using assms by (cases s) auto
  then have "(s * 2048 + E) * 2 ^ 52 + m < 2 ^ 64" using assms(1) by simp
  then have u: "unat (of_nat ?n :: 64 word) = ?n" unfolding split by (intro unat_of_nat_small) simp
  have "?n mod 2 ^ 52 = m" "?n div 2 ^ 52 = s * 2048 + E"
    unfolding split by (rule nat_digit [OF assms(1)])+
  moreover have "(s * 2048 + E) mod 2048 = E" using assms(2) by simp
  moreover have "bit (of_nat ?n :: 64 word) 63 \<longleftrightarrow> s = 1"
  proof -
    have "E * 2 ^ 52 + m < 2 ^ 63" using assms(1,2) by simp
    then have d: "?n div 2 ^ 63 = s" by (rule nat_digit(2))
    have "bit (unat (of_nat ?n :: 64 word)) 63 = bit (of_nat ?n :: 64 word) 63"
      by (rule bit_unsigned_iff [THEN trans]) simp
    then have "bit (of_nat ?n :: 64 word) 63 \<longleftrightarrow> odd (?n div 2 ^ 63)" unfolding u by (simp only: bit_iff_odd)
    then show ?thesis using d assms(3) by (cases s) auto
  qed
  ultimately show ?thesis using assms(2) u by (simp only: f64_value_def Let_def) simp
qed

lemma f64_magnitude_zero [simp]: "f64_magnitude 0 = 0"
  by (simp add: f64_magnitude_def)

text \<open>Storing a number in a \<open>Float64Array\<close> and reading it gives the number.\<close>

lemma f64_roundtrip:
  assumes "is_double x"
  shows "f64_value (f64_bits x) = x"
proof (cases x)
  case (Fin q)
  show ?thesis
  proof (cases "q = 0")
    case True
    then show ?thesis using Fin bits_value [of 0 0 0] by (simp add: f64_bits_def)
  next
    case False
    then have g: "grid \<bar>q\<bar> = \<bar>q\<bar>" "\<bar>q\<bar> < pow2 1024"
      using double_grid assms Fin grid_minus [of q] by (auto simp: abs_if)
    obtain m E where p: "f64_magnitude \<bar>q\<bar> = E * 2 ^ 52 + m" "m < 2 ^ 52" "E < 2047"
      "\<bar>q\<bar> = (if E = 0 then of_nat m * pow2 (- 1074) else of_nat (2 ^ 52 + m) * pow2 (int E - 1075))"
      using magnitude_parts [OF g(1) _ g(2)] False by auto
    have "f64_value (of_nat ((if q < 0 then 1 else 0) * 2 ^ 63 + (E * 2 ^ 52 + m))) = Fin (if q < 0 then - \<bar>q\<bar> else \<bar>q\<bar>)"
      using bits_value [OF p(2,3), of "if q < 0 then 1 else 0"] p(4) by (simp split: if_splits)
    then show ?thesis using Fin p(1) by (cases "q < 0") (simp_all add: f64_bits_def)
  qed
qed (simp_all add: f64_bits_def f64_value_def Let_def)

end
