(* ===== verification/ColumnCodec.thy ===== *)
theory ColumnCodec
  imports FloatBits Chunk
begin

text \<open>
  \<open>storage/column-codec.ts\<close> and \<open>storage/serializer.ts\<close>: the record of a column is its form, type, length
  and null flag, the words of its null bitmap when it has nulls, and the payload of its form; the page of a
  chunk is its size, its column count and the records. A typed array is its elements in little-endian order,
  and an array is its own buffer, so a view longer than it throws a \<open>RangeError\<close>.
\<close>

section \<open>Forms and types\<close>

datatype column_form = FlatForm | DictionaryForm | EncodedForm

definition RECORD_HEADER_BYTES :: nat where "RECORD_HEADER_BYTES = 1 + 1 + 4 + 1"
definition DICTIONARY_INDEX_BYTES :: nat where "DICTIONARY_INDEX_BYTES = 2"
definition ENCODER_ID_BYTES :: nat where "ENCODER_ID_BYTES = 1"
definition CHUNK_HEADER_BYTES :: nat where "CHUNK_HEADER_BYTES = 4 + 2"

fun data_type_id :: "data_type \<Rightarrow> nat" where
  "data_type_id BOOLEAN = 0"
| "data_type_id INT32 = 1"
| "data_type_id INT64 = 2"
| "data_type_id FLOAT64 = 3"
| "data_type_id DECIMAL = 4"
| "data_type_id VARCHAR = 5"
| "data_type_id DATE = 6"
| "data_type_id TIMESTAMP = 7"

definition data_type_for_id :: "nat \<Rightarrow> data_type option" where
  "data_type_for_id i =
     find (\<lambda>t. data_type_id t = i) [BOOLEAN, INT32, INT64, FLOAT64, DECIMAL, VARCHAR, DATE, TIMESTAMP]"

fun form_id :: "column_form \<Rightarrow> nat" where
  "form_id FlatForm = 0"
| "form_id DictionaryForm = 1"
| "form_id EncodedForm = 2"

definition form_for_id :: "nat \<Rightarrow> column_form option" where
  "form_for_id i = find (\<lambda>f. form_id f = i) [FlatForm, DictionaryForm, EncodedForm]"

fun columnFormOf :: "any_column \<Rightarrow> column_form" where
  "columnFormOf (Dict d) = DictionaryForm"
| "columnFormOf (Plain c) = (if c_encoded c \<noteq> None then EncodedForm else FlatForm)"

fun any_length :: "any_column \<Rightarrow> nat" where
  "any_length (Plain c) = c_length c"
| "any_length (Dict d) = d_length d"

fun any_hasNulls :: "any_column \<Rightarrow> bool" where
  "any_hasNulls (Plain c) = c_hasNulls c"
| "any_hasNulls (Dict d) = d_hasNulls d"

fun any_nulls :: "any_column \<Rightarrow> 32 word list" where
  "any_nulls (Plain c) = c_nulls c"
| "any_nulls (Dict d) = d_nulls d"

section \<open>Arrays as bytes\<close>

fun typed_array_bytes :: "data_type \<Rightarrow> typed_array \<Rightarrow> byte list" where
  "typed_array_bytes t (IntArray xs) = array_bytes (byteWidthFor t) xs"
| "typed_array_bytes t (NumArray xs) = array_bytes 8 (map (\<lambda>x. uint (f64_bits x)) xs)"

definition data_bytes :: "data_type \<Rightarrow> typed_array option \<Rightarrow> byte list" where
  "data_bytes t data = (case data of None \<Rightarrow> [] | Some a \<Rightarrow> typed_array_bytes t a)"

text \<open>\<open>writer.bytes(source, byteLength)\<close>.\<close>

definition w_view :: "byte list \<Rightarrow> nat \<Rightarrow> byte_writer \<Rightarrow> io_error + byte_writer" where
  "w_view source n w = (if n \<le> length source then put_bytes (take n source) w else Inl RangeErr)"

text \<open>\<open>reader.typed(typedArrayCtorFor(t), length)\<close>.\<close>

definition r_typed_array :: "data_type \<Rightarrow> nat \<Rightarrow> byte_reader \<Rightarrow> typed_array \<times> byte_reader" where
  "r_typed_array t n r =
     (if t = FLOAT64 then let (xs, r') = r_typed_u 8 n r in (NumArray (map (\<lambda>x. f64_value (of_nat x)) xs), r')
      else if t = BOOLEAN then let (xs, r') = r_typed_u 1 n r in (IntArray (map int xs), r')
      else let (xs, r') = r_typed_s (byteWidthFor t) n r in (IntArray xs, r'))"

text \<open>The size and the text of a dictionary value; one that is not a string has no \<open>length\<close>.\<close>

definition dict_value_bytes :: "column_value \<Rightarrow> nat" where
  "dict_value_bytes v = (case v of VStr s \<Rightarrow> utf8RecordBytes s | _ \<Rightarrow> 4)"

fun w_dict_values :: "column_value list \<Rightarrow> byte_writer \<Rightarrow> io_error + byte_writer" where
  "w_dict_values [] w = Inr w"
| "w_dict_values (v # vs) w = bindE (w_utf8 (js_text (Val v)) w) (w_dict_values vs)"

fun r_dict_values :: "nat \<Rightarrow> byte_reader \<Rightarrow> io_error + column_value list \<times> byte_reader" where
  "r_dict_values 0 r = Inr ([], r)"
| "r_dict_values (Suc n) r = bindE (r_utf8 r) (\<lambda>(s, r1). bindE (r_dict_values n r1) (\<lambda>(vs, r2). Inr (VStr s # vs, r2)))"

section \<open>Sizes\<close>

definition flat_payloadBytes :: "column \<Rightarrow> nat" where
  "flat_payloadBytes c =
     (if isFixedWidth (c_type c) then c_length c * byteWidthFor (c_type c) else 4 + (c_length c + 1) * 4 + c_used c)"

definition flat_retainedBytes :: "column \<Rightarrow> nat" where
  "flat_retainedBytes c =
     (if isFixedWidth (c_type c) then length (data_bytes (c_type c) (c_data c))
      else 4 * length (c_offsets c) + length (c_bytes c))"

definition dictionary_payloadBytes :: "dict_column \<Rightarrow> nat" where
  "dictionary_payloadBytes d =
     d_length d * DICTIONARY_INDEX_BYTES + 4 + sum_list (map dict_value_bytes (d_reverse d))"

definition dictionary_retainedBytes :: "dict_column \<Rightarrow> nat" where
  "dictionary_retainedBytes d =
     DICTIONARY_INDEX_BYTES * length (d_indices d) + sum_list (map dict_value_bytes (d_reverse d))"

fun payloadBytes :: "any_column \<Rightarrow> nat" where
  "payloadBytes (Dict d) = dictionary_payloadBytes d"
| "payloadBytes (Plain c) = (case c_encoded c of Some e \<Rightarrow> ENCODER_ID_BYTES + ev_byteSize e | None \<Rightarrow> flat_payloadBytes c)"

fun retainedBytes :: "any_column \<Rightarrow> nat" where
  "retainedBytes (Dict d) = dictionary_retainedBytes d"
| "retainedBytes (Plain c) = (case c_encoded c of Some e \<Rightarrow> ev_byteSize e | None \<Rightarrow> flat_retainedBytes c)"

definition nullBitmapBytes :: "any_column \<Rightarrow> nat" where
  "nullBitmapBytes col = (if any_hasNulls col then 4 + bitmapWordCount (any_length col) * 4 else 0)"

definition columnRecordBytes :: "any_column \<Rightarrow> nat" where
  "columnRecordBytes col = RECORD_HEADER_BYTES + nullBitmapBytes col + payloadBytes col"

definition columnRetainedBytes :: "any_column \<Rightarrow> nat" where
  "columnRetainedBytes col = 4 * length (any_nulls col) + retainedBytes col"

definition chunkRecordBytes :: "any_column list \<Rightarrow> nat" where
  "chunkRecordBytes cols = sum_list (map columnRecordBytes cols)"

section \<open>Writing\<close>

definition flat_write :: "column \<Rightarrow> byte_writer \<Rightarrow> io_error + byte_writer" where
  "flat_write c w =
     (if isFixedWidth (c_type c)
      then w_view (data_bytes (c_type c) (c_data c)) (c_length c * byteWidthFor (c_type c)) w
      else bindE (bindE (w_u32 (c_used c) w) (w_view (array_bytes 4 (map int (c_offsets c))) ((c_length c + 1) * 4)))
             (w_view (c_bytes c) (c_used c)))"

definition dictionary_write :: "dict_column \<Rightarrow> byte_writer \<Rightarrow> io_error + byte_writer" where
  "dictionary_write d w =
     bindE (bindE (w_view (array_bytes 2 (map int (d_indices d))) (d_length d * DICTIONARY_INDEX_BYTES) w)
       (w_u32 (length (d_reverse d)))) (w_dict_values (d_reverse d))"

definition encoded_write :: "encoded_vector \<Rightarrow> byte_writer \<Rightarrow> io_error + byte_writer" where
  "encoded_write e w = bindE (w_u8 (encoder_id (ev_kind e)) w) (ev_writeTo e)"

fun payload_write :: "any_column \<Rightarrow> byte_writer \<Rightarrow> io_error + byte_writer" where
  "payload_write (Dict d) w = dictionary_write d w"
| "payload_write (Plain c) w = (case c_encoded c of Some e \<Rightarrow> encoded_write e w | None \<Rightarrow> flat_write c w)"

definition write_nulls :: "any_column \<Rightarrow> byte_writer \<Rightarrow> io_error + byte_writer" where
  "write_nulls col w =
     (if any_hasNulls col
      then bindE (w_u32 (bitmapWordCount (any_length col)) w) (w_words (any_nulls col) (bitmapWordCount (any_length col)))
      else Inr w)"

definition writeColumnRecord :: "any_column \<Rightarrow> byte_writer \<Rightarrow> io_error + byte_writer" where
  "writeColumnRecord col w =
     bindE (bindE (bindE (bindE (bindE (w_u8 (form_id (columnFormOf col)) w)
       (w_u8 (data_type_id (any_type col))))
       (w_u32 (any_length col)))
       (w_u8 (if any_hasNulls col then 1 else 0)))
       (write_nulls col))
       (payload_write col)"

fun writeChunkRecords :: "any_column list \<Rightarrow> byte_writer \<Rightarrow> io_error + byte_writer" where
  "writeChunkRecords [] w = Inr w"
| "writeChunkRecords (col # cols) w = bindE (writeColumnRecord col w) (writeChunkRecords cols)"

section \<open>Reading\<close>

record column_record_header =
  h_type :: data_type
  h_length :: nat
  h_hasNulls :: bool
  h_nulls :: "32 word list"

definition flat_read :: "column_record_header \<Rightarrow> byte_reader \<Rightarrow> io_error + any_column \<times> byte_reader" where
  "flat_read h r =
     (if isFixedWidth (h_type h)
      then bindE (Inr (r_typed_array (h_type h) (h_length h) r)) (\<lambda>(data, r1).
             Inr (Plain (column_fromParts (h_type h) (Some data) None (h_nulls h) (h_length h) (h_hasNulls h)), r1))
      else bindE (r_u32 r) (\<lambda>(used, r1).
             bindE (Inr (r_typed_u 4 (h_length h + 1) r1)) (\<lambda>(os, r2).
             bindE (Inr (typed_bytes used r2)) (\<lambda>(bs, r3).
             Inr (Plain (column_fromParts (h_type h) None (Some (os, bs, used)) (h_nulls h) (h_length h) (h_hasNulls h)), r3)))))"

definition dictionary_read :: "column_record_header \<Rightarrow> byte_reader \<Rightarrow> io_error + any_column \<times> byte_reader" where
  "dictionary_read h r =
     bindE (Inr (r_typed_u 2 (h_length h) r)) (\<lambda>(indices, r1).
       bindE (r_u32 r1) (\<lambda>(dictSize, r2).
       bindE (r_dict_values dictSize r2) (\<lambda>(reverse, r3).
       Inr (Dict (dict_fromParts indices reverse (h_nulls h) (h_length h) (h_hasNulls h)), r3))))"

definition encoded_read :: "column_record_header \<Rightarrow> byte_reader \<Rightarrow> io_error + any_column \<times> byte_reader" where
  "encoded_read h r =
     bindE (r_u8 r) (\<lambda>(i, r1). bindE (encoderForId i) (\<lambda>k.
       bindE (encoder_read k (h_type h) (h_length h) r1) (\<lambda>(e, r2).
       Inr (Plain (column_fromEncoded (h_type h) e (h_nulls h) (h_length h) (h_hasNulls h)), r2))))"

fun form_read :: "column_form \<Rightarrow> column_record_header \<Rightarrow> byte_reader \<Rightarrow> io_error + any_column \<times> byte_reader" where
  "form_read FlatForm h r = flat_read h r"
| "form_read DictionaryForm h r = dictionary_read h r"
| "form_read EncodedForm h r = encoded_read h r"

definition read_nulls :: "nat \<Rightarrow> bool \<Rightarrow> byte_reader \<Rightarrow> io_error + 32 word list \<times> byte_reader" where
  "read_nulls n hasNulls r =
     (if hasNulls then bindE (r_u32 r) (\<lambda>(count, r1).
        bindE (Inr (r_typed_u 4 count r1)) (\<lambda>(xs, r2). Inr (map of_nat xs, r2)))
      else Inr (createBitmap (max n 1), r))"

definition form_of_id :: "nat \<Rightarrow> io_error + column_form" where
  "form_of_id i = (case form_for_id i of None \<Rightarrow> Inl UnknownColumnForm | Some f \<Rightarrow> Inr f)"

definition data_type_of_id :: "nat \<Rightarrow> io_error + data_type" where
  "data_type_of_id i = (case data_type_for_id i of None \<Rightarrow> Inl (UnknownDataTypeId i) | Some t \<Rightarrow> Inr t)"

definition readColumnRecord :: "byte_reader \<Rightarrow> io_error + any_column \<times> byte_reader" where
  "readColumnRecord r =
     bindE (r_u8 r) (\<lambda>(fid, r1). bindE (form_of_id fid) (\<lambda>form.
     bindE (r_u8 r1) (\<lambda>(tid, r2). bindE (data_type_of_id tid) (\<lambda>t.
     bindE (r_u32 r2) (\<lambda>(len, r3).
     bindE (r_u8 r3) (\<lambda>(flag, r4).
     bindE (read_nulls len (flag \<noteq> 0) r4) (\<lambda>(nulls, r5).
     form_read form \<lparr>h_type = t, h_length = len, h_hasNulls = flag \<noteq> 0, h_nulls = nulls\<rparr> r5)))))))"

fun readChunkRecords :: "nat \<Rightarrow> byte_reader \<Rightarrow> io_error + any_column list \<times> byte_reader" where
  "readChunkRecords 0 r = Inr ([], r)"
| "readChunkRecords (Suc n) r =
     bindE (readColumnRecord r) (\<lambda>(c, r1). bindE (readChunkRecords n r1) (\<lambda>(cs, r2). Inr (c # cs, r2)))"

section \<open>Chunks\<close>

datatype serial_error = FlattenFailed column_error | PageFailed io_error

definition write_chunk :: "data_chunk \<Rightarrow> byte_writer \<Rightarrow> io_error + byte_writer" where
  "write_chunk ch w =
     bindE (bindE (w_u32 (ch_size ch) w) (w_u16 (length (ch_columns ch)))) (writeChunkRecords (ch_columns ch))"

definition chunk_serialize :: "jsnum \<Rightarrow> data_chunk \<Rightarrow> serial_error + byte list" where
  "chunk_serialize scale source =
     bindE (lift_error FlattenFailed (chunk_flatten scale source)) (\<lambda>ch.
     bindE (lift_error PageFailed (write_chunk ch
       \<lparr>w_buf = replicate (CHUNK_HEADER_BYTES + chunkRecordBytes (ch_columns ch)) 0, w_off = 0\<rparr>)) (\<lambda>w.
     Inr (w_buf w)))"

definition read_chunk :: "byte_reader \<Rightarrow> io_error + data_chunk \<times> byte_reader" where
  "read_chunk r = bindE (r_u32 r) (\<lambda>(n, r1). bindE (r_u16 r1) (\<lambda>(count, r2).
     bindE (readChunkRecords count r2) (\<lambda>(cols, r3).
     Inr (\<lparr>ch_columns = cols, ch_size = n, ch_selection = None\<rparr>, r3))))"

definition chunk_deserialize :: "byte list \<Rightarrow> io_error + data_chunk" where
  "chunk_deserialize buffer = bindE (read_chunk \<lparr>r_buf = buffer, r_off = 0\<rparr>) (\<lambda>(ch, r). Inr ch)"

end
