(* ===== verification/ColumnCodecSpec.thy ===== *)
theory ColumnCodecSpec
  imports ColumnCodec
begin

text \<open>
  What the codec of \<open>ColumnCodec\<close> keeps: a record fills the bytes its size reserves, reading it back stops
  after it, and the column read shows the values of the column written at every row. The bytes are named by
  images, the column that comes back by \<open>reread\<close>.
\<close>

section \<open>Which columns can be written\<close>

definition storable :: "data_type \<Rightarrow> int \<Rightarrow> bool" where
  "storable t x \<longleftrightarrow> (if t = BOOLEAN then 0 \<le> x \<and> x < 256
     else - (2 ^ (8 * byteWidthFor t - 1)) \<le> x \<and> x < 2 ^ (8 * byteWidthFor t - 1))"

definition text_ok :: "ustr \<Rightarrow> bool" where
  "text_ok s \<longleftrightarrow> well_formed s \<and> (s = [] \<or> hd s \<noteq> 0xfeff) \<and> utf8ByteLength s < 2 ^ 32"

fun array_writable :: "data_type \<Rightarrow> nat \<Rightarrow> typed_array option \<Rightarrow> bool" where
  "array_writable t n None = False"
| "array_writable t n (Some (NumArray xs)) = (t = FLOAT64 \<and> n \<le> length xs \<and> list_all is_double (take n xs))"
| "array_writable t n (Some (IntArray xs)) = (t \<noteq> FLOAT64 \<and> n \<le> length xs \<and> list_all (storable t) (take n xs))"

definition strings_writable :: "column \<Rightarrow> bool" where
  "strings_writable c \<longleftrightarrow> c_length c < length (c_offsets c) \<and> c_used c \<le> length (c_bytes c) \<and> c_used c < 2 ^ 32
     \<and> list_all (\<lambda>p. p \<le> c_used c) (take (c_length c + 1) (c_offsets c))"

definition encoded_from :: "data_type \<Rightarrow> nat \<Rightarrow> encoded_vector \<Rightarrow> bool" where
  "encoded_from t n e \<longleftrightarrow> (\<exists>cfg k src. valid_source src \<and> encoder_plan cfg k (e_stats src) (e_type src) \<noteq> None
     \<and> encoder_encode k src = Inr e \<and> e_type src = t \<and> e_length src = n)"

fun record_ok :: "any_column \<Rightarrow> bool" where
  "record_ok (Plain c) = (c_length c < 2 ^ 32 \<and> (case c_encoded c of
       Some e \<Rightarrow> encoded_from (c_type c) (c_length c) e
     | None \<Rightarrow> if isFixedWidth (c_type c) then array_writable (c_type c) (c_length c) (c_data c) else strings_writable c))"
| "record_ok (Dict d) = (d_length d < 2 ^ 32 \<and> d_length d \<le> length (d_indices d)
     \<and> list_all (\<lambda>k. k < 65536) (take (d_length d) (d_indices d)) \<and> length (d_reverse d) < 2 ^ 32
     \<and> list_all (\<lambda>v. case v of VStr s \<Rightarrow> text_ok s | _ \<Rightarrow> False) (d_reverse d))"

section \<open>Writers that append, readers that consume\<close>

lemma emits_nil: "emits Inr []"
  by (simp add: emits_def)

lemma emits_w_view: "n \<le> length bs \<Longrightarrow> emits (w_view bs n) (take n bs)"
  by (simp add: emits_def w_view_def)

lemma emits_cong: "emits f bs \<Longrightarrow> (\<And>w. g w = f w) \<Longrightarrow> emits g bs"
  by (simp add: emits_def)

text \<open>The first \<open>n\<close> words of a bitmap, zero past its end.\<close>

definition padded :: "32 word list \<Rightarrow> nat \<Rightarrow> nat \<Rightarrow> 32 word list" where
  "padded ws i n = map (\<lambda>j. if j < length ws then ws ! j else 0) [i..<i + n]"

lemma length_padded [simp]: "length (padded ws i n) = n"
  by (simp add: padded_def)

lemma padded_Suc: "padded ws i (Suc n) = (if i < length ws then ws ! i else 0) # padded ws (Suc i) n"
  by (simp add: padded_def upt_conv_Cons del: upt_Suc)

lemma word_bytes: "le_bytes 4 (unat x) = int_bytes 4 (uint (x :: 32 word))"
proof -
  have "unat x < 256 ^ 4" using unsigned_less [of x, where 'a = nat] by simp
  then show ?thesis using int_bytes_nat [of 4 "unat x"] by simp
qed

lemma emits_words_from: "emits (w_words_from ws i n) (array_bytes 4 (map uint (padded ws i n)))"
proof (induction n arbitrary: i)
  case 0
  show ?case by (simp add: emits_def array_bytes_def padded_def)
next
  case (Suc n)
  let ?x = "if i < length ws then ws ! i else 0"
  have "array_bytes 4 (map uint (padded ws i (Suc n))) = le_bytes 4 (unat ?x) @ array_bytes 4 (map uint (padded ws (Suc i) n))"
    by (simp add: padded_Suc array_bytes_def word_bytes)
  moreover have "emits (w_words_from ws i (Suc n)) (le_bytes 4 (unat ?x) @ array_bytes 4 (map uint (padded ws (Suc i) n)))"
    by (rule emits_cong [OF emits_seq [OF emits_w_u32 Suc.IH]]) (cases "i < length ws", simp_all)
  ultimately show ?case by (simp only:)
qed

lemma parses_words_read: "parses (\<lambda>r. bindE (Inr (r_typed_u 4 n r)) (\<lambda>(xs, r'). Inr (map of_nat xs, r')))
    (array_bytes 4 (map uint (padded ws i n))) (padded ws i n)"
  using parses_map [OF parses_words [OF length_padded [of ws i n]], where h = "map (of_nat :: nat \<Rightarrow> 32 word)"] by (simp only: map_of_nat_uint)


lemma parses_cong: "parses f bs v \<Longrightarrow> (\<And>r. g r = f r) \<Longrightarrow> parses g bs v"
  by (simp add: parses_def)

lemma parses_bytes: "length bs = n \<Longrightarrow> parses (\<lambda>r. Inr (typed_bytes n r)) bs bs"
  by (simp add: parses_def typed_bytes_def)

section \<open>Payloads\<close>

definition flat_image :: "column \<Rightarrow> byte list" where
  "flat_image c =
     (if isFixedWidth (c_type c)
      then take (c_length c * byteWidthFor (c_type c)) (data_bytes (c_type c) (c_data c))
      else (le_bytes 4 (c_used c) @ array_bytes 4 (map int (take (c_length c + 1) (c_offsets c)))) @ take (c_used c) (c_bytes c))"

fun array_prefix :: "nat \<Rightarrow> typed_array option \<Rightarrow> typed_array option" where
  "array_prefix n None = None"
| "array_prefix n (Some (IntArray xs)) = Some (IntArray (take n xs))"
| "array_prefix n (Some (NumArray xs)) = Some (NumArray (take n xs))"

definition flat_reread :: "32 word list \<Rightarrow> column \<Rightarrow> column" where
  "flat_reread nulls c =
     (if isFixedWidth (c_type c)
      then column_fromParts (c_type c) (array_prefix (c_length c) (c_data c)) None nulls (c_length c) (c_hasNulls c)
      else column_fromParts (c_type c) None
        (Some (take (c_length c + 1) (c_offsets c), take (c_used c) (c_bytes c), c_used c)) nulls (c_length c) (c_hasNulls c))"

lemma offsets_bytes:
  "n * 4 \<le> length (array_bytes 4 (map int os)) \<longleftrightarrow> n \<le> length os"
  "take (n * 4) (array_bytes 4 (map int os)) = array_bytes 4 (map int (take n os))"
  using take_array_bytes [of 4 n "map int os"] by (simp_all add: mult.commute take_map)

lemma data_bytes_prefix:
  assumes "array_writable t n data"
  shows "n * byteWidthFor t \<le> length (data_bytes t data)"
    "take (n * byteWidthFor t) (data_bytes t data) = data_bytes t (array_prefix n data)"
    "length (data_bytes t (array_prefix n data)) = n * byteWidthFor t"
proof -
  have k: "take (n * k) (array_bytes k ys) = array_bytes k (take n ys)" for k ys
    using take_array_bytes [of k n ys] by (simp add: mult.commute)
  show "n * byteWidthFor t \<le> length (data_bytes t data)"
    using assms by (cases "(t, n, data)" rule: array_writable.cases) (simp_all add: data_bytes_def)
  show "take (n * byteWidthFor t) (data_bytes t data) = data_bytes t (array_prefix n data)"
    using assms by (cases "(t, n, data)" rule: array_writable.cases) (simp_all add: data_bytes_def k take_map)
  show "length (data_bytes t (array_prefix n data)) = n * byteWidthFor t"
    using assms by (cases "(t, n, data)" rule: array_writable.cases) (simp_all add: data_bytes_def)
qed

lemma emits_flat:
  assumes "record_ok (Plain c)" "c_encoded c = None"
  shows "emits (flat_write c) (flat_image c)" "length (flat_image c) = flat_payloadBytes c"
proof -
  have "emits (flat_write c) (flat_image c) \<and> length (flat_image c) = flat_payloadBytes c"
  proof (cases "isFixedWidth (c_type c)")
    case True
    then have a: "array_writable (c_type c) (c_length c) (c_data c)" using assms by simp
    have "emits (flat_write c) (flat_image c)"
      using True emits_w_view [OF data_bytes_prefix(1) [OF a]] by (simp add: flat_image_def emits_def flat_write_def)
    then show ?thesis using True data_bytes_prefix(2,3) [OF a] by (simp add: flat_image_def flat_payloadBytes_def)
  next
    case False
    then have s: "c_length c + 1 \<le> length (c_offsets c)" "c_used c \<le> length (c_bytes c)"
      using assms by (simp_all add: strings_writable_def)
    have o: "(c_length c + 1) * 4 \<le> length (array_bytes 4 (map int (c_offsets c)))"
      using s(1) by (simp only: offsets_bytes)
    have "emits (flat_write c) (flat_image c)"
      using False emits_seq [OF emits_seq [OF emits_w_u32 emits_w_view [OF o]] emits_w_view [OF s(2)], of "c_used c"]
      unfolding offsets_bytes by (simp add: flat_image_def emits_def flat_write_def)
    then show ?thesis using False s by (simp add: flat_image_def flat_payloadBytes_def)
  qed
  then show "emits (flat_write c) (flat_image c)" "length (flat_image c) = flat_payloadBytes c" by simp_all
qed

lemma parses_floats:
  assumes "list_all is_double xs" "length xs = n"
  shows "parses (\<lambda>r. Inr (let (ys, r') = r_typed_u 8 n r in (NumArray (map (\<lambda>x. f64_value (of_nat x)) ys), r')))
    (array_bytes 8 (map (\<lambda>x. uint (f64_bits x)) xs)) (NumArray xs)"
proof -
  let ?ys = "map (\<lambda>x. uint (f64_bits x)) xs"
  have "0 \<le> uint w \<and> uint w < 2 ^ (8 * 8)" for w :: "64 word" using uint_bounded [of w] by simp
  then have "parses (\<lambda>r. Inr (r_typed_u 8 n r)) (array_bytes 8 ?ys) (map nat ?ys)"
    by (intro parses_typed_u) (auto simp: assms(2))
  from parses_map [OF this, where h = "\<lambda>ys. NumArray (map (\<lambda>x. f64_value (of_nat x)) ys)"]
  have "parses (\<lambda>r. Inr (let (ys, r') = r_typed_u 8 n r in (NumArray (map (\<lambda>x. f64_value (of_nat x)) ys), r')))
    (array_bytes 8 ?ys) (NumArray (map (\<lambda>x. f64_value (of_nat x)) (map nat ?ys)))"
    by (rule parses_cong) (simp split: prod.splits)
  moreover have "map (\<lambda>x. f64_value (of_nat x)) (map nat ?ys) = xs"
    using assms(1) by (auto simp: list_all_iff f64_roundtrip intro!: map_idI)
  ultimately show ?thesis by (simp only:)
qed

lemma parses_typed_array:
  assumes "array_writable t n data" "isFixedWidth t"
  shows "parses (\<lambda>r. Inr (r_typed_array t n r)) (data_bytes t (array_prefix n data)) (the (array_prefix n data))"
proof (cases "(t, n, data)" rule: array_writable.cases)
  case (2 t' n' xs)
  then show ?thesis using assms(1) parses_cong [OF parses_floats [of "take n xs" n]]
    by (simp add: data_bytes_def r_typed_array_def)
next
  case (3 t' n' xs)
  then have xs: "data = Some (IntArray xs)" "t \<noteq> FLOAT64" "n \<le> length xs" "list_all (storable t) (take n xs)"
    using assms(1) by simp_all
  show ?thesis
  proof (cases "t = BOOLEAN")
    case True
    have "parses (\<lambda>r. Inr (r_typed_u 1 n r)) (array_bytes 1 (take n xs)) (map nat (take n xs))"
      using xs True by (intro parses_typed_u) (auto simp: list_all_iff storable_def)
    from parses_map [OF this, where h = "\<lambda>ys. IntArray (map int ys)"]
    have "parses (\<lambda>r. Inr (r_typed_array t n r)) (array_bytes 1 (take n xs)) (IntArray (map int (map nat (take n xs))))"
      by (rule parses_cong) (simp add: r_typed_array_def True split: prod.splits)
    moreover have "map int (map nat (take n xs)) = take n xs"
      using xs True by (auto simp: list_all_iff storable_def intro!: map_idI)
    ultimately show ?thesis using xs True by (simp add: data_bytes_def)
  next
    case False
    have w: "0 < byteWidthFor t" using assms(2) by (cases t) (simp_all add: isFixedWidth_def)
    have "parses (\<lambda>r. Inr (r_typed_s (byteWidthFor t) n r)) (array_bytes (byteWidthFor t) (take n xs)) (take n xs)"
      using xs False w by (intro parses_typed_s) (auto simp: list_all_iff storable_def)
    from parses_map [OF this, where h = IntArray]
    have "parses (\<lambda>r. Inr (r_typed_array t n r)) (array_bytes (byteWidthFor t) (take n xs)) (IntArray (take n xs))"
      by (rule parses_cong) (simp add: r_typed_array_def False xs(2) split: prod.splits)
    then show ?thesis using xs by (simp add: data_bytes_def)
  qed
qed (use assms(1) in simp)

lemma parses_flat:
  assumes "record_ok (Plain c)" "c_encoded c = None"
  shows "parses (flat_read \<lparr>h_type = c_type c, h_length = c_length c, h_hasNulls = c_hasNulls c, h_nulls = nulls\<rparr>)
    (flat_image c) (Plain (flat_reread nulls c))"
proof (cases "isFixedWidth (c_type c)")
  case True
  then have a: "array_writable (c_type c) (c_length c) (c_data c)" using assms by simp
  then obtain p where p: "array_prefix (c_length c) (c_data c) = Some p"
    by (cases "(c_type c, c_length c, c_data c)" rule: array_writable.cases) simp_all
  let ?h = "\<lparr>h_type = c_type c, h_length = c_length c, h_hasNulls = c_hasNulls c, h_nulls = nulls\<rparr>"
  let ?mk = "\<lambda>data. Plain (column_fromParts (c_type c) (Some data) None nulls (c_length c) (c_hasNulls c))"
  have "parses (flat_read ?h) (data_bytes (c_type c) (Some p)) (?mk p)"
    using parses_map [OF parses_typed_array [OF a True], where h = ?mk] unfolding p option.sel
    by (rule parses_cong) (simp add: flat_read_def True)
  then show ?thesis using True data_bytes_prefix(2) [OF a] p by (simp add: flat_image_def flat_reread_def)
next
  case False
  let ?os = "take (c_length c + 1) (c_offsets c)" and ?bs = "take (c_used c) (c_bytes c)"
  let ?mk = "\<lambda>used os bs. Plain (column_fromParts (c_type c) None (Some (os, bs, used)) nulls (c_length c) (c_hasNulls c))"
  have s: "c_length c < length (c_offsets c)" "c_used c \<le> length (c_bytes c)" "c_used c < 2 ^ 32"
      "list_all (\<lambda>p. p \<le> c_used c) ?os"
    using assms False by (simp_all add: strings_writable_def)
  have "parses (\<lambda>r. Inr (r_typed_u 4 (c_length c + 1) r)) (array_bytes 4 (map int ?os)) (map nat (map int ?os))"
    using s by (intro parses_typed_u) (auto simp: list_all_iff)
  then have os: "parses (\<lambda>r. Inr (r_typed_u 4 (c_length c + 1) r)) (array_bytes 4 (map int ?os)) ?os"
    by (simp add: comp_def)
  have bs: "parses (\<lambda>r. bindE (Inr (typed_bytes (c_used c) r)) (\<lambda>(bs, r'). Inr (?mk (c_used c) os bs, r'))) ?bs (?mk (c_used c) os ?bs)" for os
    using s by (intro parses_map parses_bytes) simp
  have "parses (\<lambda>r. bindE (r_u32 r) (\<lambda>(used, r1). bindE (Inr (r_typed_u 4 (c_length c + 1) r1)) (\<lambda>(os, r2).
      bindE (Inr (typed_bytes used r2)) (\<lambda>(bs, r3). Inr (?mk used os bs, r3)))))
      (le_bytes 4 (c_used c) @ array_bytes 4 (map int ?os) @ ?bs) (?mk (c_used c) ?os ?bs)"
    by (rule parses_bind [OF parses_u32 [OF s(3)]], rule parses_bind [OF os], rule bs)
  then show ?thesis using False by (simp add: flat_read_def [abs_def] flat_image_def flat_reread_def)
qed

subsection \<open>Dictionaries\<close>

definition dict_values_image :: "column_value list \<Rightarrow> byte list" where
  "dict_values_image vs = concat (map (\<lambda>v. utf8_record (js_text (Val v))) vs)"

lemma emits_dict_values: "emits (w_dict_values vs) (dict_values_image vs)"
proof (induction vs)
  case Nil
  show ?case by (simp add: emits_def dict_values_image_def)
next
  case (Cons v vs)
  have "dict_values_image (v # vs) = utf8_record (js_text (Val v)) @ dict_values_image vs"
    by (simp add: dict_values_image_def)
  then show ?case using emits_cong [OF emits_seq [OF emits_w_utf8 Cons]] by simp
qed

lemma parses_dict_values:
  assumes "list_all (\<lambda>v. case v of VStr s \<Rightarrow> text_ok s | _ \<Rightarrow> False) vs"
  shows "parses (r_dict_values (length vs)) (dict_values_image vs) vs"
  using assms
proof (induction vs)
  case Nil
  show ?case by (simp add: parses_def dict_values_image_def)
next
  case (Cons v vs)
  then obtain s where s: "v = VStr s" "well_formed s" "s = [] \<or> hd s \<noteq> 0xfeff" "utf8ByteLength s < 2 ^ 32"
    by (cases v) (simp_all add: text_ok_def)
  have "parses (r_dict_values (length vs)) (dict_values_image vs) vs" using Cons by simp
  then have rest: "parses (\<lambda>r. bindE (r_dict_values (length vs) r) (\<lambda>(vs, r'). Inr (VStr s # vs, r')))
      (dict_values_image vs) (VStr s # vs)" by (rule parses_map)
  let ?g = "\<lambda>s r. bindE (r_dict_values (length vs) r) (\<lambda>(vs, r'). Inr (VStr s # vs, r'))"
  have "parses (\<lambda>r. bindE (r_utf8 r) (\<lambda>(s, r'). ?g s r')) (utf8_record s @ dict_values_image vs) (VStr s # vs)"
    by (rule parses_bind [OF parses_utf8 [OF s(2-4)], where g = ?g]) (rule rest)
  moreover have "dict_values_image (v # vs) = utf8_record s @ dict_values_image vs"
    by (simp add: dict_values_image_def s(1))
  ultimately show ?case by (simp add: s(1) parses_def)
qed

lemma dict_values_size:
  "list_all (\<lambda>v. case v of VStr s \<Rightarrow> text_ok s | _ \<Rightarrow> False) vs \<Longrightarrow>
     length (dict_values_image vs) = sum_list (map dict_value_bytes vs)"
  by (induction vs)
    (auto simp: dict_values_image_def dict_value_bytes_def length_utf8_record split: column_value.splits)

definition dict_image :: "dict_column \<Rightarrow> byte list" where
  "dict_image d = (array_bytes 2 (map int (take (d_length d) (d_indices d))) @ le_bytes 4 (length (d_reverse d)))
     @ dict_values_image (d_reverse d)"

definition dict_reread :: "32 word list \<Rightarrow> dict_column \<Rightarrow> dict_column" where
  "dict_reread nulls d = dict_fromParts (take (d_length d) (d_indices d)) (d_reverse d) nulls (d_length d) (d_hasNulls d)"

lemma emits_dict:
  assumes "record_ok (Dict d)"
  shows "emits (dictionary_write d) (dict_image d)" "length (dict_image d) = dictionary_payloadBytes d"
proof -
  let ?bs = "array_bytes 2 (map int (d_indices d))"
  have n: "d_length d * DICTIONARY_INDEX_BYTES \<le> length ?bs"
    using assms by (simp add: DICTIONARY_INDEX_BYTES_def)
  have t: "take (d_length d * DICTIONARY_INDEX_BYTES) ?bs = array_bytes 2 (map int (take (d_length d) (d_indices d)))"
    using take_array_bytes [of 2 "d_length d" "map int (d_indices d)"]
    by (simp add: DICTIONARY_INDEX_BYTES_def mult.commute take_map)
  show "emits (dictionary_write d) (dict_image d)"
    using emits_seq [OF emits_seq [OF emits_w_view [OF n] emits_w_u32] emits_dict_values]
    unfolding t dict_image_def by (rule emits_cong) (simp add: dictionary_write_def)
  show "length (dict_image d) = dictionary_payloadBytes d"
    using assms dict_values_size by (simp add: dict_image_def dictionary_payloadBytes_def DICTIONARY_INDEX_BYTES_def)
qed

lemma parses_dict:
  assumes "record_ok (Dict d)"
  shows "parses (dictionary_read \<lparr>h_type = VARCHAR, h_length = d_length d, h_hasNulls = d_hasNulls d, h_nulls = nulls\<rparr>)
    (dict_image d) (Dict (dict_reread nulls d))"
proof -
  let ?is = "take (d_length d) (d_indices d)" and ?vs = "d_reverse d"
  let ?mk = "\<lambda>indices reverse. Dict (dict_fromParts indices reverse nulls (d_length d) (d_hasNulls d))"
  have "parses (\<lambda>r. Inr (r_typed_u 2 (d_length d) r)) (array_bytes 2 (map int ?is)) (map nat (map int ?is))"
    using assms by (intro parses_typed_u) (auto simp: list_all_iff)
  then have ixs: "parses (\<lambda>r. Inr (r_typed_u 2 (d_length d) r)) (array_bytes 2 (map int ?is)) ?is"
    by (simp add: comp_def)
  have vs: "parses (\<lambda>r. bindE (r_dict_values (length ?vs) r) (\<lambda>(vs, r'). Inr (?mk ?is vs, r'))) (dict_values_image ?vs) (?mk ?is ?vs)"
    using assms by (intro parses_map parses_dict_values) simp
  have "parses (\<lambda>r. bindE (Inr (r_typed_u 2 (d_length d) r)) (\<lambda>(indices, r1). bindE (r_u32 r1) (\<lambda>(n, r2).
      bindE (r_dict_values n r2) (\<lambda>(vs, r3). Inr (?mk indices vs, r3)))))
      (array_bytes 2 (map int ?is) @ le_bytes 4 (length ?vs) @ dict_values_image ?vs) (?mk ?is ?vs)"
    using assms by (intro parses_bind [OF ixs] parses_bind [OF parses_u32] vs) simp
  then show ?thesis by (simp add: dictionary_read_def [abs_def] dict_image_def dict_reread_def)
qed

subsection \<open>Encoded vectors\<close>

lemma encoded_page:
  assumes "encoded_from t n e"
  shows "\<exists>img. length img = ENCODER_ID_BYTES + ev_byteSize e \<and> emits (encoded_write e) img
    \<and> parses (encoded_read \<lparr>h_type = t, h_length = n, h_hasNulls = b, h_nulls = nulls\<rparr>) img
        (Plain (column_fromEncoded t e nulls n b))"
proof -
  obtain cfg k src where src: "valid_source src" "encoder_plan cfg k (e_stats src) (e_type src) \<noteq> None"
      "encoder_encode k src = Inr e" "e_type src = t" "e_length src = n"
    using assms by (auto simp: encoded_from_def)
  obtain img where img: "length img = ev_byteSize e" "emits (ev_writeTo e) img" "parses (encoder_read k t n) img e"
    using registry.page_law [OF src(1-3)] src(4,5) by auto
  let ?i = "encoder_id (ev_kind e)" and ?mk = "\<lambda>e. Plain (column_fromEncoded t e nulls n b)"
  have i: "?i < 256" "encoderForId ?i = Inr k"
    unfolding ev_kind_encode [OF src(3)] encoderForId_id by (cases k) simp_all
  have "emits (encoded_write e) (le_bytes 1 ?i @ img)"
    by (rule emits_cong [OF emits_seq [OF emits_w_u8 img(2)]]) (simp add: encoded_write_def)
  moreover have "parses (encoded_read \<lparr>h_type = t, h_length = n, h_hasNulls = b, h_nulls = nulls\<rparr>) (le_bytes 1 ?i @ img) (?mk e)"
  proof -
    let ?g = "\<lambda>i r1. bindE (encoderForId i) (\<lambda>k. bindE (encoder_read k t n r1) (\<lambda>(e, r2). Inr (?mk e, r2)))"
    have "?g ?i = (\<lambda>r1. bindE (encoder_read k t n r1) (\<lambda>(e, r2). Inr (?mk e, r2)))"
      by (simp add: i(2))
    then have "parses (?g ?i) img (?mk e)" using parses_map [OF img(3), where h = ?mk] by (simp only:)
    then have "parses (\<lambda>r. bindE (r_u8 r) (\<lambda>(i, r1). ?g i r1)) (le_bytes 1 ?i @ img) (?mk e)"
      by (rule parses_bind [OF parses_u8 [OF i(1)]])
    then show ?thesis by (rule parses_cong) (simp add: encoded_read_def)
  qed
  ultimately show ?thesis using img(1) by (intro exI [of _ "le_bytes 1 ?i @ img"]) (simp add: ENCODER_ID_BYTES_def)
qed

section \<open>Records\<close>

definition nulls_image :: "any_column \<Rightarrow> byte list" where
  "nulls_image col = (if any_hasNulls col
     then le_bytes 4 (bitmapWordCount (any_length col))
       @ array_bytes 4 (map uint (padded (any_nulls col) 0 (bitmapWordCount (any_length col))))
     else [])"

definition nulls_reread :: "any_column \<Rightarrow> 32 word list" where
  "nulls_reread col = (if any_hasNulls col then padded (any_nulls col) 0 (bitmapWordCount (any_length col))
     else createBitmap (max (any_length col) 1))"

fun reread :: "any_column \<Rightarrow> any_column" where
  "reread (Dict d) = Dict (dict_reread (nulls_reread (Dict d)) d)"
| "reread (Plain c) = Plain (case c_encoded c of
       Some e \<Rightarrow> column_fromEncoded (c_type c) e (nulls_reread (Plain c)) (c_length c) (c_hasNulls c)
     | None \<Rightarrow> flat_reread (nulls_reread (Plain c)) c)"

lemma emits_nulls: "emits (write_nulls col) (nulls_image col)" "length (nulls_image col) = nullBitmapBytes col"
proof -
  show "emits (write_nulls col) (nulls_image col)"
  proof (cases "any_hasNulls col")
    case True
    then show ?thesis
      using emits_cong [OF emits_seq [OF emits_w_u32 emits_words_from], of "write_nulls col"]
      by (simp add: nulls_image_def write_nulls_def w_words_def [abs_def])
  qed (simp add: nulls_image_def write_nulls_def emits_def)
qed (simp add: nulls_image_def nullBitmapBytes_def)

lemma parses_nulls:
  assumes "any_length col < 2 ^ 32"
  shows "parses (read_nulls (any_length col) (any_hasNulls col)) (nulls_image col) (nulls_reread col)"
proof (cases "any_hasNulls col")
  case True
  let ?n = "bitmapWordCount (any_length col)"
  let ?g = "\<lambda>n r1. bindE (Inr (r_typed_u 4 n r1)) (\<lambda>(xs, r2). Inr (map of_nat xs :: 32 word list, r2))"
  have "?n < 2 ^ 32" using assms by (simp add: bitmapWordCount_def)
  then have "parses (\<lambda>r. bindE (r_u32 r) (\<lambda>(n, r1). ?g n r1))
      (le_bytes 4 ?n @ array_bytes 4 (map uint (padded (any_nulls col) 0 ?n))) (padded (any_nulls col) 0 ?n)"
    by (intro parses_bind [OF parses_u32, where g = ?g] parses_words_read)
  then have "parses (read_nulls (any_length col) True)
      (le_bytes 4 ?n @ array_bytes 4 (map uint (padded (any_nulls col) 0 ?n))) (padded (any_nulls col) 0 ?n)"
    by (rule parses_cong) (simp add: read_nulls_def)
  then show ?thesis using True by (simp add: nulls_image_def nulls_reread_def)
qed (simp add: nulls_image_def nulls_reread_def read_nulls_def parses_def)

text \<open>The payload of any form.\<close>

lemma payload_page:
  assumes "record_ok col"
  shows "\<exists>img. length img = payloadBytes col \<and> emits (payload_write col) img
    \<and> parses (form_read (columnFormOf col) \<lparr>h_type = any_type col, h_length = any_length col,
        h_hasNulls = any_hasNulls col, h_nulls = nulls_reread col\<rparr>) img (reread col)"
proof (cases col)
  case (Dict d)
  have "payload_write (Dict d) = dictionary_write d" "form_read DictionaryForm h = dictionary_read h" for h
    by (simp_all add: fun_eq_iff)
  then show ?thesis using Dict assms emits_dict [of d] parses_dict [of d "nulls_reread (Dict d)"]
    by (intro exI [of _ "dict_image d"]) simp
next
  case (Plain c)
  show ?thesis
  proof (cases "c_encoded c")
    case None
    then have "payload_write (Plain c) = flat_write c" "form_read FlatForm h = flat_read h" for h
      by (simp_all add: fun_eq_iff)
    then show ?thesis using Plain None assms emits_flat [of c] parses_flat [of c "nulls_reread (Plain c)"]
      by (intro exI [of _ "flat_image c"]) simp
  next
    case (Some e)
    then have "payload_write (Plain c) = encoded_write e" "form_read EncodedForm h = encoded_read h" for h
      by (simp_all add: fun_eq_iff)
    then show ?thesis using Plain Some assms encoded_page [of "c_type c" "c_length c" e "c_hasNulls c" "nulls_reread (Plain c)"]
      by simp
  qed
qed

lemma ids:
  "form_id f < 256" "form_of_id (form_id f) = Inr f" "data_type_id t < 256" "data_type_of_id (data_type_id t) = Inr t"
  by (cases f; simp add: form_of_id_def form_for_id_def; fail)+
    (cases t; simp add: data_type_of_id_def data_type_for_id_def; fail)+

lemma record_ok_length: "record_ok col \<Longrightarrow> any_length col < 2 ^ 32"
  by (cases col) simp_all

definition record_page :: "any_column \<Rightarrow> byte list \<Rightarrow> bool" where
  "record_page col img \<longleftrightarrow> length img = columnRecordBytes col \<and> emits (writeColumnRecord col) img
     \<and> parses readColumnRecord img (reread col)"

lemma record_page_exists:
  assumes "record_ok col"
  shows "\<exists>img. record_page col img"
proof -
  obtain pay where pay: "length pay = payloadBytes col" "emits (payload_write col) pay"
      "parses (form_read (columnFormOf col) \<lparr>h_type = any_type col, h_length = any_length col,
        h_hasNulls = any_hasNulls col, h_nulls = nulls_reread col\<rparr>) pay (reread col)"
    using payload_page [OF assms] by blast
  let ?f = "form_id (columnFormOf col)" and ?t = "data_type_id (any_type col)" and ?n = "any_length col"
  let ?b = "if any_hasNulls col then 1 else (0 :: nat)"
  let ?img = "((((le_bytes 1 ?f @ le_bytes 1 ?t) @ le_bytes 4 ?n) @ le_bytes 1 ?b) @ nulls_image col) @ pay"
  have n: "?n < 2 ^ 32" by (rule record_ok_length [OF assms])
  have "emits (writeColumnRecord col) ?img"
    by (rule emits_cong [OF emits_seq [OF emits_seq [OF emits_seq [OF emits_seq [OF emits_seq [OF
          emits_w_u8 emits_w_u8] emits_w_u32] emits_w_u8] emits_nulls(1)] pay(2)]])
      (simp add: writeColumnRecord_def)
  moreover have "length ?img = columnRecordBytes col"
    using pay(1) emits_nulls(2) by (simp add: columnRecordBytes_def RECORD_HEADER_BYTES_def)
  moreover have "parses readColumnRecord ?img (reread col)"
  proof -
    let ?g5 = "\<lambda>form t len flag nulls r. form_read form \<lparr>h_type = t, h_length = len, h_hasNulls = flag \<noteq> (0 :: nat), h_nulls = nulls\<rparr> r"
    let ?g4 = "\<lambda>form t len flag r. bindE (read_nulls len (flag \<noteq> 0) r) (\<lambda>(nulls, r'). ?g5 form t len flag nulls r')"
    let ?g3 = "\<lambda>form t len r. bindE (r_u8 r) (\<lambda>(flag, r'). ?g4 form t len flag r')"
    let ?g2 = "\<lambda>form tid r. bindE (data_type_of_id tid) (\<lambda>t. bindE (r_u32 r) (\<lambda>(len, r'). ?g3 form t len r'))"
    let ?g1 = "\<lambda>fid r. bindE (form_of_id fid) (\<lambda>form. bindE (r_u8 r) (\<lambda>(tid, r'). ?g2 form tid r'))"
    have b: "(?b \<noteq> 0) = any_hasNulls col" by simp
    have "parses (?g4 (columnFormOf col) (any_type col) ?n ?b) (nulls_image col @ pay) (reread col)"
      unfolding b by (rule parses_bind [OF parses_nulls [OF n]]) (rule pay(3))
    then have "parses (?g3 (columnFormOf col) (any_type col) ?n) (le_bytes 1 ?b @ nulls_image col @ pay) (reread col)"
      by (intro parses_bind [OF parses_u8, where g = "?g4 (columnFormOf col) (any_type col) ?n"]) simp_all
    then have "parses (\<lambda>r. bindE (r_u32 r) (\<lambda>(len, r'). ?g3 (columnFormOf col) (any_type col) len r'))
        (le_bytes 4 ?n @ le_bytes 1 ?b @ nulls_image col @ pay) (reread col)"
      by (rule parses_bind [OF parses_u32 [OF n], where g = "?g3 (columnFormOf col) (any_type col)"])
    then have "parses (?g2 (columnFormOf col) ?t) (le_bytes 4 ?n @ le_bytes 1 ?b @ nulls_image col @ pay) (reread col)"
      by (rule parses_cong) (simp add: ids)
    then have "parses (\<lambda>r. bindE (r_u8 r) (\<lambda>(tid, r'). ?g2 (columnFormOf col) tid r'))
        (le_bytes 1 ?t @ le_bytes 4 ?n @ le_bytes 1 ?b @ nulls_image col @ pay) (reread col)"
      by (rule parses_bind [OF parses_u8 [OF ids(3)], where g = "?g2 (columnFormOf col)"])
    then have "parses (?g1 ?f) (le_bytes 1 ?t @ le_bytes 4 ?n @ le_bytes 1 ?b @ nulls_image col @ pay) (reread col)"
      by (rule parses_cong) (simp add: ids)
    then have "parses (\<lambda>r. bindE (r_u8 r) (\<lambda>(fid, r'). ?g1 fid r'))
        (le_bytes 1 ?f @ le_bytes 1 ?t @ le_bytes 4 ?n @ le_bytes 1 ?b @ nulls_image col @ pay) (reread col)"
      by (rule parses_bind [OF parses_u8 [OF ids(1)], where g = "?g1"])
    then show ?thesis unfolding append_assoc by (rule parses_cong) (simp add: readColumnRecord_def)
  qed
  ultimately show ?thesis unfolding record_page_def by blast
qed

section \<open>The column that comes back\<close>

lemma ushr_below: "i < n \<Longrightarrow> n < 2 ^ 32 \<Longrightarrow> ushr i 5 < bitmapWordCount n"
  by (simp add: ushr_def bitmapWordCount_def)

lemma padded_testBit: "i < n \<Longrightarrow> n < 2 ^ 32 \<Longrightarrow> testBit (padded ws 0 (bitmapWordCount n)) i = testBit ws i"
  using ushr_below [of i n] by (auto simp: testBit_def word_at_def padded_def)

lemma reread_nulls:
  assumes "record_ok col" "i < any_length col"
  shows "(any_hasNulls col \<and> \<not> testBit (nulls_reread col) i) = (any_hasNulls col \<and> \<not> testBit (any_nulls col) i)"
  using padded_testBit [OF assms(2) record_ok_length [OF assms(1)]] by (auto simp: nulls_reread_def)

lemma nth_opt_take: "i < n \<Longrightarrow> nth_opt (take n xs) i = nth_opt xs i"
  by (simp add: nth_opt_def)

lemma element_prefix: "i < n \<Longrightarrow> element t (array_prefix n data) i = element t data i"
  by (cases "(n, data)" rule: array_prefix.cases) (simp_all add: element_def nth_opt_take)

lemma getString_reread:
  assumes "strings_writable c" "i < c_length c" "\<not> isFixedWidth (c_type c)"
  shows "column_getString (flat_reread nulls c) i = column_getString c i"
proof -
  have l: "i + 1 < length (c_offsets c)" "c_used c \<le> length (c_bytes c)"
    and le: "\<And>p. p \<in> set (take (c_length c + 1) (c_offsets c)) \<Longrightarrow> p \<le> c_used c"
    using assms(1,2) by (auto simp: strings_writable_def list_all_iff)
  have o: "nth_opt (c_offsets c) i = Some (c_offsets c ! i)" "nth_opt (c_offsets c) (i + 1) = Some (c_offsets c ! (i + 1))"
    using l by (simp_all add: nth_opt_def)
  have "c_offsets c ! (i + 1) \<in> set (take (c_length c + 1) (c_offsets c))"
    using assms(2) l(1) by (auto simp: in_set_conv_nth intro!: exI [of _ "i + 1"])
  then have stop: "c_offsets c ! (i + 1) \<le> c_used c" by (rule le)
  have "take (c_offsets c ! (i + 1) - c_offsets c ! i) (drop (c_offsets c ! i) (take (c_used c) (c_bytes c)))
      = take (c_offsets c ! (i + 1) - c_offsets c ! i) (drop (c_offsets c ! i) (c_bytes c))"
    using stop by (simp add: drop_take min_def)
  then show ?thesis
    using o assms(2,3) by (simp add: column_getString_def flat_reread_def column_fromParts_def nth_opt_take del: drop_take)
qed

lemma reread_get:
  assumes "record_ok col" "i < any_length col"
  shows "any_get scale (reread col) i = any_get scale col i"
proof (cases col)
  case (Dict d)
  let ?d = "dict_reread (nulls_reread (Dict d)) d"
  have same: "d_reverse ?d = d_reverse d" "d_indices ?d = take (d_length d) (d_indices d)" "d_hasNulls ?d = d_hasNulls d"
      "d_nulls ?d = nulls_reread (Dict d)"
    by (simp_all add: dict_reread_def dict_fromParts_def)
  show ?thesis using reread_nulls [OF assms] assms(2) Dict by (auto simp: dict_get_def same nth_opt_take split: option.splits)
next
  case (Plain c)
  note nulls = reread_nulls [OF assms, unfolded Plain, simplified]
  show ?thesis
  proof (cases "c_encoded c")
    case (Some e)
    then show ?thesis using nulls Plain by (simp add: column_get_def column_fromEncoded_def)
  next
    case None
    let ?c = "flat_reread (nulls_reread (Plain c)) c"
    have same: "c_type ?c = c_type c" "c_encoded ?c = None" "c_hasNulls ?c = c_hasNulls c" "c_nulls ?c = nulls_reread (Plain c)"
      by (simp_all add: flat_reread_def column_fromParts_def)
    have "column_getString ?c i = column_getString c i" if "c_type c = VARCHAR"
      using assms Plain None that by (intro getString_reread) (auto simp: isFixedWidth_def)
    moreover have "element (c_type c) (c_data ?c) i = element (c_type c) (c_data c) i" if "c_type c \<noteq> VARCHAR"
      using assms(2) Plain that by (simp add: flat_reread_def column_fromParts_def fixed_not_varchar element_prefix)
    ultimately have "column_get scale ?c i = column_get scale c i"
      using nulls None
      by (cases "c_type c") (simp_all add: column_get_def same Let_def)
    then show ?thesis using Plain None by simp
  qed
qed

lemma reread_form:
  assumes "record_ok col"
  shows "any_length (reread col) = any_length col" "any_type (reread col) = any_type col"
    "columnFormOf (reread col) = columnFormOf col"
  by (cases col; auto simp: dict_reread_def dict_fromParts_def flat_reread_def column_fromParts_def column_fromEncoded_def
      split: option.splits)+

section \<open>Pages of chunks\<close>

lemma records_page:
  assumes "list_all record_ok cols"
  shows "\<exists>img. length img = chunkRecordBytes cols \<and> emits (writeChunkRecords cols) img
    \<and> parses (readChunkRecords (length cols)) img (map reread cols)"
  using assms
proof (induction cols)
  case Nil
  show ?case by (intro exI [of _ "[]"]) (simp add: chunkRecordBytes_def emits_def parses_def)
next
  case (Cons col cols)
  then obtain img where img: "length img = chunkRecordBytes cols" "emits (writeChunkRecords cols) img"
      "parses (readChunkRecords (length cols)) img (map reread cols)" by auto
  obtain one where one: "length one = columnRecordBytes col" "emits (writeColumnRecord col) one" "parses readColumnRecord one (reread col)"
    using record_page_exists Cons.prems by (auto simp: record_page_def)
  have "emits (writeChunkRecords (col # cols)) (one @ img)"
    by (rule emits_cong [OF emits_seq [OF one(2) img(2)]]) simp
  moreover have "parses (readChunkRecords (length (col # cols))) (one @ img) (map reread (col # cols))"
  proof -
    let ?g = "\<lambda>c r. bindE (readChunkRecords (length cols) r) (\<lambda>(cs, r'). Inr (c # cs, r'))"
    have "parses (?g (reread col)) img (reread col # map reread cols)" by (rule parses_map [OF img(3)])
    then have "parses (\<lambda>r. bindE (readColumnRecord r) (\<lambda>(c, r'). ?g c r')) (one @ img) (reread col # map reread cols)"
      by (rule parses_bind [OF one(3), where g = ?g])
    then show ?thesis by (simp add: parses_def)
  qed
  moreover have "length (one @ img) = chunkRecordBytes (col # cols)" using img(1) one(1) by (simp add: chunkRecordBytes_def)
  ultimately show ?case by blast
qed

definition chunk_writable :: "data_chunk \<Rightarrow> bool" where
  "chunk_writable ch \<longleftrightarrow> list_all record_ok (ch_columns ch) \<and> length (ch_columns ch) < 2 ^ 16 \<and> ch_size ch < 2 ^ 32
     \<and> list_all (\<lambda>c. ch_size ch \<le> any_length c) (ch_columns ch)"

definition chunk_reread :: "data_chunk \<Rightarrow> data_chunk" where
  "chunk_reread ch = \<lparr>ch_columns = map reread (ch_columns ch), ch_size = ch_size ch, ch_selection = None\<rparr>"

lemma chunk_page:
  assumes "chunk_writable ch"
  shows "\<exists>img. length img = CHUNK_HEADER_BYTES + chunkRecordBytes (ch_columns ch) \<and> emits (write_chunk ch) img
    \<and> parses read_chunk img (chunk_reread ch)"
proof -
  let ?n = "length (ch_columns ch)"
  have ok: "list_all record_ok (ch_columns ch)" "?n < 65536" "ch_size ch < 2 ^ 32"
    using assms by (simp_all add: chunk_writable_def)
  obtain img where img: "length img = chunkRecordBytes (ch_columns ch)" "emits (writeChunkRecords (ch_columns ch)) img"
      "parses (readChunkRecords ?n) img (map reread (ch_columns ch))"
    using records_page [OF ok(1)] by blast
  let ?img = "(le_bytes 4 (ch_size ch) @ le_bytes 2 ?n) @ img"
  have "emits (write_chunk ch) ?img"
    by (rule emits_cong [OF emits_seq [OF emits_seq [OF emits_w_u32 emits_w_u16] img(2)]]) (simp add: write_chunk_def)
  moreover have "parses read_chunk ?img (chunk_reread ch)"
  proof -
    let ?g2 = "\<lambda>n count r. bindE (readChunkRecords count r) (\<lambda>(cols, r').
       Inr (\<lparr>ch_columns = cols, ch_size = n, ch_selection = None\<rparr>, r'))"
    let ?g1 = "\<lambda>n r. bindE (r_u16 r) (\<lambda>(count, r'). ?g2 n count r')"
    have "parses (?g2 (ch_size ch) ?n) img (chunk_reread ch)"
      unfolding chunk_reread_def by (rule parses_map [OF img(3)])
    then have "parses (?g1 (ch_size ch)) (le_bytes 2 ?n @ img) (chunk_reread ch)"
      by (rule parses_bind [OF parses_u16 [OF ok(2)], where g = "?g2 (ch_size ch)"])
    then have "parses (\<lambda>r. bindE (r_u32 r) (\<lambda>(n, r'). ?g1 n r')) (le_bytes 4 (ch_size ch) @ le_bytes 2 ?n @ img) (chunk_reread ch)"
      by (rule parses_bind [OF parses_u32 [OF ok(3)], where g = ?g1])
    then show ?thesis unfolding append_assoc by (rule parses_cong) (simp add: read_chunk_def)
  qed
  ultimately show ?thesis using img(1) by (intro exI [of _ ?img]) (simp add: CHUNK_HEADER_BYTES_def)
qed

lemma reread_rows:
  assumes "chunk_writable ch" "ch_selection ch = None"
  shows "chunk_toRows scale (chunk_reread ch) = chunk_toRows scale ch"
  using assms reread_get
  by (force simp: chunk_toRows_def chunk_reread_def chunk_activeRowIndex_def selected_row_def chunk_writable_def list_all_iff)

lemma flatten_flat: "chunk_flatten scale ch = Inr flat \<Longrightarrow> ch_selection flat = None"
  by (auto simp: chunk_flatten_def bindE_Inr_iff split: option.splits)

lemma serialize_roundtrip:
  assumes "chunk_flatten scale ch = Inr flat" "chunk_writable flat"
  shows "\<exists>page. chunk_serialize scale ch = Inr page
    \<and> length page = CHUNK_HEADER_BYTES + chunkRecordBytes (ch_columns flat)
    \<and> chunk_deserialize page = Inr (chunk_reread flat)"
proof -
  obtain img where img: "length img = CHUNK_HEADER_BYTES + chunkRecordBytes (ch_columns flat)" "emits (write_chunk flat) img"
      "parses read_chunk img (chunk_reread flat)"
    using chunk_page [OF assms(2)] by blast
  have "chunk_serialize scale ch = Inr img"
    using assms(1) emits_exact [OF img(2)] img(1) by (simp add: chunk_serialize_def lift_error_def)
  moreover have "chunk_deserialize img = Inr (chunk_reread flat)"
    using img(3) [unfolded parses_def, rule_format, of "[]" "[]"] by (simp add: chunk_deserialize_def)
  ultimately show ?thesis using img(1) by blast
qed

text \<open>A form, a type or an encoder the file does not know is refused.\<close>

lemma unknown_ids:
  "2 < i \<Longrightarrow> form_of_id i = Inl UnknownColumnForm"
  "7 < i \<Longrightarrow> data_type_of_id i = Inl (UnknownDataTypeId i)"
  by (auto simp: form_of_id_def form_for_id_def data_type_of_id_def data_type_for_id_def)

text \<open>
  C11: Serialising a chunk and deserialising the page gives a chunk of the same rows, without a selection,
  whose columns have the types and the forms (plain, dictionary, encoded) of the columns written; the page
  has exactly the bytes the header and the records reserve. The chunk is the one \<open>flatten\<close> makes when rows
  are selected, and every column of it is one the codec can write: its array covers its rows, its texts are
  well-formed and do not begin with a byte order mark, its numbers fit their type.
\<close>

theorem chunk_serialization_roundtrip:
  assumes "chunk_flatten scale ch = Inr flat" "chunk_writable flat"
  shows "\<exists>page ch'. chunk_serialize scale ch = Inr page
    \<and> length page = CHUNK_HEADER_BYTES + chunkRecordBytes (ch_columns flat)
    \<and> chunk_deserialize page = Inr ch'
    \<and> chunk_toRows scale ch' = chunk_toRows scale flat \<and> ch_size ch' = ch_size flat
    \<and> map any_type (ch_columns ch') = map any_type (ch_columns flat)
    \<and> map columnFormOf (ch_columns ch') = map columnFormOf (ch_columns flat)"
proof -
  have "\<forall>c \<in> set (ch_columns flat). any_type (reread c) = any_type c \<and> columnFormOf (reread c) = columnFormOf c"
    using assms(2) reread_form by (auto simp: chunk_writable_def list_all_iff)
  moreover note serialize_roundtrip [OF assms] reread_rows [OF assms(2) flatten_flat [OF assms(1)], of scale]
  ultimately show ?thesis by (force simp: chunk_reread_def)
qed

definition sample_page_chunk :: data_chunk where
  "sample_page_chunk =
     \<lparr>ch_columns =
        [Plain \<lparr>c_type = INT32, c_capacity = 4, c_length = 2, c_encoded = None, c_data = Some (IntArray [- 7, 300, 0, 0]),
           c_offsets = [], c_bytes = [], c_used = 0, c_nulls = [2], c_hasNulls = True\<rparr>,
         Dict \<lparr>d_capacity = 2, d_length = 2, d_dictionary = None, d_reverse = [VStr [104, 105], VStr []],
           d_indices = [1, 0], d_nulls = [0], d_hasNulls = False\<rparr>,
         Plain \<lparr>c_type = VARCHAR, c_capacity = 2, c_length = 2, c_encoded = None, c_data = None,
           c_offsets = [0, 1, 3], c_bytes = [97, 98, 99, 0], c_used = 3, c_nulls = [3], c_hasNulls = False\<rparr>],
      ch_size = 2, ch_selection = None\<rparr>"

lemma chunk_serialization_roundtrip_witness:
  "\<exists>page ch'. chunk_serialize (Fin 100) sample_page_chunk = Inr page
    \<and> length page = CHUNK_HEADER_BYTES + chunkRecordBytes (ch_columns sample_page_chunk)
    \<and> chunk_deserialize page = Inr ch'
    \<and> chunk_toRows (Fin 100) ch' = chunk_toRows (Fin 100) sample_page_chunk \<and> ch_size ch' = ch_size sample_page_chunk
    \<and> map any_type (ch_columns ch') = map any_type (ch_columns sample_page_chunk)
    \<and> map columnFormOf (ch_columns ch') = map columnFormOf (ch_columns sample_page_chunk)"
  by (rule chunk_serialization_roundtrip)
    (simp_all add: sample_page_chunk_def chunk_flatten_def chunk_writable_def isFixedWidth_def storable_def
      strings_writable_def text_ok_def is_high_unat is_low_unat)

end
