(* ===== verification/Spec2Isabelle.thy ===== *)
theory Spec2Isabelle
  imports Prelude Bitmap ColumnEncoding LruCache PageCache PriorityQueue HashTable ParserSpec ValueSpec ExpressionSpec Table
    WasmFilter FilterPlan NullRejection TypeInference ColumnCodecSpec
begin

text \<open>
  A model of the core of a columnar SQL query engine written in TypeScript (directory \<open>src/\<close>), with
  the theorems that make its parts correct.

  The theories, bottom up:

  \<^item> \<open>Prelude\<close>: the \<open>error + value\<close> results, list and word lemmas the components share.
  \<^item> \<open>JsNumber\<close>, \<open>JsValue\<close>: IEEE binary64 numbers as \<open>Fin\<close> of a rational, infinities and NaN, with the
    rounding of arithmetic written out; the values of a column and of an expression
    (\<open>storage/data-type.ts\<close>).
  \<^item> \<open>Bitmap\<close>: \<open>utils/bitmap.ts\<close> on lists of 32-bit words.
  \<^item> \<open>IntegerValues\<close>, \<open>RunLength\<close>, \<open>BitPacked\<close>, \<open>FrameOfReference\<close>, \<open>ColumnEncoding\<close>:
    \<open>storage/encoding/\<close>, the statistics of an integer column, the three encoders with their plans,
    vectors and page forms, and the choice among them. The locale \<open>column_encoder\<close> states what the
    registry promises of an encoder; every encoder and the registry itself interpret it.
  \<^item> \<open>ByteIO\<close>: \<open>storage/encoding/byte-io.ts\<close>, a writer and a reader over a byte buffer; \<open>emits\<close> and
    \<open>parses\<close> are the two contracts the page round trips are composed from.
  \<^item> \<open>LruCache\<close>: \<open>utils/lru-cache.ts\<close>, doubly linked nodes in a heap of addresses, refining a list.
  \<^item> \<open>PageCache\<close>: \<open>storage/page-cache.ts\<close>; the asynchronous \<open>fetchPage\<close> is two steps, so that fetches
    and writes interleave.
  \<^item> \<open>PriorityQueue\<close>: \<open>utils/priority-queue.ts\<close>, the binary heap in an array.
  \<^item> \<open>HashTable\<close>: \<open>utils/hash.ts\<close> and \<open>execution/hash-table.ts\<close>; a probe loop that would not end is
    \<open>None\<close>, and the theorems show the result is \<open>Some\<close>.
  \<^item> \<open>Lexer\<close>, \<open>Ast\<close>, \<open>Parser\<close>: \<open>parser/\<close>; \<open>ParserTotal\<close> shows the recursion bounded by the number of
    tokens, \<open>ParserGrammar\<close>, \<open>ParserComplete\<close> and \<open>ParserRuns\<close> relate it to a grammar of expressions,
    \<open>ParserSpec\<close> holds the properties.
  \<^item> \<open>JsText\<close>, \<open>Calendar\<close>, \<open>JsOps\<close>: numbers as text, the calendar of \<open>Date\<close>, JavaScript's operators
    and the casts of \<open>storage/data-type.ts\<close>. \<open>ValueOps\<close>: \<open>execution/value-ops.ts\<close>, with its month loops;
    \<open>ValueSpec\<close> holds the properties.
  \<^item> \<open>BoundExpr\<close>, \<open>ExprKey\<close>: \<open>binder/expression-binder.ts\<close>, \<open>conjuncts.ts\<close>, \<open>expr-key.ts\<close> and the
    column lookup of \<open>execution/column-resolve.ts\<close>. \<open>ExpressionEval\<close>: \<open>execution/expression-eval.ts\<close>,
    expressions compiled to functions of a row; \<open>ExpressionSpec\<close> holds the properties.
  \<^item> \<open>ZoneMap\<close>: \<open>storage/zone-map.ts\<close> and \<open>execution/zone-map-pruner.ts\<close>, chunk summaries and predicates
    evaluated on them; \<open>ZoneMapSound\<close> and \<open>PruningSound\<close> show that a skipped chunk has no row the
    predicate keeps.
  \<^item> \<open>Column\<close>, \<open>ColumnSound\<close>, \<open>DictionaryColumn\<close>, \<open>Chunk\<close>: \<open>storage/column.ts\<close>, \<open>dictionary-column.ts\<close> and
    \<open>chunk.ts\<close>. The locale \<open>value_store\<close> is the contract of a column, get after set; both columns and
    their sum interpret it. \<open>Table\<close>: \<open>storage/table.ts\<close> over the page cache, refining the list of the rows
    inserted.
  \<^item> \<open>WasmMemory\<close>, \<open>WasmFilter\<close>: a WebAssembly memory of bytes with its traps and 128-bit lanes, and the filter
    kernels of \<open>wasm/assembly/\<close> (\<open>filter.ts\<close>, \<open>filter-f64.ts\<close>, \<open>compound-filter.ts\<close>) as loops over it; each
    kernel writes the positions a test selects.
  \<^item> \<open>RowFilter\<close>: \<open>execution/operators/filter.ts\<close> and the filters of \<open>parallel/parallel-dispatch.ts\<close>, whose worker
    pool is an argument. \<open>RowFilterSpec\<close> shows morsels equivalent to one kernel call, \<open>FilterPlan\<close> when a planned
    filter is the evaluation of its predicate row by row and when it is not.
  \<^item> \<open>ColumnCodec\<close>: \<open>storage/column-codec.ts\<close> and \<open>serializer.ts\<close>, columns and chunks as bytes; the bits of
    the numbers in a \<open>Float64Array\<close> are in \<open>FloatBits\<close>, the round trip in \<open>ColumnCodecSpec\<close>.
  \<^item> \<open>TypeInference\<close>: \<open>binder/type-inference.ts\<close> and \<open>coercion.ts\<close>, the types of arithmetic and the conversion of
    literals. \<open>NullRejection\<close>: \<open>optimizer/passes/null-rejection.ts\<close> and the join types of \<open>outer-to-inner.ts\<close>,
    against the multiset of the rows a join gives.

  The properties that span components are in this theory. Not modelled: I/O, worker threads, the
  WebAssembly aggregates and joins, the user interfaces.
\<close>

section \<open>Encoded columns\<close>

definition sample_values :: "int list" where
  "sample_values = replicate 5 100000 @ replicate 3 (- 5)"

definition sample_config :: encoding_config where
  "sample_config = default_encoding_config\<lparr>encodingMinRows := Fin 4\<rparr>"

definition sample_vector :: encoded_vector where
  "sample_vector =
     EV_RL \<lparr>rl_type = INT32, rl_length = 8, runStarts = [0, 5], runValues = [100000, - 5]\<rparr>"

lemma sample_stats:
  "summarizeIntegers sample_values 8 = \<lparr>st_length = 8, runCount = 2, st_min = - 5, st_max = 100000\<rparr>"
  by code_simp

lemma sample_plans:
  "encoder_plan sample_config RUN_LENGTH (summarizeIntegers sample_values 8) INT32
     = Some \<lparr>p_bytes = 20, p_withinThreshold = True\<rparr>"
  "encoder_plan sample_config BIT_PACKED (summarizeIntegers sample_values 8) INT32 = None"
  "encoder_plan sample_config FRAME_OF_REFERENCE (summarizeIntegers sample_values 8) INT32
     = Some \<lparr>p_bytes = 41, p_withinThreshold = False\<rparr>"
  unfolding sample_stats
  by (simp_all add: rl_plan_def bp_plan_def fr_plan_def sample_config_def default_encoding_config_def
      RUN_HEADER_BYTES_def FOR_HEADER_BYTES_def containerForRange_def OFFSET_CONTAINERS_def js_cmp_defs)

lemma sample_choice:
  "chooseEncoder sample_config (summarizeIntegers sample_values 8) INT32 = Some RUN_LENGTH"
proof -
  have "best_encoder sample_config (summarizeIntegers sample_values 8) INT32 = Some (RUN_LENGTH, 20)"
    by (simp add: best_encoder_def REGISTERED_ENCODERS_def choose_step_def sample_plans
        del: encoder_plan.simps)
  then show ?thesis
    unfolding chooseEncoder_def
    by (simp add: sample_stats sample_config_def default_encoding_config_def flatBytes_def js_cmp_defs)
qed

lemma sample_encoded:
  "encodeColumnValues sample_config INT32 None (Some sample_values) 8 = Inr (Some sample_vector)"
proof -
  have "encoder_encode RUN_LENGTH \<lparr>e_type = INT32, e_length = 8, e_values = sample_values,
      e_stats = \<lparr>st_length = 8, runCount = 2, st_min = - 5, st_max = 100000\<rparr>\<rparr> = Inr sample_vector"
    by code_simp
  moreover have "columnEncoding sample_config" "INT32 \<in> ENCODABLE_TYPES"
    by (simp_all add: sample_config_def default_encoding_config_def ENCODABLE_TYPES_def)
  ultimately show ?thesis
    using sample_choice by (simp add: encodeColumnValues_def sample_stats)
qed

lemma sample_side_conditions:
  "INT32 \<in> ENCODABLE_TYPES" "list_all (in_range INT32) sample_values" "length sample_values = 8"
  by (simp_all add: ENCODABLE_TYPES_def sample_values_def list_all_iff integer_defs)

text \<open>
  C5: Encoding a column loses nothing. When \<open>encodeColumnValues\<close> encodes the \<open>n\<close> values of an INT32
  or INT64 column, whichever encoder the statistics chose, every row of the encoded vector
  reads as the row's value and decoding the vector gives back the typed array.
\<close>

theorem encodeColumnValues_preserves:
  assumes "t \<in> ENCODABLE_TYPES" "list_all (in_range t) values" "0 < n" "n \<le> length values" "n < 2 ^ 27"
    and "encodeColumnValues cfg t None (Some values) n = Inr (Some v)"
  shows "(\<forall>i<n. ev_valueAt v i = int_value t (values ! i)) \<and> ev_decode v = take n values"
proof -
  have src: "valid_source (encodable_of t values n)"
    using assms(1-5) by (simp add: valid_source_def encodable_of_def)
  obtain k where k: "encoder_encode k (encodable_of t values n) = Inr v"
      "encoder_plan cfg k (e_stats (encodable_of t values n)) (e_type (encodable_of t values n)) \<noteq> None"
    using encodeColumnValues_cases [OF assms(6)] by metis
  show ?thesis
    using registry.value_law [OF src k(2,1)] registry.decode_law [OF src k(2,1)]
    by (simp add: encodable_of_def)
qed

lemma encodeColumnValues_preserves_witness:
  "ev_valueAt sample_vector 6 = int_value INT32 (- 5) \<and> ev_decode sample_vector = sample_values"
proof -
  have "(\<forall>i<8. ev_valueAt sample_vector i = int_value INT32 (sample_values ! i))
      \<and> ev_decode sample_vector = take 8 sample_values"
    by (rule encodeColumnValues_preserves [OF sample_side_conditions(1,2) _ _ _ sample_encoded])
      (simp_all add: sample_side_conditions)
  moreover have "sample_values ! 6 = - 5" "take 8 sample_values = sample_values"
    by (simp_all add: sample_values_def nth_append)
  ultimately show ?thesis by auto
qed

text \<open>
  C12: The page form round trips. The bytes an encoded column writes fill exactly the \<open>byteSize\<close> the
  plan promised, and reading them through the encoder found under the stored id gives the
  vector back and stops at the end of the page.
\<close>

theorem encoded_page_roundtrip:
  assumes "t \<in> ENCODABLE_TYPES" "list_all (in_range t) values" "0 < n" "n \<le> length values" "n < 2 ^ 27"
    and "encodeColumnValues cfg t None (Some values) n = Inr (Some v)"
    and "length buf = ev_byteSize v"
  shows "\<exists>page. ev_writeTo v \<lparr>w_buf = buf, w_off = 0\<rparr> = Inr \<lparr>w_buf = page, w_off = ev_byteSize v\<rparr>
    \<and> bindE (encoderForId (encoder_id (ev_kind v))) (\<lambda>k. encoder_read k t n \<lparr>r_buf = page, r_off = 0\<rparr>)
        = Inr (v, \<lparr>r_buf = page, r_off = ev_byteSize v\<rparr>)"
proof -
  have src: "valid_source (encodable_of t values n)"
    using assms(1-5) by (simp add: valid_source_def encodable_of_def)
  obtain k where k: "encoder_encode k (encodable_of t values n) = Inr v"
      "encoder_plan cfg k (e_stats (encodable_of t values n)) (e_type (encodable_of t values n)) \<noteq> None"
    using encodeColumnValues_cases [OF assms(6)] by metis
  obtain img where img: "length img = ev_byteSize v" "emits (ev_writeTo v) img"
      "parses (encoder_read k t n) img v"
    using registry.page_law [OF src k(2,1)] by (auto simp: encodable_of_def)
  have "encoder_read k t n \<lparr>r_buf = img, r_off = 0\<rparr> = Inr (v, \<lparr>r_buf = img, r_off = ev_byteSize v\<rparr>)"
    using img(3) [unfolded parses_def, rule_format, of "[]" "[]"] img(1) by simp
  then show ?thesis
    using emits_exact [OF img(2), of buf] img(1) assms(7) ev_kind_encode [OF k(1)]
    by (simp add: encoderForId_id)
qed

lemma encoded_page_roundtrip_witness:
  "\<exists>page. ev_writeTo sample_vector \<lparr>w_buf = replicate 20 0, w_off = 0\<rparr>
       = Inr \<lparr>w_buf = page, w_off = ev_byteSize sample_vector\<rparr>
    \<and> bindE (encoderForId (encoder_id (ev_kind sample_vector)))
        (\<lambda>k. encoder_read k INT32 8 \<lparr>r_buf = page, r_off = 0\<rparr>)
        = Inr (sample_vector, \<lparr>r_buf = page, r_off = ev_byteSize sample_vector\<rparr>)"
proof -
  have "length (replicate 20 (0 :: byte)) = ev_byteSize sample_vector"
    by (simp add: sample_vector_def rl_byteSize_def RUN_HEADER_BYTES_def)
  then show ?thesis
    by (intro encoded_page_roundtrip [OF sample_side_conditions(1,2) _ _ _ sample_encoded])
      (simp_all add: sample_side_conditions)
qed



section \<open>Caches\<close>

text \<open>
  C4: The LRU cache implements the list of its entries, most recently used first. After any
  sequence of calls on a new cache, the pointer structure represents exactly the entries the
  specification gives, and holds at most \<open>maxSize\<close> of them; a lookup then answers what the
  specification answers.
\<close>

theorem lru_refines_list:
  shows "lru_abs (fold lru_exec ops (lru_new m)) (fold (spec_exec m) ops [])
    \<and> length (fold (spec_exec m) ops []) \<le> m
    \<and> lru_size (fold lru_exec ops (lru_new m)) = length (fold (spec_exec m) ops [])
    \<and> fst (lru_get k (fold lru_exec ops (lru_new m))) = map_of (fold (spec_exec m) ops []) k"
proof -
  have new: "l_max (lru_new m) = m" by (simp add: lru_new_def)
  have r: "lru_abs (fold lru_exec ops (lru_new m)) (fold (spec_exec m) ops [])"
    "l_max (fold lru_exec ops (lru_new m)) = m"
    using lru_run_refines [OF lru_new_abs [of m], of ops] by (simp_all add: new)
  show ?thesis
    using r lru_size_abs [OF r(1)] lru.get_law [OF r(1) surjective_pairing] by (auto simp: lru_abs_def)
qed






section \<open>Priority queue and hash table\<close>

text \<open>
  C13: The priority queue sorts. With a comparator that is a total preorder, pushing the elements
  of a list and popping until the queue is empty gives a permutation of the list in which no
  element goes before an earlier one.
\<close>

theorem pq_sorts:
  assumes "comparator cmp"
  shows "mset (pq_drain cmp (length xs) (fold (pq_push cmp) xs [])) = mset xs
    \<and> sorted_wrt (\<lambda>a b. \<not> cmp b a < 0) (pq_drain cmp (length xs) (fold (pq_push cmp) xs []))"
proof -
  have "comparator.before cmp = (\<lambda>a b. \<not> cmp b a < 0)"
    by (intro ext) (rule comparator.before_def [OF assms])
  then show ?thesis using comparator.heap_sort [OF assms, of xs] by simp
qed

lemma pq_sorts_witness:
  "mset (pq_drain default_cmp (length [5, 2, 9 :: int]) (fold (pq_push default_cmp) [5, 2, 9] []))
     = mset [5, 2, 9]
   \<and> sorted_wrt (\<lambda>a b. \<not> default_cmp b a < 0)
       (pq_drain default_cmp (length [5, 2, 9 :: int]) (fold (pq_push default_cmp) [5, 2, 9] []))"
  by (rule pq_sorts [OF num.comparator_axioms])

text \<open>
  C6: The keyed hash table numbers distinct keys. Numbering any list of rows in a new table of any
  arity terminates (every probe loop ends), gives each row the number of its key, the same number
  to two rows exactly when their key identities are equal, and the numbers count the distinct
  keys in the order they are first seen.
\<close>

theorem hash_table_numbers_keys:
  shows "\<exists>es t. kt.number_rows rows (createKeyedHashTable n) = Some (es, t)
    \<and> length es = length rows
    \<and> (\<forall>i<length rows. \<forall>j<length rows.
         es ! i = es ! j \<longleftrightarrow> key_of n (rows ! i) = key_of n (rows ! j))
    \<and> kt_keys t = fold (\<lambda>row ks. add_key ks (key_of n row)) rows []
    \<and> (\<forall>i<length rows. es ! i < length (kt_keys t) \<and> kt_keys t ! (es ! i) = key_of n (rows ! i))"
proof -
  obtain es t where r: "kt.number_rows rows (createKeyedHashTable n) = Some (es, t)"
    "length es = length rows" "kt_keys t = fold (\<lambda>row ks. add_key ks (key_of n row)) rows []"
    "\<forall>i<length rows. es ! i < length (kt_keys t) \<and> kt_keys t ! (es ! i) = key_of n (rows ! i)"
    using kt.number_rows_groups [OF create_inv(1), of rows n] by (auto simp: create_inv)
  have "\<forall>i<length rows. \<forall>j<length rows. es ! i = es ! j \<longleftrightarrow> key_of n (rows ! i) = key_of n (rows ! j)"
    using kt.same_number [OF create_inv(1) r(1)] by (simp add: create_inv)
  then show ?thesis using r by blast
qed

lemma hash_table_numbers_keys_witness:
  "\<exists>es t. kt.number_rows [[Val (VBool True)], [Val VNull], [Val (VBool True)]] (createKeyedHashTable 1)
       = Some (es, t) \<and> es ! 0 = es ! 2 \<and> es ! 0 \<noteq> es ! 1"
proof -
  let ?rows = "[[Val (VBool True)], [Val VNull], [Val (VBool True)]]"
  obtain es t where r: "kt.number_rows ?rows (createKeyedHashTable 1) = Some (es, t)"
    "\<forall>i<length ?rows. \<forall>j<length ?rows. es ! i = es ! j \<longleftrightarrow> key_of 1 (?rows ! i) = key_of 1 (?rows ! j)"
    using hash_table_numbers_keys [of ?rows 1] by blast
  have "es ! 0 = es ! 2" using r(2) [rule_format, of 0 2] by simp
  moreover have "es ! 0 \<noteq> es ! 1" using r(2) [rule_format, of 0 1] by (simp add: value_at_def)
  ultimately show ?thesis using r(1) by blast
qed

section \<open>Bitmaps and strings\<close>

text \<open>
  C23: Counting nulls is exact. Filling a new bitmap of \<open>n\<close> rows with \<open>setBitRange\<close> makes exactly the
  rows of the range test true, and the popcount of any bitmap's complement is the number of rows
  whose bit is clear: the tail bits past \<open>n\<close> are not counted.
\<close>

theorem null_bitmap_counts:
  assumes "n \<le> 2 ^ 32 - 32"
  shows "countSetBits (notBitmap bm n) n = card {i. i < n \<and> \<not> testBit bm i}
    \<and> (\<forall>j<n. e \<le> n \<longrightarrow> testBit (setBitRange (createBitmap n) s e) j = (s \<le> j \<and> j < e))"
proof -
  have "n \<le> 4294967264" using assms by simp
  moreover have "32 * bitmapWordCount n + (n + 31) mod 32 = n + 31"
    unfolding bitmapWordCount_def by (rule mult_div_mod_eq)
  moreover have "(n + 31) mod 32 < 32" by simp
  ultimately have "32 * bitmapWordCount n \<le> 4294967296" "n \<le> 32 * bitmapWordCount n" by linarith+
  then have w: "32 * bitmapWordCount n \<le> 2 ^ 32" "n \<le> 32 * bitmapWordCount n" by simp_all
  have "{i. i < 32 * bitmapWordCount n \<and> testBit (notBitmap bm n) i} = {i. i < n \<and> \<not> testBit bm i}"
    using w by (auto simp: testBit_notBitmap)
  then have "countSetBits (notBitmap bm n) n = card {i. i < n \<and> \<not> testBit bm i}"
    using popcount_card [OF w(1)] by (simp add: countSetBits_def)
  moreover have "testBit (setBitRange (createBitmap n) s e) j = (s \<le> j \<and> j < e)" if "j < n" "e \<le> n" for j
    using testBit_setBitRange [of e "createBitmap n" j s] testBit_createBitmap [of j n] that assms w
    by (simp add: createBitmap_def)
  ultimately show ?thesis by blast
qed

lemma null_bitmap_counts_witness:
  "countSetBits (notBitmap [1, 0] 40) 40 = card {i. i < 40 \<and> \<not> testBit [1, 0] i}"
  using null_bitmap_counts [of 40 "[1, 0]"] by simp

text \<open>
  C24: Strings survive the page format. A well-formed UTF-16 string that does not start with a byte
  order mark is read back as it was written, and the writer reserves exactly the bytes it uses.
\<close>

theorem utf8_page_roundtrip:
  assumes "well_formed s" "s = [] \<or> hd s \<noteq> 0xfeff" "utf8ByteLength s < 2 ^ 32"
    and "length buf = utf8RecordBytes s"
  shows "\<exists>page. w_utf8 s \<lparr>w_buf = buf, w_off = 0\<rparr> = Inr \<lparr>w_buf = page, w_off = utf8RecordBytes s\<rparr>
    \<and> r_utf8 \<lparr>r_buf = page, r_off = 0\<rparr> = Inr (s, \<lparr>r_buf = page, r_off = utf8RecordBytes s\<rparr>)"
proof -
  have len: "length (utf8_record s) = utf8RecordBytes s" by (rule length_utf8_record)
  have "w_utf8 s \<lparr>w_buf = buf, w_off = 0\<rparr> = Inr \<lparr>w_buf = utf8_record s, w_off = utf8RecordBytes s\<rparr>"
    using emits_exact [OF emits_w_utf8, of buf s] assms(4) len by simp
  moreover have "r_utf8 \<lparr>r_buf = utf8_record s, r_off = 0\<rparr>
      = Inr (s, \<lparr>r_buf = utf8_record s, r_off = utf8RecordBytes s\<rparr>)"
    using parses_utf8 [OF assms(1-3), unfolded parses_def, rule_format, of "[]" "[]"] len by simp
  ultimately show ?thesis by blast
qed

lemma utf8_page_roundtrip_witness:
  "\<exists>page. w_utf8 [0x41, 0xd83d, 0xde00] \<lparr>w_buf = replicate 9 0, w_off = 0\<rparr>
       = Inr \<lparr>w_buf = page, w_off = 9\<rparr>
    \<and> r_utf8 \<lparr>r_buf = page, r_off = 0\<rparr>
       = Inr ([0x41, 0xd83d, 0xde00], \<lparr>r_buf = page, r_off = 9\<rparr>)"
proof -
  have len: "utf8RecordBytes [0x41, 0xd83d, 0xde00] = 9" by code_simp
  have "well_formed [0x41, 0xd83d, 0xde00]" by code_simp
  then show ?thesis
    using utf8_page_roundtrip [of "[0x41, 0xd83d, 0xde00]" "replicate 9 0"] len
    by (simp add: utf8RecordBytes_def)
qed

text \<open>
  A string that starts with a byte order mark does not survive: \<open>TextDecoder\<close> drops it, so the
  string U+FEFF is read back as the empty string.
\<close>

lemma utf8_bom_lost:
  "utf8_decode (utf8_encode [0xfeff]) = [] \<and> well_formed [0xfeff]"
  using utf8_decode_bom by (simp add: is_high_unat is_low_unat)

end
